(* ===== verification/Prelude.thy ===== *)
theory Prelude
  imports Main "HOL-Library.Word"
begin

text \<open>
  Shared vocabulary of the development: the machine integer widths of the C++ source with
  their wrap-around written out, the result type that models exceptions, and the lemmas on
  lists, little-endian digit strings and results that several components use.
\<close>

section \<open>Machine integers\<close>

text \<open>
  A conversion to an unsigned type of the source keeps the value modulo its width. The
  components state their arithmetic on \<open>nat\<close> and \<open>int\<close> and apply these conversions where
  the source has a \<open>static_cast\<close> or where an unsigned operation could wrap around.
\<close>

text \<open>Bytes that are masked and shifted are 8-bit words.\<close>

type_synonym byte8 = "8 word"

abbreviation u8_max :: nat where "u8_max \<equiv> 255"
abbreviation u16_max :: nat where "u16_max \<equiv> 65535"
abbreviation u32_max :: nat where "u32_max \<equiv> 4294967295"
abbreviation u64_max :: nat where "u64_max \<equiv> 18446744073709551615"

definition u8 :: "nat \<Rightarrow> nat" where "u8 x = x mod 256"
definition u32 :: "nat \<Rightarrow> nat" where "u32 x = x mod 4294967296"
definition u64 :: "nat \<Rightarrow> nat" where "u64 x = x mod 18446744073709551616"

definition u32i :: "int \<Rightarrow> nat" where "u32i x = nat (x mod 4294967296)"
definition s64 :: "int \<Rightarrow> int" where
  "s64 x = (x + 9223372036854775808) mod 18446744073709551616 - 9223372036854775808"

lemma u32i_id [simp]: "0 \<le> x \<Longrightarrow> x < 4294967296 \<Longrightarrow> u32i x = nat x"
  by (simp add: u32i_def)

lemma s64_id [simp]:
  "- 9223372036854775808 \<le> x \<Longrightarrow> x < 9223372036854775808 \<Longrightarrow> s64 x = x"
  by (simp add: s64_def)

lemma u8_id [simp]: "x < 256 \<Longrightarrow> u8 x = x"
  by (simp add: u8_def)

lemma u32_id [simp]: "x < 4294967296 \<Longrightarrow> u32 x = x"
  by (simp add: u32_def)

lemma u64_id [simp]: "x < 18446744073709551616 \<Longrightarrow> u64 x = x"
  by (simp add: u64_def)

lemma u8_less [simp]: "u8 x < 256"
  by (simp add: u8_def)

lemma u32_less [simp]: "u32 x < 4294967296"
  by (simp add: u32_def)

lemma u64_less [simp]: "u64 x < 18446744073709551616"
  by (simp add: u64_def)

text \<open>
  Saturating integers keep a value inside their bounds by clamping it; \<open>sat64\<close> is the clamping
  of the 64-bit saturating type.
\<close>

definition clamp :: "int \<Rightarrow> int \<Rightarrow> int \<Rightarrow> int" where
  "clamp mn mx x = max mn (min mx x)"

definition sat64 :: "int \<Rightarrow> int" where
  "sat64 x = clamp (- 9223372036854775808) 9223372036854775807 x"

lemma clamp_id [simp]: "mn \<le> x \<Longrightarrow> x \<le> mx \<Longrightarrow> clamp mn mx x = x"
  by (simp add: clamp_def)

lemma clamp_range: "mn \<le> mx \<Longrightarrow> mn \<le> clamp mn mx x \<and> clamp mn mx x \<le> mx"
  by (auto simp: clamp_def)

lemma sat64_id [simp]:
  "- 9223372036854775808 \<le> x \<Longrightarrow> x \<le> 9223372036854775807 \<Longrightarrow> sat64 x = x"
  by (simp add: sat64_def)

section \<open>Results: a value or the error that was thrown\<close>

text \<open>
  A C++ function that may throw returns \<open>'e + 'a\<close>: \<open>Inl e\<close> is the exception, \<open>Inr a\<close> the
  value. \<open>sbind\<close> runs the rest of the function when no exception was thrown.
\<close>

definition sbind :: "'e + 'a \<Rightarrow> ('a \<Rightarrow> 'e + 'b) \<Rightarrow> 'e + 'b" where
  "sbind m f = (case m of Inl e \<Rightarrow> Inl e | Inr a \<Rightarrow> f a)"

lemma sbind_simps [simp]:
  "sbind (Inl e) f = Inl e"
  "sbind (Inr a) f = f a"
  by (simp_all add: sbind_def)

lemma sbind_Inr_iff: "sbind m f = Inr b \<longleftrightarrow> (\<exists>a. m = Inr a \<and> f a = Inr b)"
  by (cases m) auto

lemma sbind_cong [fundef_cong]:
  "m = m' \<Longrightarrow> (\<And>a. m' = Inr a \<Longrightarrow> f a = f' a) \<Longrightarrow> sbind m f = sbind m' f'"
  by (cases m') auto

section \<open>Three-way comparison\<close>

text \<open>\<open>std::strong_ordering\<close>, ordered as its values are, and the ordering of two numbers.\<close>

datatype ordering = OrdLess | OrdEqual | OrdGreater

fun ordering_rank :: "ordering \<Rightarrow> int" where
  "ordering_rank OrdLess = - 1"
| "ordering_rank OrdEqual = 0"
| "ordering_rank OrdGreater = 1"

instantiation ordering :: linorder
begin

definition less_eq_ordering :: "ordering \<Rightarrow> ordering \<Rightarrow> bool" where
  "less_eq_ordering a b \<longleftrightarrow> ordering_rank a \<le> ordering_rank b"

definition less_ordering :: "ordering \<Rightarrow> ordering \<Rightarrow> bool" where
  "less_ordering a b \<longleftrightarrow> ordering_rank a < ordering_rank b"

instance
proof
  fix a b c :: ordering
  show "a < b \<longleftrightarrow> a \<le> b \<and> \<not> b \<le> a" by (auto simp: less_eq_ordering_def less_ordering_def)
  show "a \<le> a" by (simp add: less_eq_ordering_def)
  show "a \<le> b \<Longrightarrow> b \<le> c \<Longrightarrow> a \<le> c" by (simp add: less_eq_ordering_def)
  show "a \<le> b \<Longrightarrow> b \<le> a \<Longrightarrow> a = b" by (cases a; cases b; simp add: less_eq_ordering_def)
  show "a \<le> b \<or> b \<le> a" by (auto simp: less_eq_ordering_def)
qed

end

definition order_of :: "'a::linorder \<Rightarrow> 'a \<Rightarrow> ordering" where
  "order_of a b = (if a < b then OrdLess else if a = b then OrdEqual else OrdGreater)"

lemma order_of_iff [simp]:
  "order_of a b = OrdLess \<longleftrightarrow> a < b"
  "order_of a b = OrdEqual \<longleftrightarrow> a = b"
  "order_of a b = OrdGreater \<longleftrightarrow> b < a"
  by (auto simp: order_of_def)

end
