(* ===== verification/BigUnsigned.thy ===== *)
theory BigUnsigned
  imports Prelude
begin

text \<open>
  The unsigned big integer of \<open>src/src/erbsland/math/BigUnsignedInteger.cpp\<close>: a value is the
  vector \<open>_digits\<close> of little-endian groups in base 1,000,000,000. Every loop of the source is
  a recursion over the digit vector or over its loop index, with the \<open>uint32_t\<close>, \<open>uint64_t\<close>
  and \<open>int64_t\<close> conversions of the source applied where the source applies them. The lemmas
  read a vector as the number \<open>big_value\<close> and show that each operation is exact on
  well-formed vectors (digits below the base, no leading zero group).
\<close>

section \<open>Model\<close>

text \<open>The base \<open>cDigitBase\<close> and the errors: the three exceptions, the parse error of the
  throwing parser, \<open>std::terminate\<close>, and an index past the end of a vector (undefined
  behaviour in C++).\<close>

abbreviation cDigitBase :: nat where "cDigitBase \<equiv> 1000000000"

type_synonym digits = "nat list"

datatype big_error =
    NegativeValue | SubtractionUnderflow | CastOverflow | InvalidDecimal
  | Terminate | OutOfBounds

subsection \<open>Comparison\<close>

fun compare_down :: "nat \<Rightarrow> digits \<Rightarrow> digits \<Rightarrow> ordering" where
  "compare_down 0 a b = OrdEqual"
| "compare_down (Suc i) a b =
     (if a ! i \<noteq> b ! i then (if a ! i < b ! i then OrdLess else OrdGreater)
      else compare_down i a b)"

definition big_compare :: "digits \<Rightarrow> digits \<Rightarrow> ordering" where
  "big_compare a b =
     (if length a \<noteq> length b then (if length a < length b then OrdLess else OrdGreater)
      else compare_down (length a) a b)"

definition big_isZero :: "digits \<Rightarrow> bool" where
  "big_isZero a \<longleftrightarrow> a = []"

definition big_isOne :: "digits \<Rightarrow> bool" where
  "big_isOne a \<longleftrightarrow> length a = 1 \<and> hd a = 1"

subsection \<open>Addition, subtraction and multiplication\<close>

fun add_loop :: "digits \<Rightarrow> digits \<Rightarrow> nat \<Rightarrow> digits" where
  "add_loop [] os carry = (if carry \<noteq> 0 then [u32 carry] else [])"
| "add_loop (d # ds) os carry =
     (let otherDigit = (case os of [] \<Rightarrow> 0 | x # _ \<Rightarrow> x);
          sum = u64 (d + otherDigit + carry)
      in u32 (sum mod cDigitBase) # add_loop ds (tl os) (sum div cDigitBase))"

definition big_add :: "digits \<Rightarrow> digits \<Rightarrow> digits" where
  "big_add a b =
     (let digitCount = max (length a) (length b)
      in add_loop (a @ replicate (digitCount - length a) 0) b 0)"

function big_trim :: "digits \<Rightarrow> digits" where
  "big_trim ds = (if ds \<noteq> [] \<and> last ds = 0 then big_trim (butlast ds) else ds)"
  by pat_completeness auto
termination
  by (relation "measure length") auto

declare big_trim.simps [simp del]

fun sub_loop :: "digits \<Rightarrow> digits \<Rightarrow> int \<Rightarrow> digits" where
  "sub_loop [] os borrow = []"
| "sub_loop (d # ds) os borrow =
     (let otherDigit = (case os of [] \<Rightarrow> 0 | x # _ \<Rightarrow> x);
          difference = int d - int otherDigit - borrow
      in if difference < 0
         then u32i (difference + int cDigitBase) # sub_loop ds (tl os) 1
         else u32i difference # sub_loop ds (tl os) 0)"

definition big_subtract :: "digits \<Rightarrow> digits \<Rightarrow> big_error + digits" where
  "big_subtract a b =
     (if big_compare a b = OrdLess then Inl SubtractionUnderflow
      else Inr (big_trim (sub_loop a b 0)))"

fun mul_inner :: "digits \<Rightarrow> nat \<Rightarrow> nat \<Rightarrow> digits \<Rightarrow> nat \<Rightarrow> digits \<times> nat" where
  "mul_inner [] leftDigit index result carry = (result, carry)"
| "mul_inner (r # rs) leftDigit index result carry =
     (let product = u64 (leftDigit * r + result ! index + carry)
      in mul_inner rs leftDigit (Suc index) (result[index := u32 (product mod cDigitBase)])
           (product div cDigitBase))"

function mul_carry :: "nat \<Rightarrow> digits \<Rightarrow> nat \<Rightarrow> big_error + digits" where
  "mul_carry index result carry =
     (if carry = 0 then Inr result
      else if index \<ge> length result then Inl OutOfBounds
      else let sum = u64 (result ! index + carry)
           in mul_carry (Suc index) (result[index := u32 (sum mod cDigitBase)])
                (sum div cDigitBase))"
  by pat_completeness auto
termination
  by (relation "measure (\<lambda>(index, result, carry). length result - index)") auto

declare mul_carry.simps [simp del]

fun mul_outer :: "digits \<Rightarrow> nat \<Rightarrow> digits \<Rightarrow> digits \<Rightarrow> big_error + digits" where
  "mul_outer [] left other result = Inr result"
| "mul_outer (d # ds) left other result =
     (case mul_inner other d left result 0 of
        (result', carry) \<Rightarrow>
          sbind (mul_carry (left + length other) result' carry)
            (\<lambda>result''. mul_outer ds (Suc left) other result''))"

definition big_multiply :: "digits \<Rightarrow> digits \<Rightarrow> big_error + digits" where
  "big_multiply a b =
     (if big_isZero a \<or> big_isZero b then Inr []
      else sbind (mul_outer a 0 b (replicate (length a + length b) 0))
             (\<lambda>result. Inr (big_trim result)))"

subsection \<open>Operations with one small value\<close>

function big_assign :: "nat \<Rightarrow> digits" where
  "big_assign remaining =
     (if remaining \<noteq> 0
      then u32 (remaining mod cDigitBase) # big_assign (remaining div cDigitBase) else [])"
  by pat_completeness auto
termination
  by (relation "measure id") auto

declare big_assign.simps [simp del]

definition big_fromInt :: "int \<Rightarrow> big_error + digits" where
  "big_fromInt v = (if v < 0 then Inl NegativeValue else Inr (big_assign (nat v)))"

fun big_addSmall :: "digits \<Rightarrow> nat \<Rightarrow> digits" where
  "big_addSmall [] carry = (if carry \<noteq> 0 then [u32 carry] else [])"
| "big_addSmall (d # ds) carry =
     (if carry \<noteq> 0
      then let sum = u64 (d + carry)
           in u32 (sum mod cDigitBase) # big_addSmall ds (sum div cDigitBase)
      else d # ds)"

fun mulSmall_loop :: "digits \<Rightarrow> nat \<Rightarrow> nat \<Rightarrow> digits" where
  "mulSmall_loop [] v carry = (if carry \<noteq> 0 then [u32 carry] else [])"
| "mulSmall_loop (d # ds) v carry =
     (let product = u64 (d * v + carry)
      in u32 (product mod cDigitBase) # mulSmall_loop ds v (product div cDigitBase))"

definition big_multiplySmall :: "digits \<Rightarrow> nat \<Rightarrow> digits" where
  "big_multiplySmall ds v = (if v = 0 \<or> big_isZero ds then [] else mulSmall_loop ds v 0)"

fun divSmall_loop :: "nat \<Rightarrow> digits \<Rightarrow> nat \<Rightarrow> nat \<Rightarrow> digits \<times> nat" where
  "divSmall_loop 0 ds divisor remainder = (ds, remainder)"
| "divSmall_loop (Suc i) ds divisor remainder =
     (let v = u64 (remainder * cDigitBase + ds ! i)
      in divSmall_loop i (ds[i := u32 (v div divisor)]) divisor (v mod divisor))"

definition big_divideSmall :: "digits \<Rightarrow> nat \<Rightarrow> digits \<times> nat" where
  "big_divideSmall ds divisor =
     (case divSmall_loop (length ds) ds divisor 0 of
        (ds', remainder) \<Rightarrow> (big_trim ds', u32 remainder))"

fun toUInt64_loop :: "nat \<Rightarrow> digits \<Rightarrow> nat \<Rightarrow> nat" where
  "toUInt64_loop 0 ds result = result"
| "toUInt64_loop (Suc i) ds result = toUInt64_loop i ds (u64 (result * cDigitBase + ds ! i))"

definition big_toUInt64Unchecked :: "digits \<Rightarrow> nat" where
  "big_toUInt64Unchecked ds = toUInt64_loop (length ds) ds 0"

text \<open>The casts to a native type \<open>T\<close> take the maximum of \<open>T\<close>, at most 64 bits wide.\<close>

definition big_cast :: "nat \<Rightarrow> digits \<Rightarrow> nat" where
  "big_cast maximum ds =
     (if big_compare ds (big_assign maximum) = OrdGreater then maximum
      else big_toUInt64Unchecked ds)"

definition big_castOrThrow :: "nat \<Rightarrow> digits \<Rightarrow> big_error + nat" where
  "big_castOrThrow maximum ds =
     (if big_compare ds (big_assign maximum) = OrdGreater then Inl CastOverflow
      else Inr (big_toUInt64Unchecked ds))"

section \<open>The value of a digit vector\<close>

fun big_value :: "digits \<Rightarrow> nat" where
  "big_value [] = 0"
| "big_value (d # ds) = d + cDigitBase * big_value ds"

definition big_digits :: "digits \<Rightarrow> bool" where
  "big_digits ds \<longleftrightarrow> (\<forall>d \<in> set ds. d < cDigitBase)"

definition big_wf :: "digits \<Rightarrow> bool" where
  "big_wf ds \<longleftrightarrow> big_digits ds \<and> (ds \<noteq> [] \<longrightarrow> last ds \<noteq> 0)"

named_theorems big_simps

lemma big_digits_simps [simp]:
  "big_digits []"
  "big_digits (d # ds) \<longleftrightarrow> d < cDigitBase \<and> big_digits ds"
  "big_digits (xs @ ys) \<longleftrightarrow> big_digits xs \<and> big_digits ys"
  "big_digits (replicate n 0)"
  by (auto simp: big_digits_def)

lemma big_digits_update [intro]: "big_digits ds \<Longrightarrow> v < cDigitBase \<Longrightarrow> big_digits (ds[i := v])"
  using set_update_subset_insert[of ds i v] by (auto simp: big_digits_def)

lemma big_digits_nth: "big_digits ds \<Longrightarrow> i < length ds \<Longrightarrow> ds ! i < cDigitBase"
  by (simp add: big_digits_def)

lemma big_digits_take [intro]: "big_digits ds \<Longrightarrow> big_digits (take n ds)"
  by (auto simp: big_digits_def dest: in_set_takeD)

lemma big_digits_drop [intro]: "big_digits ds \<Longrightarrow> big_digits (drop n ds)"
  by (auto simp: big_digits_def dest: in_set_dropD)

lemma big_value_append: "big_value (xs @ ys) = big_value xs + cDigitBase ^ length xs * big_value ys"
  by (induction xs) (simp_all add: algebra_simps)

lemma big_value_replicate [simp]: "big_value (replicate n 0) = 0"
  by (induction n) simp_all

lemma big_value_less: "big_digits ds \<Longrightarrow> big_value ds < cDigitBase ^ length ds"
proof (induction ds)
  case (Cons d ds)
  then have "big_value ds + 1 \<le> cDigitBase ^ length ds" by simp
  then have "cDigitBase * (big_value ds + 1) \<le> cDigitBase * cDigitBase ^ length ds"
    by (rule mult_le_mono2)
  with Cons.prems show ?case by simp
qed simp

lemma big_value_update:
  "i < length ds \<Longrightarrow>
   int (big_value (ds[i := v])) = int (big_value ds) + (int v - int (ds ! i)) * int cDigitBase ^ i"
proof (induction ds arbitrary: i)
  case (Cons d ds)
  show ?case
  proof (cases i)
    case (Suc j)
    with Cons.IH[of j] Cons.prems
    have "int (big_value (ds[j := v])) =
      int (big_value ds) + (int v - int (ds ! j)) * int cDigitBase ^ j" by simp
    with Suc show ?thesis by (simp add: distrib_left)
  qed simp
qed simp

lemma big_value_split: "big_value ds = big_value (take n ds) + cDigitBase ^ n * big_value (drop n ds)"
  if "n \<le> length ds"
  using big_value_append[of "take n ds" "drop n ds"] that by simp

lemma big_value_drop_nth:
  "i < length ds \<Longrightarrow> big_value (drop i ds) = ds ! i + cDigitBase * big_value (drop (Suc i) ds)"
  by (simp flip: Cons_nth_drop_Suc)

lemma big_value_take_Suc:
  "i < length ds \<Longrightarrow> big_value (take (Suc i) ds) = big_value (take i ds) + cDigitBase ^ i * ds ! i"
  by (simp add: take_Suc_conv_app_nth big_value_append)

lemma big_value_butlast:
  "ds \<noteq> [] \<Longrightarrow> big_value ds = big_value (butlast ds) + cDigitBase ^ (length ds - 1) * last ds"
  using big_value_append[of "butlast ds" "[last ds]"] by (simp del: last_ConsL)

lemma big_value_ge: "big_wf ds \<Longrightarrow> ds \<noteq> [] \<Longrightarrow> cDigitBase ^ (length ds - 1) \<le> big_value ds"
proof -
  assume wf: "big_wf ds" and ne: "ds \<noteq> []"
  from ne have "big_value ds = big_value (butlast ds) + cDigitBase ^ (length ds - 1) * last ds"
    by (rule big_value_butlast)
  moreover from wf ne have "last ds \<ge> 1" by (simp add: big_wf_def)
  ultimately show ?thesis by (simp add: trans_le_add2)
qed

lemma big_wf_Nil [simp]: "big_wf []"
  by (simp add: big_wf_def)

lemma big_value_0_iff: "big_wf ds \<Longrightarrow> big_value ds = 0 \<longleftrightarrow> ds = []"
proof -
  assume wf: "big_wf ds"
  have "0 < big_value ds" if "ds \<noteq> []"
  proof -
    have "0 < cDigitBase ^ (length ds - 1)" by simp
    also have "\<dots> \<le> big_value ds" using wf that by (rule big_value_ge)
    finally show ?thesis .
  qed
  then show ?thesis by (cases "ds = []") auto
qed

subsection \<open>Comparison\<close>

lemma compare_down_value:
  assumes "big_digits a" "big_digits b" "n \<le> length a" "n \<le> length b"
  shows "compare_down n a b =
    (if big_value (take n a) < big_value (take n b) then OrdLess
     else if big_value (take n a) = big_value (take n b) then OrdEqual else OrdGreater)"
  using assms
proof (induction n)
  case (Suc i)
  let ?x = "big_value (take i a)" and ?y = "big_value (take i b)" and ?P = "cDigitBase ^ i"
  from Suc.prems have lt: "?x < ?P" "?y < ?P"
    using big_value_less[of "take i a"] big_value_less[of "take i b"]
    by (auto simp: min_def big_digits_take split: if_splits)
  have step: "u + ?P * d < v + ?P * e" if "d < e" "u < ?P" for u v d e :: nat
  proof -
    from that(1) have "?P * (d + 1) \<le> ?P * e" by (intro mult_le_mono2) simp
    with that(2) show ?thesis by simp
  qed
  from Suc show ?case
    using step[of "a ! i" "b ! i" ?x ?y] step[of "b ! i" "a ! i" ?y ?x] lt
    by (auto simp: big_value_take_Suc)
qed simp

lemma big_value_mono_length:
  assumes "big_wf a" "big_wf b" "length a < length b"
  shows "big_value a < big_value b"
proof -
  have "big_value a < cDigitBase ^ length a" using assms(1) by (simp add: big_wf_def big_value_less)
  also have "\<dots> \<le> cDigitBase ^ (length b - 1)" using assms(3) by (intro power_increasing) auto
  also have "\<dots> \<le> big_value b" using assms by (intro big_value_ge) auto
  finally show ?thesis .
qed

lemma big_compare_value:
  assumes "big_wf a" "big_wf b"
  shows "big_compare a b =
    (if big_value a < big_value b then OrdLess
     else if big_value a = big_value b then OrdEqual else OrdGreater)"
proof (cases "length a = length b")
  case True
  with assms compare_down_value[of a b "length a"] show ?thesis
    by (simp add: big_compare_def big_wf_def)
next
  case False
  with assms big_value_mono_length[of a b] big_value_mono_length[of b a] show ?thesis
    by (auto simp: big_compare_def)
qed

lemma big_compare_iff:
  assumes "big_wf a" "big_wf b"
  shows "big_compare a b = OrdLess \<longleftrightarrow> big_value a < big_value b"
    and "big_compare a b = OrdEqual \<longleftrightarrow> big_value a = big_value b"
    and "big_compare a b = OrdGreater \<longleftrightarrow> big_value a > big_value b"
  using big_compare_value[OF assms] by auto

lemma big_value_inject:
  assumes "big_wf a" "big_wf b" "big_value a = big_value b"
  shows "a = b"
proof -
  have "length a = length b"
    using assms big_value_mono_length[of a b] big_value_mono_length[of b a]
    by (metis less_irrefl linorder_neqE_nat)
  moreover have "big_digits a" "big_digits b" using assms by (simp_all add: big_wf_def)
  ultimately show ?thesis using assms(3)
  proof (induction a b rule: list_induct2)
    case (Cons x xs y ys)
    then have "x = (x + cDigitBase * big_value xs) mod cDigitBase"
      "big_value xs = (x + cDigitBase * big_value xs) div cDigitBase"
      "y = (y + cDigitBase * big_value ys) mod cDigitBase"
      "big_value ys = (y + cDigitBase * big_value ys) div cDigitBase"
      by simp_all
    with Cons show ?case by (metis big_digits_simps(2) big_value.simps(2))
  qed simp
qed

subsection \<open>Addition and subtraction\<close>

lemma big_wfI:
  assumes "big_digits ds" "ds \<noteq> [] \<Longrightarrow> cDigitBase ^ (length ds - 1) \<le> big_value ds"
  shows "big_wf ds"
proof -
  have "last ds \<noteq> 0" if ne: "ds \<noteq> []"
  proof
    assume l0: "last ds = 0"
    have "big_value ds = big_value (butlast ds)"
      using big_value_butlast[OF ne] l0 by simp
    moreover have "big_digits (butlast ds)"
      using assms(1) by (auto simp: big_digits_def dest: in_set_butlastD)
    ultimately show False using big_value_less[of "butlast ds"] assms(2) ne by simp
  qed
  with assms(1) show ?thesis by (auto simp: big_wf_def)
qed

lemma big_value_cases_os:
  "big_digits os \<Longrightarrow> (case os of [] \<Rightarrow> 0 | x # _ \<Rightarrow> x) < cDigitBase \<and> big_digits (tl os)"
  "big_value os = (case os of [] \<Rightarrow> 0 | x # _ \<Rightarrow> x) + cDigitBase * big_value (tl os)"
  by (cases os; simp)+

lemma add_loop_value:
  assumes "big_digits ds" "big_digits os" "length os \<le> length ds" "c \<le> 1"
  shows "big_value (add_loop ds os c) = big_value ds + big_value os + c
    \<and> big_digits (add_loop ds os c)
    \<and> (length (add_loop ds os c) = length ds
       \<or> length (add_loop ds os c) = Suc (length ds) \<and> last (add_loop ds os c) \<noteq> 0)"
  using assms
proof (induction ds os c rule: add_loop.induct)
  case (2 d ds os carry)
  define x where "x = (case os of [] \<Rightarrow> 0 | x # _ \<Rightarrow> x)"
  have x: "x < cDigitBase" "big_digits (tl os)" "big_value os = x + cDigitBase * big_value (tl os)"
    using big_value_cases_os[of os] "2.prems"(2) by (auto simp: x_def)
  define sum where "sum = d + x + carry"
  have lt: "sum < 2 * cDigitBase" using "2.prems" x(1) by (simp add: sum_def)
  then have "sum div cDigitBase < 2" by (simp add: div_less_iff_less_mult)
  with lt have s: "u64 (d + x + carry) = sum" "sum div cDigitBase \<le> 1"
    "sum mod cDigitBase < 4294967296"
    using mod_less_divisor[of cDigitBase sum] by (simp_all flip: sum_def)
  have eq: "add_loop (d # ds) os carry = sum mod cDigitBase # add_loop ds (tl os) (sum div cDigitBase)"
    using s by (simp add: x_def[symmetric] Let_def)
  have IH: "big_value (add_loop ds (tl os) (sum div cDigitBase)) = big_value ds + big_value (tl os) + sum div cDigitBase
      \<and> big_digits (add_loop ds (tl os) (sum div cDigitBase))
      \<and> (length (add_loop ds (tl os) (sum div cDigitBase)) = length ds
         \<or> length (add_loop ds (tl os) (sum div cDigitBase)) = Suc (length ds)
           \<and> last (add_loop ds (tl os) (sum div cDigitBase)) \<noteq> 0)"
    using "2.IH"[OF x_def refl] "2.prems" x(2) s by simp
  have "sum mod cDigitBase + cDigitBase * (big_value ds + big_value (tl os) + sum div cDigitBase)
      = d + cDigitBase * big_value ds + big_value os + carry"
    using x(3) by (simp add: sum_def distrib_left)
  with IH show ?case unfolding eq by auto
qed (simp split: if_splits)

lemma big_add_correct:
  assumes "big_wf a" "big_wf b"
  shows "big_value (big_add a b) = big_value a + big_value b" and "big_wf (big_add a b)"
proof -
  define n where "n = max (length a) (length b)"
  define p where "p = a @ replicate (n - length a) 0"
  have p: "big_digits p" "length p = n" "big_value p = big_value a" "length b \<le> length p"
    using assms(1) by (auto simp: p_def n_def big_wf_def big_value_append)
  have eq: "big_add a b = add_loop p b 0"
    by (simp add: big_add_def n_def p_def Let_def)
  have r: "big_value (add_loop p b 0) = big_value a + big_value b" "big_digits (add_loop p b 0)"
    "length (add_loop p b 0) = n \<or> length (add_loop p b 0) = Suc n \<and> last (add_loop p b 0) \<noteq> 0"
    using add_loop_value[of p b 0] p assms(2) by (auto simp: big_wf_def)
  show "big_value (big_add a b) = big_value a + big_value b" using r eq by simp
  show "big_wf (big_add a b)"
  proof (cases "length (add_loop p b 0) = n")
    case True
    show ?thesis unfolding eq
    proof (rule big_wfI)
      assume ne: "add_loop p b 0 \<noteq> []"
      then have "0 < n" using True by auto
      then consider "a \<noteq> []" "length a = n" | "b \<noteq> []" "length b = n"
        by (cases "length a \<le> length b") (auto simp: n_def max_def)
      then show "cDigitBase ^ (length (add_loop p b 0) - 1) \<le> big_value (add_loop p b 0)"
        using True r(1) big_value_ge[OF assms(1)] big_value_ge[OF assms(2)]
        by cases (simp_all add: trans_le_add1 trans_le_add2)
    qed (rule r)
  next
    case False
    with r show ?thesis by (simp add: eq big_wf_def)
  qed
qed

lemma big_trim_correct:
  "big_digits ds \<Longrightarrow> big_wf (big_trim ds) \<and> big_value (big_trim ds) = big_value ds"
proof (induction ds rule: big_trim.induct)
  case (1 ds)
  show ?case
  proof (cases "ds \<noteq> [] \<and> last ds = 0")
    case True
    then have "big_value (butlast ds) = big_value ds"
      using big_value_butlast[of ds] by simp
    moreover have "big_digits (butlast ds)"
      using "1.prems" by (auto simp: big_digits_def dest: in_set_butlastD)
    ultimately show ?thesis using True "1.IH" by (simp add: big_trim.simps[of ds])
  next
    case False
    with "1.prems" show ?thesis by (auto simp: big_trim.simps[of ds] big_wf_def)
  qed
qed

lemma sub_loop_value:
  assumes "big_digits ds" "big_digits os" "length os \<le> length ds" "0 \<le> br" "br \<le> 1"
    "int (big_value os) + br \<le> int (big_value ds)"
  shows "int (big_value (sub_loop ds os br)) = int (big_value ds) - int (big_value os) - br
    \<and> big_digits (sub_loop ds os br)"
  using assms
proof (induction ds os br rule: sub_loop.induct)
  case (2 d ds os borrow)
  define x where "x = (case os of [] \<Rightarrow> 0 | x # _ \<Rightarrow> x)"
  have x: "x < cDigitBase" "big_digits (tl os)" "big_value os = x + cDigitBase * big_value (tl os)"
    using big_value_cases_os[of os] "2.prems"(2) by (auto simp: x_def)
  define diff where "diff = int d - int x - borrow"
  have len: "length (tl os) \<le> length ds" using "2.prems"(3) by (cases os) auto
  have d: "int d < int cDigitBase" "big_digits ds" using "2.prems"(1) by auto
  show ?case
  proof (cases "diff < 0")
    case True
    then have "int (big_value (tl os)) + 1 \<le> int (big_value ds)"
      using "2.prems"(6) x(3) by (simp add: diff_def)
    with True "2.IH"(1)[OF x_def diff_def True] len x(2) d(2)
    have "int (big_value (sub_loop ds (tl os) 1)) = int (big_value ds) - int (big_value (tl os)) - 1"
      "big_digits (sub_loop ds (tl os) 1)" by auto
    moreover have "u32i (diff + int cDigitBase) = nat (diff + int cDigitBase)"
      "0 \<le> diff + int cDigitBase"
      using True d x(1) "2.prems"(5) by (auto simp: diff_def)
    ultimately show ?thesis using True x(3)
      by (simp add: x_def[symmetric] diff_def[symmetric] Let_def) (simp add: diff_def)
  next
    case False
    then have "int (big_value (tl os)) + 0 \<le> int (big_value ds)"
      using "2.prems"(6) x(3) d(1) "2.prems"(4) by (simp add: diff_def)
    with False "2.IH"(2)[OF x_def diff_def False] len x(2) d(2)
    have "int (big_value (sub_loop ds (tl os) 0)) = int (big_value ds) - int (big_value (tl os)) - 0"
      "big_digits (sub_loop ds (tl os) 0)" by auto
    moreover have "u32i diff = nat diff" "nat diff < cDigitBase"
      using False d "2.prems"(4) by (auto simp: diff_def)
    ultimately show ?thesis using False x(3)
      by (simp add: x_def[symmetric] diff_def[symmetric] Let_def) (simp add: diff_def)
  qed
qed simp

lemma big_subtract_correct:
  assumes "big_wf a" "big_wf b"
  shows "big_value b \<le> big_value a \<Longrightarrow>
      \<exists>c. big_subtract a b = Inr c \<and> big_wf c \<and> big_value c = big_value a - big_value b"
    and "big_value a < big_value b \<Longrightarrow> big_subtract a b = Inl SubtractionUnderflow"
proof -
  show "\<exists>c. big_subtract a b = Inr c \<and> big_wf c \<and> big_value c = big_value a - big_value b"
    if le: "big_value b \<le> big_value a"
  proof -
    have "length b \<le> length a"
      using le big_value_mono_length[OF assms] by (meson leD leI)
    then have "int (big_value (sub_loop a b 0)) = int (big_value a) - int (big_value b)"
      "big_digits (sub_loop a b 0)"
      using sub_loop_value[of a b 0] assms le by (auto simp: big_wf_def)
    moreover have "big_compare a b \<noteq> OrdLess"
      using le big_compare_iff(1)[OF assms] by simp
    ultimately show ?thesis
      using big_trim_correct[of "sub_loop a b 0"] le by (simp add: big_subtract_def)
  qed
  show "big_value a < big_value b \<Longrightarrow> big_subtract a b = Inl SubtractionUnderflow"
    using big_compare_iff(1)[OF assms] by (simp add: big_subtract_def)
qed

subsection \<open>Multiplication\<close>

lemma big_value_update_nat:
  assumes "i < length ds"
  shows "big_value (ds[i := v]) + ds ! i * cDigitBase ^ i = big_value ds + v * cDigitBase ^ i"
proof -
  have "int (big_value (ds[i := v]) + ds ! i * cDigitBase ^ i) = int (big_value ds + v * cDigitBase ^ i)"
    using big_value_update[OF assms, of v] by (simp add: left_diff_distrib)
  then show ?thesis by (simp only: of_nat_eq_iff)
qed

text \<open>Storing the low group of a sum and carrying its high part keeps the value.\<close>

lemma big_value_carry:
  assumes "i < length ds" and "s = ds ! i + x"
  shows "big_value (ds[i := s mod cDigitBase]) + s div cDigitBase * cDigitBase ^ Suc i
    = big_value ds + x * cDigitBase ^ i"
proof -
  have "s mod cDigitBase * cDigitBase ^ i + s div cDigitBase * cDigitBase ^ Suc i = s * cDigitBase ^ i"
  proof -
    have "s * cDigitBase ^ i = (s mod cDigitBase + cDigitBase * (s div cDigitBase)) * cDigitBase ^ i"
      by (simp only: mod_mult_div_eq)
    then show ?thesis by (simp only: distrib_right distrib_left ac_simps power_Suc)
  qed
  with big_value_update_nat[OF assms(1), of "s mod cDigitBase"] assms(2)
  show ?thesis by (simp only: distrib_right)
qed

lemma small_product:
  fixes a b c d :: nat
  assumes "a < cDigitBase" "b < cDigitBase" "c < cDigitBase" "d < cDigitBase"
  shows "a * b + c + d < 1000000000000000000"
proof -
  have "a * b \<le> 999999999 * 999999999"
    using assms by (intro mult_le_mono) auto
  with assms show ?thesis by simp
qed

lemma div_base_less: "x < 1000000000000000000 \<Longrightarrow> x div cDigitBase < cDigitBase" for x :: nat
  by (simp add: div_less_iff_less_mult)

lemma mod_base_less: "x mod cDigitBase < 4294967296" "x mod cDigitBase < cDigitBase" for x :: nat
  using mod_less_divisor[of cDigitBase x] by linarith+

lemma mul_row_arith:
  fixes base :: nat
  assumes "x + c' * base ^ (Suc i + n) = y + (dl * v + p) * base ^ Suc i"
    "y + p * base ^ Suc i = z + (dl * r + c) * base ^ i"
  shows "x + c' * base ^ (i + Suc n) = z + (dl * (r + base * v) + c) * base ^ i"
proof -
  have "x + c' * base ^ (i + Suc n) = dl * v * base ^ Suc i + (y + p * base ^ Suc i)"
    using assms(1) by (simp add: distrib_right del: power_Suc)
  also have "\<dots> = z + (dl * (r + base * v) + c) * base ^ i"
    unfolding assms(2) by (simp add: algebra_simps)
  finally show ?thesis .
qed

lemma mul_inner_value:
  assumes "big_digits rs" "dl < cDigitBase" "big_digits res" "c < cDigitBase"
    "i + length rs \<le> length res" "mul_inner rs dl i res c = (res', c')"
  shows "big_value res' + c' * cDigitBase ^ (i + length rs)
      = big_value res + (dl * big_value rs + c) * cDigitBase ^ i
    \<and> big_digits res' \<and> length res' = length res \<and> c' < cDigitBase"
  using assms
proof (induction rs dl i res c rule: mul_inner.induct)
  case (2 r rs dl i res c)
  define p where "p = dl * r + res ! i + c"
  have i: "i < length res" using "2.prems"(5) by simp
  have p: "p < 1000000000000000000"
    unfolding p_def using "2.prems" i by (intro small_product big_digits_nth) auto
  have u: "u64 (dl * r + res ! i + c) = p" using p by (simp add: p_def)
  have eq: "mul_inner rs dl (Suc i) (res[i := p mod cDigitBase]) (p div cDigitBase) = (res', c')"
    using "2.prems"(6) by (simp add: u Let_def mod_base_less)
  have IH: "big_value res' + c' * cDigitBase ^ (Suc i + length rs)
      = big_value (res[i := p mod cDigitBase]) + (dl * big_value rs + p div cDigitBase) * cDigitBase ^ Suc i
    \<and> big_digits res' \<and> length res' = length (res[i := p mod cDigitBase]) \<and> c' < cDigitBase"
    using "2.IH"[of p] "2.prems"(1-5) p eq u
    by (simp add: div_base_less mod_base_less big_digits_update del: power_Suc)
  have "big_value (res[i := p mod cDigitBase]) + p div cDigitBase * cDigitBase ^ Suc i
      = big_value res + (dl * r + c) * cDigitBase ^ i"
    using i by (intro big_value_carry) (simp_all add: p_def)
  with IH show ?case using mul_row_arith[where x = "big_value res'"] by auto
qed simp

lemma mul_carry_value:
  assumes "big_digits res" "c < cDigitBase" "i \<le> length res"
    "big_value res + c * cDigitBase ^ i < cDigitBase ^ length res"
  shows "\<exists>res'. mul_carry i res c = Inr res' \<and> big_digits res' \<and> length res' = length res
    \<and> big_value res' = big_value res + c * cDigitBase ^ i"
  using assms
proof (induction i res c rule: mul_carry.induct)
  case (1 i res c)
  show ?case
  proof (cases "c = 0")
    case True
    with "1.prems"(1) show ?thesis by (subst mul_carry.simps) simp
  next
    case c: False
    have "i \<noteq> length res"
    proof
      assume "i = length res"
      with c have "cDigitBase ^ length res \<le> c * cDigitBase ^ i" by simp
      with "1.prems"(4) show False by simp
    qed
    with "1.prems"(3) have i: "i < length res" by simp
    define s where "s = res ! i + c"
    have s: "s < 2 * cDigitBase"
      using "1.prems"(1,2) i by (auto simp: s_def dest: big_digits_nth[of res i])
    then have sdiv: "s div cDigitBase < cDigitBase" "u64 (res ! i + c) = s"
      by (auto simp: div_less_iff_less_mult s_def)
    have v: "big_value (res[i := s mod cDigitBase]) + s div cDigitBase * cDigitBase ^ Suc i
        = big_value res + c * cDigitBase ^ i"
      using i s_def by (rule big_value_carry)
    have ni: "\<not> length res \<le> i" using i by simp
    note IH = "1.IH"[OF c ni refl, unfolded sdiv(2)]
    have "\<exists>res'. mul_carry (Suc i) (res[i := s mod cDigitBase]) (s div cDigitBase) = Inr res'
        \<and> big_digits res' \<and> length res' = length (res[i := s mod cDigitBase])
        \<and> big_value res' = big_value (res[i := s mod cDigitBase]) + s div cDigitBase * cDigitBase ^ Suc i"
      using IH "1.prems"(1,4) i sdiv(1) v
      by (simp add: mod_base_less big_digits_update del: power_Suc)
    with v show ?thesis
      using c i by (simp add: mul_carry.simps[of i res c] sdiv(2) Let_def mod_base_less del: power_Suc)
  qed
qed

lemma mul_outer_value:
  assumes "big_digits ds" "big_digits other" "big_digits res"
    "length res = left + length ds + length other"
    "big_value res + big_value ds * big_value other * cDigitBase ^ left < cDigitBase ^ length res"
  shows "\<exists>r. mul_outer ds left other res = Inr r \<and> big_digits r \<and> length r = length res
    \<and> big_value r = big_value res + big_value ds * big_value other * cDigitBase ^ left"
  using assms
proof (induction ds arbitrary: left res)
  case (Cons d ds)
  obtain res1 c where in1: "mul_inner other d left res 0 = (res1, c)" by fastforce
  have r1: "big_value res1 + c * cDigitBase ^ (left + length other)
      = big_value res + (d * big_value other + 0) * cDigitBase ^ left
    \<and> big_digits res1 \<and> length res1 = length res \<and> c < cDigitBase"
    using Cons.prems in1 by (intro mul_inner_value) auto
  have tot: "big_value res + big_value (d # ds) * big_value other * cDigitBase ^ left
      = big_value res + d * big_value other * cDigitBase ^ left
        + big_value ds * big_value other * cDigitBase ^ Suc left"
    by (simp add: algebra_simps)
  have "big_value res1 + c * cDigitBase ^ (left + length other) < cDigitBase ^ length res1"
    unfolding conjunct1[OF r1] using r1 tot Cons.prems(5) by simp
  with r1 Cons.prems(4) obtain res2 where
    in2: "mul_carry (left + length other) res1 c = Inr res2" "big_digits res2"
      "length res2 = length res"
      "big_value res2 = big_value res + d * big_value other * cDigitBase ^ left"
    using mul_carry_value[of res1 c "left + length other"] by auto
  have "\<exists>r. mul_outer ds (Suc left) other res2 = Inr r \<and> big_digits r \<and> length r = length res2
    \<and> big_value r = big_value res2 + big_value ds * big_value other * cDigitBase ^ Suc left"
    using Cons.prems in2 tot by (intro Cons.IH) (auto simp: algebra_simps)
  with in1 in2 tot show ?case by auto
qed simp

lemma big_multiply_correct:
  assumes "big_wf a" "big_wf b"
  shows "\<exists>c. big_multiply a b = Inr c \<and> big_wf c \<and> big_value c = big_value a * big_value b"
proof (cases "a = [] \<or> b = []")
  case True
  then show ?thesis by (auto simp: big_multiply_def big_isZero_def)
next
  case False
  let ?z = "replicate (length a + length b) 0"
  have "big_value a * big_value b < cDigitBase ^ length a * cDigitBase ^ length b"
    using assms by (intro mult_strict_mono) (auto simp: big_wf_def big_value_less)
  then have "\<exists>r. mul_outer a 0 b ?z = Inr r \<and> big_digits r \<and> length r = length ?z
    \<and> big_value r = big_value ?z + big_value a * big_value b * cDigitBase ^ 0"
    using mul_outer_value[of a b ?z 0] assms by (simp add: big_wf_def power_add)
  with False show ?thesis
    using big_trim_correct by (fastforce simp: big_multiply_def big_isZero_def)
qed

subsection \<open>Operations with one small value\<close>

lemma big_assign_correct: "big_wf (big_assign v) \<and> big_value (big_assign v) = v"
proof (induction v rule: big_assign.induct)
  case (1 v)
  show ?case
  proof (cases "v = 0")
    case False
    then have IH: "big_wf (big_assign (v div cDigitBase))"
      "big_value (big_assign (v div cDigitBase)) = v div cDigitBase"
      using "1.IH" by auto
    have eq: "big_assign v = v mod cDigitBase # big_assign (v div cDigitBase)"
      using False by (simp add: big_assign.simps[of v] mod_base_less)
    have "v mod cDigitBase \<noteq> 0" if "big_assign (v div cDigitBase) = []"
      using IH(2) that False by (auto simp: mod_eq_self_iff_div_eq_0)
    with IH eq show ?thesis by (auto simp: big_wf_def mod_base_less)
  qed (simp add: big_assign.simps)
qed

lemma big_addSmall_correct:
  assumes "big_wf ds" "c < cDigitBase"
  shows "big_wf (big_addSmall ds c) \<and> big_value (big_addSmall ds c) = big_value ds + c
    \<and> (ds \<noteq> [] \<or> c \<noteq> 0 \<longrightarrow> big_addSmall ds c \<noteq> [])"
  using assms
proof (induction ds c rule: big_addSmall.induct)
  case (2 d ds carry)
  show ?case
  proof (cases "carry = 0")
    case False
    define s where "s = d + carry"
    have s: "s < 2 * cDigitBase" using "2.prems" by (simp add: s_def big_wf_def)
    then have sd: "s div cDigitBase < cDigitBase" "u64 (d + carry) = s"
      by (auto simp: div_less_iff_less_mult s_def)
    have wf: "big_wf ds" using "2.prems"(1) by (auto simp: big_wf_def split: if_splits)
    have IH: "big_wf (big_addSmall ds (s div cDigitBase))"
      "big_value (big_addSmall ds (s div cDigitBase)) = big_value ds + s div cDigitBase"
      "ds \<noteq> [] \<or> s div cDigitBase \<noteq> 0 \<longrightarrow> big_addSmall ds (s div cDigitBase) \<noteq> []"
      using "2.IH"[of s] False sd wf by auto
    have "s mod cDigitBase \<noteq> 0" if "big_addSmall ds (s div cDigitBase) = []"
    proof -
      from that IH(3) have "s div cDigitBase = 0" by auto
      with False show ?thesis by (simp add: mod_eq_self_iff_div_eq_0[THEN iffD2] s_def)
    qed
    then have "big_wf (big_addSmall (d # ds) carry)"
      using IH(1) False sd by (auto simp: big_wf_def mod_base_less Let_def)
    moreover have "big_value (big_addSmall (d # ds) carry) = big_value (d # ds) + carry"
      using IH(2) False sd by (simp add: mod_base_less Let_def distrib_left) (simp add: s_def)
    ultimately show ?thesis using False by (simp add: Let_def)
  qed (use 2 in simp)
qed (simp add: big_wf_def)

lemma mulSmall_loop_value:
  assumes "big_digits ds" "v < cDigitBase" "c < cDigitBase"
  shows "big_value (mulSmall_loop ds v c) = big_value ds * v + c
    \<and> big_digits (mulSmall_loop ds v c)
    \<and> (length (mulSmall_loop ds v c) = length ds
       \<or> length (mulSmall_loop ds v c) = Suc (length ds) \<and> last (mulSmall_loop ds v c) \<noteq> 0)"
  using assms
proof (induction ds v c rule: mulSmall_loop.induct)
  case (2 d ds v carry)
  define p where "p = d * v + carry"
  have p: "p < 1000000000000000000"
    using small_product[of d v carry 0] "2.prems" by (simp add: p_def)
  have eq: "mulSmall_loop (d # ds) v carry = p mod cDigitBase # mulSmall_loop ds v (p div cDigitBase)"
    using p by (simp add: p_def[symmetric] mod_base_less Let_def)
  have IH: "big_value (mulSmall_loop ds v (p div cDigitBase)) = big_value ds * v + p div cDigitBase
    \<and> big_digits (mulSmall_loop ds v (p div cDigitBase))
    \<and> (length (mulSmall_loop ds v (p div cDigitBase)) = length ds
       \<or> length (mulSmall_loop ds v (p div cDigitBase)) = Suc (length ds)
         \<and> last (mulSmall_loop ds v (p div cDigitBase)) \<noteq> 0)"
    using "2.IH"[of p] "2.prems" p by (simp add: p_def[symmetric] div_base_less)
  have "p mod cDigitBase + cDigitBase * (big_value ds * v + p div cDigitBase)
      = cDigitBase * (big_value ds * v) + p" by (simp add: distrib_left)
  then have "p mod cDigitBase + cDigitBase * (big_value ds * v + p div cDigitBase)
      = (d + cDigitBase * big_value ds) * v + carry"
    by (simp add: p_def distrib_right)
  with IH show ?case unfolding eq by (auto simp: mod_base_less)
qed simp

lemma big_multiplySmall_correct:
  assumes "big_wf ds" "v < cDigitBase"
  shows "big_wf (big_multiplySmall ds v)" "big_value (big_multiplySmall ds v) = big_value ds * v"
proof -
  show v: "big_value (big_multiplySmall ds v) = big_value ds * v"
    using mulSmall_loop_value[of ds v 0] assms
    by (auto simp: big_multiplySmall_def big_isZero_def big_wf_def)
  show "big_wf (big_multiplySmall ds v)"
  proof (cases "v = 0 \<or> ds = []")
    case True
    then show ?thesis by (auto simp: big_multiplySmall_def big_isZero_def)
  next
    case False
    then have eq: "big_multiplySmall ds v = mulSmall_loop ds v 0"
      by (simp add: big_multiplySmall_def big_isZero_def)
    have l: "big_digits (mulSmall_loop ds v 0)"
      "length (mulSmall_loop ds v 0) = length ds
       \<or> length (mulSmall_loop ds v 0) = Suc (length ds) \<and> last (mulSmall_loop ds v 0) \<noteq> 0"
      using mulSmall_loop_value[of ds v 0] assms by (auto simp: big_wf_def)
    show ?thesis
    proof (cases "length (mulSmall_loop ds v 0) = length ds")
      case True
      have "cDigitBase ^ (length ds - 1) \<le> big_value ds * 1"
        using big_value_ge[OF assms(1)] False by simp
      also have "\<dots> \<le> big_value ds * v" using False by (intro mult_le_mono2) simp
      finally show ?thesis unfolding eq using True l(1) v eq by (intro big_wfI) auto
    next
      case False
      with l show ?thesis by (simp add: eq big_wf_def)
    qed
  qed
qed

lemma div_row_arith:
  fixes base :: nat
  assumes "x mod v * base ^ i + a = v * a' + r'" and "x = r * base + d"
  shows "r * base ^ Suc i + (a + base ^ i * d) = v * (a' + base ^ i * (x div v)) + r'"
proof -
  have "r * base ^ Suc i + (a + base ^ i * d) = x * base ^ i + a"
    by (simp add: assms(2) algebra_simps)
  also have "\<dots> = (v * (x div v) + x mod v) * base ^ i + a" by simp
  also have "\<dots> = v * (x div v) * base ^ i + (x mod v * base ^ i + a)"
    by (simp only: distrib_right add.assoc)
  also have "\<dots> = v * (a' + base ^ i * (x div v)) + r'"
    unfolding assms(1) by (simp add: algebra_simps)
  finally show ?thesis .
qed

lemma divSmall_loop_value:
  assumes "big_digits ds" "i \<le> length ds" "0 < v" "v < cDigitBase" "r < v"
    "divSmall_loop i ds v r = (ds', r')"
  shows "r * cDigitBase ^ i + big_value (take i ds) = v * big_value (take i ds') + r'
    \<and> r' < v \<and> big_digits ds' \<and> length ds' = length ds \<and> drop i ds' = drop i ds"
  using assms
proof (induction i ds v r arbitrary: ds' r' rule: divSmall_loop.induct)
  case (2 i ds v r)
  define x where "x = r * cDigitBase + ds ! i"
  have i: "i < length ds" using "2.prems"(2) by simp
  have dig: "ds ! i < cDigitBase" using "2.prems"(1) i by (rule big_digits_nth)
  have "r + 1 \<le> v" using "2.prems" by simp
  then have "(r + 1) * cDigitBase \<le> v * cDigitBase" by (rule mult_le_mono1)
  with dig have x: "x < v * cDigitBase" by (simp add: x_def)
  then have xd: "x div v < cDigitBase"
    using "2.prems"(3) by (simp add: div_less_iff_less_mult mult.commute)
  have "v * cDigitBase \<le> cDigitBase * cDigitBase" using "2.prems"(4) by (intro mult_le_mono1) simp
  with x have u: "u64 (r * cDigitBase + ds ! i) = x" "u32 (x div v) = x div v"
    using xd by (simp_all add: x_def)
  have rec: "divSmall_loop i (ds[i := x div v]) v (x mod v) = (ds', r')"
    using "2.prems"(6) by (simp add: u Let_def)
  have IH: "x mod v * cDigitBase ^ i + big_value (take i (ds[i := x div v])) = v * big_value (take i ds') + r'
    \<and> r' < v \<and> big_digits ds' \<and> length ds' = length (ds[i := x div v])
    \<and> drop i ds' = drop i (ds[i := x div v])"
    using "2.IH"[of x ds' r'] "2.prems" rec i xd by (simp add: u big_digits_update)
  have nth: "ds' ! i = x div v" and dr: "drop (Suc i) ds' = drop (Suc i) ds"
  proof -
    have "drop i ds' = x div v # drop (Suc i) ds" "i < length ds'"
      using IH i by (simp_all add: Cons_nth_drop_Suc[symmetric])
    then show "ds' ! i = x div v" "drop (Suc i) ds' = drop (Suc i) ds"
      by (simp_all add: Cons_nth_drop_Suc[symmetric])
  qed
  have "r * cDigitBase ^ Suc i + (big_value (take i ds) + cDigitBase ^ i * ds ! i)
    = v * (big_value (take i ds') + cDigitBase ^ i * (x div v)) + r'"
    using IH i by (intro div_row_arith[OF _ x_def]) simp
  then show ?case using IH i nth dr by (simp add: big_value_take_Suc)
qed simp

lemma big_divideSmall_correct:
  assumes "big_digits ds" "0 < v" "v < cDigitBase" "big_divideSmall ds v = (q, r)"
  shows "big_wf q" "big_value q = big_value ds div v" "r = big_value ds mod v"
proof -
  obtain ds' r' where l: "divSmall_loop (length ds) ds v 0 = (ds', r')" by fastforce
  have v: "big_value ds = v * big_value ds' + r'" "r' < v" "big_digits ds'" "length ds' = length ds"
    using divSmall_loop_value[OF assms(1) _ assms(2,3) _ l] assms(2) by auto
  then have qr: "q = big_trim ds'" "r = r'"
    using assms(3,4) l by (auto simp: big_divideSmall_def)
  with v show "big_wf q" "big_value q = big_value ds div v" "r = big_value ds mod v"
    using big_trim_correct[of ds'] by auto
qed

lemma toUInt64_loop_value:
  assumes "n \<le> length ds" "big_value (take n ds) + r * cDigitBase ^ n < 18446744073709551616"
  shows "toUInt64_loop n ds r = big_value (take n ds) + r * cDigitBase ^ n"
  using assms
proof (induction n ds r rule: toUInt64_loop.induct)
  case (2 i ds r)
  have eq: "big_value (take (Suc i) ds) + r * cDigitBase ^ Suc i
      = big_value (take i ds) + (r * cDigitBase + ds ! i) * cDigitBase ^ i"
    using "2.prems"(1) by (simp add: big_value_take_Suc algebra_simps)
  have "r * cDigitBase + ds ! i \<le> (r * cDigitBase + ds ! i) * cDigitBase ^ i" by simp
  also have "\<dots> < 18446744073709551616" using "2.prems"(2) unfolding eq by linarith
  finally have "u64 (r * cDigitBase + ds ! i) = r * cDigitBase + ds ! i" by simp
  with "2.IH" "2.prems" show ?case unfolding eq by simp
qed simp

lemma big_cast_correct:
  assumes "big_wf ds" "maximum \<le> u64_max"
  shows "big_cast maximum ds = min (big_value ds) maximum"
    and "big_castOrThrow maximum ds =
      (if big_value ds \<le> maximum then Inr (big_value ds) else Inl CastOverflow)"
proof -
  have m: "big_wf (big_assign maximum)" "big_value (big_assign maximum) = maximum"
    using big_assign_correct by auto
  have c: "big_compare ds (big_assign maximum) = OrdGreater \<longleftrightarrow> big_value ds > maximum"
    using big_compare_iff(3)[OF assms(1) m(1)] m(2) by simp
  have t: "big_toUInt64Unchecked ds = big_value ds" if "big_value ds \<le> maximum"
    using toUInt64_loop_value[of "length ds" ds 0] that assms(2)
    by (simp add: big_toUInt64Unchecked_def)
  show "big_cast maximum ds = min (big_value ds) maximum"
    using c t by (auto simp: big_cast_def)
  show "big_castOrThrow maximum ds =
      (if big_value ds \<le> maximum then Inr (big_value ds) else Inl CastOverflow)"
    using c t by (auto simp: big_castOrThrow_def)
qed

end
