(* ===== verification/BigDivision.thy ===== *)
theory BigDivision
  imports BigUnsigned
begin

text \<open>
  The schoolbook long division \<open>BigUnsignedInteger::divideWithRemainder\<close> and the operators
  built on it. The divisor is normalised, every quotient digit is estimated from the top
  digits, the estimate times the divisor is subtracted, and one divisor is added back when
  the difference became negative. The estimate of the source is exact up to one whenever
  the second digit of the normalised divisor is below its top digit; the last section gives
  an input outside that case for which the source returns a wrong quotient.
\<close>

section \<open>Model\<close>

text \<open>The loop that lowers the estimated digit; \<open>second\<close> is the second digit of the
  normalised divisor, \<open>vTop\<close> its last, \<open>third\<close> the third digit of the current dividend.\<close>

function estimate_loop :: "nat \<Rightarrow> nat \<Rightarrow> nat \<Rightarrow> nat \<Rightarrow> nat \<Rightarrow> nat \<times> nat" where
  "estimate_loop vTop second third est rm =
     (if rm < cDigitBase \<and> u64 (est * second) > u64 (u64 (rm * cDigitBase) + third)
      then estimate_loop vTop second third (est - 1) (u64 (rm + vTop))
      else (est, rm))"
  by pat_completeness auto
termination
proof (relation "measure (\<lambda>(vTop, second, third, est, rm). est)", goal_cases)
  case (2 vTop second third est rm)
  then have "0 < est" by (cases est) auto
  then show ?case by simp
qed simp

declare estimate_loop.simps [simp del]

definition estimate_digit :: "nat \<Rightarrow> nat \<Rightarrow> nat \<Rightarrow> nat \<Rightarrow> nat \<Rightarrow> nat" where
  "estimate_digit high next third vTop second =
     (let source = u64 (u64 (high * cDigitBase) + next);
          est = source div vTop;
          rm = source mod vTop
      in fst (if est \<ge> cDigitBase
              then estimate_loop vTop second third (cDigitBase - 1) (u64 (rm + vTop))
              else estimate_loop vTop second third est rm))"

definition submul_digit :: "nat \<Rightarrow> nat \<Rightarrow> nat \<Rightarrow> int \<Rightarrow> nat \<times> int" where
  "submul_digit ui est v carry =
     (let difference = s64 (int ui - s64 (int (u64 (est * v))) - carry)
      in if difference < 0
         then (let carry' = (- difference + int cDigitBase - 1) div int cDigitBase
               in (u32i (difference + carry' * int cDigitBase), carry'))
         else (u32i difference, 0))"

fun submul_loop :: "digits \<Rightarrow> nat \<Rightarrow> nat \<Rightarrow> digits \<Rightarrow> int \<Rightarrow> digits \<times> int" where
  "submul_loop [] est pos u carry = (u, carry)"
| "submul_loop (v # vs) est pos u carry =
     (case submul_digit (u ! pos) est v carry of
        (digit, carry') \<Rightarrow> submul_loop vs est (Suc pos) (u[pos := digit]) carry')"

fun addback_loop :: "digits \<Rightarrow> nat \<Rightarrow> digits \<Rightarrow> nat \<Rightarrow> digits \<times> nat" where
  "addback_loop [] pos u carry = (u, carry)"
| "addback_loop (v # vs) pos u carry =
     (let sum = u64 (u ! pos + v + carry)
      in addback_loop vs (Suc pos) (u[pos := u32 (sum mod cDigitBase)]) (sum div cDigitBase))"

text \<open>One iteration of the quotient loop, at quotient index \<open>j\<close>; the pair holds the digits of
  the normalised dividend and of the quotient.\<close>

definition div_step :: "digits \<Rightarrow> nat \<Rightarrow> digits \<times> digits \<Rightarrow> digits \<times> digits" where
  "div_step v j = (\<lambda>(u, q).
     (let n = length v;
          est = estimate_digit (u ! (j + n)) (u ! (j + n - 1)) (u ! (j + n - 2))
                  (v ! (n - 1)) (v ! (n - 2));
          (u', carry) = submul_loop v est j u 0;
          high = int (u' ! (j + n)) - carry
      in if high < 0
         then (let (u'', additionCarry) = addback_loop v j u' 0
               in (u''[j + n := u32i (high + int additionCarry)], q[j := u32 (est - 1)]))
         else (u'[j + n := u32i high], q[j := u32 est])))"

fun div_loop :: "digits \<Rightarrow> nat \<Rightarrow> digits \<times> digits \<Rightarrow> digits \<times> digits" where
  "div_loop v 0 s = s"
| "div_loop v (Suc j) s = div_loop v j (div_step v j s)"

text \<open>The result is the quotient and the remainder.\<close>

definition big_divideWithRemainder :: "digits \<Rightarrow> digits \<Rightarrow> big_error + digits \<times> digits" where
  "big_divideWithRemainder dividend divisor =
     (if big_isZero divisor then Inl Terminate
      else if big_compare dividend divisor = OrdLess then Inr ([], dividend)
      else if length divisor = 1 then
        (case big_divideSmall dividend (hd divisor) of
           (quot, smallRemainder) \<Rightarrow> Inr (quot, big_assign smallRemainder))
      else
        (let normalization = u32 (cDigitBase div (last divisor + 1));
             u = big_multiplySmall dividend normalization @ [0];
             v = big_multiplySmall divisor normalization;
             quotientSize = length u - length v;
             (u', q') = div_loop v quotientSize (u, replicate quotientSize 0);
             (remainder, rest) = big_divideSmall (take (length v) u') normalization
         in if rest \<noteq> 0 then Inl Terminate
            else Inr (big_trim q', big_trim remainder)))"

text \<open>The four operators and \<open>divideGetRemainder\<close> are projections of that routine.\<close>

definition big_divide :: "digits \<Rightarrow> digits \<Rightarrow> big_error + digits" where
  "big_divide a b = sbind (big_divideWithRemainder a b) (\<lambda>(q, r). Inr q)"

definition big_modulo :: "digits \<Rightarrow> digits \<Rightarrow> big_error + digits" where
  "big_modulo a b = sbind (big_divideWithRemainder a b) (\<lambda>(q, r). Inr r)"

section \<open>The estimated digit\<close>

text \<open>The arithmetic of the estimate, for any base: \<open>w\<close> is the dividend slice and \<open>v\<close> the
  divisor, each split after its leading digits.\<close>

lemma estimate_decrement:
  fixes w v est :: nat
  assumes "w < (u3 + 1) * p" "v2 * p \<le> v" "u3 < est * v2"
  shows "w < est * v"
proof -
  have "w < (u3 + 1) * p" by (rule assms)
  also have "\<dots> \<le> (est * v2) * p" using assms(3) by (intro mult_le_mono1) simp
  also have "\<dots> \<le> est * v" using assms(2) by (simp add: mult.assoc)
  finally show ?thesis .
qed

lemma estimate_exit:
  fixes w v est :: nat
  assumes "u3 * p \<le> w" "v < (v2 + 1) * p" "est * v2 \<le> u3" "est \<le> v2 + 1"
  shows "(est - 1) * v \<le> w"
proof (cases est)
  case (Suc e)
  have "e * v \<le> e * ((v2 + 1) * p)" using assms(2) by (intro mult_le_mono2) simp
  also have "\<dots> = (e * v2 + e) * p" by (simp add: algebra_simps)
  also have "\<dots> \<le> (est * v2) * p" using assms(4) Suc by (intro mult_le_mono1) simp
  also have "\<dots> \<le> u3 * p" using assms(3) by (intro mult_le_mono1)
  also have "\<dots> \<le> w" by (rule assms)
  finally show ?thesis using Suc by simp
qed simp

lemma base_product_less:
  fixes a b :: nat
  assumes "a < cDigitBase" "b < cDigitBase"
  shows "a * b < 1000000000000000000"
  using small_product[OF assms, of 0 0] by simp

lemma estimate_loop_correct:
  assumes dig: "second < cDigitBase" "third < cDigitBase" "0 < vTop" "vTop < cDigitBase"
    and w: "((u2 * cDigitBase + u1) * cDigitBase + third) * p \<le> w"
      "w < ((u2 * cDigitBase + u1) * cDigitBase + third + 1) * p"
    and v: "(vTop * cDigitBase + second) * p \<le> v" "v < (vTop * cDigitBase + second + 1) * p"
    and q: "q * v \<le> w" "w < (q + 1) * v"
    and est: "est * vTop + rm = u2 * cDigitBase + u1" "est < cDigitBase" "q \<le> est"
  shows "q \<le> fst (estimate_loop vTop second third est rm)
    \<and> fst (estimate_loop vTop second third est rm) \<le> q + 1
    \<and> fst (estimate_loop vTop second third est rm) < cDigitBase"
  using est
proof (induction est arbitrary: rm rule: less_induct)
  case (less est)
  let ?v2 = "vTop * cDigitBase + second" and ?u3 = "(u2 * cDigitBase + u1) * cDigitBase + third"
  have small: "est * second < 1000000000000000000"
    using less.prems(2) dig(1) by (rule base_product_less)
  have cmp: "?u3 < est * ?v2 \<longleftrightarrow> rm * cDigitBase + third < est * second"
    unfolding less.prems(1)[symmetric] by (simp add: algebra_simps)
  show ?case
  proof (cases "rm < cDigitBase \<and> rm * cDigitBase + third < est * second")
    case True
    have unf: "estimate_loop vTop second third est rm = estimate_loop vTop second third (est - 1) (rm + vTop)"
      using True small dig by (subst estimate_loop.simps) simp
    have pos: "0 < est" using True by (cases est) auto
    have "w < est * v" using True cmp w(2) v(1) by (intro estimate_decrement[of w ?u3 p ?v2 v]) auto
    then have "q * v < est * v" using q(1) by linarith
    then have "q < est" by (rule mult_less_cancel2[THEN iffD1, THEN conjunct2])
    then have "q \<le> est - 1" by simp
    moreover have "(est - 1) * vTop + (rm + vTop) = u2 * cDigitBase + u1"
      using less.prems(1) pos by (cases est) auto
    ultimately show ?thesis
      unfolding unf using less.IH[of "est - 1" "rm + vTop"] less.prems(2) pos by auto
  next
    case False
    have "est * ?v2 \<le> ?u3"
    proof (cases "rm < cDigitBase")
      case True
      with False cmp show ?thesis by auto
    next
      case False
      then have "cDigitBase * cDigitBase \<le> rm * cDigitBase" by (intro mult_le_mono1) simp
      with small have "est * second \<le> rm * cDigitBase + third" by simp
      with cmp show ?thesis by linarith
    qed
    moreover have "est \<le> ?v2 + 1" using less.prems(2) dig(3) by (cases vTop) auto
    ultimately have "(est - 1) * v \<le> w"
      using w(1) v(2) by (intro estimate_exit[of ?u3 p w v ?v2 est]) auto
    then have "(est - 1) * v < (q + 1) * v" using q(2) by linarith
    then have "est - 1 < q + 1" by (rule mult_less_cancel2[THEN iffD1, THEN conjunct2])
    then have "est \<le> q + 1" by simp
    moreover have "estimate_loop vTop second third est rm = (est, rm)"
      using False small dig by (subst estimate_loop.simps) auto
    ultimately show ?thesis using less.prems by simp
  qed
qed

lemma estimate_digit_correct:
  assumes dig: "u1 < cDigitBase" "second < cDigitBase" "third < cDigitBase" "0 < vTop"
      "vTop < cDigitBase" "u2 < cDigitBase"
    and w: "((u2 * cDigitBase + u1) * cDigitBase + third) * p \<le> w"
      "w < ((u2 * cDigitBase + u1) * cDigitBase + third + 1) * p"
    and v: "(vTop * cDigitBase + second) * p \<le> v" "v < (vTop * cDigitBase + second + 1) * p"
    and wv: "w < cDigitBase * v" and safe: "second < vTop"
  shows "w div v \<le> estimate_digit u2 u1 third vTop second
    \<and> estimate_digit u2 u1 third vTop second \<le> w div v + 1
    \<and> estimate_digit u2 u1 third vTop second < cDigitBase"
proof -
  let ?src = "u2 * cDigitBase + u1" and ?B = "cDigitBase"
  have v0: "0 < v" using wv by (cases v) auto
  have p0: "0 < p" using w by (cases p) auto
  have q: "w div v * v \<le> w" "w < (w div v + 1) * v"
    using v0 dividend_less_div_times[of v w] by (simp_all add: mult.commute)
  have qB: "w div v < ?B" using wv v0 by (simp add: div_less_iff_less_mult mult.commute)
  have src: "u64 (u64 (u2 * ?B) + u1) = ?src" using dig by simp
  have qsrc: "w div v \<le> ?src div vTop"
  proof -
    have "w div v * vTop * (?B * p) \<le> w div v * ((vTop * ?B + second) * p)"
      by (simp add: mult.assoc mult_le_mono2)
    also have "\<dots> \<le> w div v * v" using v(1) by (rule mult_le_mono2)
    also have "\<dots> \<le> w" by (rule q)
    also have "\<dots> < (?src * ?B + third + 1) * p" by (rule w)
    also have "\<dots> \<le> (?src + 1) * ?B * p" using dig(3) by (intro mult_le_mono1) simp
    finally have "w div v * vTop * (?B * p) < (?src + 1) * (?B * p)" by (simp only: mult.assoc)
    then have "w div v * vTop < ?src + 1" by (rule mult_less_cancel2[THEN iffD1, THEN conjunct2])
    then show ?thesis using dig(4) by (simp add: less_eq_div_iff_mult_less_eq)
  qed
  have srclt: "?src < vTop * ?B + vTop"
  proof (rule ccontr)
    assume n: "\<not> ?thesis"
    have "(vTop * ?B + second + 1) * (?B * p) \<le> ?src * (?B * p)"
      using n safe by (intro mult_le_mono1) simp
    also have "\<dots> \<le> (?src * ?B + third) * p" by (simp add: mult.assoc add_mult_distrib)
    also have "\<dots> \<le> w" by (rule w)
    also have "\<dots> < ?B * v" by (rule wv)
    also have "\<dots> \<le> ?B * ((vTop * ?B + second + 1) * p)" using v(2) by (intro mult_le_mono2) simp
    finally show False by (simp add: ac_simps)
  qed
  show ?thesis
  proof (cases "?src div vTop \<ge> ?B")
    case False
    then show ?thesis
      using estimate_loop_correct[OF dig(2-5) w v q, of "?src div vTop" "?src mod vTop"] qsrc
      by (simp add: estimate_digit_def src Let_def)
  next
    case True
    have "?src div vTop < ?B + 1"
      using srclt dig(4) by (simp add: div_less_iff_less_mult algebra_simps)
    with True have B: "?src div vTop = ?B" by simp
    then have rm: "?B * vTop + ?src mod vTop = ?src" by (metis div_mult_mod_eq)
    have "?src mod vTop < vTop" using dig(4) by simp
    then have u: "u64 (?src mod vTop + vTop) = ?src mod vTop + vTop" using dig(5) by simp
    have "(?B - 1) * vTop + (?src mod vTop + vTop) = ?src" using rm by simp
    then show ?thesis
      using estimate_loop_correct[OF dig(2-5) w v q, of "?B - 1" "?src mod vTop + vTop"] qB True u
      by (simp add: estimate_digit_def src Let_def)
  qed
qed

section \<open>Subtracting and adding back\<close>

lemma submul_digit_correct:
  assumes "ui < cDigitBase" "est < cDigitBase" "v < cDigitBase" "0 \<le> c" "c < int cDigitBase"
    "submul_digit ui est v c = (d, c')"
  shows "int d = int ui - int est * int v - c + c' * int cDigitBase \<and> d < cDigitBase
    \<and> 0 \<le> c' \<and> c' < int cDigitBase"
proof -
  define m where "m = est * v"
  define x where "x = int ui - int m - c"
  have "m \<le> 999999999 * 999999999" unfolding m_def using assms(2,3) by (intro mult_le_mono) auto
  then have ev: "int m \<le> 999999998000000001" "m < 18446744073709551616" by simp_all
  have x: "- 999999999000000000 \<le> x" "x < 1000000000"
    using ev(1) assms(1,4,5) by (simp_all add: x_def)
  have s: "s64 (int ui - s64 (int (u64 (est * v))) - c) = x"
    using ev x by (simp add: x_def m_def[symmetric])
  show ?thesis
  proof (cases "x < 0")
    case True
    define k where "k = (- x + int cDigitBase - 1) div int cDigitBase"
    have kr: "int cDigitBase * k + (- x + int cDigitBase - 1) mod int cDigitBase = - x + int cDigitBase - 1"
      unfolding k_def by (rule mult_div_mod_eq)
    have m: "0 \<le> (- x + int cDigitBase - 1) mod int cDigitBase"
      "(- x + int cDigitBase - 1) mod int cDigitBase < int cDigitBase" by simp_all
    have dk: "0 \<le> x + k * int cDigitBase" "x + k * int cDigitBase < int cDigitBase"
      using kr m by linarith+
    have k: "0 \<le> k" "k < int cDigitBase"
      using kr m x True by linarith+
    have "submul_digit ui est v c = (u32i (x + k * int cDigitBase), k)"
      using True by (simp only: submul_digit_def s Let_def k_def if_True)
    then have "d = u32i (x + k * int cDigitBase)" "c' = k"
      using assms(6) by (simp_all only: prod.inject)
    with dk k show ?thesis by (simp add: x_def m_def)
  next
    case False
    then have "d = u32i x" "c' = 0"
      using assms(6) by (simp_all add: submul_digit_def s Let_def)
    with False x show ?thesis by (simp add: x_def m_def)
  qed
qed

lemma submul_row_arith:
  fixes base :: int
  assumes "x = y - (est * vs + c') * base ^ Suc i + c'' * base ^ (Suc i + n)"
    "y = z + (d - ui) * base ^ i" "d = ui - est * v - c + c' * base"
  shows "x = z - (est * (v + base * vs) + c) * base ^ i + c'' * base ^ (i + Suc n)"
  unfolding assms(1,2) assms(3) by (simp add: algebra_simps)

lemma submul_loop_value:
  assumes "big_digits vs" "est < cDigitBase" "big_digits u" "0 \<le> c" "c < int cDigitBase"
    "pos + length vs \<le> length u" "submul_loop vs est pos u c = (u', c')"
  shows "int (big_value u') = int (big_value u) - (int est * int (big_value vs) + c) * int cDigitBase ^ pos
      + c' * int cDigitBase ^ (pos + length vs)
    \<and> big_digits u' \<and> 0 \<le> c' \<and> c' < int cDigitBase \<and> length u' = length u
    \<and> take pos u' = take pos u \<and> drop (pos + length vs) u' = drop (pos + length vs) u"
  using assms
proof (induction vs est pos u c arbitrary: u' c' rule: submul_loop.induct)
  case (2 v vs est pos u c)
  obtain d k where dk: "submul_digit (u ! pos) est v c = (d, k)" by fastforce
  have pos: "pos < length u" using "2.prems"(6) by simp
  have dkv: "int d = int (u ! pos) - int est * int v - c + k * int cDigitBase" "d < cDigitBase"
    "0 \<le> k" "k < int cDigitBase"
    using submul_digit_correct[OF _ _ _ _ _ dk] "2.prems" big_digits_nth[OF _ pos] by auto
  have IH: "int (big_value u') = int (big_value (u[pos := d]))
        - (int est * int (big_value vs) + k) * int cDigitBase ^ Suc pos
        + c' * int cDigitBase ^ (Suc pos + length vs)
    \<and> big_digits u' \<and> 0 \<le> c' \<and> c' < int cDigitBase \<and> length u' = length (u[pos := d])
    \<and> take (Suc pos) u' = take (Suc pos) (u[pos := d])
    \<and> drop (Suc pos + length vs) u' = drop (Suc pos + length vs) (u[pos := d])"
    using "2.IH"[OF dk[symmetric], of u' c'] "2.prems" dk dkv by (simp add: big_digits_update)
  have tk: "take pos u' = take pos u"
  proof -
    have "take pos (take (Suc pos) u') = take pos (take (Suc pos) (u[pos := d]))" using IH by simp
    then show ?thesis by simp
  qed
  have "int (big_value u') = int (big_value u)
      - (int est * (int v + int cDigitBase * int (big_value vs)) + c) * int cDigitBase ^ pos
      + c' * int cDigitBase ^ (pos + Suc (length vs))"
    using conjunct1[OF IH] big_value_update[OF pos] dkv(1) by (rule submul_row_arith)
  then show ?case using IH tk by simp
qed simp

lemma addback_loop_value:
  assumes "big_digits vs" "big_digits u" "c \<le> 1"
    "pos + length vs \<le> length u" "addback_loop vs pos u c = (u', c')"
  shows "big_value u' + c' * cDigitBase ^ (pos + length vs)
      = big_value u + (big_value vs + c) * cDigitBase ^ pos
    \<and> big_digits u' \<and> c' \<le> 1 \<and> length u' = length u
    \<and> take pos u' = take pos u \<and> drop (pos + length vs) u' = drop (pos + length vs) u"
  using assms
proof (induction vs pos u c arbitrary: u' c' rule: addback_loop.induct)
  case (2 v vs pos u c)
  have pos: "pos < length u" using "2.prems"(4) by simp
  define s where "s = u ! pos + v + c"
  have lt: "s < 2 * cDigitBase"
    using "2.prems"(1,3) big_digits_nth[OF "2.prems"(2) pos] by (simp add: s_def)
  then have "s div cDigitBase < 2" by (simp add: div_less_iff_less_mult)
  then have sd: "s div cDigitBase \<le> 1" by simp
  have eq: "addback_loop vs (Suc pos) (u[pos := s mod cDigitBase]) (s div cDigitBase) = (u', c')"
    using "2.prems"(5) lt by (simp add: s_def[symmetric] mod_base_less Let_def)
  have IH: "big_value u' + c' * cDigitBase ^ (Suc pos + length vs)
      = big_value (u[pos := s mod cDigitBase]) + (big_value vs + s div cDigitBase) * cDigitBase ^ Suc pos
    \<and> big_digits u' \<and> c' \<le> 1 \<and> length u' = length (u[pos := s mod cDigitBase])
    \<and> take (Suc pos) u' = take (Suc pos) (u[pos := s mod cDigitBase])
    \<and> drop (Suc pos + length vs) u' = drop (Suc pos + length vs) (u[pos := s mod cDigitBase])"
    using "2.IH"[of s u' c'] "2.prems" eq sd lt
    by (simp add: s_def[symmetric] mod_base_less big_digits_update del: power_Suc)
  have tk: "take pos u' = take pos u"
  proof -
    have "take pos (take (Suc pos) u') = take pos (take (Suc pos) (u[pos := s mod cDigitBase]))"
      using IH by simp
    then show ?thesis by simp
  qed
  have carry: "big_value (u[pos := s mod cDigitBase]) + s div cDigitBase * cDigitBase ^ Suc pos
      = big_value u + (1 * v + c) * cDigitBase ^ pos"
    using pos by (intro big_value_carry) (simp_all add: s_def)
  have "big_value u' + c' * cDigitBase ^ (pos + Suc (length vs))
      = big_value u + (1 * (v + cDigitBase * big_value vs) + c) * cDigitBase ^ pos"
    using IH carry by (intro mul_row_arith) auto
  then show ?case using IH tk by simp
qed simp

section \<open>One quotient digit\<close>

text \<open>The slice of the dividend at position \<open>j\<close>: its \<open>n\<close> low digits and its high digit.\<close>

lemma big_value_slice:
  assumes "j + n < length u" "big_value (drop (j + n + 1) u) = 0"
  shows "big_value (drop j u) = big_value (take n (drop j u)) + cDigitBase ^ n * u ! (j + n)"
    and "big_value u = big_value (take j u) + cDigitBase ^ j * big_value (drop j u)"
proof -
  have "big_value (drop j u) = big_value (take n (drop j u)) + cDigitBase ^ n * big_value (drop n (drop j u))"
    using assms(1) by (intro big_value_split) simp
  moreover have "big_value (drop n (drop j u)) = u ! (j + n)"
    using assms big_value_drop_nth[of "j + n" u] by (simp add: add.commute)
  ultimately show "big_value (drop j u) = big_value (take n (drop j u)) + cDigitBase ^ n * u ! (j + n)"
    by simp
  show "big_value u = big_value (take j u) + cDigitBase ^ j * big_value (drop j u)"
    using assms(1) by (intro big_value_split) simp
qed

lemma big_value_high_zero:
  assumes "big_value ds < cDigitBase ^ k" "k \<le> length ds"
  shows "big_value (drop k ds) = 0"
proof (rule ccontr)
  assume "big_value (drop k ds) \<noteq> 0"
  then have "cDigitBase ^ k * 1 \<le> cDigitBase ^ k * big_value (drop k ds)"
    by (intro mult_le_mono2) simp
  also have "\<dots> \<le> big_value ds" using big_value_split[OF assms(2)] by simp
  finally show False using assms(1) by simp
qed

text \<open>A divisor is fit for the estimate when its second digit is below its top digit.\<close>

definition divisor_safe :: "digits \<Rightarrow> bool" where
  "divisor_safe v \<longleftrightarrow> 2 \<le> length v \<and> big_wf v \<and> v ! (length v - 2) < v ! (length v - 1)"

lemma big_value_top2:
  assumes "big_digits v" "length v = m + 2"
  shows "(v ! (m + 1) * cDigitBase + v ! m) * cDigitBase ^ m \<le> big_value v"
    and "big_value v < (v ! (m + 1) * cDigitBase + v ! m + 1) * cDigitBase ^ m"
proof -
  have "big_value v = big_value (take m v) + cDigitBase ^ m * big_value (drop m v)"
    using assms(2) by (intro big_value_split) simp
  moreover have "big_value (drop m v) = v ! m + cDigitBase * v ! (m + 1)"
    using assms(2) big_value_drop_nth[of m v] big_value_drop_nth[of "Suc m" v] by simp
  moreover have "big_value (take m v) < cDigitBase ^ m"
    using big_value_less[of "take m v"] assms by (simp add: big_digits_take min_def)
  ultimately show "(v ! (m + 1) * cDigitBase + v ! m) * cDigitBase ^ m \<le> big_value v"
    and "big_value v < (v ! (m + 1) * cDigitBase + v ! m + 1) * cDigitBase ^ m"
    by (simp_all add: algebra_simps)
qed

lemma big_value_top3:
  assumes "big_digits w" "m + 2 < length w" "big_value w < cDigitBase ^ (m + 3)"
  shows "((w ! (m + 2) * cDigitBase + w ! (m + 1)) * cDigitBase + w ! m) * cDigitBase ^ m \<le> big_value w"
    and "big_value w < ((w ! (m + 2) * cDigitBase + w ! (m + 1)) * cDigitBase + w ! m + 1) * cDigitBase ^ m"
proof -
  have "big_value w = big_value (take m w) + cDigitBase ^ m * big_value (drop m w)"
    using assms(2) by (intro big_value_split) simp
  moreover have "big_value (drop m w) = w ! m + cDigitBase * (w ! (m + 1) + cDigitBase * w ! (m + 2))"
    using assms(2) big_value_drop_nth[of m w] big_value_drop_nth[of "Suc m" w]
      big_value_drop_nth[of "Suc (Suc m)" w] big_value_high_zero[OF assms(3)]
    by (simp add: numeral_3_eq_3)
  moreover have "big_value (take m w) < cDigitBase ^ m"
    using big_value_less[of "take m w"] assms by (simp add: big_digits_take min_def)
  ultimately show "((w ! (m + 2) * cDigitBase + w ! (m + 1)) * cDigitBase + w ! m) * cDigitBase ^ m \<le> big_value w"
    and "big_value w < ((w ! (m + 2) * cDigitBase + w ! (m + 1)) * cDigitBase + w ! m + 1) * cDigitBase ^ m"
    by (simp_all add: algebra_simps)
qed

lemma estimate_step:
  assumes safe: "divisor_safe v" and n: "n = length v" and u: "big_digits u" "j + n < length u"
    and lt: "big_value (drop j u) < cDigitBase * big_value v"
  shows "let est = estimate_digit (u ! (j + n)) (u ! (j + n - 1)) (u ! (j + n - 2)) (v ! (n - 1)) (v ! (n - 2));
             q = big_value (drop j u) div big_value v
         in q \<le> est \<and> est \<le> q + 1 \<and> est < cDigitBase"
proof -
  obtain m where m: "n = m + 2" using safe n by (metis divisor_safe_def add.commute le_Suc_ex)
  define w where "w = drop j u"
  have w: "big_digits w" "m + 2 < length w" using u m by (auto simp: w_def big_digits_drop)
  have vd: "big_digits v" "length v = m + 2" using safe n m by (auto simp: divisor_safe_def big_wf_def)
  have vl: "big_value v < cDigitBase ^ (m + 2)" using big_value_less[OF vd(1)] vd(2) by simp
  have "cDigitBase * big_value v \<le> cDigitBase * cDigitBase ^ (m + 2)"
    using vl by (intro mult_le_mono2) simp
  with lt have wl: "big_value w < cDigitBase ^ (m + 3)" by (simp add: w_def numeral_3_eq_3)
  have idx: "u ! (j + n) = w ! (m + 2)" "u ! (j + n - 1) = w ! (m + 1)" "u ! (j + n - 2) = w ! m"
    using u(2) m by (simp_all add: w_def)
  have vi: "v ! (n - 1) = v ! (m + 1)" "v ! (n - 2) = v ! m" using m by simp_all
  have s: "v ! m < v ! (m + 1)" using safe vd by (simp add: divisor_safe_def)
  have d: "w ! (m + 1) < cDigitBase" "v ! m < cDigitBase" "w ! m < cDigitBase"
    "v ! (m + 1) < cDigitBase" "w ! (m + 2) < cDigitBase"
    using w vd by (auto intro!: big_digits_nth)
  show ?thesis
    unfolding Let_def idx vi w_def[symmetric]
    using lt s d
    by (intro estimate_digit_correct[OF d(1-3) _ d(4,5) big_value_top3[OF w wl] big_value_top2[OF vd]])
      (auto simp: w_def)
qed

lemma high_digit_zero:
  fixes l h r p :: int
  assumes "l + p * h = r" "0 \<le> l" "l < p" "0 \<le> r" "r < p"
  shows "h = 0"
proof -
  have "h < 1"
  proof (rule ccontr)
    assume "\<not> h < 1"
    then have "p * 1 \<le> p * h" using assms by (intro mult_left_mono) auto
    with assms show False by simp
  qed
  moreover have "- 1 < h"
  proof (rule ccontr)
    assume "\<not> - 1 < h"
    then have "p * h \<le> p * (- 1)" using assms by (intro mult_left_mono) auto
    with assms show False by simp
  qed
  ultimately show ?thesis by simp
qed

text \<open>The slice of a dividend after a loop that changed the value at position \<open>j\<close>.\<close>

lemma slice_change:
  assumes len: "j + n < length u" "length u' = length u" and z: "big_value (drop (j + n + 1) u) = 0"
    and same: "take j u' = take j u" "drop (j + n) u' = drop (j + n) u"
    and val: "int (big_value u') = int (big_value u) + d * int cDigitBase ^ j"
  shows "int (big_value (take n (drop j u'))) = int (big_value (take n (drop j u))) + d"
    and "u' ! (j + n) = u ! (j + n)" and "big_value (drop (j + n + 1) u') = 0"
proof -
  have "drop 1 (drop (j + n) u') = drop 1 (drop (j + n) u)" using same(2) by simp
  then show z': "big_value (drop (j + n + 1) u') = 0" using z by simp
  show h: "u' ! (j + n) = u ! (j + n)"
    using same(2) len by (metis add.right_neutral less_imp_le nth_drop)
  have e: "big_value u = big_value (take j u)
      + cDigitBase ^ j * (big_value (take n (drop j u)) + cDigitBase ^ n * u ! (j + n))"
    using big_value_slice[OF len(1) z] by simp
  have e': "big_value u' = big_value (take j u)
      + cDigitBase ^ j * (big_value (take n (drop j u')) + cDigitBase ^ n * u ! (j + n))"
    using big_value_slice[of j n u'] len z' h same(1) by simp
  have "int cDigitBase ^ j * int (big_value (take n (drop j u')))
      = int cDigitBase ^ j * (int (big_value (take n (drop j u))) + d)"
    using val unfolding e e' by (simp add: algebra_simps)
  then show "int (big_value (take n (drop j u'))) = int (big_value (take n (drop j u))) + d"
    by simp
qed

lemma div_step_final:
  assumes q: "big_digits q" "j < length q" "q ! j = 0" "d < cDigitBase"
    and x: "big_digits x" "length x = length u" "take j x = take j u"
      "big_value (drop (j + n + 1) x) = 0" "j + n < length u"
    and w: "big_value (take n (drop j x)) + big_value v * d = big_value (drop j u)"
      "big_value (take n (drop j x)) < big_value v"
  shows "big_value (x[j + n := 0]) + big_value v * big_value (q[j := d]) = big_value u + big_value v * big_value q
    \<and> big_digits (x[j + n := 0]) \<and> big_digits (q[j := d])
    \<and> big_value (drop j (x[j + n := 0])) < big_value v
    \<and> take j (x[j + n := 0]) = take j u"
proof -
  let ?y = "x[j + n := 0]"
  have y: "j + n < length ?y" "big_value (drop (j + n + 1) ?y) = 0" using x by auto
  have tk: "take n (drop j ?y) = take n (drop j x)" using x(2,5)
    by (simp add: drop_update_swap)
  have dj: "big_value (drop j ?y) = big_value (take n (drop j x))"
    using big_value_slice(1)[OF y] tk x(2,5) by simp
  have vy: "big_value ?y = big_value (take j u) + cDigitBase ^ j * big_value (take n (drop j x))"
    using big_value_slice(2)[OF y] dj x(3) by simp
  have vu: "big_value u = big_value (take j u) + cDigitBase ^ j * big_value (drop j u)"
    using x(5) by (intro big_value_split) simp
  have vq: "big_value (q[j := d]) = big_value q + d * cDigitBase ^ j"
    using big_value_update_nat[OF q(2), of d] q(3) by simp
  have "big_value ?y + big_value v * big_value (q[j := d])
      = big_value (take j u) + cDigitBase ^ j * (big_value (take n (drop j x)) + big_value v * d)
        + big_value v * big_value q"
    unfolding vy vq by (simp add: algebra_simps)
  then show ?thesis
    unfolding w(1) vu[symmetric] using q x w dj by (simp add: big_digits_update)
qed

lemma big_value_slice_less:
  assumes "big_digits x"
  shows "big_value (take n (drop j x)) < cDigitBase ^ n"
proof -
  have "big_value (take n (drop j x)) < cDigitBase ^ length (take n (drop j x))"
    using assms by (intro big_value_less big_digits_take big_digits_drop)
  also have "\<dots> \<le> cDigitBase ^ n" by (intro power_increasing) auto
  finally show ?thesis .
qed

lemma div_step_slices:
  assumes n: "n = length v" "big_digits v" and u: "big_digits u" "j + n < length u"
    and z: "big_value (drop (j + n + 1) u) = 0" and est: "est < cDigitBase"
    and s: "submul_loop v est j u 0 = (x, c)"
  shows "int (big_value (take n (drop j x))) + int cDigitBase ^ n * (int (x ! (j + n)) - c)
      = int (big_value (drop j u)) - int est * int (big_value v)"
    and "big_digits x" "length x = length u" "take j x = take j u" "0 \<le> c" "c < int cDigitBase"
    and "big_value (drop (j + n + 1) x) = 0"
proof -
  have sv: "int (big_value x) = int (big_value u) - (int est * int (big_value v) + 0) * int cDigitBase ^ j
        + c * int cDigitBase ^ (j + length v)
      \<and> big_digits x \<and> 0 \<le> c \<and> c < int cDigitBase \<and> length x = length u
      \<and> take j x = take j u \<and> drop (j + length v) x = drop (j + length v) u"
    using n u est s by (intro submul_loop_value) auto
  then show x: "big_digits x" "length x = length u" "take j x = take j u" "0 \<le> c" "c < int cDigitBase"
    by auto
  have val: "int (big_value x)
      = int (big_value u) + (c * int cDigitBase ^ n - int est * int (big_value v)) * int cDigitBase ^ j"
    using sv n by (simp add: algebra_simps power_add)
  have "drop (j + n) x = drop (j + n) u" using sv n by simp
  note sc = slice_change[OF u(2) x(2) z x(3) this val]
  show "big_value (drop (j + n + 1) x) = 0" by (rule sc)
  show "int (big_value (take n (drop j x))) + int cDigitBase ^ n * (int (x ! (j + n)) - c)
      = int (big_value (drop j u)) - int est * int (big_value v)"
    using sc(1,2) big_value_slice(1)[OF u(2) z] by (simp add: algebra_simps)
qed

lemma div_step_correct:
  assumes safe: "divisor_safe v" and n: "n = length v" and u: "big_digits u" "j + n < length u"
    and lt: "big_value (drop j u) < cDigitBase * big_value v"
    and q: "big_digits q" "j < length q" "q ! j = 0"
  shows "\<exists>u' d. div_step v j (u, q) = (u', q[j := d])
    \<and> big_value u' + big_value v * big_value (q[j := d]) = big_value u + big_value v * big_value q
    \<and> big_digits u' \<and> big_digits (q[j := d]) \<and> big_value (drop j u') < big_value v
    \<and> length u' = length u"
proof -
  let ?B = "cDigitBase" and ?V = "big_value v" and ?W = "big_value (drop j u)"
  let ?d = "?W div ?V"
  define est where "est = estimate_digit (u ! (j + n)) (u ! (j + n - 1)) (u ! (j + n - 2)) (v ! (n - 1)) (v ! (n - 2))"
  have est: "?d \<le> est" "est \<le> ?d + 1" "est < ?B"
    using estimate_step[OF safe n u lt] by (simp_all add: est_def Let_def)
  have V0: "0 < ?V" using lt by (cases ?V) auto
  have vd: "big_digits v" using safe by (simp add: divisor_safe_def big_wf_def)
  have VB: "?V < ?B ^ n" using big_value_less[OF vd] n by simp
  have z: "big_value (drop (j + n + 1) u) = 0"
  proof -
    have "?B * ?V \<le> ?B * ?B ^ n" using VB by (intro mult_le_mono2) simp
    with lt have "?W < ?B ^ (n + 1)" by simp
    then have "big_value (drop (n + 1) (drop j u)) = 0"
      using u(2) by (intro big_value_high_zero) auto
    then show ?thesis by (simp add: add.commute add.left_commute)
  qed
  obtain x c where x: "submul_loop v est j u 0 = (x, c)" by fastforce
  note sl = div_step_slices[OF n vd u z est(3) x]
  define high where "high = int (x ! (j + n)) - c"
  have nn: "0 < n" using safe n by (auto simp: divisor_safe_def)
  have L: "big_value (take n (drop j x)) < ?B ^ n"
    using sl(2) by (rule big_value_slice_less)
  then have Li: "int (big_value (take n (drop j x))) < int ?B ^ n" by (metis of_nat_less_iff of_nat_power)
  have VBi: "int ?V < int ?B ^ n" using VB by (metis of_nat_less_iff of_nat_power)
  have Wd: "int ?W = int ?V * int ?d + int (?W mod ?V)" by (metis mult_div_mod_eq of_nat_add of_nat_mult)
  have m: "?W mod ?V < ?V" using V0 by simp
  have step: "div_step v j (u, q) =
     (if high < 0
      then (let (u'', a) = addback_loop v j x 0 in (u''[j + n := u32i (high + int a)], q[j := u32 (est - 1)]))
      else (x[j + n := u32i high], q[j := u32 est]))"
    by (simp only: div_step_def Let_def prod.case n[symmetric] est_def[symmetric] x high_def)
  have est32: "u32 est = est" "u32 (est - 1) = est - 1" using est(3) by simp_all
  show ?thesis
  proof (cases "est = ?d")
    case True
    have e: "int (big_value (take n (drop j x))) + int ?B ^ n * high = int (?W mod ?V)"
      using sl(1) Wd unfolding high_def True by (simp add: algebra_simps)
    have h: "high = 0" by (rule high_digit_zero[OF e]) (use Li m VBi in auto)
    have Lm: "big_value (take n (drop j x)) = ?W mod ?V" using e h by simp
    have "div_step v j (u, q) = (x[j + n := 0], q[j := ?d])"
      using step h est32(1) True by simp
    then show ?thesis
      using div_step_final[OF q(1,2,3) _ sl(2,3,4,7) u(2), of ?d v] Lm m est(3) True sl(3) by auto
  next
    case False
    then have ed: "est = ?d + 1" using est by simp
    have e: "int (big_value (take n (drop j x))) + int ?B ^ n * high = int (?W mod ?V) - int ?V"
      using sl(1) Wd unfolding high_def ed by (simp add: algebra_simps)
    then have e1: "int (big_value (take n (drop j x))) + int ?B ^ n * (high + 1)
        = int (?W mod ?V) - int ?V + int ?B ^ n" by (simp add: algebra_simps)
    have mi: "0 \<le> int (?W mod ?V)" "int (?W mod ?V) < int ?V" using m by simp_all
    have h: "high + 1 = 0" by (rule high_digit_zero[OF e1]) (use Li mi VBi in linarith)+
    then have hm: "high = - 1" by simp
    obtain y a where y: "addback_loop v j x 0 = (y, a)" by fastforce
    have av: "big_value y + a * ?B ^ (j + length v) = big_value x + (?V + 0) * ?B ^ j
        \<and> big_digits y \<and> a \<le> 1 \<and> length y = length x
        \<and> take j y = take j x \<and> drop (j + length v) y = drop (j + length v) x"
      using vd sl u n y by (intro addback_loop_value) auto
    have "big_value y + a * ?B ^ (j + n) = big_value x + ?V * ?B ^ j" using av n by simp
    then have "int (big_value y) + int a * int ?B ^ (j + n) = int (big_value x) + int ?V * int ?B ^ j"
      by (metis of_nat_add of_nat_mult of_nat_power)
    then have val: "int (big_value y) = int (big_value x) + (int ?V - int a * int ?B ^ n) * int ?B ^ j"
      by (simp add: algebra_simps power_add)
    have xl: "j + n < length x" "length y = length x" "take j y = take j x" "drop (j + n) y = drop (j + n) x"
      using u(2) sl av n by simp_all
    note sc = slice_change[OF xl(1,2) sl(7) xl(3,4) val]
    have yd: "big_digits y" "a \<le> 1" using av by simp_all
    have Ly: "int (big_value (take n (drop j y))) = int (?W mod ?V) + int ?B ^ n * (1 - int a)"
      using sc(1) e unfolding hm by (simp add: algebra_simps)
    have "big_value (take n (drop j y)) < ?B ^ n"
      using yd(1) by (rule big_value_slice_less)
    then have "int (big_value (take n (drop j y))) < int ?B ^ n" by (metis of_nat_less_iff of_nat_power)
    with Ly have "a \<noteq> 0" by (cases "a = 0") auto
    with yd have a: "a = 1" by simp
    with Ly have Lm: "big_value (take n (drop j y)) = ?W mod ?V" by simp
    have "div_step v j (u, q) = (y[j + n := 0], q[j := ?d])"
      using step h y a est32(2) ed by simp
    then show ?thesis
      using div_step_final[OF q(1,2,3) _ yd(1) _ _ sc(3) u(2), of ?d v] Lm m est(3) ed xl sl(3,4) by auto
  qed
qed

section \<open>The quotient loop and the whole division\<close>

lemma div_loop_correct:
  assumes "divisor_safe v" "big_digits u" "big_digits q" "j + length v \<le> length u"
    "big_value (drop j u) < big_value v" "j \<le> length q" "\<forall>i<j. q ! i = 0"
    "div_loop v j (u, q) = (u', q')"
  shows "big_value u' + big_value v * big_value q' = big_value u + big_value v * big_value q
    \<and> big_digits u' \<and> big_digits q' \<and> big_value u' < big_value v"
  using assms
proof (induction j arbitrary: u q)
  case (Suc j)
  have j: "j < length u" "j + length v < length u" "j < length q" "q ! j = 0" using Suc.prems by auto
  have "big_value (drop j u) < cDigitBase * big_value v"
    using big_digits_nth[OF Suc.prems(2) j(1)] Suc.prems(5) by (simp add: big_value_drop_nth[OF j(1)])
  then obtain u1 d where step: "div_step v j (u, q) = (u1, q[j := d])"
    "big_value u1 + big_value v * big_value (q[j := d]) = big_value u + big_value v * big_value q"
    "big_digits u1" "big_digits (q[j := d])" "big_value (drop j u1) < big_value v" "length u1 = length u"
    using div_step_correct[OF Suc.prems(1) refl Suc.prems(2) j(2) _ Suc.prems(3) j(3,4)] by blast
  then show ?case
    using Suc.IH[of u1 "q[j := d]"] Suc.prems by simp
qed simp

lemma normalization_bounds:
  assumes "big_wf b" "b \<noteq> []"
  shows "0 < cDigitBase div (last b + 1)" "cDigitBase div (last b + 1) < cDigitBase"
proof -
  have l: "0 < last b" "last b < cDigitBase"
    using assms last_in_set[of b] by (auto simp: big_wf_def big_digits_def)
  show "0 < cDigitBase div (last b + 1)" using l by (simp add: div_greater_zero_iff)
  show "cDigitBase div (last b + 1) < cDigitBase" using l by (intro div_less_dividend) auto
qed

definition normalized_divisor :: "digits \<Rightarrow> digits" where
  "normalized_divisor b = big_multiplySmall b (u32 (cDigitBase div (last b + 1)))"

lemma scaled_remainder:
  fixes a b N V r q :: nat
  assumes "r + V * q = a * N" "V = b * N" "r < V" "0 < N"
  shows "q = a div b" "r mod N = 0" "r div N = a mod b"
proof -
  have "N dvd r + V * q" "N dvd V * q" unfolding assms(1) by (simp_all add: assms(2))
  then have "N dvd r" using dvd_add_left_iff by blast
  then obtain s where s: "r = N * s" by (rule dvdE)
  have "N * (s + b * q) = N * a" using assms(1,2) s by (simp add: algebra_simps)
  then have a: "a = s + b * q" using assms(4) by simp
  have "N * s < N * b" using assms(2,3) s by (simp add: mult.commute)
  then have "s < b" by simp
  then show "q = a div b" "r mod N = 0" "r div N = a mod b" using a s assms(4) by auto
qed

lemma big_value_top_less:
  assumes "big_wf v" "v \<noteq> []" "big_digits w" "length v \<le> length w + 1"
  shows "big_value (drop (length w + 1 - length v) (w @ [0])) < big_value v"
proof -
  have "big_value (drop (length w + 1 - length v) w) < cDigitBase ^ length (drop (length w + 1 - length v) w)"
    using assms(3) by (intro big_value_less big_digits_drop)
  also have "\<dots> \<le> cDigitBase ^ (length v - 1)" using assms(4) by (intro power_increasing) auto
  also have "\<dots> \<le> big_value v" using assms(1,2) by (rule big_value_ge)
  finally show ?thesis using assms(2) by (cases v) (simp_all add: big_value_append)
qed

lemma big_wf_length_mono:
  "big_wf v \<Longrightarrow> big_wf w \<Longrightarrow> big_value v \<le> big_value w \<Longrightarrow> length v \<le> length w"
  using big_value_mono_length[of w v] by (meson leD not_le)

lemma big_division_long:
  assumes a: "big_wf a" and b: "big_wf b" "b \<noteq> []" "length b \<noteq> 1" "big_value b \<le> big_value a"
    and safe: "divisor_safe (normalized_divisor b)"
  shows "\<exists>q r. big_divideWithRemainder a b = Inr (q, r) \<and> big_wf q \<and> big_wf r
    \<and> big_value q = big_value a div big_value b \<and> big_value r = big_value a mod big_value b"
proof -
  define N where "N = cDigitBase div (last b + 1)"
  have N: "0 < N" "N < cDigitBase" "u32 N = N" using normalization_bounds[OF b(1,2)] by (simp_all add: N_def)
  define w where "w = big_multiplySmall a N"
  define v where "v = big_multiplySmall b N"
  have w: "big_wf w" "big_value w = big_value a * N"
    unfolding w_def using a N(2) by (rule big_multiplySmall_correct)+
  have v: "big_wf v" "big_value v = big_value b * N"
    unfolding v_def using b(1) N(2) by (rule big_multiplySmall_correct)+
  have vs: "divisor_safe v" using safe N(3) by (simp add: normalized_divisor_def v_def N_def)
  have vne: "v \<noteq> []" using vs by (auto simp: divisor_safe_def)
  have len: "length v \<le> length w" using v w b(4) by (intro big_wf_length_mono) auto
  define j where "j = length w + 1 - length v"
  obtain u' q' where l: "div_loop v j (w @ [0], replicate j 0) = (u', q')" by fastforce
  have dl: "big_value u' + big_value v * big_value q' = big_value (w @ [0]) + big_value v * big_value (replicate j 0)
      \<and> big_digits u' \<and> big_digits q' \<and> big_value u' < big_value v"
    using w vne len big_value_top_less[OF v(1) vne, of w]
    by (intro div_loop_correct[OF vs _ _ _ _ _ _ l]) (auto simp: j_def big_wf_def)
  then have qr: "big_value u' + big_value v * big_value q' = big_value a * N"
    using w by (simp add: big_value_append)
  note sr = scaled_remainder[OF qr v(2) _ N(1)]
  have low: "big_value (take (length v) u') = big_value u'"
  proof (cases "length v \<le> length u'")
    case True
    have "big_value v < cDigitBase ^ length v" using v by (intro big_value_less) (simp add: big_wf_def)
    then have "big_value (drop (length v) u') = 0" using dl True by (intro big_value_high_zero) auto
    then show ?thesis using big_value_split[OF True] by simp
  qed simp
  obtain remainder rest where dd: "big_divideSmall (take (length v) u') N = (remainder, rest)" by fastforce
  have rr: "big_wf remainder" "big_value remainder = big_value u' div N" "rest = big_value u' mod N"
    using big_divideSmall_correct[OF _ N(1,2) dd] dl low by (auto simp: big_digits_take)
  have cond: "big_isZero b = False" "(big_compare a b = OrdLess) = False" "(length b = 1) = False"
    using b big_compare_iff[OF a b(1)] by (simp_all add: big_isZero_def)
  have "length (w @ [0]) - length v = j" by (simp add: j_def)
  then have "big_divideWithRemainder a b
      = (if rest \<noteq> 0 then Inl Terminate else Inr (big_trim q', big_trim remainder))"
    by (simp only: big_divideWithRemainder_def cond if_False Let_def N_def[symmetric] N(3)
      w_def[symmetric] v_def[symmetric] l prod.case dd)
  then have "big_divideWithRemainder a b = Inr (big_trim q', big_trim remainder)"
    using sr(2) dl rr by simp
  moreover have "big_wf (big_trim q')" "big_value (big_trim q') = big_value q'"
    "big_wf (big_trim remainder)" "big_value (big_trim remainder) = big_value remainder"
    using big_trim_correct[of q'] big_trim_correct[of remainder] dl rr by (auto simp: big_wf_def)
  ultimately show ?thesis using sr rr dl by auto
qed

lemma big_division_correct:
  assumes a: "big_wf a" and b: "big_wf b" "b \<noteq> []"
    and safe: "length b \<noteq> 1 \<longrightarrow> big_value b \<le> big_value a \<longrightarrow> divisor_safe (normalized_divisor b)"
  shows "\<exists>q r. big_divideWithRemainder a b = Inr (q, r) \<and> big_wf q \<and> big_wf r
    \<and> big_value q = big_value a div big_value b \<and> big_value r = big_value a mod big_value b"
proof (cases "big_value a < big_value b")
  case True
  then show ?thesis
    using a b big_compare_iff[OF a b(1)] by (simp add: big_divideWithRemainder_def big_isZero_def)
next
  case False
  show ?thesis
  proof (cases "length b = 1")
    case True
    then obtain d where d: "b = [d]" by (cases b) auto
    then have d0: "0 < d" "d < cDigitBase" using b by (auto simp: big_wf_def)
    obtain q r where dd: "big_divideSmall a d = (q, r)" by fastforce
    have "big_wf q \<and> big_value q = big_value a div d \<and> r = big_value a mod d"
      using big_divideSmall_correct[OF _ d0 dd] a by (auto simp: big_wf_def)
    moreover have "big_divideWithRemainder a b = Inr (q, big_assign r)"
      using False big_compare_iff[OF a b(1)] d dd
      by (simp add: big_divideWithRemainder_def big_isZero_def)
    ultimately show ?thesis using d big_assign_correct[of r] by simp
  next
    case l: False
    then show ?thesis using False safe by (intro big_division_long[OF a b]) auto
  qed
qed

section \<open>An input on which the estimate is one too low\<close>


lemma estimate_loop_unfold:
  "rm < cDigitBase \<and> u64 (est * second) > u64 (u64 (rm * cDigitBase) + third) \<Longrightarrow>
   estimate_loop vTop second third est rm = estimate_loop vTop second third (est - 1) (u64 (rm + vTop))"
  "\<not> (rm < cDigitBase \<and> u64 (est * second) > u64 (u64 (rm * cDigitBase) + third)) \<Longrightarrow>
   estimate_loop vTop second third est rm = (est, rm)"
  by (subst estimate_loop.simps, erule if_P) (subst estimate_loop.simps, erule if_not_P)

lemma big_trim_unfold:
  "big_trim [] = []"
  "x \<noteq> 0 \<Longrightarrow> big_trim (xs @ [x]) = xs @ [x]"
  "big_trim (xs @ [0]) = big_trim xs"
  by (subst big_trim.simps; simp)+

lemma wrong_estimate:
  "estimate_digit 500000000 500000000 0 500000000 999999999 = 999999998"
  by (simp add: estimate_digit_def estimate_loop_unfold)

lemma wrong_estimate1: "estimate_digit 0 500000000 500000000 500000000 999999999 = 0"
  by (simp add: estimate_digit_def estimate_loop_unfold)
lemma wrong_step1: 
  "div_step [999999999, 500000000] 1 ([0, 500000000, 500000000, 0], [0, 0])
   = ([0, 500000000, 500000000, 0], [0, 0])"
  by (simp add: div_step_def estimate_digit_def estimate_loop_unfold submul_digit_def numeral_2_eq_2)

lemma wrong_step0:
  "div_step [999999999, 500000000] 0 ([0, 500000000, 500000000, 0], [0, 0])
   = ([999999998, 500000002, 0, 0], [999999998, 0])"
  by (simp add: div_step_def wrong_estimate submul_digit_def numeral_2_eq_2)

lemma division_wrong:
  "big_divideWithRemainder [0, 500000000, 500000000] [999999999, 500000000]
    = Inr ([999999998], [999999998, 500000002])"
  by (simp add: big_divideWithRemainder_def big_isZero_def big_compare_def Let_def
    big_multiplySmall_def wrong_step1[unfolded One_nat_def] wrong_step0
    big_divideSmall_def big_trim.simps numeral_2_eq_2)

end
