(* ===== verification/SignMagnitude.thy ===== *)
theory SignMagnitude
  imports Prelude "HOL-Library.Signed_Division"
begin

text \<open>
  Integers stored as a sign and a magnitude. The locale states what the two users of this
  representation (\<open>SignedMagnitude<T>\<close> over a native unsigned type and \<open>BigInteger\<close> over
  \<open>BigUnsignedInteger\<close>) need of their magnitudes and proves the sign rules once. The second
  part is the class template \<open>math::SignedMagnitude<T>\<close> with its clamped operations.
\<close>

section \<open>The sign rules of a magnitude type\<close>

text \<open>The comparison both classes implement on top of the comparison of the magnitudes.\<close>

definition sign_compare :: "bool \<Rightarrow> bool \<Rightarrow> ordering \<Rightarrow> ordering" where
  "sign_compare n1 n2 magnitudeOrdering =
     (if n1 \<noteq> n2 then (if n1 then OrdLess else OrdGreater)
      else if \<not> n1 \<or> magnitudeOrdering = OrdEqual then magnitudeOrdering
      else if magnitudeOrdering = OrdLess then OrdGreater else OrdLess)"

locale magnitude =
  fixes wf :: "'m \<Rightarrow> bool"
    and val :: "'m \<Rightarrow> nat"
    and zero :: 'm
    and compare :: "'m \<Rightarrow> 'm \<Rightarrow> ordering"
  assumes wf_zero: "wf zero"
    and val_zero_iff: "wf m \<Longrightarrow> val m = 0 \<longleftrightarrow> m = zero"
    and compare_val: "wf a \<Longrightarrow> wf b \<Longrightarrow> compare a b = order_of (val a) (val b)"
begin

definition sval :: "bool \<Rightarrow> 'm \<Rightarrow> int" where
  "sval n m = (if n then - int (val m) else int (val m))"

lemma sval_zero [simp]: "sval n zero = 0"
  using val_zero_iff[OF wf_zero] by (simp add: sval_def)

lemma sval_normalize: "sval (n \<and> m \<noteq> zero) m = sval n m"
  using sval_zero by (cases "m = zero") auto

lemma sval_not: "sval (\<not> n) m = - sval n m"
  by (simp add: sval_def)

lemma compare_signed:
  assumes "wf a" "wf b" "a = zero \<Longrightarrow> \<not> na" "b = zero \<Longrightarrow> \<not> nb"
  shows "sign_compare na nb (compare a b) = order_of (sval na a) (sval nb b)"
proof -
  have "na \<Longrightarrow> 0 < val a" "nb \<Longrightarrow> 0 < val b"
    using assms val_zero_iff[of a] val_zero_iff[of b] by auto
  then show ?thesis
    by (auto simp: compare_val[OF assms(1,2)] sign_compare_def order_of_def sval_def)
qed

lemma sum_same_sign: "val c = val a + val b \<Longrightarrow> sval n c = sval n a + sval n b"
  by (simp add: sval_def)

lemma sum_other_sign: "val b \<le> val a \<Longrightarrow> val c = val a - val b \<Longrightarrow> sval n c = sval n a + sval (\<not> n) b"
  by (simp add: sval_def)

lemma product_signed: "val c = val a * val b \<Longrightarrow> sval (na \<noteq> nb) c = sval na a * sval nb b"
  by (simp add: sval_def)

lemma quotient_signed: "val c = val a div val b \<Longrightarrow> sval (na \<noteq> nb) c = sval na a sdiv sval nb b"
  by (cases "val a = 0"; cases "val b = 0")
    (auto simp: sval_def signed_divide_int_def sgn_if zdiv_int)

lemma remainder_signed: "val c = val a mod val b \<Longrightarrow> sval na c = sval na a smod sval nb b"
proof -
  assume c: "val c = val a mod val b"
  have "int (val a) = int (val a) div int (val b) * int (val b) + int (val a) mod int (val b)"
    by simp
  then show ?thesis
    by (cases "val a = 0"; cases "val b = 0")
      (auto simp: sval_def signed_modulo_int_def signed_divide_int_def sgn_if c zmod_int
        simp del: div_mult_mod_eq)
qed

lemma sval_inject:
  assumes "wf a" "wf b" "a = zero \<Longrightarrow> \<not> na" "b = zero \<Longrightarrow> \<not> nb" "sval na a = sval nb b"
  shows "na = nb \<and> val a = val b"
  using assms val_zero_iff[of a] val_zero_iff[of b] by (auto simp: sval_def split: if_splits)

end

section \<open>The class template SignedMagnitude\<close>

text \<open>A native integer type \<open>T\<close>: its width in bits and whether it is signed.\<close>

record int_type =
  it_width :: nat
  it_signed :: bool

definition it_min :: "int_type \<Rightarrow> int" where
  "it_min t = (if it_signed t then - (2 ^ (it_width t - 1)) else 0)"

definition it_max :: "int_type \<Rightarrow> int" where
  "it_max t = (if it_signed t then 2 ^ (it_width t - 1) - 1 else 2 ^ it_width t - 1)"

text \<open>\<open>static_cast<Value>\<close> and \<open>static_cast<Unsigned>\<close>.\<close>

definition to_value :: "int_type \<Rightarrow> int \<Rightarrow> int" where
  "to_value t x =
     (if it_signed t then (x + 2 ^ (it_width t - 1)) mod 2 ^ it_width t - 2 ^ (it_width t - 1)
      else x mod 2 ^ it_width t)"

definition to_unsigned :: "int_type \<Rightarrow> int \<Rightarrow> nat" where
  "to_unsigned t x = nat (x mod 2 ^ it_width t)"

definition toUnsignedAbsolute :: "int_type \<Rightarrow> int \<Rightarrow> nat" where
  "toUnsignedAbsolute t v =
     (if it_signed t \<and> v < 0 then to_unsigned t (0 - int (to_unsigned t v)) else to_unsigned t v)"

record signed_mag =
  sm_negative :: bool
  sm_magnitude :: nat

definition sm_make :: "bool \<Rightarrow> nat \<Rightarrow> signed_mag" where
  "sm_make n m = \<lparr>sm_negative = (m \<noteq> 0 \<and> n), sm_magnitude = m\<rparr>"

definition sm_fromValue :: "int_type \<Rightarrow> int \<Rightarrow> signed_mag" where
  "sm_fromValue t v =
     (if it_signed t \<and> v < 0 then sm_make True (toUnsignedAbsolute t v)
      else sm_make False (to_unsigned t v))"

definition sm_compare :: "signed_mag \<Rightarrow> signed_mag \<Rightarrow> ordering" where
  "sm_compare a b =
     (if sm_negative a \<noteq> sm_negative b then (if sm_negative a then OrdLess else OrdGreater)
      else if sm_magnitude a = sm_magnitude b then OrdEqual
      else (let thisMagnitudeIsSmaller = sm_magnitude a < sm_magnitude b
            in if sm_negative a then (if thisMagnitudeIsSmaller then OrdGreater else OrdLess)
               else (if thisMagnitudeIsSmaller then OrdLess else OrdGreater)))"

definition sm_negated :: "signed_mag \<Rightarrow> signed_mag" where
  "sm_negated a = sm_make (\<not> sm_negative a) (sm_magnitude a)"

definition sm_wouldSaturate :: "int_type \<Rightarrow> signed_mag \<Rightarrow> int \<Rightarrow> int \<Rightarrow> bool" where
  "sm_wouldSaturate t a mn mx \<longleftrightarrow>
     sm_compare a (sm_fromValue t mn) = OrdLess \<or> sm_compare a (sm_fromValue t mx) = OrdGreater"

definition sm_toSaturatingValue :: "int_type \<Rightarrow> signed_mag \<Rightarrow> int \<Rightarrow> int \<Rightarrow> int" where
  "sm_toSaturatingValue t a mn mx =
     (if sm_compare a (sm_fromValue t mn) = OrdLess then mn
      else if sm_compare a (sm_fromValue t mx) = OrdGreater then mx
      else if sm_magnitude a = 0 then 0
      else if sm_negative a then
        (if it_signed t then
           (if sm_magnitude a = 2 ^ (it_width t - 1) then it_min t
            else to_value t (- to_value t (int (sm_magnitude a))))
         else mn)
      else to_value t (int (sm_magnitude a)))"

text \<open>Magnitude arithmetic; \<open>None\<close> is an overflow of the unsigned magnitude, or for the
  division \<open>std::terminate\<close>.\<close>

definition sm_addMagnitude :: "int_type \<Rightarrow> signed_mag \<Rightarrow> signed_mag \<Rightarrow> signed_mag option" where
  "sm_addMagnitude t a b =
     (if sm_negative a = sm_negative b then
        (if int (sm_magnitude a) > (2 ^ it_width t - 1) - int (sm_magnitude b) then None
         else Some (sm_make (sm_negative a) (to_unsigned t (int (sm_magnitude a + sm_magnitude b)))))
      else if sm_magnitude a \<ge> sm_magnitude b
      then Some (sm_make (sm_negative a) (sm_magnitude a - sm_magnitude b))
      else Some (sm_make (sm_negative b) (sm_magnitude b - sm_magnitude a)))"

definition sm_multiplyMagnitude :: "int_type \<Rightarrow> signed_mag \<Rightarrow> signed_mag \<Rightarrow> signed_mag option" where
  "sm_multiplyMagnitude t a b =
     (if sm_magnitude a = 0 \<or> sm_magnitude b = 0 then Some (sm_make False 0)
      else if sm_magnitude a > (2 ^ it_width t - 1) div sm_magnitude b then None
      else Some (sm_make (sm_negative a \<noteq> sm_negative b)
                   (to_unsigned t (int (sm_magnitude a * sm_magnitude b)))))"

definition sm_dividedMagnitude :: "signed_mag \<Rightarrow> signed_mag \<Rightarrow> signed_mag option" where
  "sm_dividedMagnitude a b =
     (if sm_magnitude b = 0 then None
      else Some (sm_make (sm_negative a \<noteq> sm_negative b) (sm_magnitude a div sm_magnitude b)))"

definition sm_moduloMagnitude :: "signed_mag \<Rightarrow> signed_mag \<Rightarrow> signed_mag option" where
  "sm_moduloMagnitude a b =
     (if sm_magnitude b = 0 then None
      else Some (sm_make (sm_negative a) (sm_magnitude a mod sm_magnitude b)))"

definition sm_saturatingAddBounded :: "int_type \<Rightarrow> signed_mag \<Rightarrow> signed_mag \<Rightarrow> int \<Rightarrow> int \<Rightarrow> int" where
  "sm_saturatingAddBounded t a b mn mx =
     (case sm_addMagnitude t a b of
        None \<Rightarrow> if sm_negative a then mn else mx
      | Some r \<Rightarrow> sm_toSaturatingValue t r mn mx)"

definition sm_wouldAddBoundedSaturate :: "int_type \<Rightarrow> signed_mag \<Rightarrow> signed_mag \<Rightarrow> int \<Rightarrow> int \<Rightarrow> bool" where
  "sm_wouldAddBoundedSaturate t a b mn mx =
     (case sm_addMagnitude t a b of None \<Rightarrow> True | Some r \<Rightarrow> sm_wouldSaturate t r mn mx)"

definition sm_saturatingMultiplyBounded :: "int_type \<Rightarrow> signed_mag \<Rightarrow> signed_mag \<Rightarrow> int \<Rightarrow> int \<Rightarrow> int" where
  "sm_saturatingMultiplyBounded t a b mn mx =
     (case sm_multiplyMagnitude t a b of
        None \<Rightarrow> if sm_negative a \<noteq> sm_negative b then mn else mx
      | Some r \<Rightarrow> sm_toSaturatingValue t r mn mx)"

definition sm_wouldMultiplyBoundedSaturate :: "int_type \<Rightarrow> signed_mag \<Rightarrow> signed_mag \<Rightarrow> int \<Rightarrow> int \<Rightarrow> bool" where
  "sm_wouldMultiplyBoundedSaturate t a b mn mx =
     (case sm_multiplyMagnitude t a b of None \<Rightarrow> True | Some r \<Rightarrow> sm_wouldSaturate t r mn mx)"

definition sm_saturatingDivideBounded :: "int_type \<Rightarrow> signed_mag \<Rightarrow> signed_mag \<Rightarrow> int \<Rightarrow> int \<Rightarrow> int option" where
  "sm_saturatingDivideBounded t a b mn mx =
     map_option (\<lambda>r. sm_toSaturatingValue t r mn mx) (sm_dividedMagnitude a b)"

definition sm_wouldDivideBoundedSaturate :: "int_type \<Rightarrow> signed_mag \<Rightarrow> signed_mag \<Rightarrow> int \<Rightarrow> int \<Rightarrow> bool option" where
  "sm_wouldDivideBoundedSaturate t a b mn mx =
     map_option (\<lambda>r. sm_wouldSaturate t r mn mx) (sm_dividedMagnitude a b)"

definition sm_saturatingModuloBounded :: "int_type \<Rightarrow> signed_mag \<Rightarrow> signed_mag \<Rightarrow> int \<Rightarrow> int \<Rightarrow> int option" where
  "sm_saturatingModuloBounded t a b mn mx =
     map_option (\<lambda>r. sm_toSaturatingValue t r mn mx) (sm_moduloMagnitude a b)"

definition sm_wouldModuloBoundedSaturate :: "int_type \<Rightarrow> signed_mag \<Rightarrow> signed_mag \<Rightarrow> int \<Rightarrow> int \<Rightarrow> bool option" where
  "sm_wouldModuloBoundedSaturate t a b mn mx =
     map_option (\<lambda>r. sm_wouldSaturate t r mn mx) (sm_moduloMagnitude a b)"

section \<open>The clamped operations compute the clamped mathematical result\<close>

interpretation sm_mag: magnitude "\<lambda>m::nat. True" "\<lambda>m. m" 0 order_of
  by unfold_locales auto

definition sm_val :: "signed_mag \<Rightarrow> int" where
  "sm_val a = sm_mag.sval (sm_negative a) (sm_magnitude a)"

definition sm_wf :: "int_type \<Rightarrow> signed_mag \<Rightarrow> bool" where
  "sm_wf t a \<longleftrightarrow> sm_magnitude a < 2 ^ it_width t \<and> (sm_magnitude a = 0 \<longrightarrow> \<not> sm_negative a)"

definition it_bounds :: "int_type \<Rightarrow> int \<Rightarrow> int \<Rightarrow> bool" where
  "it_bounds t mn mx \<longleftrightarrow> 0 < it_width t \<and> it_min t \<le> mn \<and> mn \<le> mx \<and> mx \<le> it_max t"

lemma sm_compare_sign:
  "sm_compare a b = sign_compare (sm_negative a) (sm_negative b) (order_of (sm_magnitude a) (sm_magnitude b))"
  by (auto simp: sm_compare_def sign_compare_def order_of_def Let_def)

lemma sm_make_simps [simp]:
  "sm_magnitude (sm_make n m) = m"
  "sm_negative (sm_make n m) \<longleftrightarrow> n \<and> m \<noteq> 0"
  by (auto simp: sm_make_def)

lemma sm_val_make: "sm_val (sm_make n m) = (if n then - int m else int m)"
  by (simp add: sm_val_def sm_mag.sval_normalize) (simp add: sm_mag.sval_def)

lemma sm_wf_make: "m < 2 ^ it_width t \<Longrightarrow> sm_wf t (sm_make n m)"
  by (simp add: sm_wf_def)

lemma two_power_half: "0 < w \<Longrightarrow> (2::int) ^ w = 2 * 2 ^ (w - 1)"
  by (cases w) simp_all

lemma to_unsigned_id: "0 \<le> x \<Longrightarrow> x < 2 ^ it_width t \<Longrightarrow> to_unsigned t x = nat x"
  by (simp add: to_unsigned_def)

lemma to_value_id:
  assumes "0 < it_width t" "it_min t \<le> x" "x \<le> it_max t"
  shows "to_value t x = x"
proof (cases "it_signed t")
  case True
  define h where "h = (2::int) ^ (it_width t - 1)"
  have p: "2 ^ it_width t = 2 * h" using two_power_half[OF assms(1)] by (simp add: h_def)
  have "- h \<le> x" "x < h" using assms True by (auto simp: it_min_def it_max_def h_def)
  then have "(x + h) mod (2 * h) = x + h" by (intro mod_pos_pos_trivial) auto
  with True p show ?thesis by (simp add: to_value_def h_def)
next
  case False
  with assms show ?thesis by (simp add: to_value_def it_min_def it_max_def)
qed

lemma toUnsignedAbsolute_negative:
  assumes "it_signed t" "0 < it_width t" "it_min t \<le> v" "v < 0"
  shows "toUnsignedAbsolute t v = nat (- v)"
proof -
  have b: "- v < 2 ^ it_width t" using assms two_power_half[of "it_width t"]
    by (simp add: it_min_def)
  have "v mod 2 ^ it_width t = v + 2 ^ it_width t"
    using mod_add_self2[of v "2 ^ it_width t"] mod_pos_pos_trivial[of "v + 2 ^ it_width t" "2 ^ it_width t"]
      assms b by simp
  then have "to_unsigned t v = nat (v + 2 ^ it_width t)" by (simp add: to_unsigned_def)
  then have "to_unsigned t (0 - int (to_unsigned t v)) = nat ((- v - 2 ^ it_width t) mod 2 ^ it_width t)"
    using b by (simp add: to_unsigned_def)
  also have "(- v - 2 ^ it_width t) mod 2 ^ it_width t = (- v) mod 2 ^ it_width t"
    using mod_diff_right_eq[of "- v" "2 ^ it_width t" "2 ^ it_width t"] by simp
  also have "\<dots> = - v" using assms b by simp
  finally show ?thesis using assms by (simp add: toUnsignedAbsolute_def)
qed

lemma sm_fromValue_correct:
  assumes "0 < it_width t" "it_min t \<le> v" "v \<le> it_max t"
  shows "sm_val (sm_fromValue t v) = v" "sm_wf t (sm_fromValue t v)"
proof -
  have b: "v < 2 ^ it_width t" "- v < 2 ^ it_width t" "\<not> it_signed t \<Longrightarrow> 0 \<le> v"
    using assms two_power_half[of "it_width t"] by (auto simp: it_min_def it_max_def split: if_splits)
  show "sm_val (sm_fromValue t v) = v"
    using assms b by (auto simp: sm_fromValue_def sm_val_make toUnsignedAbsolute_negative to_unsigned_id)
  have "nat (- v) < 2 ^ it_width t" "nat v < 2 ^ it_width t"
    using b by (simp_all add: nat_less_iff)
  then show "sm_wf t (sm_fromValue t v)"
    using assms b by (auto simp: sm_fromValue_def toUnsignedAbsolute_negative to_unsigned_id intro!: sm_wf_make)
qed

lemma sm_compare_val:
  assumes "sm_wf t a" "sm_wf t b"
  shows "sm_compare a b = order_of (sm_val a) (sm_val b)"
  using assms sm_mag.compare_signed[where a = "sm_magnitude a" and b = "sm_magnitude b"
      and na = "sm_negative a" and nb = "sm_negative b"]
  by (simp add: sm_compare_sign sm_val_def sm_wf_def)

lemma sm_bounds_compare:
  assumes "sm_wf t a" "it_bounds t mn mx"
  shows "sm_compare a (sm_fromValue t mn) = order_of (sm_val a) mn"
    and "sm_compare a (sm_fromValue t mx) = order_of (sm_val a) mx"
proof -
  have b: "0 < it_width t" "it_min t \<le> mn" "mn \<le> it_max t" "it_min t \<le> mx" "mx \<le> it_max t"
    using assms(2) by (auto simp: it_bounds_def)
  show "sm_compare a (sm_fromValue t mn) = order_of (sm_val a) mn"
    using sm_compare_val[OF assms(1) sm_fromValue_correct(2)[OF b(1-3)]] sm_fromValue_correct(1)[OF b(1-3)] by simp
  show "sm_compare a (sm_fromValue t mx) = order_of (sm_val a) mx"
    using sm_compare_val[OF assms(1) sm_fromValue_correct(2)[OF b(1,4,5)]] sm_fromValue_correct(1)[OF b(1,4,5)] by simp
qed

lemma sm_wouldSaturate_correct:
  assumes "sm_wf t a" "it_bounds t mn mx"
  shows "sm_wouldSaturate t a mn mx \<longleftrightarrow> sm_val a \<notin> {mn..mx}"
  by (auto simp: sm_wouldSaturate_def sm_bounds_compare[OF assms])

lemma sm_toSaturatingValue_correct:
  assumes "sm_wf t a" "it_bounds t mn mx"
  shows "sm_toSaturatingValue t a mn mx = clamp mn mx (sm_val a)"
proof (cases "sm_val a < mn \<or> mx < sm_val a")
  case True
  then show ?thesis
    using assms(2) by (auto simp: sm_toSaturatingValue_def sm_bounds_compare[OF assms] clamp_def it_bounds_def)
next
  case False
  define m where "m = sm_magnitude a"
  have r: "it_min t \<le> sm_val a" "sm_val a \<le> it_max t" "0 < it_width t"
    using False assms(2) by (auto simp: it_bounds_def)
  have v: "sm_val a = (if sm_negative a then - int m else int m)"
    by (simp add: sm_val_def sm_mag.sval_def m_def)
  have "sm_toSaturatingValue t a mn mx = sm_val a"
  proof (cases "m = 0 \<or> \<not> sm_negative a")
    case True
    then show ?thesis
      using False v r to_value_id[OF r(3), of "int m"]
      by (auto simp: sm_toSaturatingValue_def sm_bounds_compare[OF assms] m_def)
  next
    case n: False
    then have sg: "it_signed t" using r v by (auto simp: it_min_def split: if_splits)
    have le: "int m \<le> 2 ^ (it_width t - 1)" using n r v sg by (simp add: it_min_def)
    show ?thesis
    proof (cases "m = 2 ^ (it_width t - 1)")
      case True
      then show ?thesis
        using n False v sg by (simp add: sm_toSaturatingValue_def sm_bounds_compare[OF assms] m_def[symmetric] it_min_def)
    next
      case False': False
      have "int m \<noteq> int (2 ^ (it_width t - 1))" using False' by (simp only: of_nat_eq_iff not_False_eq_True)
      then have "int m \<le> it_max t" using le sg by (simp add: it_max_def)
      moreover have "it_min t \<le> int m"
        using sg order_trans[of "- (2 ^ (it_width t - 1))" 0 "int m"] by (simp add: it_min_def)
      ultimately have "to_value t (int m) = int m" using r(3) by (intro to_value_id) auto
      moreover have "to_value t (- int m) = - int m" using r v n by (intro to_value_id) auto
      ultimately show ?thesis
        using n False False' v sg
        by (simp add: sm_toSaturatingValue_def sm_bounds_compare[OF assms] m_def[symmetric])
    qed
  qed
  then show ?thesis using False by (simp add: clamp_def)
qed

text \<open>An overflow of the magnitude means that the result is outside every range of the type.\<close>

lemma it_bounds_power:
  assumes "it_bounds t mn mx"
  shows "- (2 ^ it_width t) < mn" "mx < 2 ^ it_width t"
proof -
  have h: "(2::int) ^ it_width t = 2 * 2 ^ (it_width t - 1)" "(0::int) < 2 ^ (it_width t - 1)"
    using assms two_power_half[of "it_width t"] by (simp_all add: it_bounds_def)
  then show "- (2 ^ it_width t) < mn" "mx < 2 ^ it_width t"
    using assms by (auto simp: it_bounds_def it_min_def it_max_def split: if_splits)
qed

lemma sm_overflow_outside:
  assumes "it_bounds t mn mx" "2 ^ it_width t \<le> m" "v = (if n then - int m else int m)"
  shows "v \<notin> {mn..mx}" "clamp mn mx v = (if n then mn else mx)"
proof -
  define p where "p = (2::int) ^ it_width t"
  have "p \<le> int m" using assms(2) by (simp add: p_def)
  moreover have "- p < mn" "mx < p" using it_bounds_power[OF assms(1)] by (simp_all add: p_def)
  ultimately show "v \<notin> {mn..mx}" "clamp mn mx v = (if n then mn else mx)"
    using assms(1,3) by (auto simp: clamp_def it_bounds_def)
qed

lemma sm_addMagnitude_correct:
  assumes "sm_wf t a" "sm_wf t b"
  shows "case sm_addMagnitude t a b of
      None \<Rightarrow> \<exists>m. 2 ^ it_width t \<le> m \<and> sm_val a + sm_val b = (if sm_negative a then - int m else int m)
    | Some r \<Rightarrow> sm_wf t r \<and> sm_val r = sm_val a + sm_val b"
proof -
  define x y where "x = sm_magnitude a" and "y = sm_magnitude b"
  have xy: "x < 2 ^ it_width t" "y < 2 ^ it_width t" using assms by (simp_all add: sm_wf_def x_def y_def)
  have va: "sm_val a = (if sm_negative a then - int x else int x)"
    "sm_val b = (if sm_negative b then - int y else int y)"
    by (simp_all add: sm_val_def sm_mag.sval_def x_def y_def)
  have lim: "int x > (2 ^ it_width t - 1) - int y \<longleftrightarrow> 2 ^ it_width t \<le> x + y"
  proof -
    have "int x > (2 ^ it_width t - 1) - int y \<longleftrightarrow> int (2 ^ it_width t) \<le> int (x + y)" by auto
    then show ?thesis by (simp only: of_nat_le_iff)
  qed
  have un: "to_unsigned t (int (x + y)) = x + y" if "x + y < 2 ^ it_width t"
  proof -
    have "int (x + y) < int (2 ^ it_width t)" using that by (simp only: of_nat_less_iff)
    then show ?thesis by (simp add: to_unsigned_id)
  qed
  show ?thesis
    using xy by (auto simp: sm_addMagnitude_def x_def[symmetric] y_def[symmetric] lim va un sm_val_make
        simp del: of_nat_add intro!: sm_wf_make exI[of _ "x + y"])
qed

lemma sm_multiplyMagnitude_correct:
  assumes "sm_wf t a" "sm_wf t b"
  shows "case sm_multiplyMagnitude t a b of
      None \<Rightarrow> \<exists>m. 2 ^ it_width t \<le> m
        \<and> sm_val a * sm_val b = (if sm_negative a \<noteq> sm_negative b then - int m else int m)
    | Some r \<Rightarrow> sm_wf t r \<and> sm_val r = sm_val a * sm_val b"
proof -
  define x y where "x = sm_magnitude a" and "y = sm_magnitude b"
  have va: "sm_val a = (if sm_negative a then - int x else int x)"
    "sm_val b = (if sm_negative b then - int y else int y)"
    by (simp_all add: sm_val_def sm_mag.sval_def x_def y_def)
  have lim: "(2 ^ it_width t - 1) div y < x \<longleftrightarrow> 2 ^ it_width t \<le> x * y" if "0 < y"
    using that div_less_iff_less_mult[of y "2 ^ it_width t - 1" x] by (auto simp: mult.commute)
  have un: "to_unsigned t (int (x * y)) = x * y" if "x * y < 2 ^ it_width t"
  proof -
    have "int (x * y) < int (2 ^ it_width t)" using that by (simp only: of_nat_less_iff)
    then have "to_unsigned t (int (x * y)) = nat (int (x * y))" by (intro to_unsigned_id) simp_all
    then show ?thesis by (simp only: nat_int)
  qed
  have z: "sm_wf t (sm_make False 0)" "sm_val (sm_make False 0) = 0"
    by (simp_all add: sm_wf_def sm_val_make)
  have v: "sm_val a * sm_val b = (if sm_negative a \<noteq> sm_negative b then - int (x * y) else int (x * y))"
    by (simp add: va)
  consider "x = 0 \<or> y = 0" | "0 < x" "0 < y" "2 ^ it_width t \<le> x * y" | "0 < x" "0 < y" "x * y < 2 ^ it_width t"
    by linarith
  then show ?thesis
  proof cases
    case 1
    then show ?thesis using z by (auto simp: sm_multiplyMagnitude_def x_def[symmetric] y_def[symmetric] va)
  next
    case 2
    then have "sm_multiplyMagnitude t a b = None"
      using lim by (simp add: sm_multiplyMagnitude_def x_def[symmetric] y_def[symmetric])
    with 2 v show ?thesis by auto
  next
    case 3
    then have "sm_multiplyMagnitude t a b = Some (sm_make (sm_negative a \<noteq> sm_negative b) (x * y))"
      using lim un by (simp add: sm_multiplyMagnitude_def x_def[symmetric] y_def[symmetric])
    with 3 v show ?thesis by (simp add: sm_val_make sm_wf_make)
  qed
qed

lemma sm_divide_correct:
  assumes "sm_wf t a" "sm_wf t b" "sm_val b \<noteq> 0"
  shows "\<exists>r. sm_dividedMagnitude a b = Some r \<and> sm_wf t r \<and> sm_val r = sm_val a sdiv sm_val b"
    and "\<exists>r. sm_moduloMagnitude a b = Some r \<and> sm_wf t r \<and> sm_val r = sm_val a smod sm_val b"
proof -
  have y: "sm_magnitude b \<noteq> 0"
    using assms(3) by (auto simp: sm_val_def sm_mag.sval_def split: if_splits)
  have lt: "sm_magnitude a div sm_magnitude b < 2 ^ it_width t" "sm_magnitude a mod sm_magnitude b < 2 ^ it_width t"
    using assms(1) le_less_trans[OF div_le_dividend] le_less_trans[OF mod_less_eq_dividend]
    by (auto simp: sm_wf_def)
  have v: "sm_val (sm_make n m) = sm_mag.sval n m" for n m
    by (simp add: sm_val_make sm_mag.sval_def)
  have "sm_val (sm_make (sm_negative a \<noteq> sm_negative b) (sm_magnitude a div sm_magnitude b)) = sm_val a sdiv sm_val b"
    unfolding v sm_val_def[of a] sm_val_def[of b] by (rule sm_mag.quotient_signed) simp
  then show "\<exists>r. sm_dividedMagnitude a b = Some r \<and> sm_wf t r \<and> sm_val r = sm_val a sdiv sm_val b"
    using y lt by (simp add: sm_dividedMagnitude_def sm_wf_make)
  have "sm_val (sm_make (sm_negative a) (sm_magnitude a mod sm_magnitude b)) = sm_val a smod sm_val b"
    unfolding v sm_val_def[of a] sm_val_def[of b] by (rule sm_mag.remainder_signed) simp
  then show "\<exists>r. sm_moduloMagnitude a b = Some r \<and> sm_wf t r \<and> sm_val r = sm_val a smod sm_val b"
    using y lt by (simp add: sm_moduloMagnitude_def sm_wf_make)
qed

text \<open>The two ways the clamped operations end.\<close>

lemma clamped_result:
  assumes "it_bounds t mn mx"
    and "case res of None \<Rightarrow> \<exists>m. 2 ^ it_width t \<le> m \<and> v = (if n then - int m else int m)
      | Some r \<Rightarrow> sm_wf t r \<and> sm_val r = v"
  shows "(case res of None \<Rightarrow> if n then mn else mx | Some r \<Rightarrow> sm_toSaturatingValue t r mn mx) = clamp mn mx v"
    and "(case res of None \<Rightarrow> True | Some r \<Rightarrow> sm_wouldSaturate t r mn mx) \<longleftrightarrow> v \<notin> {mn..mx}"
proof -
  have "(case res of None \<Rightarrow> if n then mn else mx | Some r \<Rightarrow> sm_toSaturatingValue t r mn mx) = clamp mn mx v
    \<and> ((case res of None \<Rightarrow> True | Some r \<Rightarrow> sm_wouldSaturate t r mn mx) \<longleftrightarrow> v \<notin> {mn..mx})"
  proof (cases res)
    case None
    then obtain m where "2 ^ it_width t \<le> m" "v = (if n then - int m else int m)" using assms(2) by auto
    from sm_overflow_outside[OF assms(1) this] None show ?thesis by simp
  next
    case (Some r)
    then have "sm_wf t r" "sm_val r = v" using assms(2) by auto
    with Some show ?thesis
      using sm_toSaturatingValue_correct[OF _ assms(1)] sm_wouldSaturate_correct[OF _ assms(1)] by simp
  qed
  then show "(case res of None \<Rightarrow> if n then mn else mx | Some r \<Rightarrow> sm_toSaturatingValue t r mn mx) = clamp mn mx v"
    and "(case res of None \<Rightarrow> True | Some r \<Rightarrow> sm_wouldSaturate t r mn mx) \<longleftrightarrow> v \<notin> {mn..mx}"
    by simp_all
qed

text \<open>C34: Adding or multiplying two sign-and-magnitude values and clamping the result to a
  range of the native type gives the mathematical sum or product clamped to that range, for
  signed and unsigned types of every width, and the accompanying test says exactly whether
  the mathematical result lies outside the range.\<close>

theorem sm_add_multiply_clamped:
  assumes "sm_wf t a" "sm_wf t b" "it_bounds t mn mx"
  shows "sm_saturatingAddBounded t a b mn mx = clamp mn mx (sm_val a + sm_val b)
    \<and> (sm_wouldAddBoundedSaturate t a b mn mx \<longleftrightarrow> sm_val a + sm_val b \<notin> {mn..mx})
    \<and> sm_saturatingMultiplyBounded t a b mn mx = clamp mn mx (sm_val a * sm_val b)
    \<and> (sm_wouldMultiplyBoundedSaturate t a b mn mx \<longleftrightarrow> sm_val a * sm_val b \<notin> {mn..mx})"
  unfolding sm_saturatingAddBounded_def sm_wouldAddBoundedSaturate_def
    sm_saturatingMultiplyBounded_def sm_wouldMultiplyBoundedSaturate_def
  using clamped_result[OF assms(3) sm_addMagnitude_correct[OF assms(1,2)]]
    clamped_result[OF assms(3) sm_multiplyMagnitude_correct[OF assms(1,2)]]
  by blast

lemma sm_add_multiply_clamped_witness:
  "sm_saturatingAddBounded \<lparr>it_width = 8, it_signed = True\<rparr>
     (sm_make True 100) (sm_make True 50) (- 128) 127 = - 128
   \<and> sm_saturatingMultiplyBounded \<lparr>it_width = 8, it_signed = True\<rparr>
     (sm_make True 100) (sm_make True 50) (- 128) 127 = 127"
  using sm_add_multiply_clamped[of "\<lparr>it_width = 8, it_signed = True\<rparr>" "sm_make True 100" "sm_make True 50" "- 128" 127]
  by (simp add: sm_wf_def it_bounds_def it_min_def it_max_def sm_val_make clamp_def)

text \<open>Division and modulo of two sign-and-magnitude values compute the truncated quotient and
  the remainder with the sign of the dividend, as the native operators do, clamped to the
  given range; the smallest value divided by minus one is clamped and does not wrap around.\<close>

theorem sm_divide_modulo_clamped:
  assumes "sm_wf t a" "sm_wf t b" "it_bounds t mn mx" "sm_val b \<noteq> 0"
  shows "sm_saturatingDivideBounded t a b mn mx = Some (clamp mn mx (sm_val a sdiv sm_val b))
    \<and> sm_wouldDivideBoundedSaturate t a b mn mx = Some (sm_val a sdiv sm_val b \<notin> {mn..mx})
    \<and> sm_saturatingModuloBounded t a b mn mx = Some (clamp mn mx (sm_val a smod sm_val b))
    \<and> sm_wouldModuloBoundedSaturate t a b mn mx = Some (sm_val a smod sm_val b \<notin> {mn..mx})"
proof -
  obtain q r where "sm_dividedMagnitude a b = Some q" "sm_wf t q" "sm_val q = sm_val a sdiv sm_val b"
    "sm_moduloMagnitude a b = Some r" "sm_wf t r" "sm_val r = sm_val a smod sm_val b"
    using sm_divide_correct[OF assms(1,2,4)] by blast
  then show ?thesis
    using sm_toSaturatingValue_correct[OF _ assms(3)] sm_wouldSaturate_correct[OF _ assms(3)]
    by (simp add: sm_saturatingDivideBounded_def sm_wouldDivideBoundedSaturate_def
        sm_saturatingModuloBounded_def sm_wouldModuloBoundedSaturate_def)
qed

lemma sm_divide_modulo_clamped_witness:
  "sm_saturatingDivideBounded \<lparr>it_width = 8, it_signed = True\<rparr>
     (sm_make True 128) (sm_make True 1) (- 128) 127 = Some 127
   \<and> sm_saturatingModuloBounded \<lparr>it_width = 8, it_signed = True\<rparr>
     (sm_make True 128) (sm_make True 1) (- 128) 127 = Some 0"
  using sm_divide_modulo_clamped[of "\<lparr>it_width = 8, it_signed = True\<rparr>" "sm_make True 128" "sm_make True 1" "- 128" 127]
  by (simp add: sm_wf_def it_bounds_def it_min_def it_max_def sm_val_make clamp_def signed_divide_int_def
    signed_modulo_int_def)

end
