(* ===== verification/IntegerText.thy ===== *)
theory IntegerText
  imports SignMagnitude
begin

text \<open>
  Integers as text: the formatter \<open>text/impl/IntegerAppend.hpp\<close> (digit field, zero fill,
  precision, digit groups, sign and base prefix) and the scanner
  \<open>StringCharReader::scanInteger\<close> with the typed readers built on it. A character is its code
  point, a text a list of characters; a reader is the list of characters that are left and
  the position of the first of them.
\<close>

section \<open>Characters and integer bases\<close>

type_synonym char32 = nat

datatype letter_case = Lowercase | Uppercase

datatype integer_base = Decimal | Hexadecimal | Binary | Octal

fun baseFactor :: "integer_base \<Rightarrow> nat" where
  "baseFactor Decimal = 10"
| "baseFactor Hexadecimal = 16"
| "baseFactor Binary = 2"
| "baseFactor Octal = 8"

definition digitGroupSize :: "integer_base \<Rightarrow> nat" where
  "digitGroupSize b = (if b = Hexadecimal \<or> b = Binary then 4 else 3)"

fun prefixChar :: "integer_base \<Rightarrow> letter_case \<Rightarrow> char32" where
  "prefixChar Hexadecimal lc = (if lc = Uppercase then 88 else 120)"
| "prefixChar Binary lc = (if lc = Uppercase then 66 else 98)"
| "prefixChar Octal lc = (if lc = Uppercase then 79 else 111)"
| "prefixChar Decimal lc = 0"

definition fromPrefixChar :: "char32 \<Rightarrow> integer_base option" where
  "fromPrefixChar c =
     (if c = 120 \<or> c = 88 then Some Hexadecimal
      else if c = 98 \<or> c = 66 then Some Binary
      else if c = 111 \<or> c = 79 then Some Octal else None)"

definition fromDigitValue :: "nat \<Rightarrow> letter_case \<Rightarrow> char32" where
  "fromDigitValue digit lc =
     (if digit < 10 then 48 + digit
      else (let firstLetter = if lc = Uppercase then 65 else 97 in firstLetter + (digit - 10)))"

definition digitValue :: "char32 \<Rightarrow> nat option" where
  "digitValue c =
     (if c \<ge> 48 \<and> c \<le> 57 then Some (c - 48)
      else if c \<ge> 65 \<and> c \<le> 90 then Some (c - 65 + 10)
      else if c \<ge> 97 \<and> c \<le> 122 then Some (c - 97 + 10) else None)"

definition digitValueIn :: "integer_base \<Rightarrow> char32 \<Rightarrow> nat option" where
  "digitValueIn b c =
     (case digitValue c of Some v \<Rightarrow> if v < baseFactor b then Some v else None | None \<Rightarrow> None)"

definition endOfData :: char32 where "endOfData = 4294967295"

definition isSignal :: "char32 \<Rightarrow> bool" where "isSignal c \<longleftrightarrow> c \<ge> 4294967040"

section \<open>Formatting\<close>

datatype sign_mode = NegativeOnly | Always | SpaceSign

text \<open>The field width and the precision are raw \<open>CpLength\<close> values.\<close>

record integer_format =
  fmt_base :: integer_base
  fmt_zeroFill :: bool
  fmt_separator :: bool
  fmt_basePrefix :: bool
  fmt_letterCase :: letter_case
  fmt_fieldWidth :: nat
  fmt_precision :: "nat option"
  fmt_signMode :: sign_mode

definition defaultFormat :: integer_format where
  "defaultFormat = \<lparr>fmt_base = Decimal, fmt_zeroFill = False, fmt_separator = False,
     fmt_basePrefix = False, fmt_letterCase = Lowercase, fmt_fieldWidth = 0,
     fmt_precision = None, fmt_signMode = NegativeOnly\<rparr>"

text \<open>The digit loop, least significant digit first, and the grouped digit field.\<close>

function digit_loop :: "nat \<Rightarrow> nat \<Rightarrow> nat list" where
  "digit_loop base m =
     (if m div base = 0 \<or> base \<le> 1 then [m mod base] else m mod base # digit_loop base (m div base))"
  by pat_completeness auto
termination
  by (relation "measure (\<lambda>(base, m). m)") (auto simp: div_greater_zero_iff intro!: div_less_dividend)

declare digit_loop.simps [simp del]

definition digit_separator :: "integer_format \<Rightarrow> nat \<Rightarrow> nat \<Rightarrow> bool" where
  "digit_separator fmt paddedDigitCount index =
     (let groupSize = digitGroupSize (fmt_base fmt);
          firstGroupSize = (if paddedDigitCount mod groupSize = 0 then groupSize
                            else paddedDigitCount mod groupSize)
      in fmt_separator fmt \<and> index > 0 \<and> index \<ge> firstGroupSize
         \<and> (index - firstGroupSize) mod groupSize = 0)"

definition appendDigitField :: "char32 list \<Rightarrow> nat \<Rightarrow> integer_format \<Rightarrow> char32 list" where
  "appendDigitField digits zeroPadCount fmt =
     (let digitCount = length digits;
          paddedDigitCount = digitCount + zeroPadCount
      in concat (map (\<lambda>index.
           (if digit_separator fmt paddedDigitCount index then [39] else []) @
           [if index < zeroPadCount then 48
            else digits ! (digitCount - 1 - (index - zeroPadCount))]) [0..<paddedDigitCount]))"

definition pad_counts :: "integer_format \<Rightarrow> nat \<Rightarrow> nat \<times> nat" where
  "pad_counts fmt digitCount =
     (let precision = (case fmt_precision fmt of Some p \<Rightarrow> p | None \<Rightarrow> 0);
          precisionZeroPadCount = (if precision > digitCount then precision - digitCount else 0);
          precisionDigitCount = digitCount + precisionZeroPadCount;
          missingDigits = (if fmt_fieldWidth fmt > precisionDigitCount
                           then fmt_fieldWidth fmt - precisionDigitCount else 0);
          fieldZeroPadCount = (if fmt_zeroFill fmt then missingDigits else 0);
          spacePadCount = (if fmt_zeroFill fmt then 0 else missingDigits)
      in (precisionZeroPadCount + fieldZeroPadCount, spacePadCount))"

definition appendInteger :: "int_type \<Rightarrow> int \<Rightarrow> integer_format \<Rightarrow> char32 list" where
  "appendInteger t v fmt =
     (let sm = sm_fromValue t v;
          digits = map (\<lambda>d. fromDigitValue d (fmt_letterCase fmt))
                     (digit_loop (baseFactor (fmt_base fmt)) (sm_magnitude sm));
          (zeroPadCount, spacePadCount) = pad_counts fmt (length digits);
          prefix = prefixChar (fmt_base fmt) (fmt_letterCase fmt)
      in replicate spacePadCount 32 @
         (if sm_negative sm then [45]
          else if fmt_signMode fmt = Always then [43]
          else if fmt_signMode fmt = SpaceSign then [32] else []) @
         (if fmt_basePrefix fmt \<and> prefix \<noteq> 0 then [48, prefix] else []) @
         appendDigitField digits zeroPadCount fmt)"

section \<open>Scanning\<close>

datatype read_number_status =
  Success | NoDigits | TooFewDigits | TooManyDigits | Overflow | ParseError

text \<open>\<open>maximumDigits\<close> is \<open>None\<close> for the infinite length.\<close>

record parse_options =
  opt_fixedBase :: "integer_base option"
  opt_allowSeparator :: bool
  opt_ignoreTrailing :: bool
  opt_acceptMinus :: bool
  opt_ignorePlus :: bool
  opt_stopAtMaximum :: bool
  opt_minimumDigits :: nat
  opt_maximumDigits :: "nat option"
  opt_separator :: char32

record read_integer_result =
  res_value :: nat
  res_digitCount :: nat
  res_isNegative :: bool
  res_base :: integer_base
  res_position :: nat
  res_status :: read_number_status

definition parserDefault :: parse_options where
  "parserDefault = \<lparr>opt_fixedBase = None, opt_allowSeparator = False, opt_ignoreTrailing = False,
     opt_acceptMinus = False, opt_ignorePlus = False, opt_stopAtMaximum = False,
     opt_minimumDigits = 0, opt_maximumDigits = None, opt_separator = 39\<rparr>"

definition stringDefault :: parse_options where
  "stringDefault = parserDefault\<lparr>opt_acceptMinus := True, opt_ignorePlus := True\<rparr>"

definition fixedDecimal :: "nat \<Rightarrow> parse_options" where
  "fixedDecimal n = parserDefault\<lparr>opt_fixedBase := Some Decimal, opt_minimumDigits := n,
     opt_maximumDigits := Some n, opt_stopAtMaximum := True\<rparr>"

definition fixedHex :: "nat \<Rightarrow> parse_options" where
  "fixedHex n = parserDefault\<lparr>opt_fixedBase := Some Hexadecimal, opt_minimumDigits := n,
     opt_maximumDigits := Some n, opt_stopAtMaximum := True\<rparr>"

definition current_char :: "char32 list \<Rightarrow> char32" where
  "current_char cs = (case cs of [] \<Rightarrow> endOfData | c # _ \<Rightarrow> c)"

definition atMaximum :: "parse_options \<Rightarrow> nat \<Rightarrow> bool" where
  "atMaximum opts digitCount = (case opt_maximumDigits opts of None \<Rightarrow> False | Some m \<Rightarrow> digitCount \<ge> m)"

text \<open>The digit loop: the error status, or the value, the digit count and whether the last
  character was a separator; and the characters that are left.\<close>

fun scan_loop :: "parse_options \<Rightarrow> integer_base \<Rightarrow> char32 list \<Rightarrow> nat \<Rightarrow> nat \<Rightarrow> bool
    \<Rightarrow> (read_number_status + nat \<times> nat \<times> bool) \<times> char32 list" where
  "scan_loop opts base [] result digitCount lastSep = (Inr (result, digitCount, lastSep), [])"
| "scan_loop opts base (c # cs) result digitCount lastSep =
     (if atMaximum opts digitCount \<and> opt_stopAtMaximum opts
      then (Inr (result, digitCount, lastSep), c # cs)
      else if c = endOfData then (Inr (result, digitCount, lastSep), c # cs)
      else if isSignal c then (Inl ParseError, c # cs)
      else if opt_allowSeparator opts \<and> c = opt_separator opts then
        (if digitCount = 0 \<or> lastSep then (Inl ParseError, c # cs)
         else scan_loop opts base cs result digitCount True)
      else (case digitValueIn base c of
          None \<Rightarrow> if lastSep then (Inl ParseError, c # cs)
                  else (Inr (result, digitCount, lastSep), c # cs)
        | Some digit \<Rightarrow>
            if atMaximum opts digitCount then (Inl TooManyDigits, c # cs)
            else if result * baseFactor base > u64_max then (Inl Overflow, c # cs)
            else if result * baseFactor base + digit > u64_max then (Inl Overflow, c # cs)
            else scan_loop opts base cs (result * baseFactor base + digit) (Suc digitCount) False))"

text \<open>The sign and the base prefix.\<close>

definition scan_sign :: "parse_options \<Rightarrow> char32 list \<Rightarrow> (bool \<times> char32 list) option" where
  "scan_sign opts cs =
     (if current_char cs = 45 then (if opt_acceptMinus opts then Some (True, tl cs) else None)
      else if current_char cs = 43 then (if opt_ignorePlus opts then Some (False, tl cs) else None)
      else Some (False, cs))"

text \<open>The result is the prefix base, if any, whether it is refused, and what is left.\<close>

definition scan_prefix :: "parse_options \<Rightarrow> char32 list \<Rightarrow> integer_base option \<times> bool \<times> char32 list" where
  "scan_prefix opts cs =
     (if current_char cs = 48 then
        (let prefix = current_char (tl cs);
             prefixedBase = (if isSignal prefix then None else fromPrefixChar prefix)
         in case prefixedBase of
              Some b \<Rightarrow> if opt_fixedBase opts \<noteq> None then (None, True, tl cs) else (Some b, False, tl (tl cs))
            | None \<Rightarrow> (None, False, cs))
      else (None, False, cs))"

definition scan_fail :: "nat \<Rightarrow> char32 list \<Rightarrow> integer_base \<Rightarrow> read_number_status \<Rightarrow> char32 list
    \<Rightarrow> read_integer_result \<times> char32 list" where
  "scan_fail start cs base status rest =
     (\<lparr>res_value = 0, res_digitCount = 0, res_isNegative = False, res_base = base,
       res_position = start + (length cs - length rest), res_status = status\<rparr>, cs)"

definition scanInteger :: "parse_options \<Rightarrow> nat \<Rightarrow> char32 list \<Rightarrow> read_integer_result \<times> char32 list" where
  "scanInteger opts start cs =
     (if (case opt_maximumDigits opts of None \<Rightarrow> False | Some m \<Rightarrow> opt_minimumDigits opts > m)
      then scan_fail start cs Decimal ParseError cs
      else case scan_sign opts cs of
        None \<Rightarrow> scan_fail start cs Decimal ParseError cs
      | Some (isNegative, cs1) \<Rightarrow>
          (case scan_prefix opts cs1 of (prefixedBase, refused, cs2) \<Rightarrow>
             if refused then scan_fail start cs Decimal ParseError cs2
             else
               let base = (case opt_fixedBase opts of Some b \<Rightarrow> b
                           | None \<Rightarrow> (case prefixedBase of Some b \<Rightarrow> b | None \<Rightarrow> Decimal))
               in case scan_loop opts base cs2 0 0 False of
                    (Inl status, rest) \<Rightarrow> scan_fail start cs base status rest
                  | (Inr (result, digitCount, lastSep), rest) \<Rightarrow>
                      if digitCount = 0 then scan_fail start cs base NoDigits rest
                      else if lastSep then scan_fail start cs base ParseError rest
                      else if digitCount < opt_minimumDigits opts
                      then scan_fail start cs base TooFewDigits rest
                      else (\<lparr>res_value = result, res_digitCount = digitCount,
                              res_isNegative = isNegative, res_base = base,
                              res_position = start, res_status = Success\<rparr>, rest)))"

datatype number_error = ReadFailed read_number_status | TrailingCharacters

abbreviation int64_type :: int_type where
  "int64_type \<equiv> \<lparr>it_width = 64, it_signed = True\<rparr>"

text \<open>The typed reader: the value or the exception, and the characters that are left.\<close>

definition readIntegerOrThrow :: "int_type \<Rightarrow> parse_options \<Rightarrow> char32 list \<Rightarrow> (number_error + int) \<times> char32 list" where
  "readIntegerOrThrow t opts cs =
     (case scanInteger opts 0 cs of (r, rest) \<Rightarrow>
        if res_status r \<noteq> Success then (Inl (ReadFailed (res_status r)), rest)
        else if it_signed t then
          (let m = sm_make (res_isNegative r) (res_value r)
           in if sm_wouldSaturate int64_type m (it_min t) (it_max t)
              then (Inl (ReadFailed Overflow), cs)
              else (Inr (to_value t (sm_toSaturatingValue int64_type m (it_min t) (it_max t))), rest))
        else if res_isNegative r then (Inl (ReadFailed Overflow), cs)
        else if int (res_value r) > it_max t then (Inl (ReadFailed Overflow), cs)
        else (Inr (int (res_value r)), rest))"

definition parseInteger :: "int_type \<Rightarrow> parse_options \<Rightarrow> char32 list \<Rightarrow> number_error + int" where
  "parseInteger t opts cs =
     (case readIntegerOrThrow t opts cs of
        (Inl e, rest) \<Rightarrow> Inl e
      | (Inr v, rest) \<Rightarrow> if \<not> opt_ignoreTrailing opts \<and> rest \<noteq> [] then Inl TrailingCharacters else Inr v)"

section \<open>Digits and characters\<close>

definition be_value :: "nat \<Rightarrow> nat list \<Rightarrow> nat" where
  "be_value b ds = foldl (\<lambda>r d. r * b + d) 0 ds"

lemma be_value_snoc [simp]: "be_value b [] = 0" "be_value b (ds @ [d]) = be_value b ds * b + d"
  by (simp_all add: be_value_def)

lemma be_value_zeros [simp]: "be_value b (replicate z 0 @ ds) = be_value b ds"
proof -
  have "foldl (\<lambda>r d. r * b + d) 0 (replicate z 0) = 0" by (induction z) simp_all
  then show ?thesis by (simp add: be_value_def)
qed

lemma be_value_mono:
  assumes "0 < b" shows "be_value b xs \<le> be_value b (xs @ ys)"
proof (induction ys rule: rev_induct)
  case (snoc y ys)
  have "be_value b (xs @ ys) * 1 \<le> be_value b (xs @ ys) * b" using assms by (intro mult_le_mono2) simp
  also have "\<dots> \<le> be_value b (xs @ ys @ [y])" using be_value_snoc(2)[of b "xs @ ys" y] by simp
  finally show ?case using snoc by simp
qed simp

lemma be_value_take_Suc:
  "i < length ds \<Longrightarrow> be_value b (take (Suc i) ds) = be_value b (take i ds) * b + ds ! i"
  by (simp add: take_Suc_conv_app_nth)

lemma be_value_take_le: "0 < b \<Longrightarrow> be_value b (take i ds) \<le> be_value b ds"
  using be_value_mono[of b "take i ds" "drop i ds"] by simp

lemma digit_loop_correct:
  assumes "2 \<le> b"
  shows "be_value b (rev (digit_loop b m)) = m \<and> (\<forall>d \<in> set (digit_loop b m). d < b) \<and> digit_loop b m \<noteq> []"
proof (induction m rule: less_induct)
  case (less m)
  show ?case
  proof (cases "m div b = 0")
    case True
    then show ?thesis using assms by (subst (1 2 3) digit_loop.simps) (auto simp: div_eq_0_iff be_value_def)
  next
    case False
    then have "m div b < m" using assms by (intro div_less_dividend) (auto intro: gr0I)
    with less have IH: "be_value b (rev (digit_loop b (m div b))) = m div b"
      "\<forall>d \<in> set (digit_loop b (m div b)). d < b" by auto
    have "digit_loop b m = m mod b # digit_loop b (m div b)"
      using False assms by (subst digit_loop.simps) simp
    then show ?thesis using IH assms by simp
  qed
qed

lemma baseFactor_bounds: "2 \<le> baseFactor b" "baseFactor b \<le> 16" "0 < baseFactor b"
  by (cases b; simp)+

lemma digit_char:
  assumes "d < baseFactor b"
  shows "digitValueIn b (fromDigitValue d lc) = Some d" "\<not> isSignal (fromDigitValue d lc)"
    "fromDigitValue d lc \<noteq> endOfData" "47 < fromDigitValue d lc" "fromDigitValue d lc < 103"
  using assms baseFactor_bounds(2)[of b]
  by (auto simp: digitValueIn_def fromDigitValue_def digitValue_def isSignal_def endOfData_def Let_def)

lemma digit_zero_char [simp]: "fromDigitValue 0 lc = 48"
  by (simp add: fromDigitValue_def)

section \<open>The scanner reads a digit field\<close>

definition field_text :: "integer_format \<Rightarrow> nat list \<Rightarrow> nat \<Rightarrow> char32 list" where
  "field_text fmt ds i = concat (map (\<lambda>index.
     (if digit_separator fmt (length ds) index then [39] else []) @
     [fromDigitValue (ds ! index) (fmt_letterCase fmt)]) [i..<length ds])"

lemma appendDigitField_text:
  "appendDigitField (map (\<lambda>d. fromDigitValue d (fmt_letterCase fmt)) ls) z fmt
    = field_text fmt (replicate z 0 @ rev ls) 0"
proof -
  have "map (\<lambda>index.
           (if digit_separator fmt (length ls + z) index then [39] else []) @
           [if index < z then 48
            else map (\<lambda>d. fromDigitValue d (fmt_letterCase fmt)) ls ! (length ls - 1 - (index - z))]) [0..<length ls + z]
    = map (\<lambda>index.
     (if digit_separator fmt (length ls + z) index then [39] else []) @
     [fromDigitValue ((replicate z 0 @ rev ls) ! index) (fmt_letterCase fmt)]) [0..<length ls + z]"
    by (intro map_cong refl arg_cong2[where f = append]) (auto simp: nth_append rev_nth)
  moreover have "length (replicate z 0 @ rev ls) = length ls + z" by simp
  ultimately show ?thesis by (simp only: appendDigitField_def field_text_def Let_def length_map)
qed

lemma field_text_step:
  "i < length ds \<Longrightarrow> field_text fmt ds i
    = (if digit_separator fmt (length ds) i then [39] else []) @
      fromDigitValue (ds ! i) (fmt_letterCase fmt) # field_text fmt ds (Suc i)"
  "i \<ge> length ds \<Longrightarrow> field_text fmt ds i = []"
  by (simp_all add: field_text_def upt_conv_Cons)

definition field_opts :: "integer_format \<Rightarrow> parse_options \<Rightarrow> bool" where
  "field_opts fmt opts \<longleftrightarrow> opt_maximumDigits opts = None
    \<and> (fmt_separator fmt \<longrightarrow> opt_allowSeparator opts) \<and> opt_separator opts = 39"

lemma scan_loop_field:
  assumes "field_opts fmt opts" "\<forall>d \<in> set ds. d < baseFactor b" "be_value (baseFactor b) ds \<le> u64_max" "i \<le> length ds"
  shows "scan_loop opts b (field_text fmt ds i @ rest) (be_value (baseFactor b) (take i ds)) i False
    = scan_loop opts b rest (be_value (baseFactor b) ds) (length ds) False"
  using assms(4)
proof (induction "length ds - i" arbitrary: i)
  case 0
  then show ?case by (simp add: field_text_step)
next
  case (Suc k)
  let ?B = "baseFactor b" and ?c = "fromDigitValue (ds ! i) (fmt_letterCase fmt)"
  from Suc have i: "i < length ds" by simp
  with assms(2) have d: "ds ! i < ?B" by simp
  note ch = digit_char[OF d, of "fmt_letterCase fmt"]
  have "be_value ?B (take (Suc i) ds) \<le> u64_max"
    using be_value_take_le[OF baseFactor_bounds(3)] assms(3) by (rule le_trans)
  then have le: "be_value ?B (take i ds) * ?B + ds ! i \<le> u64_max" by (simp add: be_value_take_Suc[OF i])
  have step: "scan_loop opts b (?c # xs) (be_value ?B (take i ds)) i s
      = scan_loop opts b xs (be_value ?B (take (Suc i) ds)) (Suc i) False" for xs s
    using ch le assms(1) be_value_take_Suc[OF i, of ?B] by (auto simp: field_opts_def atMaximum_def)
  have sep: "scan_loop opts b (39 # xs) r i False = scan_loop opts b xs r i True"
    if "digit_separator fmt (length ds) i" for xs r
  proof -
    have "0 < i" "fmt_separator fmt" using that by (auto simp: digit_separator_def Let_def)
    then show ?thesis using assms(1)
      by (simp add: field_opts_def atMaximum_def endOfData_def isSignal_def)
  qed
  have "scan_loop opts b (field_text fmt ds (Suc i) @ rest) (be_value ?B (take (Suc i) ds)) (Suc i) False
    = scan_loop opts b rest (be_value ?B ds) (length ds) False"
    using Suc.hyps(2) i by (intro Suc.hyps(1)) simp_all
  then show ?case
    using sep step by (simp add: field_text_step(1)[OF i])
qed

section \<open>Reading a formatted integer back\<close>

text \<open>A format the scanner can read back: no blanks in front, signs and separators the options
  accept, and a base the scanner can know. A plain hexadecimal field is not among them: a
  field that starts with \<open>0b\<close> is taken for a binary prefix.\<close>

definition readable_format :: "integer_format \<Rightarrow> parse_options \<Rightarrow> int \<Rightarrow> bool" where
  "readable_format fmt opts v \<longleftrightarrow>
     field_opts fmt opts \<and> opt_minimumDigits opts = 0
     \<and> (fmt_zeroFill fmt \<or> fmt_fieldWidth fmt \<le> 1)
     \<and> (v < 0 \<longrightarrow> opt_acceptMinus opts)
     \<and> (0 \<le> v \<longrightarrow> fmt_signMode fmt \<noteq> SpaceSign \<and> (fmt_signMode fmt = Always \<longrightarrow> opt_ignorePlus opts))
     \<and> (if fmt_base fmt = Decimal then opt_fixedBase opts \<in> {None, Some Decimal}
        else if fmt_basePrefix fmt then opt_fixedBase opts = None
        else fmt_base fmt \<noteq> Hexadecimal \<and> opt_fixedBase opts = Some (fmt_base fmt))"

lemma field_text_chars:
  assumes "\<forall>d \<in> set ds. d < 10"
  shows "\<forall>c \<in> set (field_text fmt ds i). c = 39 \<or> 48 \<le> c \<and> c < 58"
  using assms by (auto simp: field_text_def fromDigitValue_def)

lemma field_text_head:
  assumes "\<forall>d \<in> set ds. d < baseFactor b" "ds \<noteq> []"
  shows "\<exists>c cs. field_text fmt ds 0 = c # cs \<and> 47 < c \<and> c < 103"
proof -
  have "ds ! 0 < baseFactor b" using assms by simp
  from digit_char(4,5)[OF this] show ?thesis
    using assms(2) field_text_step(1)[of 0 ds fmt] by (auto simp: digit_separator_def)
qed

lemma no_prefix_char: "c = 39 \<or> 48 \<le> c \<and> c < 58 \<Longrightarrow> fromPrefixChar c = None"
  by (auto simp: fromPrefixChar_def)

lemma scan_prefix_plain:
  assumes "\<forall>c \<in> set cs. c = 39 \<or> 48 \<le> c \<and> c < 58"
  shows "scan_prefix opts cs = (None, False, cs)"
proof (cases cs)
  case (Cons a as)
  have "isSignal (current_char as) \<or> fromPrefixChar (current_char as) = None"
    using assms Cons no_prefix_char by (cases as) (auto simp: current_char_def isSignal_def endOfData_def)
  with Cons show ?thesis by (auto simp: scan_prefix_def current_char_def Let_def)
qed (simp add: scan_prefix_def current_char_def endOfData_def)

lemma scan_prefix_base:
  assumes "b \<noteq> Decimal" "opt_fixedBase opts = None"
  shows "scan_prefix opts (48 # prefixChar b lc # cs) = (Some b, False, cs)"
  using assms by (cases b) (auto simp: scan_prefix_def current_char_def isSignal_def fromPrefixChar_def)

lemma scan_sign_field:
  assumes "47 < c" "c < 103"
  shows "opt_acceptMinus opts \<Longrightarrow> scan_sign opts (45 # c # cs) = Some (True, c # cs)"
    and "opt_ignorePlus opts \<Longrightarrow> scan_sign opts (43 # c # cs) = Some (False, c # cs)"
    and "scan_sign opts (c # cs) = Some (False, c # cs)"
  using assms by (auto simp: scan_sign_def current_char_def)

lemma pad_counts_no_space:
  assumes "fmt_zeroFill fmt \<or> fmt_fieldWidth fmt \<le> 1" "0 < n"
  shows "snd (pad_counts fmt n) = 0"
  using assms by (auto simp: pad_counts_def Let_def split: option.splits)

lemma scanInteger_format:
  assumes t: "0 < it_width t" "it_width t \<le> 64" "it_min t \<le> v" "v \<le> it_max t"
    and fmt: "readable_format fmt opts v"
  shows "\<exists>n. scanInteger opts start (appendInteger t v fmt) =
    (\<lparr>res_value = nat \<bar>v\<bar>, res_digitCount = n, res_isNegative = (v < 0), res_base = fmt_base fmt,
      res_position = start, res_status = Success\<rparr>, [])"
proof -
  define b where "b = fmt_base fmt"
  define m where "m = nat \<bar>v\<bar>"
  have smv: "sm_val (sm_fromValue t v) = v" "sm_wf t (sm_fromValue t v)"
    using sm_fromValue_correct[OF t(1,3,4)] by auto
  then have sm: "sm_magnitude (sm_fromValue t v) = m" "sm_negative (sm_fromValue t v) \<longleftrightarrow> v < 0"
    by (auto simp: sm_val_def sm_mag.sval_def sm_wf_def m_def split: if_splits)
  have "m < 2 ^ it_width t" using smv(2) sm(1) by (simp add: sm_wf_def)
  also have "(2::nat) ^ it_width t \<le> 2 ^ 64" using t(2) by (intro power_increasing) auto
  finally have m64: "m \<le> u64_max" by simp
  obtain z sp where zs: "pad_counts fmt (length (digit_loop (baseFactor b) m)) = (z, sp)" by fastforce
  define ds where "ds = replicate z 0 @ rev (digit_loop (baseFactor b) m)"
  note dl = digit_loop_correct[OF baseFactor_bounds(1)[of b], of m]
  have ds: "be_value (baseFactor b) ds = m" "\<forall>d \<in> set ds. d < baseFactor b" "ds \<noteq> []"
    using dl baseFactor_bounds(3)[of b] by (auto simp: ds_def)
  have sp0: "sp = 0"
    using pad_counts_no_space[of fmt "length (digit_loop (baseFactor b) m)"] dl fmt zs
    by (auto simp: readable_format_def)
  define field where "field = field_text fmt ds 0"
  define pfx where "pfx = (if fmt_basePrefix fmt \<and> b \<noteq> Decimal then [48, prefixChar b (fmt_letterCase fmt)] else [])"
  define sgn where "sgn = (if v < 0 then [45::nat] else if fmt_signMode fmt = Always then [43] else [])"
  have pc: "0 < prefixChar b (fmt_letterCase fmt) \<longleftrightarrow> b \<noteq> Decimal"
    "prefixChar b (fmt_letterCase fmt) = 0 \<longleftrightarrow> b = Decimal" by (cases b; simp)+
  have ssp: "\<not> v < 0 \<Longrightarrow> fmt_signMode fmt \<noteq> SpaceSign" using fmt by (simp add: readable_format_def)
  have ftext: "appendInteger t v fmt = sgn @ pfx @ field"
    using ssp sp0
    by (simp add: appendInteger_def Let_def sm b_def[symmetric] zs appendDigitField_text
        ds_def[symmetric] field_def[symmetric] pc pfx_def sgn_def)
  obtain c cs where fc: "pfx @ field = c # cs" "47 < c" "c < 103"
  proof (cases "pfx = []")
    case True
    then show ?thesis using that field_text_head[OF ds(2,3), of fmt] by (auto simp: field_def)
  next
    case False
    then show ?thesis using that by (auto simp: pfx_def split: if_splits)
  qed
  have s: "scan_sign opts (sgn @ pfx @ field) = Some (v < 0, pfx @ field)"
    using fmt scan_sign_field[OF fc(2,3)] by (auto simp: fc(1) sgn_def readable_format_def)
  have plain: "scan_prefix opts field = (None, False, field)" if "b \<noteq> Hexadecimal"
  proof -
    have "\<forall>d \<in> set ds. d < 10" using ds(2) that by (cases b) auto
    then show ?thesis unfolding field_def by (intro scan_prefix_plain field_text_chars)
  qed
  have p: "\<exists>pb. scan_prefix opts (pfx @ field) = (pb, False, field)
    \<and> (case opt_fixedBase opts of Some b \<Rightarrow> b | None \<Rightarrow> (case pb of Some b \<Rightarrow> b | None \<Rightarrow> Decimal)) = b"
    using fmt plain scan_prefix_base[of b opts "fmt_letterCase fmt" field]
    by (auto simp: readable_format_def b_def[symmetric] pfx_def split: if_splits)
  then obtain pb where pb: "scan_prefix opts (pfx @ field) = (pb, False, field)"
    "(case opt_fixedBase opts of Some b \<Rightarrow> b | None \<Rightarrow> (case pb of Some b \<Rightarrow> b | None \<Rightarrow> Decimal)) = b" by blast
  have fo: "field_opts fmt opts" "opt_minimumDigits opts = 0" using fmt by (auto simp: readable_format_def)
  have l: "scan_loop opts b field 0 0 False = (Inr (m, length ds, False), [])"
    using scan_loop_field[OF fo(1) ds(2), of 0 "[]"] m64 by (simp add: ds(1) field_def)
  have "length ds \<noteq> 0" using ds(3) by simp
  then have "scanInteger opts start (sgn @ pfx @ field) =
    (\<lparr>res_value = m, res_digitCount = length ds, res_isNegative = (v < 0), res_base = b,
      res_position = start, res_status = Success\<rparr>, [])"
    using fo by (simp add: scanInteger_def s pb l field_opts_def Let_def)
  then show ?thesis by (auto simp: ftext m_def b_def)
qed

lemma int64_bounds:
  assumes "0 < it_width t" "it_width t \<le> 64" "it_signed t"
  shows "it_bounds int64_type (it_min t) (it_max t)"
proof -
  have "(2::int) ^ (it_width t - 1) \<le> 2 ^ 63" using assms by (intro power_increasing) auto
  then have "(2::int) ^ (it_width t - 1) \<le> 9223372036854775808" by simp
  moreover have "(0::int) < 2 ^ (it_width t - 1)" by simp
  ultimately show ?thesis
    using assms by (auto simp: it_bounds_def it_min_def it_max_def)
qed

text \<open>C33: Formatting an integer of any native type of at most 64 bits and parsing the text gives the
  integer back, for every base, zero fill, precision, digit grouping, sign mode and letter
  case the parse options can understand.\<close>

theorem integer_text_roundtrip:
  assumes "0 < it_width t" "it_width t \<le> 64" "it_min t \<le> v" "v \<le> it_max t"
    and "readable_format fmt opts v"
  shows "parseInteger t opts (appendInteger t v fmt) = Inr v"
proof -
  obtain n where sc: "scanInteger opts 0 (appendInteger t v fmt) =
    (\<lparr>res_value = nat \<bar>v\<bar>, res_digitCount = n, res_isNegative = (v < 0), res_base = fmt_base fmt,
      res_position = 0, res_status = Success\<rparr>, [])"
    using scanInteger_format[OF assms, of 0] by blast
  show ?thesis
  proof (cases "it_signed t")
    case True
    define m where "m = sm_make (v < 0) (nat \<bar>v\<bar>)"
    have b: "it_bounds int64_type (it_min t) (it_max t)" by (rule int64_bounds[OF assms(1,2) True])
    have v64: "- 9223372036854775808 \<le> v" "v \<le> 9223372036854775807"
      using b assms(3,4) by (auto simp: it_bounds_def it_min_def[of int64_type] it_max_def[of int64_type])
    then have w: "sm_wf int64_type m" by (auto simp: m_def sm_wf_def)
    have mv: "sm_val m = v" by (simp add: m_def sm_val_make)
    have "clamp (it_min t) (it_max t) v = v" using assms(3,4) by (simp add: clamp_def)
    then show ?thesis
      using True sm_wouldSaturate_correct[OF w b] sm_toSaturatingValue_correct[OF w b] assms(3,4)
        to_value_id[OF assms(1,3,4)]
      by (simp add: parseInteger_def readIntegerOrThrow_def sc Let_def mv m_def[symmetric])
  next
    case False
    then have "0 \<le> v" using assms(3) by (simp add: it_min_def)
    with False assms(4) show ?thesis
      by (simp add: parseInteger_def readIntegerOrThrow_def sc)
  qed
qed

lemma integer_text_roundtrip_witness:
  "parseInteger \<lparr>it_width = 16, it_signed = True\<rparr> (stringDefault\<lparr>opt_allowSeparator := True\<rparr>)
    (appendInteger \<lparr>it_width = 16, it_signed = True\<rparr> (- 32768)
      (defaultFormat\<lparr>fmt_base := Hexadecimal, fmt_basePrefix := True, fmt_separator := True\<rparr>)) = Inr (- 32768)"
  by (rule integer_text_roundtrip)
    (simp_all add: it_min_def it_max_def readable_format_def field_opts_def defaultFormat_def
      stringDefault_def parserDefault_def)

text \<open>Four hexadecimal digits read with the options of a JSON escape sequence give the
  16-bit value they spell, in both letter cases and whatever follows, unless the first two
  digits are a zero and a letter B; with those two digits the reader always fails with a
  parse error.\<close>

lemma fixed_hex_four_digits:
  assumes "d1 < 16" "d2 < 16" "d3 < 16" "d4 < 16"
  shows "fst (readIntegerOrThrow \<lparr>it_width = 16, it_signed = False\<rparr> (fixedHex 4)
      (map (\<lambda>d. fromDigitValue d lc) [d1, d2, d3, d4] @ rest))
    = (if d1 = 0 \<and> d2 = 11 then Inl (ReadFailed ParseError)
       else Inr (int (((d1 * 16 + d2) * 16 + d3) * 16 + d4)))"
proof -
  let ?c = "\<lambda>d. fromDigitValue d lc"
  have ch: "digitValueIn Hexadecimal (?c d) = Some d" "\<not> isSignal (?c d)" "?c d \<noteq> endOfData"
      "?c d \<noteq> 45" "?c d \<noteq> 43" if "d < 16" for d
    using digit_char[of d Hexadecimal lc] that by auto
  have c48: "?c d = 48 \<longleftrightarrow> d = 0" if "d < 16" for d
    using that by (auto simp: fromDigitValue_def Let_def)
  have cp: "fromPrefixChar (?c d) = (if d = 11 then Some Binary else None)" if "d < 16" for d
    using that by (auto simp: fromDigitValue_def fromPrefixChar_def Let_def)
  have sc: "scan_loop (fixedHex 4) Hexadecimal (map ?c [d1, d2, d3, d4] @ rest) 0 0 False
      = (Inr (((d1 * 16 + d2) * 16 + d3) * 16 + d4, 4, False), rest)"
    using assms by (cases rest) (simp_all add: ch fixedHex_def parserDefault_def atMaximum_def)
  show ?thesis
  proof (cases "d1 = 0 \<and> d2 = 11")
    case True
    then show ?thesis using assms ch c48 cp
      by (simp add: readIntegerOrThrow_def scanInteger_def scan_sign_def current_char_def scan_prefix_def
        scan_fail_def fixedHex_def parserDefault_def)
  next
    case False
    then have "scan_prefix (fixedHex 4) (map ?c [d1, d2, d3, d4] @ rest) = (None, False, map ?c [d1, d2, d3, d4] @ rest)"
      using assms ch(2) c48[OF assms(1)] cp[OF assms(2)] by (auto simp: scan_prefix_def current_char_def Let_def)
    moreover have "scan_sign (fixedHex 4) (map ?c [d1, d2, d3, d4] @ rest) = Some (False, map ?c [d1, d2, d3, d4] @ rest)"
      using ch(4,5)[OF assms(1)] by (simp add: scan_sign_def current_char_def)
    moreover have "((d1 * 16 + d2) * 16 + d3) * 16 + d4 \<le> 65535" using assms by simp
    ultimately show ?thesis using False sc
      by (simp add: readIntegerOrThrow_def scanInteger_def fixedHex_def parserDefault_def it_max_def)
  qed
qed

lemma fixed_hex_four_digits_witness:
  "fst (readIntegerOrThrow \<lparr>it_width = 16, it_signed = False\<rparr> (fixedHex 4)
      (map (\<lambda>d. fromDigitValue d Lowercase) [0, 11, 8, 5] @ [34])) = Inl (ReadFailed ParseError)
   \<and> fst (readIntegerOrThrow \<lparr>it_width = 16, it_signed = False\<rparr> (fixedHex 4)
      (map (\<lambda>d. fromDigitValue d Lowercase) [0, 10, 8, 5] @ [34])) = Inr 2693"
  using fixed_hex_four_digits[of 0 11 8 5 Lowercase "[34]"] fixed_hex_four_digits[of 0 10 8 5 Lowercase "[34]"]
  by simp

end
