(* ===== verification/BigSigned.thy ===== *)
theory BigSigned
  imports BigDivision IntegerText
begin

text \<open>
  The signed big integer of \<open>src/src/erbsland/math/BigInteger.cpp\<close>, a sign and a
  \<open>BigUnsignedInteger\<close> magnitude, and the decimal text of both classes. The sign rules come
  from the locale \<open>magnitude\<close>, interpreted on the digit vectors.
\<close>

section \<open>Model of BigInteger\<close>

record big_integer =
  bi_magnitude :: digits
  bi_negative :: bool

definition bi_normalizeSign :: "big_integer \<Rightarrow> big_integer" where
  "bi_normalizeSign a = (if big_isZero (bi_magnitude a) then a\<lparr>bi_negative := False\<rparr> else a)"

definition bi_fromSignAndMagnitude :: "bool \<Rightarrow> digits \<Rightarrow> big_integer" where
  "bi_fromSignAndMagnitude n m = bi_normalizeSign \<lparr>bi_magnitude = m, bi_negative = n\<rparr>"

definition bi_fromInt :: "int_type \<Rightarrow> int \<Rightarrow> big_integer" where
  "bi_fromInt t v =
     (if it_signed t then \<lparr>bi_magnitude = big_assign (toUnsignedAbsolute t v), bi_negative = v < 0\<rparr>
      else \<lparr>bi_magnitude = big_assign (to_unsigned t v), bi_negative = False\<rparr>)"

definition bi_compare :: "big_integer \<Rightarrow> big_integer \<Rightarrow> ordering" where
  "bi_compare a b =
     (if bi_negative a \<noteq> bi_negative b then (if bi_negative a then OrdLess else OrdGreater)
      else (let magnitudeOrdering = big_compare (bi_magnitude a) (bi_magnitude b)
            in if \<not> bi_negative a \<or> magnitudeOrdering = OrdEqual then magnitudeOrdering
               else if magnitudeOrdering = OrdLess then OrdGreater else OrdLess))"

definition bi_isZero :: "big_integer \<Rightarrow> bool" where
  "bi_isZero a \<longleftrightarrow> big_isZero (bi_magnitude a)"

definition bi_isOne :: "big_integer \<Rightarrow> bool" where
  "bi_isOne a \<longleftrightarrow> \<not> bi_negative a \<and> big_isOne (bi_magnitude a)"

definition bi_add :: "big_integer \<Rightarrow> big_integer \<Rightarrow> big_error + big_integer" where
  "bi_add a b =
     (if bi_negative a = bi_negative b
      then Inr (a\<lparr>bi_magnitude := big_add (bi_magnitude a) (bi_magnitude b)\<rparr>)
      else (case big_compare (bi_magnitude a) (bi_magnitude b) of
          OrdEqual \<Rightarrow> Inr \<lparr>bi_magnitude = [], bi_negative = False\<rparr>
        | OrdGreater \<Rightarrow>
            sbind (big_subtract (bi_magnitude a) (bi_magnitude b)) (\<lambda>m. Inr (a\<lparr>bi_magnitude := m\<rparr>))
        | OrdLess \<Rightarrow>
            sbind (big_subtract (bi_magnitude b) (bi_magnitude a))
              (\<lambda>m. Inr \<lparr>bi_magnitude = m, bi_negative = bi_negative b\<rparr>)))"

definition bi_negated :: "big_integer \<Rightarrow> big_integer" where
  "bi_negated a = bi_fromSignAndMagnitude (\<not> bi_negative a) (bi_magnitude a)"

definition bi_subtract :: "big_integer \<Rightarrow> big_integer \<Rightarrow> big_error + big_integer" where
  "bi_subtract a b = bi_add a (bi_negated b)"

definition bi_multiply :: "big_integer \<Rightarrow> big_integer \<Rightarrow> big_error + big_integer" where
  "bi_multiply a b =
     sbind (big_multiply (bi_magnitude a) (bi_magnitude b))
       (\<lambda>m. Inr (bi_normalizeSign \<lparr>bi_magnitude = m, bi_negative = bi_negative a \<noteq> bi_negative b\<rparr>))"

definition bi_divideAssign :: "big_integer \<Rightarrow> big_integer \<Rightarrow> big_error + big_integer" where
  "bi_divideAssign a b =
     sbind (big_divide (bi_magnitude a) (bi_magnitude b))
       (\<lambda>m. Inr (bi_normalizeSign \<lparr>bi_magnitude = m, bi_negative = bi_negative a \<noteq> bi_negative b\<rparr>))"

text \<open>\<open>divideGetRemainder\<close> leaves the quotient in the object and returns the remainder.\<close>

definition bi_divideGetRemainder :: "big_integer \<Rightarrow> big_integer \<Rightarrow> big_error + big_integer \<times> big_integer" where
  "bi_divideGetRemainder a b =
     sbind (big_divideWithRemainder (bi_magnitude a) (bi_magnitude b))
       (\<lambda>(q, r). Inr (bi_normalizeSign \<lparr>bi_magnitude = q, bi_negative = bi_negative a \<noteq> bi_negative b\<rparr>,
                      bi_fromSignAndMagnitude (bi_negative a) r))"

definition bi_modulo :: "big_integer \<Rightarrow> big_integer \<Rightarrow> big_error + big_integer" where
  "bi_modulo a b = sbind (bi_divideGetRemainder a b) (\<lambda>(q, r). Inr r)"

abbreviation unsigned_of :: "int_type \<Rightarrow> int_type" where
  "unsigned_of t \<equiv> t\<lparr>it_signed := False\<rparr>"

definition bi_cast :: "int_type \<Rightarrow> big_integer \<Rightarrow> int" where
  "bi_cast t a =
     (if \<not> bi_negative a then int (big_cast (nat (it_max t)) (bi_magnitude a))
      else if \<not> it_signed t then 0
      else (let minimumMagnitude = big_assign (toUnsignedAbsolute t (it_min t))
            in if big_compare (bi_magnitude a) minimumMagnitude \<noteq> OrdLess then it_min t
               else to_value t (- to_value t (int (big_cast (nat (it_max (unsigned_of t))) (bi_magnitude a))))))"

definition bi_castOrThrow :: "int_type \<Rightarrow> big_integer \<Rightarrow> big_error + int" where
  "bi_castOrThrow t a =
     (if \<not> bi_negative a then sbind (big_castOrThrow (nat (it_max t)) (bi_magnitude a)) (\<lambda>m. Inr (int m))
      else if \<not> it_signed t then Inl CastOverflow
      else (let minimumMagnitude = big_assign (toUnsignedAbsolute t (it_min t))
            in if big_compare (bi_magnitude a) minimumMagnitude = OrdGreater then Inl CastOverflow
               else if bi_magnitude a = minimumMagnitude then Inr (it_min t)
               else sbind (big_castOrThrow (nat (it_max (unsigned_of t))) (bi_magnitude a))
                      (\<lambda>m. Inr (to_value t (- to_value t (int m))))))"

section \<open>Decimal text\<close>

abbreviation uint32_type :: int_type where
  "uint32_type \<equiv> \<lparr>it_width = 32, it_signed = False\<rparr>"

text \<open>The format \<open>{:09}\<close> writes the default text and fills it with zeroes in front of the first
  digit, after a sign and a base prefix.\<close>

definition zeroPaddedNumericText :: "char32 list \<Rightarrow> nat \<Rightarrow> char32 list" where
  "zeroPaddedNumericText txt width =
     (if length txt \<ge> width then txt
      else
        (let signEnd = (if txt \<noteq> [] \<and> hd txt \<in> {45, 43, 32} then 1 else 0);
             prefixEnd = (if length txt \<ge> signEnd + 2 \<and> txt ! signEnd = 48
                             \<and> txt ! (signEnd + 1) \<in> {120, 88, 98, 66, 111, 79}
                          then signEnd + 2 else signEnd)
         in take prefixEnd txt @ replicate (width - length txt) 48 @ drop prefixEnd txt))"

definition digit_group_text :: "nat \<Rightarrow> char32 list" where
  "digit_group_text d = zeroPaddedNumericText (appendInteger uint32_type (int d) defaultFormat) 9"

fun group_texts :: "nat \<Rightarrow> digits \<Rightarrow> char32 list" where
  "group_texts 0 ds = []"
| "group_texts (Suc i) ds = digit_group_text (ds ! i) @ group_texts i ds"

definition big_toString :: "digits \<Rightarrow> char32 list" where
  "big_toString ds =
     (if big_isZero ds then [48]
      else appendInteger uint32_type (int (last ds)) defaultFormat @ group_texts (length ds - 1) ds)"

text \<open>The character loop of both parsers: the sign characters accepted in front, whether the
  next character is the first one, whether a digit was seen, the sign and the value.\<close>

fun parse_loop :: "char32 set \<Rightarrow> char32 list \<Rightarrow> bool \<Rightarrow> bool \<Rightarrow> bool \<Rightarrow> digits \<Rightarrow> (bool \<times> bool \<times> digits) option" where
  "parse_loop signs [] isFirst hasDigit negative m = Some (hasDigit, negative, m)"
| "parse_loop signs (c # cs) isFirst hasDigit negative m =
     (if isFirst \<and> c \<in> signs then parse_loop signs cs False hasDigit (c = 45) m
      else case digitValueIn Decimal c of
          None \<Rightarrow> None
        | Some d \<Rightarrow> parse_loop signs cs False True negative (big_addSmall (big_multiplySmall m 10) d))"

definition big_fromString :: "char32 list \<Rightarrow> digits option" where
  "big_fromString cs =
     (case parse_loop {43} cs True False False [] of
        Some (hasDigit, negative, m) \<Rightarrow> if hasDigit then Some m else None
      | None \<Rightarrow> None)"

definition big_fromStringOrThrow :: "char32 list \<Rightarrow> big_error + digits" where
  "big_fromStringOrThrow cs = (case big_fromString cs of None \<Rightarrow> Inl InvalidDecimal | Some m \<Rightarrow> Inr m)"

definition bi_toString :: "big_integer \<Rightarrow> char32 list" where
  "bi_toString a =
     (if \<not> bi_negative a then big_toString (bi_magnitude a) else 45 # big_toString (bi_magnitude a))"

definition bi_fromString :: "char32 list \<Rightarrow> big_integer option" where
  "bi_fromString cs =
     (case parse_loop {43, 45} cs True False False [] of
        Some (hasDigit, negative, m) \<Rightarrow> if hasDigit then Some (bi_fromSignAndMagnitude negative m) else None
      | None \<Rightarrow> None)"

definition bi_fromStringOrThrow :: "char32 list \<Rightarrow> big_error + big_integer" where
  "bi_fromStringOrThrow cs = (case bi_fromString cs of None \<Rightarrow> Inl InvalidDecimal | Some m \<Rightarrow> Inr m)"

section \<open>Decimal text reads back\<close>

lemma digit_loop_length:
  assumes "2 \<le> b" "m < b ^ k" "0 < k"
  shows "length (digit_loop b m) \<le> k"
  using assms(2,3)
proof (induction k arbitrary: m)
  case (Suc k)
  show ?case
  proof (cases "m div b = 0")
    case True
    then have "digit_loop b m = [m mod b]" by (subst digit_loop.simps) simp
    then show ?thesis by simp
  next
    case False
    have u: "digit_loop b m = m mod b # digit_loop b (m div b)"
      using False assms(1) by (subst digit_loop.simps) simp
    have lt: "m div b < b ^ k"
      using Suc.prems(1) assms(1) by (simp add: div_less_iff_less_mult mult.commute)
    have "0 < k" using lt False by (cases k) auto
    then show ?thesis using u Suc.IH[OF lt] by simp
  qed
qed simp

abbreviation dec_char :: "nat \<Rightarrow> char32" where
  "dec_char d \<equiv> fromDigitValue d Lowercase"

definition dec_digits :: "nat \<Rightarrow> nat list" where
  "dec_digits m = rev (digit_loop 10 m)"

lemma dec_digits_correct:
  "be_value 10 (dec_digits m) = m" "\<forall>d \<in> set (dec_digits m). d < 10" "dec_digits m \<noteq> []"
  using digit_loop_correct[of 10 m] by (auto simp: dec_digits_def)

lemma field_text_plain:
  "\<not> fmt_separator fmt \<Longrightarrow> field_text fmt ds 0 = map (\<lambda>d. fromDigitValue d (fmt_letterCase fmt)) ds"
proof -
  assume "\<not> fmt_separator fmt"
  then have "field_text fmt ds 0 = concat (map (\<lambda>i. [fromDigitValue (ds ! i) (fmt_letterCase fmt)]) [0..<length ds])"
    by (simp add: field_text_def digit_separator_def Let_def)
  also have "\<dots> = map (\<lambda>i. fromDigitValue (ds ! i) (fmt_letterCase fmt)) [0..<length ds]"
    by (simp add: map_concat concat_map_singleton)
  also have "\<dots> = map (\<lambda>d. fromDigitValue d (fmt_letterCase fmt)) (map (\<lambda>i. ds ! i) [0..<length ds])"
    by simp
  finally show ?thesis by (simp only: map_nth)
qed

lemma default_text:
  assumes "d < 4294967296"
  shows "appendInteger uint32_type (int d) defaultFormat = map dec_char (dec_digits d)"
proof -
  have m: "sm_magnitude (sm_fromValue uint32_type (int d)) = d" "\<not> sm_negative (sm_fromValue uint32_type (int d))"
    using assms by (simp_all add: sm_fromValue_def to_unsigned_def)
  have p: "pad_counts defaultFormat n = (0, 0)" for n
    by (simp add: pad_counts_def defaultFormat_def)
  have f: "fmt_letterCase defaultFormat = Lowercase" "\<not> fmt_separator defaultFormat" "fmt_base defaultFormat = Decimal"
    "\<not> fmt_basePrefix defaultFormat" "fmt_signMode defaultFormat = NegativeOnly"
    by (simp_all add: defaultFormat_def)
  have "appendInteger uint32_type (int d) defaultFormat = field_text defaultFormat (dec_digits d) 0"
    using appendDigitField_text[of defaultFormat "digit_loop 10 d" 0]
    by (simp add: appendInteger_def Let_def m p f dec_digits_def)
  then show ?thesis using f by (simp add: field_text_plain)
qed

lemma dec_char_range: "d < 10 \<Longrightarrow> 48 \<le> dec_char d \<and> dec_char d < 58"
  by (simp add: fromDigitValue_def)

lemma zero_padded_digits:
  assumes "\<forall>d \<in> set ds. d < 10" "length ds \<le> n"
  shows "zeroPaddedNumericText (map dec_char ds) n = map dec_char (replicate (n - length ds) 0 @ ds)"
proof -
  have r: "\<forall>c \<in> set (map dec_char ds). 48 \<le> c \<and> c < 58" using assms(1) dec_char_range by auto
  have "hd (map dec_char ds) \<notin> {45, 43, 32}" if "map dec_char ds \<noteq> []"
    using r hd_in_set[OF that] by fastforce
  moreover have "map dec_char ds ! 1 \<notin> {120, 88, 98, 66, 111, 79}" if "2 \<le> length (map dec_char ds)"
    using r nth_mem[of 1 "map dec_char ds"] that by fastforce
  ultimately show ?thesis using assms(2)
    by (cases "length ds = n") (auto simp: zeroPaddedNumericText_def Let_def map_replicate_const)
qed

lemma digit_group_text_digits:
  assumes "d < cDigitBase"
  shows "digit_group_text d = map dec_char (replicate (9 - length (dec_digits d)) 0 @ dec_digits d)"
    and "length (dec_digits d) \<le> 9"
proof -
  show l: "length (dec_digits d) \<le> 9"
    using digit_loop_length[of 10 d 9] assms by (simp add: dec_digits_def)
  show "digit_group_text d = map dec_char (replicate (9 - length (dec_digits d)) 0 @ dec_digits d)"
    using assms dec_digits_correct(2) l by (simp add: digit_group_text_def default_text zero_padded_digits)
qed

lemma be_value_append: "be_value b (xs @ ys) = be_value b xs * b ^ length ys + be_value b ys"
proof (induction ys rule: rev_induct)
  case (snoc y ys)
  have "be_value b (xs @ ys @ [y]) = be_value b (xs @ ys) * b + y"
    using be_value_snoc(2)[of b "xs @ ys" y] by simp
  with snoc show ?case by (simp add: algebra_simps)
qed simp

lemma group_texts_digits:
  assumes "big_digits ds" "i \<le> length ds"
  shows "\<exists>es. group_texts i ds = map dec_char es \<and> (\<forall>e \<in> set es. e < 10) \<and> length es = 9 * i
    \<and> be_value 10 es = big_value (take i ds)"
  using assms(2)
proof (induction i)
  case (Suc i)
  then obtain es where es: "group_texts i ds = map dec_char es" "\<forall>e \<in> set es. e < 10" "length es = 9 * i"
    "be_value 10 es = big_value (take i ds)" by auto
  have d: "ds ! i < cDigitBase" using assms(1) Suc.prems by (simp add: big_digits_nth)
  define gs where "gs = replicate (9 - length (dec_digits (ds ! i))) 0 @ dec_digits (ds ! i)"
  have gs: "digit_group_text (ds ! i) = map dec_char gs" "\<forall>e \<in> set gs. e < 10" "length gs = 9"
    "be_value 10 gs = ds ! i"
    using digit_group_text_digits[OF d] dec_digits_correct[of "ds ! i"] by (auto simp: gs_def)
  have "be_value 10 (gs @ es) = big_value (take (Suc i) ds)"
    using Suc.prems es gs by (simp add: be_value_append big_value_take_Suc power_mult)
  then show ?case using es gs by (intro exI[of _ "gs @ es"]) auto
qed (auto simp: be_value_def)

lemma big_toString_digits:
  assumes "big_wf ds"
  shows "\<exists>es. big_toString ds = map dec_char es \<and> (\<forall>e \<in> set es. e < 10) \<and> es \<noteq> []
    \<and> be_value 10 es = big_value ds"
proof (cases "ds = []")
  case True
  then show ?thesis by (intro exI[of _ "[0]"]) (simp add: big_toString_def big_isZero_def be_value_def)
next
  case False
  then have l: "last ds < cDigitBase" using assms last_in_set[OF False] by (auto simp: big_wf_def big_digits_def)
  obtain es where es: "group_texts (length ds - 1) ds = map dec_char es" "\<forall>e \<in> set es. e < 10"
    "length es = 9 * (length ds - 1)" "be_value 10 es = big_value (take (length ds - 1) ds)"
    using group_texts_digits[of ds "length ds - 1"] assms by (auto simp: big_wf_def)
  have "big_toString ds = map dec_char (dec_digits (last ds) @ es)"
    using False l es(1) by (simp add: big_toString_def big_isZero_def default_text)
  moreover have "be_value 10 (dec_digits (last ds) @ es) = big_value ds"
    using es dec_digits_correct(1) big_value_butlast[OF False]
    by (simp add: be_value_append power_mult butlast_conv_take)
  ultimately show ?thesis
    using es dec_digits_correct[of "last ds"] by (intro exI[of _ "dec_digits (last ds) @ es"]) auto
qed

lemma parse_loop_digits:
  assumes "\<forall>e \<in> set es. e < 10" "big_wf m" "\<not> isFirst \<or> signs \<subseteq> {43, 45}"
  shows "\<exists>m'. parse_loop signs (map dec_char es) isFirst h n m = Some (h \<or> es \<noteq> [], n, m') \<and> big_wf m'
    \<and> big_value m' = foldl (\<lambda>r d. r * 10 + d) (big_value m) es"
  using assms
proof (induction es arbitrary: isFirst h m)
  case (Cons e es)
  then have e: "e < 10" by simp
  have c: "digitValueIn Decimal (dec_char e) = Some e" using e digit_char(1)[of e Decimal] by simp
  have ns: "\<not> (isFirst \<and> dec_char e \<in> signs)" using dec_char_range[OF e] Cons.prems(3) by auto
  have m1: "big_wf (big_multiplySmall m 10)" "big_value (big_multiplySmall m 10) = big_value m * 10"
    using big_multiplySmall_correct[OF Cons.prems(2), of 10] by auto
  have m2: "big_wf (big_addSmall (big_multiplySmall m 10) e)"
    "big_value (big_addSmall (big_multiplySmall m 10) e) = big_value m * 10 + e"
    using big_addSmall_correct[OF m1(1), of e] m1(2) e by auto
  show ?case
    using Cons.IH[OF _ m2(1), of False True] Cons.prems(1) c ns m2(2) by (simp del: de_Morgan_conj)
qed auto

lemma be_value_foldl: "foldl (\<lambda>r d. r * b + d) 0 es = be_value b es"
  by (simp add: be_value_def)

text \<open>C32: The decimal text of an unsigned big integer parses back to the same digits, with and
  without a leading plus sign.\<close>

theorem big_text_roundtrip:
  assumes "big_wf ds"
  shows "big_fromString (big_toString ds) = Some ds \<and> big_fromString (43 # big_toString ds) = Some ds"
proof -
  obtain es where es: "big_toString ds = map dec_char es" "\<forall>e \<in> set es. e < 10" "es \<noteq> []"
    "be_value 10 es = big_value ds" using big_toString_digits[OF assms] by blast
  have "\<exists>m'. parse_loop {43} (map dec_char es) isFirst False False [] = Some (True, False, m') \<and> big_wf m'
      \<and> big_value m' = big_value ds" for isFirst
    using parse_loop_digits[OF es(2), of "[]" isFirst "{43}" False False] es(3,4)
    by (simp add: be_value_foldl)
  then have p: "parse_loop {43} (map dec_char es) isFirst False False [] = Some (True, False, ds)" for isFirst
    using big_value_inject[OF _ assms] by metis
  show ?thesis by (simp add: big_fromString_def es(1) p)
qed

lemma big_text_roundtrip_witness:
  "big_fromString (big_toString [5, 0, 12]) = Some [5, 0, 12]"
  using big_text_roundtrip[of "[5, 0, 12]"] by (simp add: big_wf_def)

section \<open>BigInteger computes with integers\<close>

interpretation big_mag: magnitude big_wf big_value "[]" big_compare
proof
  show "big_wf m \<Longrightarrow> big_value m = 0 \<longleftrightarrow> m = []" for m by (rule big_value_0_iff)
  show "big_wf a \<Longrightarrow> big_wf b \<Longrightarrow> big_compare a b = order_of (big_value a) (big_value b)" for a b
    by (simp add: big_compare_value order_of_def)
qed simp

definition bi_val :: "big_integer \<Rightarrow> int" where
  "bi_val a = big_mag.sval (bi_negative a) (bi_magnitude a)"

definition bi_wf :: "big_integer \<Rightarrow> bool" where
  "bi_wf a \<longleftrightarrow> big_wf (bi_magnitude a) \<and> (bi_magnitude a = [] \<longrightarrow> \<not> bi_negative a)"

lemma bi_normalizeSign_eq:
  "bi_normalizeSign \<lparr>bi_magnitude = m, bi_negative = n\<rparr> = \<lparr>bi_magnitude = m, bi_negative = n \<and> m \<noteq> []\<rparr>"
  by (simp add: bi_normalizeSign_def big_isZero_def)

lemma bi_val_record [simp]: "bi_val \<lparr>bi_magnitude = m, bi_negative = n\<rparr> = big_mag.sval n m"
  by (simp add: bi_val_def)

lemma bi_normalized:
  assumes "big_wf m"
  shows "bi_wf (bi_normalizeSign \<lparr>bi_magnitude = m, bi_negative = n\<rparr>)"
    and "bi_val (bi_normalizeSign \<lparr>bi_magnitude = m, bi_negative = n\<rparr>) = big_mag.sval n m"
  using assms by (simp_all add: bi_normalizeSign_eq bi_wf_def big_mag.sval_normalize)

lemma bi_compare_correct:
  assumes "bi_wf a" "bi_wf b"
  shows "bi_compare a b = order_of (bi_val a) (bi_val b)"
proof -
  have "bi_compare a b = sign_compare (bi_negative a) (bi_negative b) (big_compare (bi_magnitude a) (bi_magnitude b))"
    by (simp add: bi_compare_def sign_compare_def Let_def)
  also have "\<dots> = order_of (bi_val a) (bi_val b)"
    using assms unfolding bi_val_def by (intro big_mag.compare_signed) (auto simp: bi_wf_def)
  finally show ?thesis .
qed

lemma bi_value_inject:
  assumes "bi_wf a" "bi_wf b" "bi_val a = bi_val b"
  shows "a = b"
proof -
  have "bi_negative a = bi_negative b \<and> big_value (bi_magnitude a) = big_value (bi_magnitude b)"
    using assms unfolding bi_val_def by (intro big_mag.sval_inject) (auto simp: bi_wf_def)
  then show ?thesis
    using assms(1,2) big_value_inject[of "bi_magnitude a" "bi_magnitude b"] by (simp add: bi_wf_def)
qed

lemma bi_add_correct:
  assumes "bi_wf a" "bi_wf b"
  shows "\<exists>c. bi_add a b = Inr c \<and> bi_wf c \<and> bi_val c = bi_val a + bi_val b"
proof -
  let ?ma = "bi_magnitude a" and ?mb = "bi_magnitude b"
  have wf: "big_wf ?ma" "big_wf ?mb" using assms by (simp_all add: bi_wf_def)
  note cmp = big_compare_iff[OF wf]
  show ?thesis
  proof (cases "bi_negative a = bi_negative b")
    case True
    have s: "big_value (big_add ?ma ?mb) = big_value ?ma + big_value ?mb" "big_wf (big_add ?ma ?mb)"
      using big_add_correct[OF wf] by auto
    have "big_add ?ma ?mb = [] \<Longrightarrow> ?ma = []"
      using s big_value_0_iff[OF wf(1)] by simp
    then show ?thesis
      using True assms s big_mag.sum_same_sign[OF s(1)] by (simp add: bi_add_def bi_wf_def bi_val_def)
  next
    case False
    then have nb: "bi_negative b \<longleftrightarrow> \<not> bi_negative a" by auto
    consider "big_compare ?ma ?mb = OrdEqual" | "big_compare ?ma ?mb = OrdGreater" | "big_compare ?ma ?mb = OrdLess"
      by (cases "big_compare ?ma ?mb") auto
    then show ?thesis
    proof cases
      case 1
      then have "big_value ?ma = big_value ?mb" using cmp by simp
      then have "bi_val a + bi_val b = 0" using nb by (simp add: bi_val_def big_mag.sval_def)
      then show ?thesis using 1 False by (simp add: bi_add_def bi_wf_def)
    next
      case 2
      then have lt: "big_value ?mb < big_value ?ma" using cmp by simp
      then obtain c where c: "big_subtract ?ma ?mb = Inr c" "big_wf c" "big_value c = big_value ?ma - big_value ?mb"
        using big_subtract_correct(1)[OF wf] by auto
      then have "c \<noteq> []" using lt by auto
      then show ?thesis
        using 2 False c lt nb big_mag.sum_other_sign[of ?mb ?ma c "bi_negative a"]
        by (simp add: bi_add_def bi_wf_def bi_val_def)
    next
      case 3
      then have lt: "big_value ?ma < big_value ?mb" using cmp by simp
      then obtain c where c: "big_subtract ?mb ?ma = Inr c" "big_wf c" "big_value c = big_value ?mb - big_value ?ma"
        using big_subtract_correct(1)[OF wf(2,1)] by auto
      then have "c \<noteq> []" using lt by auto
      then show ?thesis
        using 3 False c lt nb big_mag.sum_other_sign[of ?ma ?mb c "bi_negative b"]
        by (simp add: bi_add_def bi_wf_def bi_val_def)
    qed
  qed
qed

lemma bi_negated_correct: "bi_wf a \<Longrightarrow> bi_wf (bi_negated a) \<and> bi_val (bi_negated a) = - bi_val a"
  using bi_normalized[of "bi_magnitude a" "\<not> bi_negative a"]
  by (simp add: bi_negated_def bi_fromSignAndMagnitude_def bi_wf_def[of a] bi_val_def[of a] big_mag.sval_not)

lemma bi_subtract_correct:
  assumes "bi_wf a" "bi_wf b"
  shows "\<exists>c. bi_subtract a b = Inr c \<and> bi_wf c \<and> bi_val c = bi_val a - bi_val b"
  using bi_add_correct[OF assms(1), of "bi_negated b"] bi_negated_correct[OF assms(2)]
  by (simp add: bi_subtract_def)

lemma bi_multiply_correct:
  assumes "bi_wf a" "bi_wf b"
  shows "\<exists>c. bi_multiply a b = Inr c \<and> bi_wf c \<and> bi_val c = bi_val a * bi_val b"
proof -
  obtain m where m: "big_multiply (bi_magnitude a) (bi_magnitude b) = Inr m" "big_wf m"
    "big_value m = big_value (bi_magnitude a) * big_value (bi_magnitude b)"
    using big_multiply_correct assms by (auto simp: bi_wf_def)
  then show ?thesis
    using bi_normalized[OF m(2), of "bi_negative a \<noteq> bi_negative b"]
      big_mag.product_signed[OF m(3), of "bi_negative a" "bi_negative b"]
    by (simp add: bi_multiply_def bi_val_def[of a] bi_val_def[of b])
qed

text \<open>C20: Signed addition, subtraction, multiplication, negation and comparison of big integers are
  the exact integer operations, and every result is normalised: no leading zero group and no
  negative zero.\<close>

theorem bi_arithmetic_exact:
  assumes "bi_wf a" "bi_wf b"
  shows "(\<exists>c. bi_add a b = Inr c \<and> bi_wf c \<and> bi_val c = bi_val a + bi_val b)
    \<and> (\<exists>c. bi_subtract a b = Inr c \<and> bi_wf c \<and> bi_val c = bi_val a - bi_val b)
    \<and> (\<exists>c. bi_multiply a b = Inr c \<and> bi_wf c \<and> bi_val c = bi_val a * bi_val b)
    \<and> bi_compare a b = order_of (bi_val a) (bi_val b)
    \<and> bi_wf (bi_negated a) \<and> bi_val (bi_negated a) = - bi_val a"
  using bi_add_correct[OF assms] bi_subtract_correct[OF assms] bi_multiply_correct[OF assms]
    bi_compare_correct[OF assms] bi_negated_correct[OF assms(1)] by blast

lemma bi_arithmetic_exact_witness:
  "\<exists>c. bi_subtract \<lparr>bi_magnitude = [5, 1], bi_negative = True\<rparr> \<lparr>bi_magnitude = [7], bi_negative = False\<rparr> = Inr c
     \<and> bi_val c = - 1000000012"
  using bi_arithmetic_exact[of "\<lparr>bi_magnitude = [5, 1], bi_negative = True\<rparr>" "\<lparr>bi_magnitude = [7], bi_negative = False\<rparr>"]
  by (auto simp: bi_wf_def big_wf_def big_mag.sval_def)

text \<open>C19: Unsigned addition and multiplication are exact, and unsigned subtraction gives the exact
  difference or, exactly when the result would be negative, the overflow error; all results
  are normalised.\<close>

theorem big_arithmetic_exact:
  assumes "big_wf a" "big_wf b"
  shows "big_wf (big_add a b) \<and> big_value (big_add a b) = big_value a + big_value b
    \<and> (\<exists>c. big_multiply a b = Inr c \<and> big_wf c \<and> big_value c = big_value a * big_value b)
    \<and> (if big_value b \<le> big_value a
       then \<exists>c. big_subtract a b = Inr c \<and> big_wf c \<and> big_value c + big_value b = big_value a
       else big_subtract a b = Inl SubtractionUnderflow)"
  using big_add_correct[OF assms] big_multiply_correct[OF assms] big_subtract_correct[OF assms] by auto

lemma big_arithmetic_exact_witness:
  "\<exists>c. big_multiply [999999999, 999999999] [999999999, 999999999] = Inr c
     \<and> big_value c = 999999999999999999 * 999999999999999999"
  using big_arithmetic_exact[of "[999999999, 999999999]" "[999999999, 999999999]"]
  by (auto simp: big_wf_def)

section \<open>Division, conversion and text of BigInteger\<close>

lemma big_wf_ne_zero: "big_wf b \<Longrightarrow> b \<noteq> [] \<longleftrightarrow> 0 < big_value b"
  using big_value_0_iff[of b] by auto

definition division_safe :: "digits \<Rightarrow> digits \<Rightarrow> bool" where
  "division_safe a b \<longleftrightarrow> length b = 1 \<or> big_compare a b = OrdLess \<or> divisor_safe (normalized_divisor b)"

lemma big_division_safe:
  assumes "big_wf a" "big_wf b" "b \<noteq> []" "division_safe a b"
  shows "\<exists>q r. big_divideWithRemainder a b = Inr (q, r) \<and> big_wf q \<and> big_wf r
    \<and> big_value q = big_value a div big_value b \<and> big_value r = big_value a mod big_value b"
  using assms big_compare_iff(1)[OF assms(1,2)]
  by (intro big_division_correct) (auto simp: division_safe_def)

text \<open>C5: Unsigned long division gives the exact quotient and remainder, both normalised, whenever
  the divisor has one digit group, is larger than the dividend, or has, after normalisation, a
  second group below its top group; division by zero terminates.\<close>

theorem big_division_exact:
  assumes "big_wf a" "big_wf b" "b \<noteq> [] \<Longrightarrow> division_safe a b"
  shows "if b = [] then big_divideWithRemainder a b = Inl Terminate
    else \<exists>q r. big_divideWithRemainder a b = Inr (q, r) \<and> big_wf q \<and> big_wf r
      \<and> big_value a = big_value q * big_value b + big_value r \<and> big_value r < big_value b"
proof (cases "b = []")
  case False
  then show ?thesis
    using big_division_safe[OF assms(1,2) False assms(3)] big_wf_ne_zero[OF assms(2)] by auto
qed (simp add: big_divideWithRemainder_def big_isZero_def)

lemma big_division_exact_witness:
  "\<exists>q r. big_divideWithRemainder [1, 2, 3, 4] [7, 8] = Inr (q, r)
     \<and> 4000000003000000002000000001 = big_value q * 8000000007 + big_value r \<and> big_value r < 8000000007"
proof -
  have "normalized_divisor [7, 8] = [777777777, 888888888]"
    by (simp add: normalized_divisor_def big_multiplySmall_def big_isZero_def)
  then have "division_safe [1, 2, 3, 4] [7, 8]"
    by (simp add: division_safe_def divisor_safe_def big_wf_def)
  then show ?thesis
    using big_division_exact[of "[1, 2, 3, 4]" "[7, 8]"] by (fastforce simp: big_wf_def)
qed

text \<open>The division of the source is wrong outside that case: for the dividend
  500000000500000000000000000 and the divisor 500000000999999999 it returns the quotient
  999999998, although the remainder it returns is larger than the divisor.\<close>

lemma big_division_estimate_bug:
  "\<exists>q r. big_divideWithRemainder [0, 500000000, 500000000] [999999999, 500000000] = Inr (q, r)
     \<and> big_value q + 1 = big_value [0, 500000000, 500000000] div big_value [999999999, 500000000]
     \<and> big_value [999999999, 500000000] \<le> big_value r"
  by (simp add: division_wrong)

text \<open>C21: For a divisor that is not zero and that the unsigned division handles exactly (one digit
  group, a magnitude above the dividend's, or, after normalisation, a second group below the top
  group: division_safe), signed division and remainder of big integers truncate towards zero, the
  remainder has the sign of the dividend, and no negative zero appears.\<close>

theorem bi_division_truncates:
  assumes "bi_wf a" "bi_wf b" "bi_val b \<noteq> 0" "division_safe (bi_magnitude a) (bi_magnitude b)"
  shows "\<exists>q r. bi_divideGetRemainder a b = Inr (q, r) \<and> bi_wf q \<and> bi_wf r
    \<and> bi_divideAssign a b = Inr q \<and> bi_modulo a b = Inr r
    \<and> bi_val q = bi_val a sdiv bi_val b \<and> bi_val r = bi_val a smod bi_val b"
proof -
  have wf: "big_wf (bi_magnitude a)" "big_wf (bi_magnitude b)" using assms by (simp_all add: bi_wf_def)
  have "bi_magnitude b \<noteq> []" using assms(3) by (auto simp: bi_val_def)
  from big_division_safe[OF wf this assms(4)] obtain q r where
    qr: "big_divideWithRemainder (bi_magnitude a) (bi_magnitude b) = Inr (q, r)" "big_wf q" "big_wf r"
    and q: "big_value q = big_value (bi_magnitude a) div big_value (bi_magnitude b)"
    and r: "big_value r = big_value (bi_magnitude a) mod big_value (bi_magnitude b)" by blast
  show ?thesis
    using qr bi_normalized[OF qr(2), of "bi_negative a \<noteq> bi_negative b"] bi_normalized[OF qr(3), of "bi_negative a"]
      big_mag.quotient_signed[OF q, of "bi_negative a" "bi_negative b"]
      big_mag.remainder_signed[OF r, of "bi_negative a" "bi_negative b"]
    by (simp add: bi_divideGetRemainder_def bi_divideAssign_def bi_modulo_def big_divide_def
        bi_fromSignAndMagnitude_def bi_val_def[of a] bi_val_def[of b])
qed

lemma bi_division_truncates_witness:
  "\<exists>q. bi_divideAssign \<lparr>bi_magnitude = [7], bi_negative = True\<rparr> \<lparr>bi_magnitude = [2], bi_negative = False\<rparr> = Inr q
     \<and> bi_val q = - 3"
  using bi_division_truncates[of "\<lparr>bi_magnitude = [7], bi_negative = True\<rparr>" "\<lparr>bi_magnitude = [2], bi_negative = False\<rparr>"]
  by (auto simp: bi_wf_def big_wf_def big_mag.sval_def division_safe_def signed_divide_int_def)

lemma bi_fromInt_correct:
  assumes "0 < it_width t" "it_min t \<le> v" "v \<le> it_max t"
  shows "bi_wf (bi_fromInt t v) \<and> bi_val (bi_fromInt t v) = v"
proof -
  have b: "v < 2 ^ it_width t" "\<not> it_signed t \<Longrightarrow> 0 \<le> v"
    using assms two_power_half[of "it_width t"] by (auto simp: it_min_def it_max_def split: if_splits)
  have u: "toUnsignedAbsolute t v = nat \<bar>v\<bar>" "\<not> it_signed t \<Longrightarrow> to_unsigned t v = nat v"
    using assms b toUnsignedAbsolute_negative[of t v] to_unsigned_id[of v t]
    by (auto simp: toUnsignedAbsolute_def)
  have w: "big_wf (big_assign m)" "big_value (big_assign m) = m" "big_assign m = [] \<longleftrightarrow> m = 0" for m
    using big_assign_correct[of m] big_value_0_iff[of "big_assign m"] by auto
  show ?thesis using u w b by (auto simp: bi_fromInt_def bi_wf_def big_mag.sval_def)
qed

lemma bi_cast_negative:
  assumes "0 < it_width t" "it_width t \<le> 64" "it_signed t" "big_wf ds"
  shows "big_value (big_assign (toUnsignedAbsolute t (it_min t))) = 2 ^ (it_width t - 1)"
    and "big_wf (big_assign (toUnsignedAbsolute t (it_min t)))"
    and "big_value ds < 2 ^ (it_width t - 1) \<Longrightarrow>
      big_castOrThrow (nat (it_max (unsigned_of t))) ds = Inr (big_value ds)
      \<and> big_cast (nat (it_max (unsigned_of t))) ds = big_value ds
      \<and> to_value t (- to_value t (int (big_value ds))) = - int (big_value ds)"
proof -
  have neg: "it_min t < 0" using assms by (simp add: it_min_def)
  have "toUnsignedAbsolute t (it_min t) = nat (- it_min t)"
    using toUnsignedAbsolute_negative[OF assms(3,1) order_refl neg] .
  also have "\<dots> = 2 ^ (it_width t - 1)" using assms(3) by (simp add: it_min_def nat_power_eq)
  finally have a: "toUnsignedAbsolute t (it_min t) = 2 ^ (it_width t - 1)" .
  show "big_value (big_assign (toUnsignedAbsolute t (it_min t))) = 2 ^ (it_width t - 1)"
    "big_wf (big_assign (toUnsignedAbsolute t (it_min t)))"
    using big_assign_correct by (auto simp: a)
  assume lt: "big_value ds < 2 ^ (it_width t - 1)"
  then have lti: "int (big_value ds) < 2 ^ (it_width t - 1)" by (metis of_nat_less_iff of_nat_numeral of_nat_power)
  have mx: "nat (it_max (unsigned_of t)) = 2 ^ it_width t - 1" by (simp add: it_max_def nat_diff_distrib nat_power_eq)
  have "(2::nat) ^ it_width t \<le> 2 ^ 64" using assms(2) by (intro power_increasing) auto
  then have mx64: "nat (it_max (unsigned_of t)) \<le> u64_max" by (simp add: mx)
  have "(2::nat) ^ (it_width t - 1) \<le> 2 ^ it_width t" by (intro power_increasing) auto
  then have le: "big_value ds \<le> nat (it_max (unsigned_of t))" using lt mx by linarith
  have "to_value t (int (big_value ds)) = int (big_value ds)"
    using lti assms by (intro to_value_id) (auto simp: it_min_def it_max_def intro: order_trans[of _ 0])
  moreover have "to_value t (- int (big_value ds)) = - int (big_value ds)"
  proof (rule to_value_id)
    have "(0::int) < 2 ^ (it_width t - 1)" by simp
    then show "- int (big_value ds) \<le> it_max t" using assms(3) by (simp only: it_max_def if_True)
    show "it_min t \<le> - int (big_value ds)" using lti assms(3) by (simp add: it_min_def)
  qed (rule assms(1))
  ultimately show "big_castOrThrow (nat (it_max (unsigned_of t))) ds = Inr (big_value ds)
      \<and> big_cast (nat (it_max (unsigned_of t))) ds = big_value ds
      \<and> to_value t (- to_value t (int (big_value ds))) = - int (big_value ds)"
    using big_cast_correct[OF assms(4) mx64] le by simp
qed

text \<open>Converting a big integer to a native type of at most 64 bits clamps it to the range of the
  type, the throwing conversion fails exactly outside the range, and a native integer
  converted to a big integer and back is unchanged.\<close>

theorem bi_cast_clamps:
  assumes "0 < it_width t" "it_width t \<le> 64" "bi_wf a"
  shows "bi_cast t a = clamp (it_min t) (it_max t) (bi_val a)
    \<and> bi_castOrThrow t a = (if bi_val a \<in> {it_min t..it_max t} then Inr (bi_val a) else Inl CastOverflow)"
proof (cases "bi_negative a")
  case False
  define m where "m = big_value (bi_magnitude a)"
  have v: "bi_val a = int m" using False by (simp add: bi_val_def big_mag.sval_def m_def)
  have p: "(2::int) ^ (it_width t - 1) \<le> 2 ^ 63" "(2::int) ^ it_width t \<le> 2 ^ 64"
    using assms(2) by (intro power_increasing; simp)+
  have pos: "(1::int) \<le> 2 ^ (it_width t - 1)" "(1::int) \<le> 2 ^ it_width t" by simp_all
  have mm: "0 \<le> it_max t" "it_min t \<le> 0" "it_max t \<le> 18446744073709551615"
    using p pos by (auto simp: it_max_def it_min_def)
  then have "nat (it_max t) \<le> u64_max" by simp
  from big_cast_correct[OF _ this, of "bi_magnitude a"] assms(3) show ?thesis
    using False mm by (auto simp: bi_cast_def bi_castOrThrow_def v clamp_def bi_wf_def m_def[symmetric] le_nat_iff min_def)
next
  case True
  have wf: "big_wf (bi_magnitude a)" using assms(3) by (simp add: bi_wf_def)
  define m where "m = big_value (bi_magnitude a)"
  have v: "bi_val a = - int m" using True by (simp add: bi_val_def big_mag.sval_def m_def)
  have m0: "0 < m" using True assms(3) big_wf_ne_zero by (auto simp: bi_wf_def m_def)
  show ?thesis
  proof (cases "it_signed t")
    case False
    then show ?thesis using True v m0
      by (auto simp: bi_cast_def bi_castOrThrow_def it_min_def it_max_def clamp_def)
  next
    case s: True
    define h where "h = (2::nat) ^ (it_width t - 1)"
    have hi: "it_min t = - int h" "it_max t = int h - 1" "0 < h" using s by (simp_all add: it_min_def it_max_def h_def)
    note neg = bi_cast_negative[OF assms(1,2) s wf]
    define M where "M = big_assign (toUnsignedAbsolute t (it_min t))"
    have M: "big_value M = h" "big_wf M" using neg(1,2) by (simp_all add: M_def h_def)
    have eq: "bi_magnitude a = M \<longleftrightarrow> m = h"
      using big_value_inject[OF wf M(2)] M(1) by (auto simp: m_def)
    have lt: "m < h \<Longrightarrow> big_castOrThrow (nat (it_max (unsigned_of t))) (bi_magnitude a) = Inr m
      \<and> big_cast (nat (it_max (unsigned_of t))) (bi_magnitude a) = m \<and> to_value t (- to_value t (int m)) = - int m"
      using neg(3) by (simp add: m_def h_def)
    have ord: "big_compare (bi_magnitude a) M = order_of m h"
      using big_compare_value[OF wf M(2)] M(1) by (simp add: m_def order_of_def)
    have c: "bi_cast t a = (if h \<le> m then it_min t
        else to_value t (- to_value t (int (big_cast (nat (it_max (unsigned_of t))) (bi_magnitude a)))))"
      using True s ord by (simp add: bi_cast_def Let_def M_def[symmetric] not_less[symmetric])
    have ct: "bi_castOrThrow t a = (if h < m then Inl CastOverflow else if m = h then Inr (it_min t)
        else sbind (big_castOrThrow (nat (it_max (unsigned_of t))) (bi_magnitude a))
               (\<lambda>m. Inr (to_value t (- to_value t (int m)))))"
      using True s ord eq by (simp add: bi_castOrThrow_def Let_def M_def[symmetric])
    consider "m < h" | "m = h" | "h < m" by linarith
    then show ?thesis
      using v hi m0 lt by cases (simp_all add: c ct clamp_def)
  qed
qed

lemma bi_cast_clamps_witness:
  "bi_cast \<lparr>it_width = 16, it_signed = True\<rparr> \<lparr>bi_magnitude = [0, 1], bi_negative = True\<rparr> = - 32768
   \<and> bi_castOrThrow \<lparr>it_width = 16, it_signed = True\<rparr> \<lparr>bi_magnitude = [32768], bi_negative = True\<rparr> = Inr (- 32768)"
  using bi_cast_clamps[of "\<lparr>it_width = 16, it_signed = True\<rparr>" "\<lparr>bi_magnitude = [0, 1], bi_negative = True\<rparr>"]
    bi_cast_clamps[of "\<lparr>it_width = 16, it_signed = True\<rparr>" "\<lparr>bi_magnitude = [32768], bi_negative = True\<rparr>"]
  by (simp add: bi_wf_def big_wf_def it_min_def it_max_def clamp_def big_mag.sval_def)

text \<open>The decimal text of a signed big integer parses back to the same integer.\<close>

lemma bi_text_roundtrip:
  assumes "bi_wf a"
  shows "bi_fromString (bi_toString a) = Some a"
proof -
  have wf: "big_wf (bi_magnitude a)" using assms by (simp add: bi_wf_def)
  obtain es where es: "big_toString (bi_magnitude a) = map dec_char es" "\<forall>e \<in> set es. e < 10" "es \<noteq> []"
    "be_value 10 es = big_value (bi_magnitude a)" using big_toString_digits[OF wf] by blast
  have p: "parse_loop {43, 45} (map dec_char es) f False n [] = Some (True, n, bi_magnitude a)" for f n
    using parse_loop_digits[OF es(2), of "[]" f "{43, 45}" False n] es(3,4) big_value_inject[OF _ wf]
    by (auto simp: be_value_foldl)
  have "bi_normalizeSign \<lparr>bi_magnitude = bi_magnitude a, bi_negative = bi_negative a\<rparr> = a"
    using assms by (auto simp: bi_normalizeSign_eq bi_wf_def)
  then show ?thesis
    by (cases "bi_negative a") (simp_all add: bi_toString_def bi_fromString_def es(1) p bi_fromSignAndMagnitude_def)
qed

lemma bi_text_roundtrip_witness:
  "bi_fromString (bi_toString \<lparr>bi_magnitude = [0, 7], bi_negative = True\<rparr>) = Some \<lparr>bi_magnitude = [0, 7], bi_negative = True\<rparr>"
  by (rule bi_text_roundtrip) (simp add: bi_wf_def big_wf_def)

end
