(* ===== verification/RingBuffer.thy ===== *)
theory RingBuffer
  imports Prelude
begin

text \<open>
  The byte ring buffer \<open>src/src/erbsland/mem/RingBuffer.cpp\<close> with its growth policy
  \<open>mem/impl/BestGrowth.cpp\<close>, the unsafe access lease and the transactional
  \<open>mem/impl/RingBufferWriter.hpp\<close>. The storage is the list of its bytes; a span is its start
  and length in the storage, and every \<open>memcpy\<close> a replacement of a slice.
\<close>

section \<open>Growth policy\<close>

text \<open>\<open>ByteLength::maximum()\<close> and \<open>ByteLength::infinite()\<close> as raw values.\<close>

abbreviation maximumLength :: nat where "maximumLength \<equiv> 18446744073709551614"
abbreviation infiniteLength :: nat where "infiniteLength \<equiv> 18446744073709551615"

datatype growth_strategy = Compact | Geometric

definition fromSizeT :: "nat \<Rightarrow> nat" where
  "fromSizeT v = (if v > maximumLength then maximumLength else v)"

definition bg_alignUp :: "nat \<Rightarrow> nat \<Rightarrow> nat" where
  "bg_alignUp v alignment =
     (let remainder = v mod alignment
      in if remainder = 0 then v
         else if v + (alignment - remainder) > u64_max then maximumLength
         else v + (alignment - remainder))"

text \<open>The doubling loops start at a positive value.\<close>

function double_while :: "bool \<Rightarrow> nat \<Rightarrow> nat \<Rightarrow> nat option" where
  "double_while strict result limit =
     (if 0 < result \<and> (if strict then result < limit else result \<le> limit) then
        (if result > maximumLength div 2 then None else double_while strict (result * 2) limit)
      else Some result)"
  by pat_completeness auto
termination
  by (relation "measure (\<lambda>(strict, result, limit). Suc limit - result)") (auto split: if_splits)

declare double_while.simps [simp del]

definition bg_compactGrowth :: "nat \<Rightarrow> nat" where
  "bg_compactGrowth requested =
     (if requested > 65536 then
        (let aligned = bg_alignUp requested 65536
         in if aligned = requested then
              (if requested + 65536 > u64_max then maximumLength else fromSizeT (requested + 65536))
            else fromSizeT aligned)
      else (case double_while False 1 requested of None \<Rightarrow> maximumLength | Some r \<Rightarrow> fromSizeT r))"

definition bg_geometricGrowth :: "nat \<Rightarrow> nat \<Rightarrow> nat" where
  "bg_geometricGrowth current requested =
     (case double_while True (max 4096 (bg_alignUp current 4096)) (bg_alignUp requested 4096) of
        None \<Rightarrow> maximumLength | Some r \<Rightarrow> fromSizeT r)"

definition bg_bestGrowth :: "growth_strategy \<Rightarrow> nat \<Rightarrow> nat \<Rightarrow> nat" where
  "bg_bestGrowth strategy current requested =
     (if requested \<le> current then current
      else if strategy = Geometric then bg_geometricGrowth current requested
      else if requested < 16 then 16
      else bg_compactGrowth requested)"

text \<open>The capacity version for an element size and an allocation overhead.\<close>

definition bg_bestCapacity :: "nat \<Rightarrow> nat \<Rightarrow> growth_strategy \<Rightarrow> nat \<Rightarrow> nat \<Rightarrow> nat" where
  "bg_bestCapacity elementSize overhead strategy current requested =
     (let canAllocate = (\<lambda>c. c \<le> (u64_max - overhead) div elementSize);
          allocationSize = (\<lambda>c. overhead + c * elementSize)
      in if requested \<le> current then current
         else if \<not> canAllocate requested then requested
         else
           (let target = bg_bestGrowth strategy (fromSizeT (allocationSize current)) (fromSizeT (allocationSize requested))
            in if target \<le> overhead then requested
               else
                 (let targetCapacity = (target - overhead) div elementSize
                  in if targetCapacity < requested \<or> \<not> canAllocate targetCapacity then requested
                     else targetCapacity)))"

section \<open>The ring buffer\<close>

type_synonym byte = nat

record ring_buffer =
  rb_storage :: "byte list"
  rb_initialCapacity :: nat
  rb_maximumCapacity :: nat
  rb_readPosition :: nat
  rb_length :: nat
  rb_unsafeAccess :: bool
  rb_sensitive :: bool

datatype ring_error = ParameterError | LogicError | RingTerminate

type_synonym span = "nat \<times> nat"

definition rb_create :: "nat \<Rightarrow> nat \<Rightarrow> ring_error + ring_buffer" where
  "rb_create initial maximum =
     (if initial = 0 then Inl ParameterError
      else if maximum < initial then Inl ParameterError
      else Inr \<lparr>rb_storage = replicate initial 0, rb_initialCapacity = initial,
        rb_maximumCapacity = maximum, rb_readPosition = 0, rb_length = 0,
        rb_unsafeAccess = False, rb_sensitive = False\<rparr>)"

definition rb_available :: "ring_buffer \<Rightarrow> nat" where
  "rb_available rb = length (rb_storage rb) - rb_length rb"

definition rb_isEmpty :: "ring_buffer \<Rightarrow> bool" where
  "rb_isEmpty rb \<longleftrightarrow> rb_length rb = 0"

definition rb_isFull :: "ring_buffer \<Rightarrow> bool" where
  "rb_isFull rb \<longleftrightarrow> rb_length rb = length (rb_storage rb)"

definition rb_canWrite :: "ring_buffer \<Rightarrow> nat \<Rightarrow> bool" where
  "rb_canWrite rb n \<longleftrightarrow> n \<noteq> infiniteLength \<and> n \<le> rb_maximumCapacity rb - rb_length rb"

definition rb_readableSpans :: "ring_buffer \<Rightarrow> span list" where
  "rb_readableSpans rb =
     (if rb_length rb = 0 then [(0, 0), (0, 0)]
      else (let firstLength = min (rb_length rb) (length (rb_storage rb) - rb_readPosition rb)
            in [(rb_readPosition rb, firstLength), (0, rb_length rb - firstLength)]))"

definition rb_writableSpans :: "ring_buffer \<Rightarrow> span list" where
  "rb_writableSpans rb =
     (let freeLength = length (rb_storage rb) - rb_length rb
      in if freeLength = 0 then [(0, 0), (0, 0)]
         else (let writePosition = (rb_readPosition rb + rb_length rb) mod length (rb_storage rb);
                   firstLength = min freeLength (length (rb_storage rb) - writePosition)
               in [(writePosition, firstLength), (0, freeLength - firstLength)]))"

text \<open>The copies between a byte list and the spans.\<close>

definition put_slice :: "byte list \<Rightarrow> nat \<Rightarrow> byte list \<Rightarrow> byte list" where
  "put_slice st s bs = take s st @ bs @ drop (s + length bs) st"

fun copy_in :: "byte list \<Rightarrow> span list \<Rightarrow> byte list \<Rightarrow> byte list" where
  "copy_in st [] bs = st"
| "copy_in st ((s, n) # spans) bs = copy_in (put_slice st s (take n bs)) spans (drop n bs)"

fun copy_out :: "byte list \<Rightarrow> span list \<Rightarrow> nat \<Rightarrow> byte list" where
  "copy_out st [] remaining = []"
| "copy_out st ((s, n) # spans) remaining =
     take (min n remaining) (drop s st) @ copy_out st spans (remaining - min n remaining)"

fun erase_spans :: "byte list \<Rightarrow> span list \<Rightarrow> nat \<Rightarrow> byte list" where
  "erase_spans st [] remaining = st"
| "erase_spans st ((s, n) # spans) remaining =
     erase_spans (put_slice st s (replicate (min n remaining) 0)) spans (remaining - min n remaining)"

definition rb_eraseReadablePrefix :: "ring_buffer \<Rightarrow> nat \<Rightarrow> ring_buffer" where
  "rb_eraseReadablePrefix rb n =
     rb\<lparr>rb_storage := erase_spans (rb_storage rb) (rb_readableSpans rb) n\<rparr>"

definition rb_commitWritten :: "ring_buffer \<Rightarrow> nat \<Rightarrow> ring_error + ring_buffer" where
  "rb_commitWritten rb n =
     (if n > length (rb_storage rb) - rb_length rb then Inl ParameterError
      else Inr (rb\<lparr>rb_length := rb_length rb + n\<rparr>))"

definition rb_consumeRead :: "ring_buffer \<Rightarrow> nat \<Rightarrow> ring_error + ring_buffer" where
  "rb_consumeRead rb n =
     (if n > rb_length rb then Inl ParameterError
      else (let rb1 = (if rb_sensitive rb then rb_eraseReadablePrefix rb n else rb)
            in if n = rb_length rb then Inr (rb1\<lparr>rb_readPosition := 0, rb_length := 0\<rparr>)
               else Inr (rb1\<lparr>rb_readPosition := (rb_readPosition rb + n) mod length (rb_storage rb),
                            rb_length := rb_length rb - n\<rparr>)))"

definition rb_verifySafeAccess :: "ring_buffer \<Rightarrow> ring_error + unit" where
  "rb_verifySafeAccess rb = (if rb_unsafeAccess rb then Inl LogicError else Inr ())"

definition rb_secureErase :: "ring_buffer \<Rightarrow> ring_error + ring_buffer" where
  "rb_secureErase rb =
     (if rb_unsafeAccess rb then Inl RingTerminate
      else Inr (rb\<lparr>rb_storage := replicate (length (rb_storage rb)) 0,
                   rb_readPosition := 0, rb_length := 0\<rparr>))"

definition rb_setSensitive :: "ring_buffer \<Rightarrow> bool \<Rightarrow> ring_error + ring_buffer" where
  "rb_setSensitive rb sensitive =
     (if rb_unsafeAccess rb then Inl RingTerminate
      else sbind (if rb_sensitive rb \<and> \<not> sensitive then rb_secureErase rb else Inr rb)
             (\<lambda>rb1. Inr (rb1\<lparr>rb_sensitive := sensitive\<rparr>)))"

text \<open>The result is whether the space is available.\<close>

definition rb_reserveAdditional :: "ring_buffer \<Rightarrow> nat \<Rightarrow> ring_error + bool \<times> ring_buffer" where
  "rb_reserveAdditional rb n =
     sbind (rb_verifySafeAccess rb) (\<lambda>_.
       if \<not> rb_canWrite rb n then Inr (False, rb)
       else if rb_length rb + n \<le> length (rb_storage rb) then Inr (True, rb)
       else
         (let bestCapacity = bg_bestCapacity 1 0 Geometric (length (rb_storage rb)) (rb_length rb + n);
              newCapacity = min bestCapacity (rb_maximumCapacity rb);
              readable = copy_out (rb_storage rb) (rb_readableSpans rb) (rb_length rb)
          in Inr (True, rb\<lparr>rb_storage := put_slice (replicate newCapacity 0) 0 readable,
                          rb_readPosition := 0\<rparr>)))"

definition rb_write :: "ring_buffer \<Rightarrow> byte list \<Rightarrow> ring_error + nat \<times> ring_buffer" where
  "rb_write rb bytes =
     sbind (rb_verifySafeAccess rb) (\<lambda>_.
       let maximumWrite = min (length bytes) (rb_maximumCapacity rb - rb_length rb)
       in sbind (rb_reserveAdditional rb (fromSizeT maximumWrite)) (\<lambda>(ok, rb1).
            if \<not> ok then Inr (0, rb1)
            else sbind (rb_commitWritten
                   (rb1\<lparr>rb_storage := copy_in (rb_storage rb1) (rb_writableSpans rb1) (take maximumWrite bytes)\<rparr>)
                   maximumWrite)
                 (\<lambda>rb2. Inr (fromSizeT maximumWrite, rb2))))"

definition rb_writeExact :: "ring_buffer \<Rightarrow> byte list \<Rightarrow> ring_error + bool \<times> ring_buffer" where
  "rb_writeExact rb bytes =
     sbind (rb_verifySafeAccess rb) (\<lambda>_.
       sbind (rb_reserveAdditional rb (fromSizeT (length bytes))) (\<lambda>(ok, rb1).
         if \<not> ok then Inr (False, rb1)
         else sbind (rb_write rb1 bytes) (\<lambda>(n, rb2). Inr (n = fromSizeT (length bytes), rb2))))"

text \<open>\<open>read\<close> into a span of the given size: the bytes copied and their number.\<close>

definition rb_read :: "ring_buffer \<Rightarrow> nat \<Rightarrow> ring_error + byte list \<times> ring_buffer" where
  "rb_read rb destination =
     sbind (rb_verifySafeAccess rb) (\<lambda>_.
       let maximumRead = min destination (rb_length rb);
           bytes = copy_out (rb_storage rb) (rb_readableSpans rb) maximumRead
       in sbind (rb_consumeRead rb maximumRead) (\<lambda>rb1. Inr (bytes, rb1)))"

text \<open>\<open>read\<close> into a new byte block that has the sensitivity of the ring.\<close>

definition rb_readBlock :: "ring_buffer \<Rightarrow> nat \<Rightarrow> ring_error + (byte list \<times> bool) \<times> ring_buffer" where
  "rb_readBlock rb maximum =
     sbind (rb_verifySafeAccess rb) (\<lambda>_.
       let readLength = (if maximum = infiniteLength then rb_length rb else min maximum (rb_length rb))
       in sbind (rb_read rb readLength) (\<lambda>(bytes, rb1).
            if fromSizeT (length bytes) \<noteq> fromSizeT readLength then Inl RingTerminate
            else Inr ((bytes, rb_sensitive rb), rb1)))"

definition rb_clear :: "ring_buffer \<Rightarrow> ring_error + ring_buffer" where
  "rb_clear rb =
     (if rb_unsafeAccess rb then Inl RingTerminate
      else if rb_sensitive rb then rb_secureErase rb
      else Inr (rb\<lparr>rb_readPosition := 0, rb_length := 0\<rparr>))"

definition rb_shrinkToInitial :: "ring_buffer \<Rightarrow> ring_error + ring_buffer" where
  "rb_shrinkToInitial rb =
     sbind (rb_verifySafeAccess rb) (\<lambda>_.
       if \<not> rb_isEmpty rb \<or> length (rb_storage rb) = rb_initialCapacity rb then Inr rb
       else Inr (rb\<lparr>rb_storage := replicate (rb_initialCapacity rb) 0, rb_readPosition := 0\<rparr>))"

text \<open>\<open>swap\<close> exchanges everything but the lease flags, which are both clear.\<close>

definition rb_swap :: "ring_buffer \<Rightarrow> ring_buffer \<Rightarrow> ring_error + ring_buffer \<times> ring_buffer" where
  "rb_swap a b =
     (if rb_unsafeAccess a \<or> rb_unsafeAccess b then Inl RingTerminate
      else Inr (b\<lparr>rb_unsafeAccess := rb_unsafeAccess a\<rparr>, a\<lparr>rb_unsafeAccess := rb_unsafeAccess b\<rparr>))"

definition rb_beginUnsafeAccess :: "ring_buffer \<Rightarrow> ring_error + ring_buffer" where
  "rb_beginUnsafeAccess rb =
     (if rb_unsafeAccess rb then Inl LogicError else Inr (rb\<lparr>rb_unsafeAccess := True\<rparr>))"

definition rb_endUnsafeAccess :: "ring_buffer \<Rightarrow> ring_buffer" where
  "rb_endUnsafeAccess rb = rb\<lparr>rb_unsafeAccess := False\<rparr>"

section \<open>The transactional writer\<close>

datatype endianness = Little | Big

text \<open>The writer holds the lease; the spans are those of its construction.\<close>

record ring_writer =
  rw_buffer :: ring_buffer
  rw_spans :: "span list"
  rw_endianness :: endianness
  rw_spanIndex :: nat
  rw_spanPosition :: nat
  rw_position :: nat
  rw_committed :: bool

definition rw_create :: "ring_buffer \<Rightarrow> ring_error + ring_writer" where
  "rw_create rb =
     sbind (rb_beginUnsafeAccess rb) (\<lambda>rb1.
       Inr \<lparr>rw_buffer = rb1, rw_spans = rb_writableSpans rb1, rw_endianness = Little,
         rw_spanIndex = 0, rw_spanPosition = 0, rw_position = 0, rw_committed = False\<rparr>)"

text \<open>The loop that skips full spans.\<close>

function skip_spans :: "span list \<Rightarrow> nat \<Rightarrow> nat \<Rightarrow> nat \<times> nat" where
  "skip_spans spans spanIndex spanPosition =
     (if spanIndex < length spans \<and> spanPosition \<ge> snd (spans ! spanIndex)
      then skip_spans spans (Suc spanIndex) 0 else (spanIndex, spanPosition))"
  by pat_completeness auto
termination
  by (relation "measure (\<lambda>(spans, spanIndex, spanPosition). length spans - spanIndex)") auto

declare skip_spans.simps [simp del]

definition rw_writeByte :: "ring_writer \<Rightarrow> byte \<Rightarrow> ring_error + ring_writer" where
  "rw_writeByte w v =
     (case skip_spans (rw_spans w) (rw_spanIndex w) (rw_spanPosition w) of (i, p) \<Rightarrow>
        if i \<ge> length (rw_spans w) then Inl LogicError
        else Inr (w\<lparr>rw_buffer := (rw_buffer w)\<lparr>rb_storage :=
                      (rb_storage (rw_buffer w))[fst (rw_spans w ! i) + p := v]\<rparr>,
                    rw_spanIndex := i, rw_spanPosition := Suc p, rw_position := Suc (rw_position w)\<rparr>))"

fun rw_writeBytes :: "ring_writer \<Rightarrow> byte list \<Rightarrow> ring_error + ring_writer" where
  "rw_writeBytes w [] = Inr w"
| "rw_writeBytes w (b # bs) = sbind (rw_writeByte w b) (\<lambda>w1. rw_writeBytes w1 bs)"

definition rw_writeInteger :: "nat \<Rightarrow> ring_writer \<Rightarrow> int \<Rightarrow> ring_error + ring_writer" where
  "rw_writeInteger n w v =
     (let unsignedValue = nat (v mod 2 ^ (8 * n));
          byteAt = (\<lambda>i. let shift = (if rw_endianness w = Little then i * 8 else (n - 1 - i) * 8)
                        in unsignedValue div 2 ^ shift mod 256)
      in rw_writeBytes w (map byteAt [0..<n]))"

definition rw_commit :: "ring_writer \<Rightarrow> ring_error + ring_writer" where
  "rw_commit w =
     (if rw_committed w then Inl LogicError
      else sbind (rb_commitWritten (rw_buffer w) (fromSizeT (rw_position w)))
             (\<lambda>rb. Inr (w\<lparr>rw_buffer := rb, rw_committed := True\<rparr>)))"

text \<open>The destructor releases the lease.\<close>

definition rw_release :: "ring_writer \<Rightarrow> ring_buffer" where
  "rw_release w = rb_endUnsafeAccess (rw_buffer w)"

section \<open>The ring as a rotated list\<close>

text \<open>The invariant of the class, the storage read from the read position on, and its two parts:
  the readable bytes and the free rest.\<close>

definition rb_inv :: "ring_buffer \<Rightarrow> bool" where
  "rb_inv rb \<longleftrightarrow> rb_readPosition rb < length (rb_storage rb) \<and> rb_length rb \<le> length (rb_storage rb)
     \<and> 0 < rb_initialCapacity rb \<and> rb_initialCapacity rb \<le> rb_maximumCapacity rb
     \<and> length (rb_storage rb) \<le> rb_maximumCapacity rb \<and> rb_maximumCapacity rb < maximumLength"

definition rb_ring :: "ring_buffer \<Rightarrow> byte list" where
  "rb_ring rb = rotate (rb_readPosition rb) (rb_storage rb)"

definition rb_contents :: "ring_buffer \<Rightarrow> byte list" where
  "rb_contents rb = take (rb_length rb) (rb_ring rb)"

definition rb_free :: "ring_buffer \<Rightarrow> byte list" where
  "rb_free rb = drop (rb_length rb) (rb_ring rb)"

lemma rb_ring_split: "rb_readPosition rb < length (rb_storage rb) \<Longrightarrow>
  rb_ring rb = drop (rb_readPosition rb) (rb_storage rb) @ take (rb_readPosition rb) (rb_storage rb)"
  by (simp add: rb_ring_def rotate_drop_take)

lemma rb_ring_parts: "rb_ring rb = rb_contents rb @ rb_free rb"
  by (simp add: rb_contents_def rb_free_def)

lemma rb_lengths [simp]:
  "length (rb_ring rb) = length (rb_storage rb)"
  "length (rb_contents rb) = min (rb_length rb) (length (rb_storage rb))"
  "length (rb_free rb) = length (rb_storage rb) - rb_length rb"
  by (simp_all add: rb_ring_def rb_contents_def rb_free_def min.commute)

lemma rb_invD:
  assumes "rb_inv rb"
  shows "rb_readPosition rb < length (rb_storage rb)" "rb_length rb \<le> length (rb_storage rb)"
    "length (rb_storage rb) \<le> rb_maximumCapacity rb" "length (rb_contents rb) = rb_length rb"
    "rb_storage rb \<noteq> []" "rb_maximumCapacity rb < maximumLength"
  using assms by (auto simp: rb_inv_def)

lemma put_slice_append:
  "length A = s \<Longrightarrow> length B = length bs \<Longrightarrow> put_slice (A @ B @ C) s bs = A @ bs @ C"
  by (simp add: put_slice_def)

lemma put_slice_empty [simp]: "put_slice st s [] = st"
  by (simp add: put_slice_def)

lemma put_slice_length [simp]: "s + length bs \<le> length st \<Longrightarrow> length (put_slice st s bs) = length st"
  by (simp add: put_slice_def)

lemma copy_out_readable:
  assumes "rb_inv rb" "m \<le> rb_length rb"
  shows "copy_out (rb_storage rb) (rb_readableSpans rb) m = take m (rb_contents rb)"
proof (cases "rb_length rb = 0")
  case False
  define P Q where "P = take (rb_readPosition rb) (rb_storage rb)" and "Q = drop (rb_readPosition rb) (rb_storage rb)"
  note i = rb_invD[OF assms(1)]
  have ring: "rb_ring rb = Q @ P" using i(1) by (simp add: rb_ring_split P_def Q_def)
  have l: "length Q = length (rb_storage rb) - rb_readPosition rb" "length P = rb_readPosition rb"
    using i(1) by (simp_all add: P_def Q_def)
  have tk: "take k (rb_storage rb) = take k P" if "k \<le> length P" for k
    using that l by (simp add: P_def min_def)
  have lenP: "rb_length rb - length Q \<le> length P" using i(2) l by simp
  have con: "take m (rb_contents rb) = take m Q @ take (m - length Q) P"
    using assms(2) by (simp add: rb_contents_def ring min_def)
  show ?thesis
  proof (cases "rb_length rb \<le> length Q")
    case True
    then have "rb_readableSpans rb = [(rb_readPosition rb, rb_length rb), (0, 0)]"
      using False l by (simp add: rb_readableSpans_def Let_def)
    then show ?thesis using True assms(2) con by (simp add: Q_def[symmetric] min_def)
  next
    case lt: False
    then have "rb_readableSpans rb = [(rb_readPosition rb, length Q), (0, rb_length rb - length Q)]"
      using False l by (simp add: rb_readableSpans_def Let_def min_def)
    moreover have "take (min (length Q) m) Q = take m Q" by (simp add: min_def)
    moreover have "m - min (length Q) m = m - length Q" by (simp add: min_def)
    moreover have "min (rb_length rb - length Q) (m - length Q) = m - length Q" using assms(2) by simp
    moreover have "take (m - length Q) (rb_storage rb) = take (m - length Q) P"
      using assms(2) lenP by (intro tk) simp
    ultimately show ?thesis by (simp add: Q_def[symmetric] con)
  qed
qed (use assms in \<open>simp add: rb_readableSpans_def\<close>)

lemma rotate_append_prefix: "length A = n \<Longrightarrow> rotate n (A @ B) = B @ A"
  using rotate_append[of A B] by simp

text \<open>Writing into the writable spans replaces the first bytes of the free part.\<close>

lemma copy_in_writable:
  assumes "rb_inv rb" "length bs \<le> length (rb_storage rb) - rb_length rb"
  shows "rotate (rb_readPosition rb) (copy_in (rb_storage rb) (rb_writableSpans rb) bs)
      = rb_contents rb @ bs @ drop (length bs) (rb_free rb)"
    and "length (copy_in (rb_storage rb) (rb_writableSpans rb) bs) = length (rb_storage rb)"
proof -
  let ?st = "rb_storage rb" and ?rp = "rb_readPosition rb" and ?n = "rb_length rb"
  note i = rb_invD[OF assms(1)]
  define st' where "st' = copy_in ?st (rb_writableSpans rb) bs"
  have "rotate ?rp st' = rb_contents rb @ bs @ drop (length bs) (rb_free rb) \<and> length st' = length ?st"
  proof (cases "?n = length ?st")
    case True
    then have b: "bs = []" using assms(2) by simp
    have "st' = ?st" using True by (simp add: st'_def rb_writableSpans_def b)
    then show ?thesis using rb_ring_parts[of rb] by (simp add: b rb_ring_def)
  next
    case nf: False
    then have free: "0 < length ?st - ?n" using i(2) by simp
    show ?thesis
    proof (cases "?rp + ?n < length ?st")
      case True
      define P C F where "P = take ?rp ?st" and "C = take ?n (drop ?rp ?st)" and "F = drop (?rp + ?n) ?st"
      have "drop ?rp ?st = C @ F"
        using append_take_drop_id[of ?n "drop ?rp ?st"] by (simp add: C_def F_def add.commute)
      then have st: "?st = P @ C @ F" using append_take_drop_id[of ?rp ?st] by (simp add: P_def)
      have l: "length P = ?rp" "length C = ?n" "length F = length ?st - ?rp - ?n"
        using True by (simp_all add: P_def C_def F_def)
      have ring: "rb_ring rb = C @ F @ P" unfolding rb_ring_def using rotate_append_prefix[OF l(1), of "C @ F"] by (subst st) simp
      have cf: "rb_contents rb = C" "rb_free rb = F @ P" using l by (simp_all add: rb_contents_def rb_free_def ring)
      define b1 b2 where "b1 = take (length F) bs" and "b2 = drop (length F) bs"
      have sp: "rb_writableSpans rb = [(?rp + ?n, length F), (0, ?rp)]"
      proof -
        have "min (length ?st - ?n) (length ?st - (?rp + ?n)) = length F" using l by simp
        moreover have "length ?st - ?n - length F = ?rp" using l True by simp
        ultimately show ?thesis using True free by (simp add: rb_writableSpans_def Let_def)
      qed
      have b2: "length b2 \<le> length P" using assms(2) l True by (simp add: b2_def)
      have "put_slice (P @ C @ F) (?rp + ?n) b1 = P @ C @ b1 @ drop (length b1) F"
        using l by (simp add: put_slice_def b1_def)
      moreover have "put_slice (P @ R) 0 b2 = (b2 @ drop (length b2) P) @ R" for R
        using b2 by (simp add: put_slice_def)
      ultimately have st'_eq: "st' = (b2 @ drop (length b2) P) @ C @ b1 @ drop (length b1) F"
      proof -
        assume p1: "put_slice (P @ C @ F) (?rp + ?n) b1 = P @ C @ b1 @ drop (length b1) F"
          and p2: "\<And>R. put_slice (P @ R) 0 b2 = (b2 @ drop (length b2) P) @ R"
        have "take ?rp b2 = b2" using b2 l by simp
        then have "st' = put_slice (put_slice ?st (?rp + ?n) b1) 0 b2"
          by (simp only: st'_def sp copy_in.simps b1_def[symmetric] b2_def[symmetric])
        then show ?thesis using p1 p2 by (subst (asm) st) simp
      qed
      have "length (b2 @ drop (length b2) P) = ?rp" using b2 l by simp
      with st'_eq have "rotate ?rp st' = (C @ b1 @ drop (length b1) F) @ b2 @ drop (length b2) P"
        using rotate_append_prefix[of "b2 @ drop (length b2) P" ?rp "C @ b1 @ drop (length b1) F"] by simp
      moreover have "length st' = length ?st"
      proof -
        have "length ?st = length P + length C + length F" by (subst st) simp
        moreover have "length b1 \<le> length F" by (simp add: b1_def)
        ultimately show ?thesis
          using b2 st'_eq by simp
      qed
      moreover have "bs = b1 @ b2" by (simp add: b1_def b2_def)
      moreover have "b1 @ drop (length b1) F @ b2 @ drop (length b2) P = b1 @ b2 @ drop (length bs) (F @ P)"
        by (cases "length F \<le> length bs") (auto simp: b1_def b2_def)
      ultimately show ?thesis by (simp add: cf)
    next
      case False
      define w where "w = ?rp + ?n - length ?st"
      define D F Q where "D = take w ?st" and "F = take (length ?st - ?n) (drop w ?st)" and "Q = drop ?rp ?st"
      have wrp: "w + (length ?st - ?n) = ?rp" "w \<le> ?rp" using False i(1,2) by (simp_all add: w_def)
      have "drop w ?st = F @ Q"
        using append_take_drop_id[of "length ?st - ?n" "drop w ?st"] wrp(1) by (simp add: F_def Q_def add.commute)
      then have st: "?st = D @ F @ Q" using append_take_drop_id[of w ?st] by (simp add: D_def)
      have l: "length D = w" "length F = length ?st - ?n" "length Q = length ?st - ?rp"
        using wrp i(1,2) by (auto simp: D_def F_def Q_def)
      have ring: "rb_ring rb = Q @ D @ F"
        unfolding rb_ring_def by (subst st) (use rotate_append_prefix[of "D @ F" ?rp Q] l wrp(1) in simp)
      have "length Q + w = ?n" using l False i(1) by (simp add: w_def)
      then have cf: "rb_contents rb = Q @ D" "rb_free rb = F"
        using l by (simp_all add: rb_contents_def rb_free_def ring)
      have "(?rp + ?n) mod length ?st = w" using False i(1,2) nf by (simp add: w_def mod_if)
      moreover have "length ?st - ?n \<le> length ?st - w" using wrp i(1) by simp
      ultimately have sp: "rb_writableSpans rb = [(w, length F), (0, 0)]"
        using free l by (simp add: rb_writableSpans_def Let_def min_def)
      have "length bs \<le> length F" using assms(2) l by simp
      then have "st' = D @ bs @ drop (length bs) F @ Q"
        using l unfolding st'_def sp by (subst st) (simp add: put_slice_def)
      moreover have "length (D @ bs @ drop (length bs) F) = ?rp" using l wrp(1) \<open>length bs \<le> length F\<close> by simp
      moreover have "length (D @ bs @ drop (length bs) F @ Q) = length ?st"
        using l wrp(1) i(1) \<open>length bs \<le> length F\<close> by simp
      ultimately show ?thesis
        using rotate_append_prefix[of "D @ bs @ drop (length bs) F" ?rp Q] by (simp add: cf)
    qed
  qed
  then show "rotate ?rp (copy_in ?st (rb_writableSpans rb) bs) = rb_contents rb @ bs @ drop (length bs) (rb_free rb)"
    "length (copy_in ?st (rb_writableSpans rb) bs) = length ?st" by (simp_all add: st'_def)
qed

lemma erase_readable:
  assumes "rb_inv rb" "m \<le> rb_length rb"
  shows "rotate (rb_readPosition rb) (erase_spans (rb_storage rb) (rb_readableSpans rb) m)
      = replicate m 0 @ drop m (rb_ring rb)"
    and "length (erase_spans (rb_storage rb) (rb_readableSpans rb) m) = length (rb_storage rb)"
proof -
  let ?st = "rb_storage rb" and ?rp = "rb_readPosition rb" and ?n = "rb_length rb"
  note i = rb_invD[OF assms(1)]
  define st' where "st' = erase_spans ?st (rb_readableSpans rb) m"
  have "rotate ?rp st' = replicate m 0 @ drop m (rb_ring rb) \<and> length st' = length ?st"
  proof (cases "?n = 0")
    case True
    then show ?thesis using assms(2) by (simp add: st'_def rb_readableSpans_def rb_ring_def)
  next
    case False
    define P Q where "P = take ?rp ?st" and "Q = drop ?rp ?st"
    have st: "?st = P @ Q" by (simp add: P_def Q_def)
    have l: "length Q = length ?st - ?rp" "length P = ?rp" using i(1) by (simp_all add: P_def Q_def)
    have ring: "rb_ring rb = Q @ P" using i(1) by (simp add: rb_ring_split P_def Q_def)
    define k where "k = min (length Q) m"
    have k: "k \<le> length Q" "m - k \<le> length P" using assms(2) i(2) l by (auto simp: k_def)
    have Q1: "put_slice (P @ Q) ?rp (replicate k 0) = P @ replicate k 0 @ drop k Q"
      using l k by (simp add: put_slice_def)
    have P1: "put_slice (P @ R) 0 (replicate (m - k) 0) = (replicate (m - k) 0 @ drop (m - k) P) @ R" for R
      using k by (simp add: put_slice_def)
    have sp: "rb_readableSpans rb = [(?rp, min ?n (length Q)), (0, ?n - min ?n (length Q))]"
      using False l by (simp add: rb_readableSpans_def Let_def)
    have mm: "min (min ?n (length Q)) m = k" "min (?n - min ?n (length Q)) (m - k) = m - k"
      using assms(2) by (auto simp: k_def)
    have "st' = put_slice (put_slice ?st ?rp (replicate k 0)) 0 (replicate (m - k) 0)"
      by (simp only: st'_def sp erase_spans.simps mm)
    also have "\<dots> = (replicate (m - k) 0 @ drop (m - k) P) @ replicate k 0 @ drop k Q"
      by (subst st) (simp only: Q1 P1)
    finally have eq: "st' = (replicate (m - k) 0 @ drop (m - k) P) @ replicate k 0 @ drop k Q" .
    have "rotate ?rp st' = (replicate k 0 @ drop k Q) @ replicate (m - k) 0 @ drop (m - k) P"
      unfolding eq using k l rotate_append_prefix[of "replicate (m - k) 0 @ drop (m - k) P" ?rp] by simp
    also have "\<dots> = replicate m 0 @ drop m (Q @ P)"
    proof (cases "m \<le> length Q")
      case True
      then show ?thesis by (simp add: k_def min_def)
    next
      case gt: False
      then have "replicate m 0 = replicate k 0 @ replicate (m - k) (0::nat)"
        by (simp add: k_def replicate_add[symmetric])
      with gt show ?thesis by (simp add: k_def)
    qed
    finally show ?thesis using k l i(1) by (simp add: ring eq)
  qed
  then show "rotate ?rp (erase_spans ?st (rb_readableSpans rb) m) = replicate m 0 @ drop m (rb_ring rb)"
    "length (erase_spans ?st (rb_readableSpans rb) m) = length ?st" by (simp_all add: st'_def)
qed

lemma rotate_advance:
  "rotate ((rp + m) mod length st) st = rotate m (rotate rp st)"
  by (metis rotate_conv_mod rotate_rotate add.commute)

section \<open>The operations\<close>

text \<open>In a sensitive buffer every byte outside the readable part is zero.\<close>

definition rb_clean :: "ring_buffer \<Rightarrow> bool" where
  "rb_clean rb \<longleftrightarrow> (\<forall>b \<in> set (rb_free rb). b = 0)"

definition rb_ok :: "ring_buffer \<Rightarrow> bool" where
  "rb_ok rb \<longleftrightarrow> rb_inv rb \<and> \<not> rb_unsafeAccess rb \<and> (rb_sensitive rb \<longrightarrow> rb_clean rb)"

definition rb_config :: "ring_buffer \<Rightarrow> nat \<times> nat \<times> bool \<times> bool" where
  "rb_config rb = (rb_initialCapacity rb, rb_maximumCapacity rb, rb_unsafeAccess rb, rb_sensitive rb)"

lemma rb_config_iff [simp]:
  "rb_config a = rb_config b \<longleftrightarrow> rb_initialCapacity a = rb_initialCapacity b
    \<and> rb_maximumCapacity a = rb_maximumCapacity b \<and> rb_unsafeAccess a = rb_unsafeAccess b
    \<and> rb_sensitive a = rb_sensitive b"
  by (simp add: rb_config_def)

lemma rb_consumeRead_ring:
  assumes "rb_inv rb" "n \<le> rb_length rb"
  shows "\<exists>rb'. rb_consumeRead rb n = Inr rb' \<and> rb_inv rb' \<and> rb_config rb' = rb_config rb
    \<and> rb_contents rb' = drop n (rb_contents rb) \<and> rb_length rb' = rb_length rb - n
    \<and> (rb_sensitive rb \<longrightarrow> rb_clean rb \<longrightarrow> rb_clean rb')"
proof -
  note i = rb_invD[OF assms(1)]
  define rb1 where "rb1 = (if rb_sensitive rb then rb_eraseReadablePrefix rb n else rb)"
  define z where "z = (if rb_sensitive rb then replicate n 0 else take n (rb_ring rb))"
  have ring1: "rb_ring rb1 = z @ drop n (rb_ring rb)" "length (rb_storage rb1) = length (rb_storage rb)"
    using erase_readable[OF assms] by (simp_all add: rb1_def z_def rb_ring_def rb_eraseReadablePrefix_def)
  have z: "length z = n" using i(2) assms(2) by (simp add: z_def)
  have same: "rb_readPosition rb1 = rb_readPosition rb" "rb_length rb1 = rb_length rb"
    "rb_config rb1 = rb_config rb"
    by (simp_all add: rb1_def rb_eraseReadablePrefix_def)
  have cz: "\<forall>b \<in> set z. b = 0" if "rb_sensitive rb" using that by (simp add: z_def)
  have drop_free: "drop (rb_length rb - n) (drop n (rb_ring rb)) = rb_free rb"
    using assms(2) by (simp add: rb_free_def)
  show ?thesis
  proof (cases "n = rb_length rb")
    case True
    define rb' where "rb' = rb1\<lparr>rb_readPosition := 0, rb_length := 0\<rparr>"
    have "rb_consumeRead rb n = Inr rb'"
      using True by (simp add: rb_consumeRead_def rb1_def rb'_def Let_def)
    moreover have "rb_inv rb'" using assms(1) ring1(2) same i(5) by (auto simp: rb_inv_def rb'_def)
    moreover have "rb_clean rb'" if "rb_sensitive rb" "rb_clean rb"
    proof -
      have "set (rb_storage rb1) = set (rb_ring rb1)" by (simp add: rb_ring_def)
      also have "\<dots> = set z \<union> set (rb_free rb)"
        unfolding ring1(1) rb_free_def True[symmetric] by (rule set_append)
      finally have "set (rb_storage rb1) = set z \<union> set (rb_free rb)" .
      moreover have "rb_free rb' = rb_storage rb1" by (simp add: rb'_def rb_free_def rb_ring_def)
      ultimately show ?thesis using that cz unfolding rb_clean_def by auto
    qed
    ultimately show ?thesis
      using True same by (intro exI[of _ rb']) (simp add: rb'_def rb_contents_def)
  next
    case False
    define rb' where "rb' = rb1\<lparr>rb_readPosition := (rb_readPosition rb + n) mod length (rb_storage rb),
      rb_length := rb_length rb - n\<rparr>"
    have c: "rb_consumeRead rb n = Inr rb'"
      using False assms(2) by (simp add: rb_consumeRead_def rb1_def rb'_def Let_def)
    have "rb_ring rb' = rotate n (rb_ring rb1)"
      using rotate_advance[of "rb_readPosition rb" n "rb_storage rb1"] ring1(2) same
      by (simp add: rb'_def rb_ring_def)
    then have ring': "rb_ring rb' = drop n (rb_ring rb) @ z"
      using rotate_append_prefix[OF z] ring1(1) by simp
    have "rb_contents rb' = drop n (rb_contents rb)"
      using i(2) assms(2) by (simp add: rb_contents_def ring') (simp add: rb'_def drop_take)
    moreover have "rb_inv rb'"
      using assms(1) ring1(2) same i(1,2) by (auto simp: rb_inv_def rb'_def intro!: mod_less_divisor)
    moreover have "rb_clean rb'" if "rb_sensitive rb" "rb_clean rb"
    proof -
      have "rb_free rb' = rb_free rb @ z"
        using i(2) assms(2) drop_free by (simp add: rb_free_def ring') (simp add: rb'_def)
      with that cz show ?thesis by (auto simp: rb_clean_def)
    qed
    ultimately show ?thesis using c same by (intro exI[of _ rb']) (simp add: rb'_def)
  qed
qed

lemma bg_bestCapacity_ge: "requested \<le> bg_bestCapacity elementSize overhead strategy current requested"
  by (simp add: bg_bestCapacity_def Let_def)

lemma rb_reserveAdditional_ring:
  assumes "rb_inv rb" "\<not> rb_unsafeAccess rb" "n \<le> rb_maximumCapacity rb - rb_length rb"
  shows "\<exists>rb'. rb_reserveAdditional rb n = Inr (True, rb') \<and> rb_inv rb' \<and> rb_config rb' = rb_config rb
    \<and> rb_contents rb' = rb_contents rb \<and> rb_length rb' = rb_length rb
    \<and> rb_length rb + n \<le> length (rb_storage rb') \<and> (rb_clean rb \<longrightarrow> rb_clean rb')"
proof -
  note i = rb_invD[OF assms(1)]
  have can: "rb_canWrite rb n" using assms(3) i(6) by (auto simp: rb_canWrite_def)
  show ?thesis
  proof (cases "rb_length rb + n \<le> length (rb_storage rb)")
    case True
    then show ?thesis using can assms by (simp add: rb_reserveAdditional_def rb_verifySafeAccess_def)
  next
    case False
    define c where "c = min (bg_bestCapacity 1 0 Geometric (length (rb_storage rb)) (rb_length rb + n)) (rb_maximumCapacity rb)"
    have cge: "rb_length rb + n \<le> c" using bg_bestCapacity_ge assms(3) i(2,3) by (simp add: c_def)
    have cmax: "c \<le> rb_maximumCapacity rb" by (simp add: c_def)
    define rb' where "rb' = rb\<lparr>rb_storage := put_slice (replicate c 0) 0 (rb_contents rb), rb_readPosition := 0\<rparr>"
    have r: "rb_reserveAdditional rb n = Inr (True, rb')"
      using False can assms(2) copy_out_readable[OF assms(1) order_refl] i(4)
      by (simp add: rb_reserveAdditional_def rb_verifySafeAccess_def Let_def c_def rb'_def)
    have st: "rb_storage rb' = rb_contents rb @ replicate (c - rb_length rb) 0"
      using cge i(4) by (simp add: rb'_def put_slice_def)
    have len: "length (rb_storage rb') = c" using cge i(4) by (simp add: st)
    have "rb_contents rb' = rb_contents rb" "rb_clean rb'"
      using i(4) by (simp_all add: rb_contents_def[of rb'] rb_clean_def rb_free_def rb_ring_def[of rb'])
        (simp_all add: st, simp_all add: rb'_def)
    moreover have "rb_inv rb'"
      using assms(1) cge cmax len False i(5) by (auto simp: rb_inv_def rb'_def)
    ultimately show ?thesis using r cge len by (intro exI[of _ rb']) (simp add: rb'_def)
  qed
qed

lemma rb_put_ring:
  assumes "rb_inv rb" "length bs \<le> length (rb_storage rb) - rb_length rb"
  defines "rb1 \<equiv> rb\<lparr>rb_storage := copy_in (rb_storage rb) (rb_writableSpans rb) bs\<rparr>"
  shows "\<exists>rb'. rb_commitWritten rb1 (length bs) = Inr rb' \<and> rb_inv rb' \<and> rb_config rb' = rb_config rb
    \<and> rb_contents rb' = rb_contents rb @ bs \<and> rb_length rb' = rb_length rb + length bs
    \<and> (rb_clean rb \<longrightarrow> rb_clean rb')"
proof -
  note i = rb_invD[OF assms(1)]
  note c = copy_in_writable[OF assms(1,2)]
  define rb' where "rb' = rb1\<lparr>rb_length := rb_length rb + length bs\<rparr>"
  have ring: "rb_ring rb' = rb_contents rb @ bs @ drop (length bs) (rb_free rb)"
    using c(1) by (simp add: rb_ring_def rb'_def rb1_def)
  have n: "rb_length rb' = rb_length rb + length bs" by (simp add: rb'_def)
  have "rb_commitWritten rb1 (length bs) = Inr rb'"
    using assms(2) c(2) by (simp add: rb_commitWritten_def rb1_def rb'_def)
  moreover have "rb_contents rb' = rb_contents rb @ bs"
    using i(4) by (simp add: rb_contents_def[of rb'] ring n)
  moreover have "rb_clean rb \<longrightarrow> rb_clean rb'"
    using i(4) by (auto simp: rb_clean_def rb_free_def[of rb'] ring n dest: in_set_dropD)
  moreover have "rb_inv rb'"
    using assms(1,2) c(2) i(2) by (auto simp: rb_inv_def rb'_def rb1_def)
  ultimately show ?thesis using n by (intro exI[of _ rb']) (simp add: rb'_def rb1_def)
qed

lemma rb_write_correct:
  assumes "rb_ok rb"
  shows "\<exists>rb'. rb_write rb bs = Inr (min (length bs) (rb_maximumCapacity rb - rb_length rb), rb')
    \<and> rb_ok rb' \<and> rb_config rb' = rb_config rb
    \<and> rb_contents rb' = rb_contents rb @ take (rb_maximumCapacity rb - rb_length rb) bs
    \<and> rb_length rb' = rb_length rb + min (length bs) (rb_maximumCapacity rb - rb_length rb)"
proof -
  have ok: "rb_inv rb" "\<not> rb_unsafeAccess rb" using assms by (simp_all add: rb_ok_def)
  define k where "k = min (length bs) (rb_maximumCapacity rb - rb_length rb)"
  have k: "k \<le> rb_maximumCapacity rb - rb_length rb" "fromSizeT k = k" "length (take k bs) = k"
    using rb_invD(6)[OF ok(1)] by (auto simp: k_def fromSizeT_def)
  obtain rb1 where rb1: "rb_reserveAdditional rb k = Inr (True, rb1)" "rb_inv rb1" "rb_config rb1 = rb_config rb"
    "rb_contents rb1 = rb_contents rb" "rb_length rb1 = rb_length rb" "rb_length rb + k \<le> length (rb_storage rb1)"
    "rb_clean rb \<longrightarrow> rb_clean rb1"
    using rb_reserveAdditional_ring[OF ok k(1)] by blast
  have "length (take k bs) \<le> length (rb_storage rb1) - rb_length rb1" using rb1(5,6) k(3) by simp
  from rb_put_ring[OF rb1(2) this] obtain rb' where rb':
    "rb_commitWritten (rb1\<lparr>rb_storage := copy_in (rb_storage rb1) (rb_writableSpans rb1) (take k bs)\<rparr>) k = Inr rb'"
    "rb_inv rb'" "rb_config rb' = rb_config rb1" "rb_contents rb' = rb_contents rb1 @ take k bs"
    "rb_length rb' = rb_length rb1 + k" "rb_clean rb1 \<longrightarrow> rb_clean rb'"
    unfolding k(3) by blast
  have "rb_write rb bs = Inr (k, rb')"
    using ok(2) rb1(1) rb'(1) k(2) by (simp add: rb_write_def rb_verifySafeAccess_def Let_def k_def[symmetric])
  moreover have "take k bs = take (rb_maximumCapacity rb - rb_length rb) bs" by (simp add: k_def min_def)
  ultimately show ?thesis
    using rb' rb1 assms by (intro exI[of _ rb']) (simp add: rb_ok_def k_def)
qed

lemma rb_writeExact_correct:
  assumes "rb_ok rb"
  shows "if length bs \<le> rb_maximumCapacity rb - rb_length rb
    then \<exists>rb'. rb_writeExact rb bs = Inr (True, rb') \<and> rb_ok rb' \<and> rb_config rb' = rb_config rb
      \<and> rb_contents rb' = rb_contents rb @ bs
    else rb_writeExact rb bs = Inr (False, rb)"
proof -
  have ok: "rb_inv rb" "\<not> rb_unsafeAccess rb" using assms by (simp_all add: rb_ok_def)
  note mx = rb_invD(6)[OF ok(1)]
  show ?thesis
  proof (cases "length bs \<le> rb_maximumCapacity rb - rb_length rb")
    case True
    then have f: "fromSizeT (length bs) = length bs" using mx by (simp add: fromSizeT_def)
    obtain rb1 where rb1: "rb_reserveAdditional rb (length bs) = Inr (True, rb1)" "rb_inv rb1" "rb_config rb1 = rb_config rb"
      "rb_contents rb1 = rb_contents rb" "rb_length rb1 = rb_length rb" "rb_clean rb \<longrightarrow> rb_clean rb1"
      using rb_reserveAdditional_ring[OF ok True] by blast
    then have ok1: "rb_ok rb1" using assms by (simp add: rb_ok_def)
    have "min (length bs) (rb_maximumCapacity rb1 - rb_length rb1) = length bs"
      "take (rb_maximumCapacity rb1 - rb_length rb1) bs = bs" using True rb1 by simp_all
    with rb_write_correct[OF ok1, of bs] obtain rb' where
      "rb_write rb1 bs = Inr (length bs, rb')" "rb_ok rb'" "rb_config rb' = rb_config rb1" "rb_contents rb' = rb_contents rb1 @ bs"
      by auto
    then show ?thesis
      using True rb1 ok(2) f by (simp add: rb_writeExact_def rb_verifySafeAccess_def)
  next
    case False
    then have "\<not> rb_canWrite rb (fromSizeT (length bs))" using mx by (auto simp: rb_canWrite_def fromSizeT_def)
    with False ok show ?thesis
      by (simp add: rb_writeExact_def rb_reserveAdditional_def rb_verifySafeAccess_def)
  qed
qed

lemma rb_read_correct:
  assumes "rb_ok rb"
  shows "\<exists>rb'. rb_read rb n = Inr (take n (rb_contents rb), rb') \<and> rb_ok rb' \<and> rb_config rb' = rb_config rb
    \<and> rb_contents rb' = drop n (rb_contents rb)"
proof -
  have ok: "rb_inv rb" "\<not> rb_unsafeAccess rb" using assms by (simp_all add: rb_ok_def)
  define k where "k = min n (rb_length rb)"
  have k: "k \<le> rb_length rb" by (simp add: k_def)
  obtain rb' where rb': "rb_consumeRead rb k = Inr rb'" "rb_inv rb'" "rb_config rb' = rb_config rb"
    "rb_contents rb' = drop k (rb_contents rb)" "rb_sensitive rb \<longrightarrow> rb_clean rb \<longrightarrow> rb_clean rb'"
    using rb_consumeRead_ring[OF ok(1) k] by blast
  have "take k (rb_contents rb) = take n (rb_contents rb)" "drop k (rb_contents rb) = drop n (rb_contents rb)"
    using rb_invD(4)[OF ok(1)] by (simp_all add: k_def min_def)
  then show ?thesis
    using ok rb' copy_out_readable[OF ok(1) k] assms
    by (simp add: rb_read_def rb_verifySafeAccess_def Let_def k_def[symmetric] rb_ok_def)
qed

lemma rb_reset_ok:
  assumes "rb_ok rb" "length st = n" "0 < n" "n \<le> rb_maximumCapacity rb" "rb_sensitive rb \<Longrightarrow> \<forall>b \<in> set st. b = 0"
  shows "rb_ok (rb\<lparr>rb_storage := st, rb_readPosition := 0, rb_length := 0\<rparr>)"
    and "rb_contents (rb\<lparr>rb_storage := st, rb_readPosition := 0, rb_length := 0\<rparr>) = []"
proof -
  let ?r = "rb\<lparr>rb_storage := st, rb_readPosition := 0, rb_length := 0\<rparr>"
  have "rb_inv rb" "\<not> rb_unsafeAccess rb" using assms(1) by (simp_all add: rb_ok_def)
  then have "rb_inv ?r" using assms(2-4) unfolding rb_inv_def by simp
  moreover have "rb_free ?r = st" by (simp add: rb_free_def rb_ring_def)
  ultimately show "rb_ok ?r" using \<open>\<not> rb_unsafeAccess rb\<close> assms(5) unfolding rb_ok_def rb_clean_def by simp
  show "rb_contents ?r = []" by (simp add: rb_contents_def)
qed

lemma rb_clear_correct:
  assumes "rb_ok rb"
  shows "\<exists>rb'. rb_clear rb = Inr rb' \<and> rb_ok rb' \<and> rb_config rb' = rb_config rb \<and> rb_contents rb' = []"
proof -
  have ok: "rb_inv rb" "\<not> rb_unsafeAccess rb" using assms by (simp_all add: rb_ok_def)
  note i = rb_invD[OF ok(1)]
  define st where "st = (if rb_sensitive rb then replicate (length (rb_storage rb)) 0 else rb_storage rb)"
  have "rb_clear rb = Inr (rb\<lparr>rb_storage := st, rb_readPosition := 0, rb_length := 0\<rparr>)"
    using ok(2) by (simp add: rb_clear_def rb_secureErase_def st_def)
  then show ?thesis
    using rb_reset_ok[OF assms, of st "length (rb_storage rb)"] i by (simp add: st_def)
qed

lemma rb_shrinkToInitial_correct:
  assumes "rb_ok rb"
  shows "\<exists>rb'. rb_shrinkToInitial rb = Inr rb' \<and> rb_ok rb' \<and> rb_config rb' = rb_config rb
    \<and> rb_contents rb' = rb_contents rb"
proof (cases "\<not> rb_isEmpty rb \<or> length (rb_storage rb) = rb_initialCapacity rb")
  case True
  then show ?thesis using assms by (simp add: rb_shrinkToInitial_def rb_verifySafeAccess_def rb_ok_def)
next
  case False
  define rb' where "rb' = rb\<lparr>rb_storage := replicate (rb_initialCapacity rb) 0, rb_readPosition := 0, rb_length := 0\<rparr>"
  have e: "rb_length rb = 0" using False by (simp add: rb_isEmpty_def)
  have init: "0 < rb_initialCapacity rb" "rb_initialCapacity rb \<le> rb_maximumCapacity rb"
    using assms by (simp_all add: rb_ok_def rb_inv_def)
  have "rb_shrinkToInitial rb = Inr rb'"
    using False assms e by (simp add: rb_shrinkToInitial_def rb_verifySafeAccess_def rb_ok_def rb'_def)
  moreover have "rb_ok rb'" "rb_contents rb' = []"
    unfolding rb'_def using rb_reset_ok[OF assms _ init, of "replicate (rb_initialCapacity rb) 0"] by simp_all
  ultimately show ?thesis using e by (intro exI[of _ rb']) (simp add: rb'_def rb_contents_def[of rb])
qed

section \<open>The buffer as a queue of bytes\<close>

text \<open>What a client of a bounded byte queue relies on: \<open>put\<close> accepts a prefix of the bytes and
  appends it, \<open>get\<close> removes a prefix of the contents.\<close>

datatype fifo_op = Put "byte list" | Get nat

fun fifo_run :: "('s \<Rightarrow> byte list \<Rightarrow> 'e + nat \<times> 's) \<Rightarrow> ('s \<Rightarrow> nat \<Rightarrow> 'e + byte list \<times> 's)
    \<Rightarrow> 's \<Rightarrow> fifo_op list \<Rightarrow> 'e + byte list \<times> byte list \<times> 's" where
  "fifo_run put get s [] = Inr ([], [], s)"
| "fifo_run put get s (Put bs # ops) =
     sbind (put s bs) (\<lambda>(k, s1). sbind (fifo_run put get s1 ops)
       (\<lambda>(accepted, delivered, s2). Inr (take k bs @ accepted, delivered, s2)))"
| "fifo_run put get s (Get n # ops) =
     sbind (get s n) (\<lambda>(bs, s1). sbind (fifo_run put get s1 ops)
       (\<lambda>(accepted, delivered, s2). Inr (accepted, bs @ delivered, s2)))"

locale byte_fifo =
  fixes inv :: "'s \<Rightarrow> bool"
    and contents :: "'s \<Rightarrow> byte list"
    and put :: "'s \<Rightarrow> byte list \<Rightarrow> 'e + nat \<times> 's"
    and get :: "'s \<Rightarrow> nat \<Rightarrow> 'e + byte list \<times> 's"
  assumes put_law: "inv s \<Longrightarrow> \<exists>k s'. put s bs = Inr (k, s') \<and> k \<le> length bs \<and> inv s'
      \<and> contents s' = contents s @ take k bs"
    and get_law: "inv s \<Longrightarrow> \<exists>s'. get s n = Inr (take n (contents s), s') \<and> inv s'
      \<and> contents s' = drop n (contents s)"
begin

lemma run_order:
  "inv s \<Longrightarrow> \<exists>accepted delivered s'. fifo_run put get s ops = Inr (accepted, delivered, s') \<and> inv s'
    \<and> contents s @ accepted = delivered @ contents s'"
proof (induction ops arbitrary: s)
  case (Cons op ops)
  show ?case
  proof (cases op)
    case (Put bs)
    obtain k s1 where s1: "put s bs = Inr (k, s1)" "inv s1" "contents s1 = contents s @ take k bs"
      using put_law[OF Cons.prems] by blast
    from Cons.IH[OF s1(2)] s1 Put show ?thesis by auto
  next
    case (Get n)
    obtain s1 where s1: "get s n = Inr (take n (contents s), s1)" "inv s1" "contents s1 = drop n (contents s)"
      using get_law[OF Cons.prems] by blast
    from Cons.IH[OF s1(2)] obtain a d s' where r: "fifo_run put get s1 ops = Inr (a, d, s')" "inv s'"
      "contents s1 @ a = d @ contents s'" by blast
    have "contents s @ a = take n (contents s) @ contents s1 @ a" using s1(3) by simp
    also have "\<dots> = (take n (contents s) @ d) @ contents s'" using r(3) by simp
    finally have "contents s @ a = (take n (contents s) @ d) @ contents s'" .
    then show ?thesis using Get s1 r by simp
  qed
qed simp

lemma run_prefix:
  assumes "inv s" "contents s = []" "fifo_run put get s ops = Inr (accepted, delivered, s')"
  shows "\<exists>rest. accepted = delivered @ rest"
  using run_order[OF assms(1), of ops] assms(2,3) by auto

end

interpretation rbq: byte_fifo rb_ok rb_contents rb_write rb_read
proof
  show "\<exists>k s'. rb_write s bs = Inr (k, s') \<and> k \<le> length bs \<and> rb_ok s' \<and> rb_contents s' = rb_contents s @ take k bs"
    if "rb_ok s" for s bs
  proof -
    have "take (rb_maximumCapacity s - rb_length s) bs = take (min (length bs) (rb_maximumCapacity s - rb_length s)) bs"
      by (simp add: min_def)
    with rb_write_correct[OF that, of bs] show ?thesis by auto
  qed
  show "\<exists>s'. rb_read s n = Inr (take n (rb_contents s), s') \<and> rb_ok s' \<and> rb_contents s' = drop n (rb_contents s)"
    if "rb_ok s" for s n
    using rb_read_correct[OF that, of n] by blast
qed

section \<open>The transactional writer\<close>

lemma skip_spans_stop:
  "i < length spans \<Longrightarrow> p < snd (spans ! i) \<Longrightarrow> skip_spans spans i p = (i, p)"
  "i < length spans \<Longrightarrow> p \<ge> snd (spans ! i) \<Longrightarrow> skip_spans spans i p = skip_spans spans (Suc i) 0"
  "i \<ge> length spans \<Longrightarrow> skip_spans spans i p = (i, p)"
  by (subst skip_spans.simps; simp)+

lemma put_slice_snoc:
  "s + length bs < length st \<Longrightarrow> put_slice st s (bs @ [b]) = (put_slice st s bs)[s + length bs := b]"
  by (simp add: put_slice_def list_update_append min_def Cons_nth_drop_Suc[symmetric])

text \<open>The writer has written \<open>bs\<close> into the two spans of its ring.\<close>

definition rw_inv :: "byte list \<Rightarrow> ring_writer \<Rightarrow> byte list \<Rightarrow> bool" where
  "rw_inv st w bs \<longleftrightarrow>
     (\<exists>s1 n1 s2 n2. rw_spans w = [(s1, n1), (s2, n2)] \<and> s1 + n1 \<le> length st \<and> s2 + n2 \<le> length st
       \<and> rb_storage (rw_buffer w) = copy_in st (rw_spans w) bs \<and> rw_position w = length bs \<and> length bs \<le> n1 + n2
       \<and> (if rw_spanIndex w = 0 then rw_spanPosition w = length bs \<and> length bs \<le> n1
          else rw_spanIndex w = 1 \<and> rw_spanPosition w + n1 = length bs))"

definition span_total :: "span list \<Rightarrow> nat" where
  "span_total spans = sum_list (map snd spans)"

lemma rw_writeByte_inv:
  assumes "rw_inv st w bs"
  shows "if length bs < span_total (rw_spans w)
    then \<exists>w'. rw_writeByte w b = Inr w' \<and> rw_inv st w' (bs @ [b]) \<and> rw_spans w' = rw_spans w
      \<and> rw_committed w' = rw_committed w
      \<and> rw_buffer w' = (rw_buffer w)\<lparr>rb_storage := rb_storage (rw_buffer w')\<rparr>
    else rw_writeByte w b = Inl LogicError"
proof -
  obtain s1 n1 s2 n2 where sp: "rw_spans w = [(s1, n1), (s2, n2)]" "s1 + n1 \<le> length st" "s2 + n2 \<le> length st"
    "rb_storage (rw_buffer w) = copy_in st (rw_spans w) bs" "rw_position w = length bs" "length bs \<le> n1 + n2"
    "if rw_spanIndex w = 0 then rw_spanPosition w = length bs \<and> length bs \<le> n1
     else rw_spanIndex w = 1 \<and> rw_spanPosition w + n1 = length bs"
    using assms unfolding rw_inv_def by blast
  have tot: "span_total (rw_spans w) = n1 + n2" by (simp add: span_total_def sp(1))
  have step: "\<exists>w'. rw_writeByte w b = Inr w' \<and> rw_inv st w' (bs @ [b]) \<and> rw_spans w' = rw_spans w
      \<and> rw_committed w' = rw_committed w \<and> rw_buffer w' = (rw_buffer w)\<lparr>rb_storage := rb_storage (rw_buffer w')\<rparr>"
    if sk: "skip_spans (rw_spans w) (rw_spanIndex w) (rw_spanPosition w) = (i, p)"
      and i: "i < 2" "if i = 0 then p = length bs \<and> length bs < n1 else p + n1 = length bs \<and> length bs < n1 + n2"
      and up: "copy_in st (rw_spans w) (bs @ [b]) = (copy_in st (rw_spans w) bs)[fst (rw_spans w ! i) + p := b]" for i p
  proof -
    define w' where "w' = w\<lparr>rw_buffer := (rw_buffer w)\<lparr>rb_storage :=
        (rb_storage (rw_buffer w))[fst (rw_spans w ! i) + p := b]\<rparr>,
      rw_spanIndex := i, rw_spanPosition := Suc p, rw_position := Suc (rw_position w)\<rparr>"
    have "length (rw_spans w) = 2" by (simp add: sp(1))
    then have "rw_writeByte w b = Inr w'" using i(1) unfolding rw_writeByte_def sk prod.case w'_def by simp
    moreover have "rw_inv st w' (bs @ [b])"
      unfolding rw_inv_def
    proof (intro exI conjI)
      show "rw_spans w' = [(s1, n1), (s2, n2)]" by (simp add: w'_def sp(1))
      show "rb_storage (rw_buffer w') = copy_in st (rw_spans w') (bs @ [b])" using up by (simp add: w'_def sp(4))
      show "if rw_spanIndex w' = 0 then rw_spanPosition w' = length (bs @ [b]) \<and> length (bs @ [b]) \<le> n1
          else rw_spanIndex w' = 1 \<and> rw_spanPosition w' + n1 = length (bs @ [b])"
        using i by (auto simp: w'_def split: if_splits)
      show "length (bs @ [b]) \<le> n1 + n2" using i by (auto split: if_splits)
    qed (simp_all add: w'_def sp)
    moreover have "rw_spans w' = rw_spans w" "rw_committed w' = rw_committed w"
      "rw_buffer w' = (rw_buffer w)\<lparr>rb_storage := rb_storage (rw_buffer w')\<rparr>" by (simp_all add: w'_def)
    ultimately show ?thesis by blast
  qed
  consider "length bs < n1" | "n1 \<le> length bs" "length bs < n1 + n2" | "length bs = n1 + n2"
    using sp(6) by linarith
  then show ?thesis
  proof cases
    case 1
    then have i: "rw_spanIndex w = 0" "rw_spanPosition w = length bs" using sp(7) by (auto split: if_splits)
    have sk: "skip_spans (rw_spans w) (rw_spanIndex w) (rw_spanPosition w) = (0, length bs)"
      using 1 i by (simp add: sp(1) skip_spans_stop)
    have "copy_in st (rw_spans w) (bs @ [b]) = (copy_in st (rw_spans w) bs)[s1 + length bs := b]"
      using 1 sp(2) by (simp add: sp(1) put_slice_snoc)
    then have "\<exists>w'. rw_writeByte w b = Inr w' \<and> rw_inv st w' (bs @ [b]) \<and> rw_spans w' = rw_spans w
      \<and> rw_committed w' = rw_committed w \<and> rw_buffer w' = (rw_buffer w)\<lparr>rb_storage := rb_storage (rw_buffer w')\<rparr>"
      using step[OF sk] 1 by (simp add: sp(1))
    then show ?thesis using 1 by (simp add: tot)
  next
    case 2
    define k where "k = length bs - n1"
    have sk: "skip_spans (rw_spans w) (rw_spanIndex w) (rw_spanPosition w) = (1, k)"
    proof (cases "rw_spanIndex w = 0")
      case True
      then show ?thesis using 2 sp(7) by (simp add: sp(1) skip_spans_stop k_def)
    next
      case False
      then have "rw_spanIndex w = 1" "rw_spanPosition w = k" using 2 sp(7) by (auto simp: k_def)
      then show ?thesis using 2 by (simp add: sp(1) skip_spans_stop k_def)
    qed
    have "length (drop n1 bs) = k" by (simp add: k_def)
    moreover have "length (put_slice st s1 (take n1 bs)) = length st" using 2 sp(2) by simp
    ultimately have "copy_in st (rw_spans w) (bs @ [b]) = (copy_in st (rw_spans w) bs)[s2 + k := b]"
      using 2 sp(3) put_slice_snoc[of s2 "drop n1 bs" "put_slice st s1 (take n1 bs)" b]
      by (simp add: sp(1) k_def)
    then have "\<exists>w'. rw_writeByte w b = Inr w' \<and> rw_inv st w' (bs @ [b]) \<and> rw_spans w' = rw_spans w
      \<and> rw_committed w' = rw_committed w \<and> rw_buffer w' = (rw_buffer w)\<lparr>rb_storage := rb_storage (rw_buffer w')\<rparr>"
      using step[OF sk] 2 by (simp add: sp(1) k_def)
    then show ?thesis using 2 by (simp add: tot)
  next
    case 3
    have "fst (skip_spans (rw_spans w) (rw_spanIndex w) (rw_spanPosition w)) = 2"
      using 3 sp(7) by (cases "rw_spanIndex w = 0") (simp_all add: sp(1) skip_spans_stop numeral_2_eq_2)
    then have "rw_writeByte w b = Inl LogicError" by (simp add: rw_writeByte_def sp(1) case_prod_unfold)
    then show ?thesis using 3 by (simp add: tot)
  qed
qed

lemma rw_writeBytes_inv:
  assumes "rw_inv st w done"
  shows "if length (done @ bs) \<le> span_total (rw_spans w)
    then \<exists>w'. rw_writeBytes w bs = Inr w' \<and> rw_inv st w' (done @ bs) \<and> rw_spans w' = rw_spans w
      \<and> rw_committed w' = rw_committed w
      \<and> rw_buffer w' = (rw_buffer w)\<lparr>rb_storage := rb_storage (rw_buffer w')\<rparr>
    else rw_writeBytes w bs = Inl LogicError"
  using assms
proof (induction bs arbitrary: w "done")
  case (Cons b bs)
  show ?case
  proof (cases "length done < span_total (rw_spans w)")
    case True
    then obtain w1 where w1: "rw_writeByte w b = Inr w1" "rw_inv st w1 (done @ [b])" "rw_spans w1 = rw_spans w"
      "rw_committed w1 = rw_committed w" "rw_buffer w1 = (rw_buffer w)\<lparr>rb_storage := rb_storage (rw_buffer w1)\<rparr>"
      using rw_writeByte_inv[OF Cons.prems, of b] by auto
    have upd: "(rw_buffer w1)\<lparr>rb_storage := x\<rparr> = (rw_buffer w)\<lparr>rb_storage := x\<rparr>" for x
      by (subst w1(5)) simp
    from Cons.IH[OF w1(2)] w1(1,3,4) show ?thesis by (auto simp: upd)
  next
    case False
    then show ?thesis using rw_writeByte_inv[OF Cons.prems, of b] by simp
  qed
next
  case Nil
  then show ?case by (auto simp: rw_inv_def span_total_def)
qed

lemma rb_writable_total:
  assumes "rb_inv rb"
  shows "span_total (rb_writableSpans rb) = length (rb_storage rb) - rb_length rb"
    and "\<exists>s1 n1 s2 n2. rb_writableSpans rb = [(s1, n1), (s2, n2)] \<and> s1 + n1 \<le> length (rb_storage rb)
      \<and> s2 + n2 \<le> length (rb_storage rb)"
proof -
  have lt: "(rb_readPosition rb + rb_length rb) mod length (rb_storage rb) < length (rb_storage rb)"
    using rb_invD(5)[OF assms] by (intro mod_less_divisor) simp
  show "span_total (rb_writableSpans rb) = length (rb_storage rb) - rb_length rb"
    by (simp add: rb_writableSpans_def span_total_def Let_def)
  show "\<exists>s1 n1 s2 n2. rb_writableSpans rb = [(s1, n1), (s2, n2)] \<and> s1 + n1 \<le> length (rb_storage rb)
      \<and> s2 + n2 \<le> length (rb_storage rb)"
    using lt by (auto simp: rb_writableSpans_def Let_def min_def)
qed

lemma rw_transaction_ring:
  assumes "rb_inv rb" "\<not> rb_unsafeAccess rb"
  shows "if length bs \<le> rb_available rb
    then \<exists>w w' rb'. sbind (rw_create rb) (\<lambda>w. rw_writeBytes w bs) = Inr w \<and> rw_commit w = Inr w'
      \<and> rw_release w' = rb' \<and> rb_inv rb' \<and> rb_contents (rw_release w) = rb_contents rb
      \<and> rb_contents rb' = rb_contents rb @ bs \<and> rb_config rb' = rb_config rb \<and> rw_commit w' = Inl LogicError
      \<and> (rb_clean rb \<longrightarrow> rb_clean rb') \<and> rb_free (rw_release w) = bs @ drop (length bs) (rb_free rb)
    else sbind (rw_create rb) (\<lambda>w. rw_writeBytes w bs) = Inl LogicError"
proof -
  define rb1 where "rb1 = rb\<lparr>rb_unsafeAccess := True\<rparr>"
  define w0 where "w0 = \<lparr>rw_buffer = rb1, rw_spans = rb_writableSpans rb1, rw_endianness = Little,
    rw_spanIndex = 0, rw_spanPosition = 0, rw_position = 0, rw_committed = False\<rparr>"
  have inv1: "rb_inv rb1" using assms(1) by (simp add: rb_inv_def rb1_def)
  have wsp: "rb_writableSpans rb1 = rb_writableSpans rb" by (simp add: rb_writableSpans_def rb1_def Let_def)
  have c: "rw_create rb = Inr w0"
    using assms(2) by (simp add: rw_create_def rb_beginUnsafeAccess_def w0_def rb1_def)
  have "rw_inv (rb_storage rb) w0 []"
    using rb_writable_total(2)[OF inv1] by (auto simp: rw_inv_def w0_def rb1_def)
  note run = rw_writeBytes_inv[OF this, of bs]
  have tot: "span_total (rw_spans w0) = rb_available rb"
    using rb_writable_total(1)[OF inv1] by (simp add: w0_def rb_available_def rb1_def)
  show ?thesis
  proof (cases "length bs \<le> rb_available rb")
    case False
    then show ?thesis using run by (simp add: c tot)
  next
    case True
    then obtain w where w: "rw_writeBytes w0 bs = Inr w" "rw_inv (rb_storage rb) w bs" "rw_spans w = rb_writableSpans rb"
      "\<not> rw_committed w" "rw_buffer w = rb1\<lparr>rb_storage := rb_storage (rw_buffer w)\<rparr>"
      using run tot by (auto simp: w0_def wsp)
    have wst: "rb_storage (rw_buffer w) = copy_in (rb_storage rb) (rb_writableSpans rb) bs" "rw_position w = length bs"
      using w(2,3) by (auto simp: rw_inv_def)
    have wb: "rw_buffer w = rb\<lparr>rb_unsafeAccess := True, rb_storage := copy_in (rb_storage rb) (rb_writableSpans rb) bs\<rparr>"
      using w(5) wst by (simp add: rb1_def)
    have len: "length bs \<le> length (rb_storage rb) - rb_length rb" using True by (simp add: rb_available_def)
    note cw = copy_in_writable[OF assms(1) len]
    have "rb_contents (rw_release w) = rb_contents rb"
      using rb_invD(4)[OF assms(1)] by (simp add: rw_release_def rb_endUnsafeAccess_def wb rb_contents_def[of "_\<lparr>rb_storage := _, rb_unsafeAccess := _\<rparr>"] rb_ring_def cw(1))
    have free: "rb_free (rw_release w) = bs @ drop (length bs) (rb_free rb)"
      using rb_invD(4)[OF assms(1)] by (simp add: rw_release_def rb_endUnsafeAccess_def wb rb_free_def[of "_\<lparr>rb_storage := _, rb_unsafeAccess := _\<rparr>"] rb_ring_def cw(1))
    have len1: "length bs \<le> length (rb_storage rb1) - rb_length rb1" using len by (simp add: rb1_def)
    have f: "fromSizeT (length bs) = length bs"
      using len rb_invD(3,6)[OF assms(1)] by (auto simp: fromSizeT_def)
    obtain rb2 where rb2: "rb_commitWritten (rw_buffer w) (length bs) = Inr rb2" "rb_inv rb2" "rb_config rb2 = rb_config rb1"
      "rb_contents rb2 = rb_contents rb1 @ bs" "rb_clean rb1 \<longrightarrow> rb_clean rb2"
      using rb_put_ring[OF inv1 len1] wb by (auto simp: rb1_def wsp[unfolded rb1_def])
    define w' where "w' = w\<lparr>rw_buffer := rb2, rw_committed := True\<rparr>"
    have "rw_commit w = Inr w'" "rw_commit w' = Inl LogicError"
      using w(4) rb2(1) wst(2) f by (simp_all add: rw_commit_def w'_def)
    moreover have "rb_contents rb1 = rb_contents rb" by (simp add: rb_contents_def rb_ring_def rb1_def)
    moreover have "rb_contents (rw_release w') = rb_contents rb2" "rb_inv (rw_release w')"
      using rb2(2) by (simp_all add: rw_release_def rb_endUnsafeAccess_def w'_def rb_contents_def rb_ring_def rb_inv_def)
    moreover have "rb_config (rw_release w') = rb_config rb"
      using rb2(3) assms(2) by (simp add: rw_release_def rb_endUnsafeAccess_def w'_def rb1_def)
    moreover have "rb_clean rb1 = rb_clean rb" "rb_clean (rw_release w') = rb_clean rb2"
      by (simp_all add: rb_clean_def rb_free_def rb_ring_def rb1_def rw_release_def rb_endUnsafeAccess_def w'_def)
    ultimately show ?thesis
      using True w(1) rb2(4,5) free \<open>rb_contents (rw_release w) = rb_contents rb\<close> by (simp add: c)
  qed
qed

section \<open>Properties of the ring buffer\<close>

lemma rb_create_ok:
  assumes "rb_create initial maximum = Inr rb" "maximum < maximumLength"
  shows "rb_ok rb" "rb_contents rb = []"
  using assms
  by (auto simp: rb_create_def rb_ok_def rb_inv_def rb_clean_def rb_contents_def split: if_splits)

text \<open>C3: For every sequence of writes and reads on a new ring buffer, of any sizes and across any
  number of growths and wrap-arounds, every call succeeds and the bytes delivered so far
  followed by the bytes still buffered are exactly the bytes accepted so far, in order.\<close>

theorem ring_buffer_fifo:
  assumes "rb_create initial maximum = Inr rb" "maximum < maximumLength"
  shows "\<exists>accepted delivered rb'. fifo_run rb_write rb_read rb ops = Inr (accepted, delivered, rb')
    \<and> accepted = delivered @ rb_contents rb' \<and> rb_ok rb' \<and> length (rb_contents rb') \<le> rb_maximumCapacity rb'"
proof -
  obtain a d s where r: "fifo_run rb_write rb_read rb ops = Inr (a, d, s)" "rb_ok s" "rb_contents rb @ a = d @ rb_contents s"
    using rbq.run_order[OF rb_create_ok(1)[OF assms], of ops] by blast
  moreover have "length (rb_contents s) \<le> rb_maximumCapacity s"
    using r(2) rb_invD(2-4)[of s] by (simp add: rb_ok_def)
  ultimately show ?thesis using rb_create_ok(2)[OF assms] by simp
qed

lemma ring_buffer_fifo_witness:
  "\<exists>accepted delivered rb'. fifo_run rb_write rb_read
     \<lparr>rb_storage = [0, 0, 0], rb_initialCapacity = 3, rb_maximumCapacity = 8, rb_readPosition = 0,
      rb_length = 0, rb_unsafeAccess = False, rb_sensitive = False\<rparr>
     [Put [1, 2, 3], Get 2, Put [4, 5, 6, 7], Get 9] = Inr (accepted, delivered, rb')
    \<and> accepted = delivered @ rb_contents rb'"
proof -
  have "rb_create 3 8 = Inr \<lparr>rb_storage = [0, 0, 0], rb_initialCapacity = 3, rb_maximumCapacity = 8,
    rb_readPosition = 0, rb_length = 0, rb_unsafeAccess = False, rb_sensitive = False\<rparr>"
    by (simp add: rb_create_def numeral_3_eq_3)
  moreover have "(8::nat) < maximumLength" by simp
  ultimately show ?thesis using ring_buffer_fifo by blast
qed

text \<open>A write stores exactly the bytes that fit below the hard limit and reports their number, an
  exact write stores all bytes or changes nothing, and growing keeps the buffered bytes.\<close>

theorem ring_buffer_writes:
  assumes "rb_ok rb"
  shows "(\<exists>rb'. rb_write rb bs = Inr (min (length bs) (rb_maximumCapacity rb - rb_length rb), rb') \<and> rb_ok rb'
      \<and> rb_contents rb' = rb_contents rb @ take (rb_maximumCapacity rb - rb_length rb) bs)
    \<and> (if length bs \<le> rb_maximumCapacity rb - rb_length rb
       then \<exists>rb'. rb_writeExact rb bs = Inr (True, rb') \<and> rb_ok rb' \<and> rb_contents rb' = rb_contents rb @ bs
       else rb_writeExact rb bs = Inr (False, rb))
    \<and> (if n \<le> rb_maximumCapacity rb - rb_length rb
       then \<exists>rb'. rb_reserveAdditional rb n = Inr (True, rb') \<and> rb_contents rb' = rb_contents rb
         \<and> n \<le> rb_available rb' \<and> length (rb_storage rb') \<le> rb_maximumCapacity rb'
       else rb_reserveAdditional rb n = Inr (False, rb))"
proof (intro conjI)
  have ok: "rb_inv rb" "\<not> rb_unsafeAccess rb" using assms by (simp_all add: rb_ok_def)
  show "\<exists>rb'. rb_write rb bs = Inr (min (length bs) (rb_maximumCapacity rb - rb_length rb), rb') \<and> rb_ok rb'
      \<and> rb_contents rb' = rb_contents rb @ take (rb_maximumCapacity rb - rb_length rb) bs"
    using rb_write_correct[OF assms, of bs] by blast
  show "if length bs \<le> rb_maximumCapacity rb - rb_length rb
       then \<exists>rb'. rb_writeExact rb bs = Inr (True, rb') \<and> rb_ok rb' \<and> rb_contents rb' = rb_contents rb @ bs
       else rb_writeExact rb bs = Inr (False, rb)"
    using rb_writeExact_correct[OF assms, of bs] by auto
  show "if n \<le> rb_maximumCapacity rb - rb_length rb
       then \<exists>rb'. rb_reserveAdditional rb n = Inr (True, rb') \<and> rb_contents rb' = rb_contents rb
         \<and> n \<le> rb_available rb' \<and> length (rb_storage rb') \<le> rb_maximumCapacity rb'
       else rb_reserveAdditional rb n = Inr (False, rb)"
  proof (cases "n \<le> rb_maximumCapacity rb - rb_length rb")
    case True
    from rb_reserveAdditional_ring[OF ok True] obtain rb' where
      "rb_reserveAdditional rb n = Inr (True, rb')" "rb_inv rb'" "rb_contents rb' = rb_contents rb"
      "rb_length rb' = rb_length rb" "rb_length rb + n \<le> length (rb_storage rb')" by blast
    then show ?thesis using True rb_invD(3)[of rb'] by (simp add: rb_available_def)
  next
    case False
    then show ?thesis using ok by (simp add: rb_reserveAdditional_def rb_verifySafeAccess_def rb_canWrite_def)
  qed
qed

lemma ring_buffer_writes_witness:
  "rb_writeExact \<lparr>rb_storage = [9, 8, 0], rb_initialCapacity = 3, rb_maximumCapacity = 4, rb_readPosition = 0,
      rb_length = 2, rb_unsafeAccess = False, rb_sensitive = False\<rparr> [1, 2, 3]
   = Inr (False, \<lparr>rb_storage = [9, 8, 0], rb_initialCapacity = 3, rb_maximumCapacity = 4, rb_readPosition = 0,
      rb_length = 2, rb_unsafeAccess = False, rb_sensitive = False\<rparr>)"
proof -
  have "rb_ok \<lparr>rb_storage = [9, 8, 0], rb_initialCapacity = 3, rb_maximumCapacity = 4, rb_readPosition = 0,
      rb_length = 2, rb_unsafeAccess = False, rb_sensitive = False\<rparr>" by (simp add: rb_ok_def rb_inv_def)
  from ring_buffer_writes[OF this, of "[1, 2, 3]" 0] show ?thesis by simp
qed

text \<open>
  The calls a client makes: all safe operations and a transaction of the writer that is created,
  filled, committed and released. A call that throws ends the sequence with its error.
\<close>

datatype ring_call =
    CallWrite "byte list"
  | CallWriteExact "byte list"
  | CallReserve nat
  | CallRead nat
  | CallReadBlock nat
  | CallShrink
  | CallClear
  | CallErase
  | CallSensitive bool
  | CallTransaction "byte list"

fun rb_call :: "ring_call \<Rightarrow> ring_buffer \<Rightarrow> ring_error + ring_buffer" where
  "rb_call (CallWrite bs) rb = sbind (rb_write rb bs) (\<lambda>(n, rb1). Inr rb1)"
| "rb_call (CallWriteExact bs) rb = sbind (rb_writeExact rb bs) (\<lambda>(ok, rb1). Inr rb1)"
| "rb_call (CallReserve n) rb = sbind (rb_reserveAdditional rb n) (\<lambda>(ok, rb1). Inr rb1)"
| "rb_call (CallRead n) rb = sbind (rb_read rb n) (\<lambda>(bytes, rb1). Inr rb1)"
| "rb_call (CallReadBlock n) rb = sbind (rb_readBlock rb n) (\<lambda>(block, rb1). Inr rb1)"
| "rb_call CallShrink rb = rb_shrinkToInitial rb"
| "rb_call CallClear rb = rb_clear rb"
| "rb_call CallErase rb = rb_secureErase rb"
| "rb_call (CallSensitive b) rb = rb_setSensitive rb b"
| "rb_call (CallTransaction bs) rb =
     sbind (rw_create rb) (\<lambda>w. sbind (rw_writeBytes w bs) (\<lambda>w1. sbind (rw_commit w1) (\<lambda>w2. Inr (rw_release w2))))"

fun rb_calls :: "ring_call list \<Rightarrow> ring_buffer \<Rightarrow> ring_error + ring_buffer" where
  "rb_calls [] rb = Inr rb"
| "rb_calls (c # cs) rb = sbind (rb_call c rb) (rb_calls cs)"

lemma rb_secureErase_correct:
  assumes "rb_ok rb"
  shows "\<exists>rb'. rb_secureErase rb = Inr rb' \<and> rb_ok rb' \<and> rb_config rb' = rb_config rb \<and> rb_contents rb' = []
    \<and> (\<forall>b \<in> set (rb_storage rb'). b = 0)"
proof -
  have ok: "rb_inv rb" "\<not> rb_unsafeAccess rb" using assms by (simp_all add: rb_ok_def)
  note i = rb_invD[OF ok(1)]
  have "rb_secureErase rb = Inr (rb\<lparr>rb_storage := replicate (length (rb_storage rb)) 0, rb_readPosition := 0, rb_length := 0\<rparr>)"
    using ok(2) by (simp add: rb_secureErase_def)
  then show ?thesis
    using rb_reset_ok[OF assms, of "replicate (length (rb_storage rb)) 0" "length (rb_storage rb)"] i by simp
qed

lemma rb_readBlock_correct:
  assumes "rb_ok rb"
  shows "\<exists>block rb'. rb_readBlock rb n = Inr (block, rb') \<and> rb_ok rb' \<and> rb_config rb' = rb_config rb"
proof -
  have ok: "rb_inv rb" "\<not> rb_unsafeAccess rb" using assms by (simp_all add: rb_ok_def)
  define k where "k = (if n = infiniteLength then rb_length rb else min n (rb_length rb))"
  have "length (take k (rb_contents rb)) = k" using rb_invD(4)[OF ok(1)] by (simp add: k_def)
  then show ?thesis using rb_read_correct[OF assms, of k] ok(2)
    by (auto simp: rb_readBlock_def rb_verifySafeAccess_def Let_def k_def[symmetric])
qed

lemma rb_reserveAdditional_ok:
  assumes "rb_ok rb"
  shows "\<exists>done rb'. rb_reserveAdditional rb n = Inr (done, rb') \<and> rb_ok rb' \<and> rb_config rb' = rb_config rb"
proof (cases "n \<le> rb_maximumCapacity rb - rb_length rb")
  case True
  then show ?thesis using rb_reserveAdditional_ring[of rb n] assms by (fastforce simp: rb_ok_def)
next
  case False
  then have "rb_reserveAdditional rb n = Inr (False, rb)"
    using assms by (simp add: rb_reserveAdditional_def rb_verifySafeAccess_def rb_canWrite_def rb_ok_def)
  then show ?thesis using assms by blast
qed

text \<open>Every call keeps a sensitive buffer clean; only a transaction that does not fit throws.\<close>

lemma rb_call_ok:
  assumes "rb_ok rb" "rb_sensitive rb" "c \<noteq> CallSensitive False"
  shows "(\<exists>rb'. rb_call c rb = Inr rb' \<and> rb_ok rb' \<and> rb_sensitive rb')
    \<or> (\<exists>bs e. c = CallTransaction bs \<and> rb_call c rb = Inl e)"
proof (cases c)
  case (CallWrite bs)
  then show ?thesis using rb_write_correct[OF assms(1), of bs] assms(2) by auto
next
  case (CallWriteExact bs)
  then show ?thesis using rb_writeExact_correct[OF assms(1), of bs] assms(1,2) by (auto split: if_splits)
next
  case (CallReserve n)
  then show ?thesis using rb_reserveAdditional_ok[OF assms(1), of n] assms(2) by auto
next
  case (CallRead n)
  then show ?thesis using rb_read_correct[OF assms(1), of n] assms(2) by auto
next
  case (CallReadBlock n)
  then show ?thesis using rb_readBlock_correct[OF assms(1), of n] assms(2) by auto
next
  case CallShrink
  then show ?thesis using rb_shrinkToInitial_correct[OF assms(1)] assms(2) by auto
next
  case CallClear
  then show ?thesis using rb_clear_correct[OF assms(1)] assms(2) by auto
next
  case CallErase
  then show ?thesis using rb_secureErase_correct[OF assms(1)] assms(2) by auto
next
  case (CallSensitive b)
  then have b: "b" using assms(3) by (cases b) auto
  have "rb\<lparr>rb_sensitive := True\<rparr> = rb" using assms(2) by (cases rb) simp
  then have "rb_call c rb = Inr rb"
    using CallSensitive b assms(1) by (simp add: rb_setSensitive_def rb_ok_def)
  then show ?thesis using assms(1,2) by blast
next
  case (CallTransaction bs)
  have i: "rb_inv rb" "\<not> rb_unsafeAccess rb" "rb_clean rb" using assms(1,2) by (simp_all add: rb_ok_def)
  show ?thesis
  proof (cases "length bs \<le> rb_available rb")
    case True
    then obtain w w' rb' where t: "sbind (rw_create rb) (\<lambda>w. rw_writeBytes w bs) = Inr w" "rw_commit w = Inr w'"
      "rw_release w' = rb'" "rb_inv rb'" "rb_config rb' = rb_config rb" "rb_clean rb \<longrightarrow> rb_clean rb'"
      using rw_transaction_ring[OF i(1,2), of bs] by auto
    obtain w0 where "rw_create rb = Inr w0" "rw_writeBytes w0 bs = Inr w" using t(1) by (auto simp: sbind_Inr_iff)
    then show ?thesis using CallTransaction t i assms(2) by (simp add: rb_ok_def)
  next
    case False
    then have "sbind (rw_create rb) (\<lambda>w. rw_writeBytes w bs) = Inl LogicError"
      using rw_transaction_ring[OF i(1,2), of bs] by simp
    then show ?thesis using CallTransaction by (cases "rw_create rb") auto
  qed
qed

lemma rb_calls_ok:
  "rb_ok rb \<Longrightarrow> rb_sensitive rb \<Longrightarrow> CallSensitive False \<notin> set cs \<Longrightarrow>
   (\<forall>rb'. rb_calls cs rb = Inr rb' \<longrightarrow> rb_ok rb' \<and> rb_sensitive rb')
   \<and> ((\<forall>bs. CallTransaction bs \<notin> set cs) \<longrightarrow> (\<exists>rb'. rb_calls cs rb = Inr rb'))"
proof (induction cs arbitrary: rb)
  case (Cons c cs)
  have c: "c \<noteq> CallSensitive False" "CallSensitive False \<notin> set cs" using Cons.prems(3) by auto
  from rb_call_ok[OF Cons.prems(1,2) c(1)] show ?case
  proof (elim disjE exE conjE)
    fix rb1 assume r: "rb_call c rb = Inr rb1" "rb_ok rb1" "rb_sensitive rb1"
    have "rb_calls (c # cs) rb = rb_calls cs rb1" by (simp only: rb_calls.simps r(1) sbind_simps)
    then show ?thesis using Cons.IH[OF r(2,3) c(2)] by (metis list.set_intros(2))
  next
    fix bs e assume r: "c = CallTransaction bs" "rb_call c rb = Inl e"
    have "rb_calls (c # cs) rb = Inl e" by (simp only: rb_calls.simps r(2) sbind_simps)
    then show ?thesis using r(1) by (metis Inl_Inr_False list.set_intros(1))
  qed
qed simp

text \<open>C10: A sensitive ring buffer whose free bytes are zero keeps no discarded byte: after every
  sequence of writes, reads, reservations, shrinking, clearing, erasing and committed writer
  transactions it is still sensitive and all storage outside the readable bytes is zero; clearing
  it or switching the mode off leaves only zero bytes. Without a transaction, which fails when the
  bytes do not fit, no call of the sequence throws. Switching the mode on over bytes discarded
  before, and a transaction released without a commit, are outside the claim: they leave bytes
  behind.\<close>

theorem ring_buffer_sensitive_erased:
  assumes "rb_ok rb" "rb_sensitive rb" "CallSensitive False \<notin> set cs"
  shows "(\<forall>rb'. rb_calls cs rb = Inr rb' \<longrightarrow> rb_sensitive rb' \<and> (\<forall>b \<in> set (rb_free rb'). b = 0)
      \<and> (\<exists>rb2. rb_clear rb' = Inr rb2 \<and> (\<forall>b \<in> set (rb_storage rb2). b = 0) \<and> rb_contents rb2 = [])
      \<and> (\<exists>rb2. rb_setSensitive rb' False = Inr rb2 \<and> (\<forall>b \<in> set (rb_storage rb2). b = 0)))
    \<and> ((\<forall>bs. CallTransaction bs \<notin> set cs) \<longrightarrow> (\<exists>rb'. rb_calls cs rb = Inr rb'))"
proof (rule conjI[OF _ conjunct2[OF rb_calls_ok[OF assms]]], intro allI impI)
  fix rb' assume "rb_calls cs rb = Inr rb'"
  then have "rb_ok rb'" "rb_sensitive rb'" using rb_calls_ok[OF assms] by blast+
  then have s: "rb_sensitive rb'" "\<not> rb_unsafeAccess rb'" "rb_clean rb'" by (simp_all add: rb_ok_def)
  define rb2 where "rb2 = rb'\<lparr>rb_storage := replicate (length (rb_storage rb')) 0, rb_readPosition := 0, rb_length := 0\<rparr>"
  have e: "rb_secureErase rb' = Inr rb2" using s(2) by (simp add: rb_secureErase_def rb2_def)
  have z: "\<forall>b \<in> set (rb_storage rb2). b = 0" "rb_contents rb2 = []" by (simp_all add: rb2_def rb_contents_def)
  have "rb_clear rb' = Inr rb2" "rb_setSensitive rb' False = Inr (rb2\<lparr>rb_sensitive := False\<rparr>)"
    using s(1,2) e by (simp_all add: rb_clear_def rb_setSensitive_def)
  then show "rb_sensitive rb' \<and> (\<forall>b \<in> set (rb_free rb'). b = 0)
      \<and> (\<exists>rb2. rb_clear rb' = Inr rb2 \<and> (\<forall>b \<in> set (rb_storage rb2). b = 0) \<and> rb_contents rb2 = [])
      \<and> (\<exists>rb2. rb_setSensitive rb' False = Inr rb2 \<and> (\<forall>b \<in> set (rb_storage rb2). b = 0))"
    using s z by (simp add: rb_clean_def)
qed

lemma ring_buffer_sensitive_erased_witness:
  "set (rb_free \<lparr>rb_storage = [0, 0, 7], rb_initialCapacity = 3, rb_maximumCapacity = 3,
      rb_readPosition = 2, rb_length = 1, rb_unsafeAccess = False, rb_sensitive = True\<rparr>) \<subseteq> {0}"
proof -
  let ?a = "\<lparr>rb_storage = [5, 0, 0], rb_initialCapacity = 3, rb_maximumCapacity = 3,
      rb_readPosition = 0, rb_length = 1, rb_unsafeAccess = False, rb_sensitive = True\<rparr>"
  let ?b = "\<lparr>rb_storage = [0, 0, 7], rb_initialCapacity = 3, rb_maximumCapacity = 3,
      rb_readPosition = 2, rb_length = 1, rb_unsafeAccess = False, rb_sensitive = True\<rparr>"
  let ?cs = "[CallTransaction [6, 7], CallRead 2]"
  have run: "rb_calls ?cs ?a = Inr ?b"
    by (simp add: rw_create_def rb_beginUnsafeAccess_def rb_writableSpans_def rw_writeByte_def rw_commit_def
        skip_spans.simps Let_def rb_commitWritten_def fromSizeT_def rw_release_def rb_endUnsafeAccess_def
        rb_read_def rb_verifySafeAccess_def rb_readableSpans_def rb_consumeRead_def rb_eraseReadablePrefix_def
        put_slice_def)
  have ok: "rb_ok ?a" by (simp add: rb_ok_def rb_inv_def rb_clean_def rb_free_def rb_ring_def)
  have "rb_sensitive ?a" "CallSensitive False \<notin> set ?cs" by simp_all
  from conjunct1[OF ring_buffer_sensitive_erased[OF ok this]] run have "\<forall>b \<in> set (rb_free ?b). b = 0" by blast
  then show ?thesis by blast
qed

text \<open>The two ways in which a buffer that reports itself sensitive holds discarded bytes: the mode is
  switched on over them, or a writer is released without a commit.\<close>

lemma sensitive_stale_bytes:
  assumes "rb_inv rb" "\<not> rb_unsafeAccess rb"
  shows "\<exists>rb'. rb_setSensitive rb True = Inr rb' \<and> rb_sensitive rb' \<and> rb_free rb' = rb_free rb"
    and "length bs \<le> rb_available rb \<Longrightarrow>
      \<exists>w. sbind (rw_create rb) (\<lambda>w. rw_writeBytes w bs) = Inr w
        \<and> rb_contents (rw_release w) = rb_contents rb \<and> rb_free (rw_release w) = bs @ drop (length bs) (rb_free rb)"
  using assms rw_transaction_ring[OF assms, of bs]
  by (auto simp: rb_setSensitive_def rb_free_def rb_ring_def)

text \<open>While an unsafe lease is active every safe operation is refused: the throwing ones with a
  logic error, the non-throwing ones by termination, and a second lease with a logic error.\<close>

theorem ring_buffer_lease_exclusive:
  assumes "rb_beginUnsafeAccess rb0 = Inr rb"
  shows "rb_write rb bs = Inl LogicError \<and> rb_writeExact rb bs = Inl LogicError
    \<and> rb_reserveAdditional rb n = Inl LogicError \<and> rb_read rb n = Inl LogicError
    \<and> rb_readBlock rb n = Inl LogicError \<and> rb_shrinkToInitial rb = Inl LogicError
    \<and> rb_beginUnsafeAccess rb = Inl LogicError
    \<and> rb_clear rb = Inl RingTerminate \<and> rb_secureErase rb = Inl RingTerminate
    \<and> rb_setSensitive rb s = Inl RingTerminate \<and> rb_swap rb other = Inl RingTerminate
    \<and> rb_endUnsafeAccess rb = rb0"
proof -
  have "rb_unsafeAccess rb" "rb = rb0\<lparr>rb_unsafeAccess := True\<rparr>" "\<not> rb_unsafeAccess rb0"
    using assms by (auto simp: rb_beginUnsafeAccess_def split: if_splits)
  then show ?thesis
    by (simp add: rb_write_def rb_writeExact_def rb_reserveAdditional_def rb_read_def rb_readBlock_def
        rb_shrinkToInitial_def rb_beginUnsafeAccess_def rb_clear_def rb_secureErase_def rb_setSensitive_def
        rb_swap_def rb_endUnsafeAccess_def rb_verifySafeAccess_def)
qed

lemma ring_buffer_lease_exclusive_witness:
  "rb_read \<lparr>rb_storage = [1], rb_initialCapacity = 1, rb_maximumCapacity = 1, rb_readPosition = 0,
      rb_length = 1, rb_unsafeAccess = True, rb_sensitive = False\<rparr> 1 = Inl LogicError"
  using ring_buffer_lease_exclusive[of "\<lparr>rb_storage = [1], rb_initialCapacity = 1, rb_maximumCapacity = 1,
    rb_readPosition = 0, rb_length = 1, rb_unsafeAccess = False, rb_sensitive = False\<rparr>"]
  by (auto simp: rb_beginUnsafeAccess_def)

text \<open>C35: A writer transaction is atomic: bytes written through it are invisible until the commit and
  then appended in order, a second commit is refused, and writing more than the reserved space
  fails with a logic error.\<close>

theorem ring_writer_atomic:
  assumes "rb_inv rb" "\<not> rb_unsafeAccess rb"
  shows "if length bs \<le> rb_available rb
    then \<exists>w w'. sbind (rw_create rb) (\<lambda>w. rw_writeBytes w bs) = Inr w \<and> rw_commit w = Inr w'
      \<and> rb_contents (rw_release w) = rb_contents rb
      \<and> rb_contents (rw_release w') = rb_contents rb @ bs \<and> rb_inv (rw_release w')
      \<and> rw_commit w' = Inl LogicError
    else sbind (rw_create rb) (\<lambda>w. rw_writeBytes w bs) = Inl LogicError"
  using rw_transaction_ring[OF assms, of bs] by auto

lemma ring_writer_atomic_witness:
  "\<exists>w w'. sbind (rw_create \<lparr>rb_storage = [4, 0, 3], rb_initialCapacity = 3, rb_maximumCapacity = 3,
        rb_readPosition = 2, rb_length = 2, rb_unsafeAccess = False, rb_sensitive = False\<rparr>)
      (\<lambda>w. rw_writeBytes w [5]) = Inr w \<and> rw_commit w = Inr w' \<and> rb_contents (rw_release w') = [3, 4, 5]"
proof -
  let ?rb = "\<lparr>rb_storage = [4, 0, 3], rb_initialCapacity = 3, rb_maximumCapacity = 3,
        rb_readPosition = 2, rb_length = 2, rb_unsafeAccess = False, rb_sensitive = False\<rparr>"
  have "rb_inv ?rb" by (simp add: rb_inv_def)
  moreover have "rb_contents ?rb = [3, 4]" by (simp add: rb_contents_def rb_ring_def rotate_drop_take numeral_2_eq_2)
  ultimately show ?thesis using ring_writer_atomic[of ?rb "[5]"] by (auto simp: rb_available_def)
qed

end
