(* ===== verification/BitStream.thy ===== *)
theory BitStream
  imports Prelude
begin

unbundle bit_operations_syntax

text \<open>
  The bit streams \<open>mem/BitReader\<close> and \<open>mem/BitWriter\<close> with their implementations
  \<open>mem/impl/BitReaderImpl\<close>, \<open>BitReaderImplFor\<close>, \<open>BitWriterImpl\<close> and \<open>BitWriterImplFor\<close>, for both bit
  orders. A field is moved in chunks of at most one byte with the shifts and masks of the
  source, on words of the source's widths.
\<close>

section \<open>The reader\<close>

datatype bit_order = MostSignificantFirst | LeastSignificantFirst

type_synonym u64word = "64 word"

datatype bit_error = OutOfRange

record bit_reader =
  br_order :: bit_order
  br_prefix :: "byte8 list"
  br_data :: "byte8 list"
  br_bitPosition :: nat

definition br_byteAt :: "bit_reader \<Rightarrow> nat \<Rightarrow> byte8" where
  "br_byteAt r i =
     (if i < length (br_prefix r) then br_prefix r ! i else br_data r ! (i - length (br_prefix r)))"

definition br_byteCount :: "bit_reader \<Rightarrow> nat" where
  "br_byteCount r = length (br_prefix r) + length (br_data r)"

text \<open>The product does not reach 2^64: it would need a buffer of 2^61 bytes.\<close>

definition br_bitCount :: "bit_reader \<Rightarrow> nat" where
  "br_bitCount r = br_byteCount r * 8"

definition br_bytePosition :: "bit_reader \<Rightarrow> nat" where
  "br_bytePosition r = br_bitPosition r div 8"

definition br_remainingBitCount :: "bit_reader \<Rightarrow> nat" where
  "br_remainingBitCount r = br_bitCount r - br_bitPosition r"

definition br_isByteAligned :: "bit_reader \<Rightarrow> bool" where
  "br_isByteAligned r \<longleftrightarrow> br_bitPosition r mod 8 = 0"

definition br_setBitPosition :: "bit_reader \<Rightarrow> nat \<Rightarrow> bit_reader" where
  "br_setBitPosition r p = r\<lparr>br_bitPosition := min p (br_bitCount r)\<rparr>"

definition br_setBytePosition :: "bit_reader \<Rightarrow> nat \<Rightarrow> bit_reader" where
  "br_setBytePosition r p =
     (if p \<ge> br_byteCount r then r\<lparr>br_bitPosition := br_bitCount r\<rparr> else r\<lparr>br_bitPosition := p * 8\<rparr>)"

definition br_create :: "bit_order \<Rightarrow> byte8 list \<Rightarrow> nat \<Rightarrow> bit_reader" where
  "br_create order data p =
     br_setBitPosition \<lparr>br_order = order, br_prefix = [], br_data = data, br_bitPosition = 0\<rparr> p"

definition br_refill :: "bit_reader \<Rightarrow> byte8 list \<Rightarrow> bit_error + bit_reader" where
  "br_refill r data =
     (if br_remainingBitCount r > 64 then Inl OutOfRange
      else (let begin = br_bytePosition r;
                count = br_byteCount r - begin
            in Inr (r\<lparr>br_prefix := map (\<lambda>i. br_byteAt r (begin + i)) [0..<count],
                     br_bitPosition := br_bitPosition r mod 8, br_data := data\<rparr>)))"

definition br_canRead :: "bit_reader \<Rightarrow> nat \<Rightarrow> bool" where
  "br_canRead r n \<longleftrightarrow> n \<le> br_remainingBitCount r"

definition br_canReadBytes :: "bit_reader \<Rightarrow> nat \<Rightarrow> bool" where
  "br_canReadBytes r n \<longleftrightarrow> n \<le> br_remainingBitCount r div 8"

definition br_advance :: "bit_reader \<Rightarrow> nat \<Rightarrow> bit_reader" where
  "br_advance r n = r\<lparr>br_bitPosition := br_bitPosition r + min n (br_remainingBitCount r)\<rparr>"

definition br_advanceBytes :: "bit_reader \<Rightarrow> nat \<Rightarrow> bit_reader" where
  "br_advanceBytes r n =
     (if n > br_remainingBitCount r div 8 then r\<lparr>br_bitPosition := br_bitCount r\<rparr>
      else r\<lparr>br_bitPosition := br_bitPosition r + n * 8\<rparr>)"

definition br_alignToByte :: "bit_reader \<Rightarrow> bit_reader" where
  "br_alignToByte r = br_advance r ((8 - br_bitPosition r mod 8) mod 8)"

text \<open>One chunk of a field: the masked value, and the result with the chunk added.\<close>

definition chunk_mask :: "nat \<Rightarrow> byte8" where
  "chunk_mask count = ucast (push_bit count (1 :: 32 word) - 1)"

definition read_chunk :: "bit_order \<Rightarrow> byte8 \<Rightarrow> nat \<Rightarrow> nat \<Rightarrow> nat \<Rightarrow> u64word \<Rightarrow> u64word" where
  "read_chunk order b bitOffset count resultShift result =
     (if order = MostSignificantFirst
      then (let v = drop_bit (8 - bitOffset - count) b AND chunk_mask count
            in push_bit count result OR ucast v)
      else (let v = drop_bit bitOffset b AND chunk_mask count
            in result OR push_bit resultShift (ucast v)))"

function read_loop :: "bit_order \<Rightarrow> (nat \<Rightarrow> byte8) \<Rightarrow> nat \<Rightarrow> nat \<Rightarrow> nat \<Rightarrow> u64word \<Rightarrow> u64word \<times> nat" where
  "read_loop order byteAt pos remaining resultShift result =
     (if remaining \<noteq> 0 then
        (let count = min remaining (8 - pos mod 8)
         in read_loop order byteAt (pos + count) (remaining - count) (resultShift + count)
              (read_chunk order (byteAt (pos div 8)) (pos mod 8) count resultShift result))
      else (result, pos))"
  by pat_completeness auto
termination
  by (relation "measure (\<lambda>(order, byteAt, pos, remaining, resultShift, result). remaining)")
    (auto simp: mod_less_divisor)

declare read_loop.simps [simp del]

definition br_readBitsUnchecked :: "bit_reader \<Rightarrow> nat \<Rightarrow> u64word \<times> bit_reader" where
  "br_readBitsUnchecked r n =
     (case read_loop (br_order r) (br_byteAt r) (br_bitPosition r) n 0 0 of
        (result, pos) \<Rightarrow> (result, r\<lparr>br_bitPosition := pos\<rparr>))"

definition br_readBits :: "bit_reader \<Rightarrow> nat \<Rightarrow> u64word \<Rightarrow> u64word \<times> bit_reader" where
  "br_readBits r n defaultOnError =
     (if n > 64 \<or> \<not> br_canRead r n then (defaultOnError, r) else br_readBitsUnchecked r n)"

definition br_readBitsOrThrow :: "bit_reader \<Rightarrow> nat \<Rightarrow> bit_error + u64word \<times> bit_reader" where
  "br_readBitsOrThrow r n =
     (if n > 64 \<or> \<not> br_canRead r n then Inl OutOfRange else Inr (br_readBitsUnchecked r n))"

text \<open>A finite length; the result holds the bytes copied or shared.\<close>

definition br_readBytesOrThrow :: "bit_reader \<Rightarrow> nat \<Rightarrow> bit_error + byte8 list \<times> bit_reader" where
  "br_readBytesOrThrow r n =
     (if \<not> br_isByteAligned r \<or> n > br_remainingBitCount r div 8 then Inl OutOfRange
      else
        (let begin = br_bytePosition r;
             prefixSize = length (br_prefix r);
             result = (if begin \<ge> prefixSize then take n (drop (begin - prefixSize) (br_data r))
                       else (let prefixCount = min n (prefixSize - begin)
                             in take prefixCount (drop begin (br_prefix r)) @ take (n - prefixCount) (br_data r)))
         in Inr (result, r\<lparr>br_bitPosition := br_bitPosition r + n * 8\<rparr>)))"

definition br_readBool :: "bit_reader \<Rightarrow> bool \<times> bit_reader" where
  "br_readBool r = (case br_readBits r 1 0 of (v, r') \<Rightarrow> (v \<noteq> 0, r'))"

definition br_readByteOrThrow :: "bit_reader \<Rightarrow> bit_error + byte8 \<times> bit_reader" where
  "br_readByteOrThrow r = sbind (br_readBitsOrThrow r 8) (\<lambda>(v, r'). Inr (ucast v, r'))"

section \<open>The writer\<close>

record bit_writer =
  bw_order :: bit_order
  bw_block :: "byte8 list"
  bw_bitCount :: nat
  bw_bitPosition :: nat

definition bw_create :: "bit_order \<Rightarrow> bit_writer" where
  "bw_create order = \<lparr>bw_order = order, bw_block = [], bw_bitCount = 0, bw_bitPosition = 0\<rparr>"

definition byteCountForBits :: "nat \<Rightarrow> nat" where
  "byteCountForBits n = n div 8 + (if n mod 8 \<noteq> 0 then 1 else 0)"

definition bw_remainingBitCount :: "bit_writer \<Rightarrow> nat" where
  "bw_remainingBitCount w = bw_bitCount w - bw_bitPosition w"

definition bw_setBitPosition :: "bit_writer \<Rightarrow> nat \<Rightarrow> bit_writer" where
  "bw_setBitPosition w p = w\<lparr>bw_bitPosition := min p (bw_bitCount w)\<rparr>"

definition bw_setBytePosition :: "bit_writer \<Rightarrow> nat \<Rightarrow> bit_writer" where
  "bw_setBytePosition w p =
     (if p > bw_bitCount w div 8 then w\<lparr>bw_bitPosition := bw_bitCount w\<rparr> else bw_setBitPosition w (p * 8))"

definition bw_advance :: "bit_writer \<Rightarrow> nat \<Rightarrow> bit_writer" where
  "bw_advance w n = w\<lparr>bw_bitPosition := bw_bitPosition w + min n (bw_remainingBitCount w)\<rparr>"

definition bw_advanceBytes :: "bit_writer \<Rightarrow> nat \<Rightarrow> bit_writer" where
  "bw_advanceBytes w n =
     (if n > bw_remainingBitCount w div 8 then w\<lparr>bw_bitPosition := bw_bitCount w\<rparr>
      else w\<lparr>bw_bitPosition := bw_bitPosition w + n * 8\<rparr>)"

definition bw_prepareWrite :: "bit_writer \<Rightarrow> nat \<Rightarrow> bit_error + bit_writer" where
  "bw_prepareWrite w n =
     (if n > u64_max - bw_bitPosition w then Inl OutOfRange
      else (let requiredByteCount = byteCountForBits (bw_bitPosition w + n)
            in if requiredByteCount > length (bw_block w)
               then Inr (w\<lparr>bw_block := bw_block w @ replicate (requiredByteCount - length (bw_block w)) 0\<rparr>)
               else Inr w))"

text \<open>One chunk of a field: the byte with \<open>count\<close> bits replaced.\<close>

definition write_chunk :: "bit_order \<Rightarrow> u64word \<Rightarrow> nat \<Rightarrow> nat \<Rightarrow> nat \<Rightarrow> nat \<Rightarrow> byte8 \<Rightarrow> byte8" where
  "write_chunk order v bitCount written bitOffset count b =
     (let valueShift = (if order = MostSignificantFirst then bitCount - written - count else written);
          byteShift = (if order = MostSignificantFirst then 8 - bitOffset - count else bitOffset);
          mask = push_bit byteShift (chunk_mask count);
          bits = (ucast (drop_bit valueShift v AND ucast (chunk_mask count)) :: byte8)
      in (b AND NOT mask) OR push_bit byteShift bits)"

function write_loop :: "bit_order \<Rightarrow> u64word \<Rightarrow> nat \<Rightarrow> byte8 list \<Rightarrow> nat \<Rightarrow> nat \<Rightarrow> byte8 list" where
  "write_loop order v bitCount data pos written =
     (if written < bitCount then
        (let count = min (bitCount - written) (8 - pos mod 8);
             byteIndex = pos div 8
         in write_loop order v bitCount
              (data[byteIndex := write_chunk order v bitCount written (pos mod 8) count (data ! byteIndex)])
              (pos + count) (written + count))
      else data)"
  by pat_completeness auto
termination
  by (relation "measure (\<lambda>(order, v, bitCount, data, pos, written). bitCount - written)")
    (auto simp: mod_less_divisor)

declare write_loop.simps [simp del]

definition bw_writeBits :: "bit_writer \<Rightarrow> u64word \<Rightarrow> nat \<Rightarrow> bit_error + bit_writer" where
  "bw_writeBits w v n =
     (if n > 64 then Inl OutOfRange
      else sbind (bw_prepareWrite w n) (\<lambda>w1.
        let endPosition = bw_bitPosition w + n
        in Inr (w1\<lparr>bw_block := write_loop (bw_order w) v n (bw_block w1) (bw_bitPosition w) 0,
                  bw_bitPosition := endPosition, bw_bitCount := max (bw_bitCount w) endPosition\<rparr>)))"

definition bw_alignToByte :: "bit_writer \<Rightarrow> bit_error + bit_writer" where
  "bw_alignToByte w = bw_writeBits w 0 ((8 - bw_bitPosition w mod 8) mod 8)"

definition bw_writeBytes :: "bit_writer \<Rightarrow> byte8 list \<Rightarrow> bit_error + bit_writer" where
  "bw_writeBytes w bytes =
     (if bw_bitPosition w mod 8 \<noteq> 0 \<or> length bytes > (u64_max - bw_bitPosition w) div 8 then Inl OutOfRange
      else (let p = bw_bitPosition w div 8;
                endPosition = bw_bitPosition w + length bytes * 8
            in Inr (w\<lparr>bw_block := take p (bw_block w) @ bytes @ drop (p + length bytes) (bw_block w),
                     bw_bitPosition := endPosition, bw_bitCount := max (bw_bitCount w) endPosition\<rparr>)))"

definition bw_writeBool :: "bit_writer \<Rightarrow> bool \<Rightarrow> bit_error + bit_writer" where
  "bw_writeBool w v = bw_writeBits w (if v then 1 else 0) 1"

definition bw_writeByte :: "bit_writer \<Rightarrow> byte8 \<Rightarrow> bit_error + bit_writer" where
  "bw_writeByte w v = bw_writeBits w (ucast v) 8"

definition bw_reset :: "bit_writer \<Rightarrow> bit_writer" where
  "bw_reset w = w\<lparr>bw_block := [], bw_bitCount := 0, bw_bitPosition := 0\<rparr>"

definition bw_takeByteBlockEditor :: "bit_writer \<Rightarrow> byte8 list \<times> bit_writer" where
  "bw_takeByteBlockEditor w = (bw_block w, w\<lparr>bw_block := [], bw_bitCount := 0, bw_bitPosition := 0\<rparr>)"

section \<open>Bits of a byte sequence\<close>

definition bit_at :: "bit_order \<Rightarrow> (nat \<Rightarrow> byte8) \<Rightarrow> nat \<Rightarrow> bool" where
  "bit_at order f p = bit (f (p div 8)) (if order = MostSignificantFirst then 7 - p mod 8 else p mod 8)"

text \<open>The bits of a field of \<open>n\<close> bits in stream order, and the value of such bits.\<close>

definition field_bits :: "bit_order \<Rightarrow> nat \<Rightarrow> u64word \<Rightarrow> bool list" where
  "field_bits order n v =
     (if order = MostSignificantFirst then map (\<lambda>i. bit v (n - 1 - i)) [0..<n] else map (bit v) [0..<n])"

definition field_value :: "bit_order \<Rightarrow> bool list \<Rightarrow> u64word" where
  "field_value order bs =
     horner_sum of_bool 2 (if order = MostSignificantFirst then rev bs else bs)"

lemma field_bits_length [simp]: "length (field_bits order n v) = n"
  by (simp add: field_bits_def)

lemma chunk_index:
  fixes pos i :: nat
  assumes "pos mod 8 + i < 8"
  shows "(pos + i) div 8 = pos div 8" "(pos + i) mod 8 = pos mod 8 + i"
proof -
  define q r where "q = pos div 8" and "r = pos mod 8"
  have p: "pos = r + 8 * q" by (simp add: q_def r_def)
  have "r + i < 8" using assms by (simp add: r_def)
  then have "(r + i + 8 * q) div 8 = q" "(r + i + 8 * q) mod 8 = r + i" by simp_all
  then show "(pos + i) div 8 = pos div 8" "(pos + i) mod 8 = pos mod 8 + i"
    using p by (simp_all add: q_def[symmetric] r_def[symmetric] ac_simps)
qed

lemma bit_chunk_mask: "count \<le> 8 \<Longrightarrow> bit (chunk_mask count) j \<longleftrightarrow> j < count"
proof -
  assume c: "count \<le> 8"
  have "push_bit count (1 :: 32 word) - 1 = mask count" by (simp add: mask_eq_exp_minus_1)
  then show ?thesis using c by (auto simp: chunk_mask_def bit_simps)
qed

lemma bit_read_chunk_lsb:
  assumes "off + count \<le> 8" "k < 64"
  shows "bit (read_chunk LeastSignificantFirst b off count shift result) k
    \<longleftrightarrow> bit result k \<or> (shift \<le> k \<and> k - shift < count \<and> bit b (off + (k - shift)))"
  using assms by (auto simp: read_chunk_def Let_def bit_simps bit_chunk_mask)

lemma bit_read_chunk_msb:
  assumes "off + count \<le> 8" "k < 64"
  shows "bit (read_chunk MostSignificantFirst b off count shift result) k
    \<longleftrightarrow> (if k < count then bit b (8 - off - count + k) else bit result (k - count))"
  using assms by (auto simp: read_chunk_def Let_def bit_simps bit_chunk_mask)

lemma read_loop_step:
  "0 < remaining \<Longrightarrow> read_loop order f pos remaining shift result =
     read_loop order f (pos + min remaining (8 - pos mod 8)) (remaining - min remaining (8 - pos mod 8))
       (shift + min remaining (8 - pos mod 8))
       (read_chunk order (f (pos div 8)) (pos mod 8) (min remaining (8 - pos mod 8)) shift result)"
  "read_loop order f pos 0 shift result = (result, pos)"
  by (subst read_loop.simps, simp add: Let_def)+

lemma read_loop_position: "snd (read_loop order f pos remaining shift result) = pos + remaining"
proof (induction remaining arbitrary: pos shift result rule: less_induct)
  case (less remaining)
  show ?case
  proof (cases "remaining = 0")
    case False
    define c where "c = min remaining (8 - pos mod 8)"
    have c: "0 < c" "c \<le> remaining" using False by (simp_all add: c_def)
    then show ?thesis
      using less[of "remaining - c"] read_loop_step(1)[of remaining order f pos shift result] False
      by (simp add: c_def[symmetric])
  qed (simp add: read_loop_step)
qed

lemma read_loop_lsb:
  assumes "k < 64" "\<And>j. j < 64 \<Longrightarrow> shift \<le> j \<Longrightarrow> \<not> bit result j"
  shows "bit (fst (read_loop LeastSignificantFirst f pos remaining shift result)) k
    \<longleftrightarrow> (if k < shift then bit result k
        else k < shift + remaining \<and> bit_at LeastSignificantFirst f (pos + (k - shift)))"
  using assms(2)
proof (induction remaining arbitrary: pos shift result rule: less_induct)
  case (less remaining)
  show ?case
  proof (cases "remaining = 0")
    case False
    define c where "c = min remaining (8 - pos mod 8)"
    have c: "0 < c" "c \<le> remaining" "pos mod 8 + c \<le> 8" using False by (simp_all add: c_def)
    define res' where "res' = read_chunk LeastSignificantFirst (f (pos div 8)) (pos mod 8) c shift result"
    have res': "bit res' j \<longleftrightarrow> bit result j \<or> (shift \<le> j \<and> j - shift < c \<and> bit (f (pos div 8)) (pos mod 8 + (j - shift)))"
      if "j < 64" for j unfolding res'_def using bit_read_chunk_lsb[OF c(3) that] .
    have unf: "read_loop LeastSignificantFirst f pos remaining shift result
        = read_loop LeastSignificantFirst f (pos + c) (remaining - c) (shift + c) res'"
      using read_loop_step(1) False by (simp add: c_def res'_def)
    have IH: "bit (fst (read_loop LeastSignificantFirst f (pos + c) (remaining - c) (shift + c) res')) k
      \<longleftrightarrow> (if k < shift + c then bit res' k
          else k < shift + c + (remaining - c) \<and> bit_at LeastSignificantFirst f (pos + c + (k - (shift + c))))"
      using c less.prems res' by (intro less.IH) auto
    show ?thesis
    proof (cases "k < shift + c")
      case True
      then show ?thesis
        using IH unf res'[OF assms(1)] less.prems[OF assms(1)] c
          chunk_index[of pos "k - shift"] by (auto simp: bit_at_def)
    next
      case ge: False
      then have "pos + c + (k - (shift + c)) = pos + (k - shift)" by simp
      with ge show ?thesis using IH unf c by simp
    qed
  qed (simp add: read_loop_step less.prems assms(1))
qed

lemma read_loop_msb:
  assumes "k < 64" "remaining \<le> 64"
  shows "bit (fst (read_loop MostSignificantFirst f pos remaining shift result)) k
    \<longleftrightarrow> (if k < remaining then bit_at MostSignificantFirst f (pos + (remaining - 1 - k))
        else bit result (k - remaining))"
  using assms(2)
proof (induction remaining arbitrary: pos shift result rule: less_induct)
  case (less remaining)
  show ?case
  proof (cases "remaining = 0")
    case False
    define c where "c = min remaining (8 - pos mod 8)"
    have c: "0 < c" "c \<le> remaining" "pos mod 8 + c \<le> 8" using False by (simp_all add: c_def)
    define res' where "res' = read_chunk MostSignificantFirst (f (pos div 8)) (pos mod 8) c shift result"
    have res': "bit res' j \<longleftrightarrow> (if j < c then bit (f (pos div 8)) (8 - pos mod 8 - c + j) else bit result (j - c))"
      if "j < 64" for j unfolding res'_def using bit_read_chunk_msb[OF c(3) that] .
    have unf: "read_loop MostSignificantFirst f pos remaining shift result
        = read_loop MostSignificantFirst f (pos + c) (remaining - c) (shift + c) res'"
      using read_loop_step(1) False by (simp add: c_def res'_def)
    have IH: "bit (fst (read_loop MostSignificantFirst f (pos + c) (remaining - c) (shift + c) res')) k
      \<longleftrightarrow> (if k < remaining - c then bit_at MostSignificantFirst f (pos + c + (remaining - c - 1 - k))
          else bit res' (k - (remaining - c)))"
      using c less.prems by (intro less.IH) auto
    consider "k < remaining - c" | "remaining - c \<le> k" "k < remaining" | "remaining \<le> k" by linarith
    then show ?thesis
    proof cases
      case 1
      then have "pos + c + (remaining - c - 1 - k) = pos + (remaining - 1 - k)" "k < remaining" using c by auto
      then show ?thesis using IH unf 1 by simp
    next
      case 2
      define i where "i = remaining - 1 - k"
      have i: "i < c" "8 - pos mod 8 - c + (k - (remaining - c)) = 7 - (pos mod 8 + i)" "k - (remaining - c) < c"
        "k - (remaining - c) < 64"
        using 2 c assms(1) by (auto simp: i_def)
      have "bit_at MostSignificantFirst f (pos + i) = bit (f (pos div 8)) (7 - (pos mod 8 + i))"
        using chunk_index[of pos i] i(1) c(3) by (simp add: bit_at_def)
      then show ?thesis using IH unf 2 res'[OF i(4)] i by (simp add: i_def)
    next
      case 3
      then have l: "k - (remaining - c) < 64" "k - (remaining - c) - c = k - remaining"
        "(k - (remaining - c) < c) = False" "(k < remaining - c) = False" "(k < remaining) = False"
        using c assms(1) by auto
      show ?thesis unfolding unf IH l(4,5) if_False res'[OF l(1)] l(2,3) ..
    qed
  qed (simp add: read_loop_step)
qed

lemma bit_field_value:
  assumes "length bs \<le> 64" "k < 64"
  shows "bit (field_value order bs) k \<longleftrightarrow> k < length bs
    \<and> bs ! (if order = MostSignificantFirst then length bs - 1 - k else k)"
  using assms by (auto simp: field_value_def bit_horner_sum_bit_iff rev_nth)

lemma read_loop_field:
  assumes "n \<le> 64"
  shows "read_loop order f pos n 0 0 = (field_value order (map (\<lambda>i. bit_at order f (pos + i)) [0..<n]), pos + n)"
proof -
  have "fst (read_loop order f pos n 0 0) = field_value order (map (\<lambda>i. bit_at order f (pos + i)) [0..<n])"
  proof (rule bit_word_eqI)
    fix k assume "k < LENGTH(64)"
    then have k: "k < 64" by simp
    show "bit (fst (read_loop order f pos n 0 0)) k
      \<longleftrightarrow> bit (field_value order (map (\<lambda>i. bit_at order f (pos + i)) [0..<n])) k"
      using read_loop_lsb[OF k, of 0 0 f pos n] read_loop_msb[OF k assms, of f pos 0 0]
        bit_field_value[of "map (\<lambda>i. bit_at order f (pos + i)) [0..<n]" k order] assms k
      by (cases order) auto
  qed
  then show ?thesis using read_loop_position[of order f pos n 0 0] by (metis prod.collapse)
qed

lemma field_value_bits:
  assumes "n \<le> 64"
  shows "field_value order (field_bits order n v) = take_bit n v"
proof (rule bit_word_eqI)
  fix k assume "k < LENGTH(64)"
  then have k: "k < 64" by simp
  show "bit (field_value order (field_bits order n v)) k \<longleftrightarrow> bit (take_bit n v) k"
    using bit_field_value[of "field_bits order n v" k order] assms k
    by (auto simp: field_bits_def bit_take_bit_iff)
qed

section \<open>The writer replaces bits\<close>

definition field_bit :: "bit_order \<Rightarrow> nat \<Rightarrow> u64word \<Rightarrow> nat \<Rightarrow> bool" where
  "field_bit order n v i = (if order = MostSignificantFirst then bit v (n - 1 - i) else bit v i)"

lemma field_bits_nth: "field_bits order n v = map (field_bit order n v) [0..<n]"
  by (simp add: field_bits_def field_bit_def)

lemma bit_byte_not: "bit (NOT (b :: byte8)) j \<longleftrightarrow> j < 8 \<and> \<not> bit b j"
  by (simp add: bit_not_iff)

lemma write_chunk_msb:
  assumes "off + count \<le> 8" "written + count \<le> n" "i < 8" "n \<le> 64"
  shows "bit (write_chunk MostSignificantFirst v n written off count b) (7 - i)
    \<longleftrightarrow> (if off \<le> i \<and> i < off + count then bit v (n - 1 - (written + (i - off))) else bit b (7 - i))"
proof -
  define s where "s = 8 - off - count"
  define M where "M = push_bit s (chunk_mask count)"
  define V where "V = push_bit s (ucast (drop_bit (n - written - count) v AND ucast (chunk_mask count)) :: byte8)"
  have wc: "write_chunk MostSignificantFirst v n written off count b = (b AND NOT M) OR V"
    by (simp only: write_chunk_def Let_def if_True refl s_def M_def V_def)
  have "bit M (7 - i) \<longleftrightarrow> off \<le> i \<and> i < off + count"
    using assms by (auto simp: M_def bit_simps bit_chunk_mask s_def)
  moreover have "bit V (7 - i)
      \<longleftrightarrow> off \<le> i \<and> i < off + count \<and> bit v (n - 1 - (written + (i - off)))"
  proof -
    have "n - written - count + (7 - i - s) = n - 1 - (written + (i - off))" if "off \<le> i" "i < off + count"
      using that assms by (simp add: s_def)
    then show ?thesis using assms by (auto simp: V_def bit_simps bit_chunk_mask s_def add.commute)
  qed
  ultimately show ?thesis
    unfolding wc bit_or_iff bit_and_iff bit_byte_not by auto
qed

lemma write_chunk_lsb:
  assumes "off + count \<le> 8" "written + count \<le> n" "i < 8" "n \<le> 64"
  shows "bit (write_chunk LeastSignificantFirst v n written off count b) i
    \<longleftrightarrow> (if off \<le> i \<and> i < off + count then bit v (written + (i - off)) else bit b i)"
proof -
  have "bit (push_bit off (chunk_mask count)) i \<longleftrightarrow> off \<le> i \<and> i < off + count"
    using assms by (auto simp: bit_simps bit_chunk_mask)
  moreover have "bit (push_bit off (ucast (drop_bit written v AND ucast (chunk_mask count)) :: byte8)) i
      \<longleftrightarrow> off \<le> i \<and> i < off + count \<and> bit v (written + (i - off))"
    using assms by (auto simp: bit_simps bit_chunk_mask)
  ultimately show ?thesis
    using assms(3) by (simp add: write_chunk_def Let_def bit_or_iff bit_and_iff bit_byte_not) blast
qed

lemma write_chunk_bit_at:
  assumes "pos mod 8 + count \<le> 8" "written + count \<le> n" "n \<le> 64" "p div 8 = pos div 8"
  shows "bit (write_chunk order v n written (pos mod 8) count b) (if order = MostSignificantFirst then 7 - p mod 8 else p mod 8)
    \<longleftrightarrow> (if pos \<le> p \<and> p < pos + count then field_bit order n v (written + (p - pos))
        else bit b (if order = MostSignificantFirst then 7 - p mod 8 else p mod 8))"
proof -
  have e: "pos mod 8 \<le> p mod 8 \<longleftrightarrow> pos \<le> p" "p mod 8 < pos mod 8 + count \<longleftrightarrow> p < pos + count"
    "p mod 8 - pos mod 8 = p - pos"
    using assms(4) div_mult_mod_eq[of p 8] div_mult_mod_eq[of pos 8] by linarith+
  have "p mod 8 < 8" by simp
  then show ?thesis
    using write_chunk_msb[OF assms(1,2) _ assms(3), of "p mod 8" v b] write_chunk_lsb[OF assms(1,2) _ assms(3), of "p mod 8" v b]
    by (cases order) (simp_all add: e field_bit_def)
qed

lemma write_loop_step:
  "written < n \<Longrightarrow> write_loop order v n data pos written =
     write_loop order v n
       (data[pos div 8 := write_chunk order v n written (pos mod 8) (min (n - written) (8 - pos mod 8)) (data ! (pos div 8))])
       (pos + min (n - written) (8 - pos mod 8)) (written + min (n - written) (8 - pos mod 8))"
  "\<not> written < n \<Longrightarrow> write_loop order v n data pos written = data"
  by (subst write_loop.simps, simp add: Let_def)+

lemma write_loop_bits:
  assumes "n \<le> 64" "pos + (n - written) \<le> 8 * length data"
  shows "length (write_loop order v n data pos written) = length data
    \<and> (\<forall>p < 8 * length data. bit_at order (nth (write_loop order v n data pos written)) p
      = (if pos \<le> p \<and> p < pos + (n - written) then field_bit order n v (written + (p - pos))
         else bit_at order (nth data) p))"
  using assms(2)
proof (induction "n - written" arbitrary: pos written data rule: less_induct)
  case less
  show ?case
  proof (cases "written < n")
    case True
    define c where "c = min (n - written) (8 - pos mod 8)"
    have c: "0 < c" "c \<le> n - written" "pos mod 8 + c \<le> 8" "written + c \<le> n" using True by (auto simp: c_def)
    define data' where "data' = data[pos div 8 := write_chunk order v n written (pos mod 8) c (data ! (pos div 8))]"
    have len: "length data' = length data" by (simp add: data'_def)
    have unf: "write_loop order v n data pos written = write_loop order v n data' (pos + c) (written + c)"
      using write_loop_step(1)[OF True] by (simp add: c_def data'_def)
    have chunk: "bit_at order (nth data') p = (if pos \<le> p \<and> p < pos + c then field_bit order n v (written + (p - pos))
        else bit_at order (nth data) p)" if "p < 8 * length data" for p
    proof (cases "p div 8 = pos div 8")
      case same: True
      have "pos div 8 < length data" using less.prems True by simp
      then show ?thesis
        using write_chunk_bit_at[OF c(3,4) assms(1) same, of order v "data ! (pos div 8)"] same
        by (simp add: bit_at_def data'_def)
    next
      case False
      have "\<not> (pos \<le> p \<and> p < pos + c)"
      proof
        assume "pos \<le> p \<and> p < pos + c"
        then have "pos mod 8 + (p - pos) < 8" "pos + (p - pos) = p" using c(3) by auto
        then show False using chunk_index(1)[of pos "p - pos"] False by simp
      qed
      moreover have "data' ! (p div 8) = data ! (p div 8)" using False by (simp add: data'_def)
      ultimately show ?thesis by (simp only: bit_at_def if_False)
    qed
    have IH: "length (write_loop order v n data' (pos + c) (written + c)) = length data'
      \<and> (\<forall>p < 8 * length data'. bit_at order (nth (write_loop order v n data' (pos + c) (written + c))) p
        = (if pos + c \<le> p \<and> p < pos + c + (n - (written + c)) then field_bit order n v (written + c + (p - (pos + c)))
           else bit_at order (nth data') p))"
      using c less.prems len by (intro less.hyps) auto
    show ?thesis
    proof (intro conjI allI impI)
      show "length (write_loop order v n data pos written) = length data" using IH unf len by simp
      fix p assume p: "p < 8 * length data"
      consider "pos + c \<le> p" "p < pos + (n - written)" | "pos + c \<le> p" "\<not> p < pos + (n - written)" | "p < pos + c"
        by linarith
      moreover have IHp: "bit_at order (nth (write_loop order v n data' (pos + c) (written + c))) p
          = (if pos + c \<le> p \<and> p < pos + c + (n - (written + c)) then field_bit order n v (written + c + (p - (pos + c)))
             else bit_at order (nth data') p)"
        using IH p len by simp
      ultimately show "bit_at order (nth (write_loop order v n data pos written)) p
        = (if pos \<le> p \<and> p < pos + (n - written) then field_bit order n v (written + (p - pos))
           else bit_at order (nth data) p)"
      proof cases
        case 1
        then have e: "(pos + c \<le> p \<and> p < pos + c + (n - (written + c))) = True"
          "(pos \<le> p \<and> p < pos + (n - written)) = True" "written + c + (p - (pos + c)) = written + (p - pos)"
          using c by auto
        show ?thesis unfolding unf IHp e if_True ..
      next
        case 2
        then have e: "(pos + c \<le> p \<and> p < pos + c + (n - (written + c))) = False"
          "(pos \<le> p \<and> p < pos + c) = False" "(pos \<le> p \<and> p < pos + (n - written)) = False" using c by auto
        show ?thesis unfolding unf IHp e if_False chunk[OF p] ..
      next
        case 3
        then have e: "(pos + c \<le> p \<and> p < pos + c + (n - (written + c))) = False"
          "(pos \<le> p \<and> p < pos + c) = (pos \<le> p \<and> p < pos + (n - written))" using c by auto
        show ?thesis unfolding unf IHp e(1) if_False chunk[OF p] e(2) ..
      qed
    qed
  qed (auto simp: write_loop_step)
qed

section \<open>The streams as bit lists\<close>

definition bw_inv :: "bit_writer \<Rightarrow> bool" where
  "bw_inv w \<longleftrightarrow> bw_bitPosition w \<le> bw_bitCount w \<and> length (bw_block w) = byteCountForBits (bw_bitCount w)"

definition bw_bits :: "bit_writer \<Rightarrow> bool list" where
  "bw_bits w = map (bit_at (bw_order w) (nth (bw_block w))) [0..<bw_bitCount w]"

lemma byteCountForBits_bounds: "n \<le> 8 * byteCountForBits n" "m \<le> n \<Longrightarrow> byteCountForBits m \<le> byteCountForBits n"
proof -
  have a: "k \<le> 8 * byteCountForBits k" "8 * byteCountForBits k < k + 8" for k
  proof -
    define q r where "q = k div 8" and "r = k mod 8"
    have "k = 8 * q + r" "r < 8" by (simp_all add: q_def r_def)
    then show "k \<le> 8 * byteCountForBits k" "8 * byteCountForBits k < k + 8"
      unfolding byteCountForBits_def q_def[symmetric] r_def[symmetric] by (cases "r = 0"; simp)+
  qed
  show "n \<le> 8 * byteCountForBits n" by (rule a)
  show "m \<le> n \<Longrightarrow> byteCountForBits m \<le> byteCountForBits n"
    using a(1)[of n] a(2)[of m] by linarith
qed

lemma bw_writeBits_bits:
  assumes "bw_inv w" "n \<le> 64" "bw_bitPosition w + n \<le> u64_max"
  shows "\<exists>w'. bw_writeBits w v n = Inr w' \<and> bw_inv w' \<and> bw_order w' = bw_order w
    \<and> bw_bitPosition w' = bw_bitPosition w + n \<and> bw_bitCount w' = max (bw_bitCount w) (bw_bitPosition w + n)
    \<and> bw_bits w' = take (bw_bitPosition w) (bw_bits w) @ field_bits (bw_order w) n v
        @ drop (bw_bitPosition w + n) (bw_bits w)"
proof -
  let ?p = "bw_bitPosition w" and ?c = "bw_bitCount w" and ?o = "bw_order w"
  define e where "e = max ?c (?p + n)"
  define blk where "blk = bw_block w @ replicate (byteCountForBits e - length (bw_block w)) 0"
  have le: "?p \<le> ?c" "length (bw_block w) = byteCountForBits ?c" using assms(1) by (simp_all add: bw_inv_def)
  have blen: "length blk = byteCountForBits e"
    using le(2) byteCountForBits_bounds(2)[of ?c e] by (simp add: blk_def e_def)
  have bcov: "?p + n \<le> 8 * length blk" "e \<le> 8 * length blk"
    using byteCountForBits_bounds(1)[of e] by (simp_all add: blen e_def)
  have prep: "bw_prepareWrite w n = Inr (w\<lparr>bw_block := blk\<rparr>)"
  proof (cases "?p + n \<le> ?c")
    case True
    then have "e = ?c" "byteCountForBits (?p + n) \<le> byteCountForBits ?c"
      using byteCountForBits_bounds(2) by (auto simp: e_def)
    then show ?thesis using assms(3) le(2) by (simp add: bw_prepareWrite_def blk_def Let_def)
  next
    case False
    then have "e = ?p + n" "byteCountForBits ?c \<le> byteCountForBits (?p + n)"
      using byteCountForBits_bounds(2) by (auto simp: e_def)
    then show ?thesis using assms(3) le(2) by (auto simp: bw_prepareWrite_def blk_def Let_def)
  qed
  define w' where "w' = w\<lparr>bw_block := write_loop ?o v n blk ?p 0, bw_bitPosition := ?p + n, bw_bitCount := e\<rparr>"
  have wr: "bw_writeBits w v n = Inr w'"
    using assms(2) by (simp add: bw_writeBits_def prep Let_def w'_def e_def)
  have "?p + (n - 0) \<le> 8 * length blk" using bcov by simp
  note wl = write_loop_bits[OF assms(2) this, of ?o v]
  have old: "bit_at ?o (nth blk) q = bit_at ?o (nth (bw_block w)) q" if "q < ?c" for q
  proof -
    have "q div 8 < length (bw_block w)"
      using that le(2) byteCountForBits_bounds(1)[of ?c] by (simp add: div_less_iff_less_mult)
    then show ?thesis by (simp add: bit_at_def blk_def nth_append)
  qed
  have "bw_bits w' = take ?p (bw_bits w) @ field_bits ?o n v @ drop (?p + n) (bw_bits w)"
  proof (rule nth_equalityI)
    show l: "length (bw_bits w') = length (take ?p (bw_bits w) @ field_bits ?o n v @ drop (?p + n) (bw_bits w))"
      using le by (simp add: bw_bits_def w'_def e_def)
    fix i assume "i < length (bw_bits w')"
    then have i: "i < e" by (simp add: bw_bits_def w'_def)
    then have i8: "i < 8 * length blk" using bcov by simp
    have "bw_bits w' ! i = (if ?p \<le> i \<and> i < ?p + n then field_bit ?o n v (i - ?p) else bit_at ?o (nth blk) i)"
      using i wl i8 by (simp add: bw_bits_def w'_def)
    moreover have "?p \<le> i \<and> i < ?p + n \<or> i < ?c" using i le by (auto simp: e_def)
    ultimately show "bw_bits w' ! i = (take ?p (bw_bits w) @ field_bits ?o n v @ drop (?p + n) (bw_bits w)) ! i"
      using old[of i] le by (auto simp: nth_append bw_bits_def field_bits_nth)
  qed
  moreover have "bw_inv w'" using wl blen le by (simp add: bw_inv_def w'_def e_def)
  ultimately show ?thesis using wr by (simp add: w'_def e_def)
qed

definition br_inv :: "bit_reader \<Rightarrow> bool" where
  "br_inv r \<longleftrightarrow> br_bitPosition r \<le> br_bitCount r"

definition br_bits :: "bit_reader \<Rightarrow> bool list" where
  "br_bits r = map (bit_at (br_order r) (br_byteAt r)) [br_bitPosition r..<br_bitCount r]"

lemma br_bits_length [simp]: "length (br_bits r) = br_remainingBitCount r"
  by (simp add: br_bits_def br_remainingBitCount_def)

lemma br_readBitsOrThrow_bits:
  assumes "br_inv r"
  shows "if n \<le> 64 \<and> n \<le> length (br_bits r)
    then \<exists>r'. br_readBitsOrThrow r n = Inr (field_value (br_order r) (take n (br_bits r)), r') \<and> br_inv r'
      \<and> br_order r' = br_order r \<and> br_bits r' = drop n (br_bits r)
    else br_readBitsOrThrow r n = Inl OutOfRange"
proof (cases "n \<le> 64 \<and> n \<le> length (br_bits r)")
  case True
  define r' where "r' = r\<lparr>br_bitPosition := br_bitPosition r + n\<rparr>"
  have n: "n \<le> 64" "n \<le> br_remainingBitCount r" using True by simp_all
  have "map (\<lambda>i. bit_at (br_order r) (br_byteAt r) (br_bitPosition r + i)) [0..<n] = take n (br_bits r)"
  proof -
    have "[br_bitPosition r..<br_bitPosition r + n] = map (\<lambda>i. br_bitPosition r + i) [0..<n]"
      by (simp add: map_add_upt add.commute)
    moreover have "take n [br_bitPosition r..<br_bitCount r] = [br_bitPosition r..<br_bitPosition r + n]"
      using n assms by (intro take_upt) (simp add: br_remainingBitCount_def br_inv_def)
    ultimately show ?thesis by (simp add: br_bits_def take_map o_def)
  qed
  then have "br_readBitsOrThrow r n = Inr (field_value (br_order r) (take n (br_bits r)), r')"
    using n read_loop_field[OF n(1)] by (simp add: br_readBitsOrThrow_def br_canRead_def br_readBitsUnchecked_def r'_def)
  moreover have "br_bits r' = drop n (br_bits r)"
  proof -
    have "br_byteAt r' = br_byteAt r" by (rule ext) (simp add: br_byteAt_def r'_def)
    then show ?thesis by (simp add: br_bits_def drop_map r'_def br_bitCount_def br_byteCount_def)
  qed
  moreover have "br_inv r'"
    using assms n(2) by (simp add: br_inv_def r'_def br_remainingBitCount_def br_bitCount_def br_byteCount_def)
  ultimately show ?thesis using True by (simp add: r'_def)
qed (auto simp: br_readBitsOrThrow_def br_canRead_def)

section \<open>Streams of fields\<close>

lemma upt_split: "a \<le> b \<Longrightarrow> b \<le> c \<Longrightarrow> [a..<c] = [a..<b] @ [b..<c]"
  by (metis upt_add_eq_append le_add_diff_inverse)

lemma upt_shift: "[k + a..<k + b] = map (\<lambda>i. k + i) [a..<b]"
  by (rule nth_equalityI) auto

text \<open>A field list is written and read in order; the interfaces state what the sequential use of a
  writer and of a reader needs.\<close>

fun write_fields :: "('w \<Rightarrow> 'v \<Rightarrow> nat \<Rightarrow> 'e + 'w) \<Rightarrow> 'w \<Rightarrow> ('v \<times> nat) list \<Rightarrow> 'e + 'w" where
  "write_fields put w [] = Inr w"
| "write_fields put w ((v, n) # fs) = sbind (put w v n) (\<lambda>w1. write_fields put w1 fs)"

fun read_fields :: "('r \<Rightarrow> nat \<Rightarrow> 'e + 'v \<times> 'r) \<Rightarrow> 'r \<Rightarrow> nat list \<Rightarrow> 'e + 'v list \<times> 'r" where
  "read_fields get r [] = Inr ([], r)"
| "read_fields get r (n # ns) = sbind (get r n) (\<lambda>(v, r1). sbind (read_fields get r1 ns) (\<lambda>(vs, r2). Inr (v # vs, r2)))"

definition fields_bits :: "(nat \<Rightarrow> 'v \<Rightarrow> bool list) \<Rightarrow> ('v \<times> nat) list \<Rightarrow> bool list" where
  "fields_bits fb fs = concat (map (\<lambda>(v, n). fb n v) fs)"

locale bit_sink =
  fixes inv :: "'w \<Rightarrow> bool"
    and bits :: "'w \<Rightarrow> bool list"
    and put :: "'w \<Rightarrow> 'v \<Rightarrow> nat \<Rightarrow> 'e + 'w"
    and fb :: "nat \<Rightarrow> 'v \<Rightarrow> bool list"
    and limit :: nat
  assumes put_law: "inv w \<Longrightarrow> n \<le> 64 \<Longrightarrow> length (bits w) + n \<le> limit \<Longrightarrow>
      \<exists>w'. put w v n = Inr w' \<and> inv w' \<and> bits w' = bits w @ fb n v"
    and fb_length: "length (fb n v) = n"
begin

lemma write_all:
  "inv w \<Longrightarrow> \<forall>(v, n) \<in> set fs. n \<le> 64 \<Longrightarrow> length (bits w) + sum_list (map snd fs) \<le> limit \<Longrightarrow>
   \<exists>w'. write_fields put w fs = Inr w' \<and> inv w' \<and> bits w' = bits w @ fields_bits fb fs"
proof (induction fs arbitrary: w)
  case (Cons f fs)
  obtain v n where f: "f = (v, n)" by fastforce
  obtain w1 where w1: "put w v n = Inr w1" "inv w1" "bits w1 = bits w @ fb n v"
    using put_law[of w n v] Cons.prems f by auto
  have "\<exists>w'. write_fields put w1 fs = Inr w' \<and> inv w' \<and> bits w' = bits w1 @ fields_bits fb fs"
    using Cons.prems w1 f by (intro Cons.IH) (auto simp: fb_length)
  then show ?case using w1 f by (auto simp: fields_bits_def)
qed (simp add: fields_bits_def)

end

locale bit_source =
  fixes inv :: "'r \<Rightarrow> bool"
    and bits :: "'r \<Rightarrow> bool list"
    and get :: "'r \<Rightarrow> nat \<Rightarrow> 'e + 'v \<times> 'r"
    and val :: "bool list \<Rightarrow> 'v"
  assumes get_law: "inv r \<Longrightarrow> n \<le> 64 \<Longrightarrow> n \<le> length (bits r) \<Longrightarrow>
      \<exists>r'. get r n = Inr (val (take n (bits r)), r') \<and> inv r' \<and> bits r' = drop n (bits r)"
begin

lemma read_all:
  assumes "\<And>n v. length (fb n v) = n"
  shows "inv r \<Longrightarrow> \<forall>(v, n) \<in> set fs. n \<le> 64 \<Longrightarrow> bits r = fields_bits fb fs @ rest \<Longrightarrow>
   \<exists>r'. read_fields get r (map snd fs) = Inr (map (\<lambda>(v, n). val (fb n v)) fs, r') \<and> inv r' \<and> bits r' = rest"
proof (induction fs arbitrary: r)
  case (Cons f fs)
  obtain v n where f: "f = (v, n)" by fastforce
  have b: "bits r = fb n v @ fields_bits fb fs @ rest" using Cons.prems(3) f by (simp add: fields_bits_def)
  obtain r1 where r1: "get r n = Inr (val (fb n v), r1)" "inv r1" "bits r1 = fields_bits fb fs @ rest"
    using get_law[of r n] Cons.prems f by (auto simp: b assms)
  have "\<exists>r'. read_fields get r1 (map snd fs) = Inr (map (\<lambda>(v, n). val (fb n v)) fs, r') \<and> inv r' \<and> bits r' = rest"
    using Cons.prems r1 by (intro Cons.IH) auto
  then show ?case using r1(1) f by auto
qed (simp add: fields_bits_def)

end

definition bw_at_end :: "bit_order \<Rightarrow> bit_writer \<Rightarrow> bool" where
  "bw_at_end order w \<longleftrightarrow> bw_inv w \<and> bw_bitPosition w = bw_bitCount w \<and> bw_order w = order"

interpretation bws: bit_sink "bw_at_end order" bw_bits bw_writeBits "field_bits order" u64_max
  for order
proof
  fix w n v
  assume a: "bw_at_end order w" "n \<le> 64" "length (bw_bits w) + n \<le> u64_max"
  have l: "length (bw_bits w) = bw_bitCount w" by (simp add: bw_bits_def)
  have "bw_inv w" "bw_bitPosition w + n \<le> u64_max" using a l by (auto simp: bw_at_end_def)
  from bw_writeBits_bits[OF this(1) a(2) this(2), of v] obtain w' where
    "bw_writeBits w v n = Inr w'" "bw_inv w'" "bw_order w' = bw_order w" "bw_bitPosition w' = bw_bitPosition w + n"
    "bw_bitCount w' = max (bw_bitCount w) (bw_bitPosition w + n)"
    "bw_bits w' = take (bw_bitPosition w) (bw_bits w) @ field_bits (bw_order w) n v @ drop (bw_bitPosition w + n) (bw_bits w)"
    by blast
  then show "\<exists>w'. bw_writeBits w v n = Inr w' \<and> bw_at_end order w' \<and> bw_bits w' = bw_bits w @ field_bits order n v"
    using a(1) l by (auto simp: bw_at_end_def)
qed simp

definition br_reading :: "bit_order \<Rightarrow> bit_reader \<Rightarrow> bool" where
  "br_reading order r \<longleftrightarrow> br_inv r \<and> br_order r = order"

interpretation brs: bit_source "br_reading order" br_bits br_readBitsOrThrow "field_value order"
  for order
proof
  fix r n
  assume "br_reading order r" "n \<le> 64" "n \<le> length (br_bits r)"
  then show "\<exists>r'. br_readBitsOrThrow r n = Inr (field_value order (take n (br_bits r)), r')
      \<and> br_reading order r' \<and> br_bits r' = drop n (br_bits r)"
    using br_readBitsOrThrow_bits[of r n] by (auto simp: br_reading_def)
qed

lemma br_create_bits:
  "br_reading order (br_create order data 0)"
  "br_bits (br_create order data 0) = map (bit_at order (nth data)) [0..<8 * length data]"
proof -
  have "br_byteAt (br_create order data 0) = nth data"
    by (rule ext) (simp add: br_byteAt_def br_create_def br_setBitPosition_def)
  then show "br_bits (br_create order data 0) = map (bit_at order (nth data)) [0..<8 * length data]"
    by (simp add: br_bits_def br_create_def br_setBitPosition_def br_bitCount_def br_byteCount_def mult.commute)
  show "br_reading order (br_create order data 0)"
    by (simp add: br_reading_def br_inv_def br_create_def br_setBitPosition_def)
qed

text \<open>C7: Writing any list of bit fields of up to 64 bits and reading the finished block with the same
  widths and bit order gives back every value cut to its width, for both bit orders and at
  every bit offset; the writer counts exactly the written bits.\<close>

theorem bit_fields_roundtrip:
  assumes "\<forall>(v, n) \<in> set fs. n \<le> 64" "sum_list (map snd fs) \<le> u64_max"
  shows "\<exists>w r. write_fields bw_writeBits (bw_create order) fs = Inr w
    \<and> bw_bitCount w = sum_list (map snd fs)
    \<and> length (bw_block w) = byteCountForBits (sum_list (map snd fs))
    \<and> read_fields br_readBitsOrThrow (br_create order (bw_block w) 0) (map snd fs)
      = Inr (map (\<lambda>(v, n). take_bit n v) fs, r)"
proof -
  have w0: "bw_at_end order (bw_create order)" "bw_bits (bw_create order) = []"
    by (simp_all add: bw_at_end_def bw_inv_def bw_create_def bw_bits_def byteCountForBits_def)
  obtain w where w: "write_fields bw_writeBits (bw_create order) fs = Inr w" "bw_at_end order w"
    "bw_bits w = fields_bits (field_bits order) fs"
    using bws.write_all[OF w0(1) assms(1)] assms(2) w0(2) by auto
  have "length (bw_bits w) = sum_list (map snd fs)"
    unfolding w(3) fields_bits_def length_concat map_map
    by (rule arg_cong[where f = sum_list]) (auto simp: o_def split: prod.splits)
  then have n: "bw_bitCount w = sum_list (map snd fs)" by (simp add: bw_bits_def)
  have inv: "bw_inv w" "bw_order w = order" using w(2) by (simp_all add: bw_at_end_def)
  define c b where "c = bw_bitCount w" and "b = 8 * length (bw_block w)"
  have cb: "c \<le> b" using inv byteCountForBits_bounds(1) by (simp add: bw_inv_def c_def b_def)
  have "br_bits (br_create order (bw_block w) 0) = map (bit_at order (nth (bw_block w))) ([0..<c] @ [c..<b])"
    using upt_split[of 0 c b] cb by (simp add: br_create_bits b_def)
  then have rb: "br_bits (br_create order (bw_block w) 0)
      = fields_bits (field_bits order) fs @ map (bit_at order (nth (bw_block w))) [c..<b]"
    using w(3) inv(2) by (simp add: bw_bits_def c_def)
  have "map (\<lambda>(v, n). field_value order (field_bits order n v)) fs = map (\<lambda>(v, n). take_bit n v) fs"
    using assms(1) by (auto simp: field_value_bits)
  then obtain r where "read_fields br_readBitsOrThrow (br_create order (bw_block w) 0) (map snd fs)
      = Inr (map (\<lambda>(v, n). take_bit n v) fs, r)"
    using brs.read_all[OF field_bits_length br_create_bits(1) assms(1) rb] by auto
  then show ?thesis using w(1) n inv(1) by (auto simp: bw_inv_def)
qed

lemma bit_fields_roundtrip_witness:
  "\<exists>w r. write_fields bw_writeBits (bw_create MostSignificantFirst) [(5, 3), (1000, 11)] = Inr w
    \<and> read_fields br_readBitsOrThrow (br_create MostSignificantFirst (bw_block w) 0) [3, 11] = Inr ([5, 1000], r)"
  using bit_fields_roundtrip[of "[(5, 3), (1000, 11)]" MostSignificantFirst] by (auto simp: take_bit_eq_mod)

text \<open>A field written anywhere inside or across the end of the written bits replaces exactly the
  bits it covers and leaves every other written bit unchanged.\<close>

lemma bit_writer_overwrites:
  assumes "bw_inv w" "n \<le> 64" "bw_bitPosition w + n \<le> u64_max"
  shows "\<exists>w'. bw_writeBits w v n = Inr w' \<and> bw_inv w'
    \<and> bw_bits w' = take (bw_bitPosition w) (bw_bits w) @ field_bits (bw_order w) n v
        @ drop (bw_bitPosition w + n) (bw_bits w)"
  using bw_writeBits_bits[OF assms] by blast

lemma bit_writer_overwrites_witness:
  "\<exists>w'. bw_writeBits \<lparr>bw_order = LeastSignificantFirst, bw_block = [255], bw_bitCount = 8, bw_bitPosition = 2\<rparr> 0 3 = Inr w'
    \<and> bw_bits w' = [True, True, False, False, False, True, True, True]"
proof -
  let ?w = "\<lparr>bw_order = LeastSignificantFirst, bw_block = [255], bw_bitCount = 8, bw_bitPosition = 2\<rparr>"
  have "bw_inv ?w" by (simp add: bw_inv_def byteCountForBits_def)
  moreover have "take (bw_bitPosition ?w) (bw_bits ?w) @ field_bits (bw_order ?w) 3 0 @ drop (bw_bitPosition ?w + 3) (bw_bits ?w)
      = [True, True, False, False, False, True, True, True]" by code_simp
  moreover have "bw_bitPosition ?w + 3 \<le> u64_max" "(3 :: nat) \<le> 64" by simp_all
  ultimately show ?thesis
    using bit_writer_overwrites[of ?w 3 0] by metis
qed

text \<open>Refilling a reader that has at most 64 unread bits keeps them, in order, in front of the
  bits of the new input; the retained bytes fit the nine bytes of the prefix array, and with
  more unread bits the refill is refused.\<close>

theorem bit_reader_refill:
  assumes "br_inv r"
  shows "if length (br_bits r) \<le> 64
    then \<exists>r'. br_refill r data = Inr r' \<and> br_inv r' \<and> length (br_prefix r') \<le> 9
      \<and> br_bits r' = br_bits r @ map (bit_at (br_order r) (nth data)) [0..<8 * length data]
    else br_refill r data = Inl OutOfRange"
proof (cases "length (br_bits r) \<le> 64")
  case True
  define p n where "p = br_bitPosition r" and "n = br_byteCount r"
  have pn: "p \<le> 8 * n" using assms by (simp add: br_inv_def p_def n_def br_bitCount_def mult.commute)
  define q where "q = p div 8"
  have pq: "p = 8 * q + p mod 8" "p mod 8 < 8" by (simp_all add: q_def)
  define pre where "pre = map (\<lambda>i. br_byteAt r (q + i)) [0..<n - q]"
  define r' where "r' = r\<lparr>br_prefix := pre, br_bitPosition := p mod 8, br_data := data\<rparr>"
  have c: "br_refill r data = Inr r'"
    using True by (simp add: br_refill_def Let_def br_bytePosition_def pre_def r'_def p_def n_def q_def)
  have qn: "q \<le> n" using pn pq by linarith
  have "8 * n - p \<le> 64" using True by (simp add: br_remainingBitCount_def br_bitCount_def p_def n_def mult.commute)
  then have "n - q \<le> 9" using pq by linarith
  moreover have len: "length pre = n - q" by (simp add: pre_def)
  have nth_pre: "pre ! j = br_byteAt r (q + j)" if "j < n - q" for j using that by (simp add: pre_def)
  have fs: "br_prefix r' = pre" "br_data r' = data" "br_order r' = br_order r" "br_bitPosition r' = p mod 8"
    by (simp_all add: r'_def)
  moreover have at: "bit_at (br_order r) (br_byteAt r') i
      = (if i < 8 * (n - q) then bit_at (br_order r) (br_byteAt r) (8 * q + i)
         else bit_at (br_order r) (nth data) (i - 8 * (n - q)))" for i
  proof (cases "i < 8 * (n - q)")
    case True
    then have "i div 8 < n - q" by (simp add: div_less_iff_less_mult mult.commute)
    with True show ?thesis
      by (simp add: bit_at_def br_byteAt_def[of r'] fs len nth_pre)
  next
    case False
    then have "i = (i - 8 * (n - q)) + 8 * (n - q)" by simp
    then have "i div 8 = (i - 8 * (n - q)) div 8 + (n - q)" "i mod 8 = (i - 8 * (n - q)) mod 8"
      by (metis div_mult_self2 zero_neq_numeral add.commute, metis mod_mult_self2)
    with False show ?thesis by (simp add: bit_at_def br_byteAt_def[of r'] fs len)
  qed
  moreover have "br_bits r' = br_bits r @ map (bit_at (br_order r) (nth data)) [0..<8 * length data]"
  proof -
    define m where "m = 8 * (n - q)"
    have bc: "br_bitCount r' = m + 8 * length data"
      by (simp add: br_bitCount_def br_byteCount_def fs len m_def)
    have pm: "p mod 8 \<le> m" using pn pq qn by (simp add: m_def diff_mult_distrib2)
    have "br_bits r' = map (bit_at (br_order r) (br_byteAt r')) ([p mod 8..<m] @ [m..<m + 8 * length data])"
      using upt_split[OF pm, of "m + 8 * length data"] unfolding br_bits_def bc fs by simp
    moreover have "map (bit_at (br_order r) (br_byteAt r')) [p mod 8..<m] = br_bits r"
    proof -
      have "8 * q + m = 8 * n" using qn by (simp add: m_def diff_mult_distrib2)
      then have "[p..<8 * n] = map (\<lambda>i. 8 * q + i) [p mod 8..<m]"
        using pq(1) upt_shift[of "8 * q" "p mod 8" m] by simp
      then have "br_bits r = map (\<lambda>i. bit_at (br_order r) (br_byteAt r) (8 * q + i)) [p mod 8..<m]"
        by (simp add: br_bits_def br_bitCount_def p_def[symmetric] n_def[symmetric] mult.commute)
      also have "\<dots> = map (bit_at (br_order r) (br_byteAt r')) [p mod 8..<m]"
        by (rule map_cong) (simp_all add: at m_def)
      finally show ?thesis by simp
    qed
    moreover have "map (bit_at (br_order r) (br_byteAt r')) [m..<m + 8 * length data]
        = map (bit_at (br_order r) (nth data)) [0..<8 * length data]"
      by (rule nth_equalityI) (simp_all add: at m_def[symmetric])
    ultimately show ?thesis by simp
  qed
  moreover have "br_inv r'"
    using pn pq qn by (simp add: br_inv_def br_bitCount_def br_byteCount_def fs len)
  ultimately show ?thesis using True c by (simp add: fs len)
qed (simp add: br_refill_def)

lemma bit_reader_refill_witness:
  "\<exists>r'. br_refill \<lparr>br_order = MostSignificantFirst, br_prefix = [], br_data = [1, 2], br_bitPosition = 12\<rparr> [3] = Inr r'
    \<and> length (br_bits r') = 12"
proof -
  let ?r = "\<lparr>br_order = MostSignificantFirst, br_prefix = [], br_data = [1, 2], br_bitPosition = 12\<rparr>"
  have "br_inv ?r" "length (br_bits ?r) = 4"
    by (simp_all add: br_inv_def br_bitCount_def br_byteCount_def br_remainingBitCount_def)
  then obtain r' where r': "br_refill ?r [3] = Inr r'"
    "br_bits r' = br_bits ?r @ map (bit_at (br_order ?r) (nth [3])) [0..<8 * length [3 :: byte8]]"
    using bit_reader_refill[of ?r "[3]"] by auto
  have "length (br_bits r') = 12"
    using \<open>length (br_bits ?r) = 4\<close> by (subst r'(2)) (simp del: br_bits_length)
  with r'(1) show ?thesis by blast
qed

end
