(* ===== verification/Lz4.thy ===== *)
theory Lz4
  imports Prelude
begin

unbundle bit_operations_syntax

text \<open>
  The LZ4 block codec \<open>compression/impl/lz4/Lz4Codec\<close>: the hash chain match search with its lazy
  step, the writer of literal and match sequences, the validating decoder, and the cyclic copy
  \<open>ByteModifyTools::appendRepeated\<close> it uses for matches. The header constants appear as
  numerals: minimum match 4, hash table of 65536 entries, largest offset 65535, nibble maximum
  15, extension byte 255, last literals 5, last match start 12, size overhead 16.
\<close>

section \<open>Data\<close>

type_synonym bytes = "8 word list"

datatype lz4_error = MalformedData | LengthMismatch | OutOfRange

datatype compression_level = Fastest | Fast | Default | High | Highest

fun searchDepth :: "compression_level \<Rightarrow> nat" where
  "searchDepth Fastest = 1"
| "searchDepth Fast = 4"
| "searchDepth Default = 16"
| "searchDepth High = 64"
| "searchDepth Highest = 256"

definition noPosition :: nat where "noPosition = u64_max"

section \<open>The cyclic copy\<close>

function repeat_loop :: "bytes \<Rightarrow> nat \<Rightarrow> nat \<Rightarrow> nat \<Rightarrow> bytes" where
  "repeat_loop data oldSize appendedLength copied =
     (if copied < appendedLength \<and> copied \<noteq> 0 then
        (let count = min copied (appendedLength - copied)
         in repeat_loop (data @ take count (drop oldSize data)) oldSize appendedLength (copied + count))
      else data)"
  by pat_completeness auto
termination
  by (relation "measure (\<lambda>(data, oldSize, appendedLength, copied). appendedLength - copied)") auto

declare repeat_loop.simps [simp del]

definition appendRepeated :: "bytes \<Rightarrow> nat \<Rightarrow> nat \<Rightarrow> nat \<Rightarrow> lz4_error + bytes" where
  "appendRepeated data source sourceLength outputLength =
     (if outputLength = 0 then Inr data
      else if sourceLength = 0 \<or> source + sourceLength > length data then Inl OutOfRange
      else (let copied = min sourceLength outputLength
            in Inr (repeat_loop (data @ take copied (drop source data)) (length data) outputLength copied)))"

section \<open>The compressor\<close>

definition readUInt32 :: "bytes \<Rightarrow> nat \<Rightarrow> 32 word" where
  "readUInt32 data i =
     ucast (data ! i) OR push_bit 8 (ucast (data ! (i + 1))) OR push_bit 16 (ucast (data ! (i + 2)))
       OR push_bit 24 (ucast (data ! (i + 3)))"

definition hashSequence :: "32 word \<Rightarrow> nat" where
  "hashSequence v = unat (drop_bit 16 (v * 2654435761))"

function appendExtendedLength :: "bytes \<Rightarrow> nat \<Rightarrow> bytes" where
  "appendExtendedLength output n =
     (if n \<ge> 255 then appendExtendedLength (output @ [255]) (n - 255) else output @ [of_nat n])"
  by pat_completeness auto
termination by (relation "measure snd") auto

declare appendExtendedLength.simps [simp del]

definition sequence_token :: "nat \<Rightarrow> nat \<Rightarrow> 8 word" where
  "sequence_token literalToken matchToken =
     ucast (push_bit 4 (of_nat literalToken :: 16 word) OR of_nat matchToken)"

definition appendSequence :: "bytes \<Rightarrow> bytes \<Rightarrow> nat \<Rightarrow> nat \<Rightarrow> nat \<Rightarrow> nat \<Rightarrow> bool \<Rightarrow> bytes" where
  "appendSequence output input literalBegin literalLength matchOffset matchLength hasMatch =
     (let literalToken = min literalLength 15;
          matchToken = (if hasMatch then min (matchLength - 4) 15 else 0);
          out1 = output @ [sequence_token literalToken matchToken];
          out2 = (if literalLength \<ge> 15 then appendExtendedLength out1 (literalLength - 15) else out1);
          out3 = out2 @ take literalLength (drop literalBegin input)
      in if \<not> hasMatch then out3
         else (let out4 = out3 @ [of_nat matchOffset, of_nat (matchOffset div 256)]
               in if matchLength - 4 \<ge> 15 then appendExtendedLength out4 (matchLength - 4 - 15) else out4))"

function extend_match :: "bytes \<Rightarrow> nat \<Rightarrow> nat \<Rightarrow> nat \<Rightarrow> nat \<Rightarrow> nat" where
  "extend_match input position candidate maximumMatchLength matchLength =
     (if matchLength < maximumMatchLength \<and> input ! (candidate + matchLength) = input ! (position + matchLength)
      then extend_match input position candidate maximumMatchLength (matchLength + 1)
      else matchLength)"
  by pat_completeness auto
termination
  by (relation "measure (\<lambda>(input, position, candidate, maximumMatchLength, matchLength). maximumMatchLength - matchLength)") auto

declare extend_match.simps [simp del]

definition previous_index :: "nat list \<Rightarrow> nat \<Rightarrow> nat" where
  "previous_index previous p = (if p < length previous then p else p AND 65535)"

definition try_candidate :: "bytes \<Rightarrow> nat \<Rightarrow> nat \<Rightarrow> nat \<times> nat \<Rightarrow> nat \<times> nat" where
  "try_candidate input position candidate best =
     (if candidate + 4 \<le> length input \<and> readUInt32 input candidate = readUInt32 input position
      then (let matchLength = extend_match input position candidate (length input - 5 - position) 4
            in if matchLength > fst best then (matchLength, position - candidate) else best)
      else best)"

text \<open>The chain of candidates; the last argument is \<open>depth - attempts\<close>.\<close>

fun match_chain :: "bytes \<Rightarrow> nat \<Rightarrow> nat list \<Rightarrow> nat \<times> nat \<Rightarrow> nat \<Rightarrow> nat \<Rightarrow> nat \<times> nat" where
  "match_chain input position previous best candidate 0 = best"
| "match_chain input position previous best candidate (Suc attemptsLeft) =
     (if candidate = noPosition then best
      else if position \<le> candidate \<or> position - candidate > 65535 then best
      else match_chain input position previous (try_candidate input position candidate best)
             (previous ! previous_index previous candidate) attemptsLeft)"

definition findMatch :: "bytes \<Rightarrow> nat \<Rightarrow> nat \<Rightarrow> nat list \<Rightarrow> nat \<Rightarrow> nat \<times> nat" where
  "findMatch input position candidate previous depth = match_chain input position previous (0, 0) candidate depth"

record compressor =
  lz_table :: "nat list"
  lz_previous :: "nat list"
  lz_anchor :: nat
  lz_position :: nat
  lz_output :: bytes

definition betterNext :: "compression_level \<Rightarrow> bytes \<Rightarrow> compressor \<Rightarrow> nat \<Rightarrow> bool" where
  "betterNext level input c bestLength \<longleftrightarrow>
     (level = High \<or> level = Highest) \<and> lz_position c + 1 + 12 \<le> length input \<and>
     fst (findMatch input (lz_position c + 1) (lz_table c ! hashSequence (readUInt32 input (lz_position c + 1)))
            (lz_previous c) (searchDepth level)) > bestLength + 1"

definition compress_step :: "compression_level \<Rightarrow> bytes \<Rightarrow> compressor \<Rightarrow> compressor" where
  "compress_step level input c =
     (let position = lz_position c;
          hash = hashSequence (readUInt32 input position);
          candidate = lz_table c ! hash;
          previous = (lz_previous c)[previous_index (lz_previous c) position := candidate];
          c1 = c\<lparr>lz_previous := previous, lz_table := (lz_table c)[hash := position]\<rparr>
      in case findMatch input position candidate previous (searchDepth level) of
        (bestLength, bestOffset) \<Rightarrow>
          if bestLength < 4 then c1\<lparr>lz_position := position + 1\<rparr>
          else if betterNext level input c1 bestLength then c1\<lparr>lz_position := position + 1\<rparr>
          else c1\<lparr>lz_output := appendSequence (lz_output c) input (lz_anchor c) (position - lz_anchor c)
                                bestOffset bestLength True,
                  lz_position := position + bestLength, lz_anchor := position + bestLength\<rparr>)"

lemma compress_step_advances: "lz_position (compress_step level input c) > lz_position c"
  by (auto simp: compress_step_def Let_def split: prod.splits)

function compress_loop :: "compression_level \<Rightarrow> bytes \<Rightarrow> compressor \<Rightarrow> compressor" where
  "compress_loop level input c =
     (if lz_position c + 12 \<le> length input then compress_loop level input (compress_step level input c) else c)"
  by pat_completeness auto
termination
proof (relation "measure (\<lambda>(level, input, c). length input - lz_position c)", goal_cases)
  case (2 level input c)
  then show ?case using compress_step_advances[of c level input] by simp
qed simp

declare compress_loop.simps [simp del]

definition compress_start :: "bytes \<Rightarrow> compressor" where
  "compress_start input =
     \<lparr>lz_table = replicate 65536 noPosition, lz_previous = replicate (min (length input) 65536) noPosition,
      lz_anchor = 0, lz_position = 0, lz_output = []\<rparr>"

definition maximumPayloadLength :: "nat \<Rightarrow> lz4_error + nat" where
  "maximumPayloadLength n =
     (if n + (n div 255 + 16) \<ge> u64_max then Inl OutOfRange else Inr (n + (n div 255 + 16)))"

definition compressed_bytes :: "compression_level \<Rightarrow> bytes \<Rightarrow> bytes" where
  "compressed_bytes level input =
     (let c = compress_loop level input (compress_start input)
      in appendSequence (lz_output c) input (lz_anchor c) (length input - lz_anchor c) 0 0 False)"

text \<open>The reservation of the worst-case output length fails when that length is not finite.\<close>

definition compressBlock :: "compression_level \<Rightarrow> bytes \<Rightarrow> lz4_error + bytes" where
  "compressBlock level input =
     sbind (maximumPayloadLength (length input)) (\<lambda>_. Inr (compressed_bytes level input))"

section \<open>The decoder\<close>

function readExtendedLength :: "bytes \<Rightarrow> nat \<Rightarrow> nat \<Rightarrow> lz4_error + nat \<times> nat" where
  "readExtendedLength input position n =
     (if position \<ge> length input then Inl MalformedData
      else (let v = unat (input ! position)
            in if n > u64_max - v then Inl MalformedData
               else if v \<noteq> 255 then Inr (n + v, position + 1)
               else readExtendedLength input (position + 1) (n + v)))"
  by pat_completeness auto
termination by (relation "measure (\<lambda>(input, position, n). length input - position)") auto

declare readExtendedLength.simps [simp del]

text \<open>One sequence: the input position and output after it, and whether the block ended.\<close>

definition read_literals :: "bytes \<Rightarrow> nat \<Rightarrow> bytes \<Rightarrow> nat \<Rightarrow> lz4_error + nat \<times> bytes" where
  "read_literals input position output outputSize =
     (let token = input ! position;
          nibble = unat (drop_bit 4 token)
      in sbind (if nibble = 15 then readExtendedLength input (position + 1) nibble else Inr (nibble, position + 1))
        (\<lambda>(literalLength, p1).
          if literalLength > length input - p1 \<or> literalLength > outputSize - length output then Inl MalformedData
          else Inr (p1 + literalLength, output @ take literalLength (drop p1 input))))"

definition read_match :: "bytes \<Rightarrow> nat \<Rightarrow> nat \<Rightarrow> bytes \<Rightarrow> nat \<Rightarrow> lz4_error + nat \<times> bytes" where
  "read_match input matchNibble position output outputSize =
     (if length input - position < 2 then Inl MalformedData
      else (let offset = unat (input ! position) OR push_bit 8 (unat (input ! (position + 1)))
            in if offset = 0 \<or> offset > length output then Inl MalformedData
               else sbind (if matchNibble = 15 then readExtendedLength input (position + 2) (matchNibble + 4)
                           else Inr (matchNibble + 4, position + 2))
                 (\<lambda>(matchLength, p1).
                   if matchLength > outputSize - length output then Inl MalformedData
                   else sbind (appendRepeated output (length output - offset) offset matchLength)
                          (\<lambda>output1. Inr (p1, output1)))))"

definition decode_step :: "bytes \<Rightarrow> nat \<Rightarrow> bytes \<Rightarrow> nat \<Rightarrow> lz4_error + nat \<times> bytes" where
  "decode_step input position output outputSize =
     (let matchNibble = unat (input ! position AND 15)
      in sbind (read_literals input position output outputSize)
        (\<lambda>(p1, output1).
          if p1 = length input then (if matchNibble \<noteq> 0 then Inl MalformedData else Inr (p1, output1))
          else read_match input matchNibble p1 output1 outputSize))"

lemma readExtendedLength_advances:
  "readExtendedLength input position n = Inr (m, p) \<Longrightarrow> position < p \<and> p \<le> length input \<and> n \<le> m"
proof (induction input position n rule: readExtendedLength.induct)
  case (1 input position n)
  from "1.prems" have nz: "position < length input" "\<not> n > u64_max - unat (input ! position)"
    by (subst (asm) readExtendedLength.simps, simp add: Let_def split: if_splits)+
  show ?case
  proof (cases "unat (input ! position) = 255")
    case True
    then have "readExtendedLength input (position + 1) (n + 255) = Inr (m, p)"
      using "1.prems" nz by (subst (asm) readExtendedLength.simps) (simp add: Let_def)
    then show ?thesis using "1.IH"[OF _ refl] nz True by fastforce
  next
    case False
    then show ?thesis using "1.prems" nz by (subst (asm) readExtendedLength.simps) (auto simp: Let_def)
  qed
qed

lemma read_literals_advances:
  "read_literals input position output outputSize = Inr (p, out) \<Longrightarrow> position < p"
  using readExtendedLength_advances
  by (fastforce simp: read_literals_def Let_def sbind_Inr_iff split: if_splits)

lemma read_match_advances:
  "read_match input nib position output outputSize = Inr (p, out) \<Longrightarrow> position < p"
  using readExtendedLength_advances
  by (fastforce simp: read_match_def Let_def sbind_Inr_iff split: if_splits)

lemma decode_step_advances:
  "decode_step input position output outputSize = Inr (p, out) \<Longrightarrow> position < p"
  using read_literals_advances read_match_advances
  by (fastforce simp: decode_step_def Let_def sbind_Inr_iff split: if_splits)

function decompress_loop :: "bytes \<Rightarrow> nat \<Rightarrow> bytes \<Rightarrow> nat \<Rightarrow> lz4_error + bytes" where
  "decompress_loop input position output outputSize =
     (if position < length input then
        sbind (decode_step input position output outputSize)
          (\<lambda>(p1, output1). decompress_loop input p1 output1 outputSize)
      else Inr output)"
  by pat_completeness auto
termination
  by (relation "measure (\<lambda>(input, position, output, outputSize). length input - position)")
    (auto dest: decode_step_advances)

declare decompress_loop.simps [simp del]

text \<open>\<open>None\<close> is an expected length that is missing or infinite.\<close>

definition decompressBlock :: "nat option \<Rightarrow> bytes \<Rightarrow> lz4_error + bytes" where
  "decompressBlock expected input =
     (case expected of
        None \<Rightarrow> Inl LengthMismatch
      | Some outputSize \<Rightarrow>
          if input = [] then Inl MalformedData
          else sbind (decompress_loop input 0 [] outputSize)
            (\<lambda>output. if length output \<noteq> outputSize then Inl LengthMismatch else Inr output))"

section \<open>The cyclic copy and the length codes\<close>

definition cyclic :: "bytes \<Rightarrow> nat \<Rightarrow> nat \<Rightarrow> nat \<Rightarrow> bytes" where
  "cyclic data source n m = map (\<lambda>i. data ! (source + i mod n)) [0..<m]"

lemma repeat_loop_cyclic:
  assumes "n dvd copied \<or> copied = m" "0 < n" "0 < copied" "copied \<le> m"
  shows "repeat_loop (data @ map (\<lambda>i. f (i mod n)) [0..<copied]) (length data) m copied
    = data @ map (\<lambda>i. f (i mod n)) [0..<m]"
  using assms
proof (induction "m - copied" arbitrary: copied rule: less_induct)
  case less
  show ?case
  proof (cases "copied < m")
    case True
    define count where "count = min copied (m - copied)"
    have c: "0 < count" "count \<le> copied" "copied + count \<le> m" using True less.prems by (auto simp: count_def)
    have dvd: "n dvd copied" using True less.prems(1) by simp
    have "map (\<lambda>i. f (i mod n)) [0..<copied] @ take count (map (\<lambda>i. f (i mod n)) [0..<copied])
        = map (\<lambda>i. f (i mod n)) [0..<copied + count]"
    proof (rule nth_equalityI)
      fix i assume i: "i < length (map (\<lambda>i. f (i mod n)) [0..<copied] @ take count (map (\<lambda>i. f (i mod n)) [0..<copied]))"
      have "(i - copied) mod n = i mod n" if "copied \<le> i"
        using that dvd by (metis le_add_diff_inverse mod_add_left_eq add_0 dvd_imp_mod_0)
      then show "(map (\<lambda>i. f (i mod n)) [0..<copied] @ take count (map (\<lambda>i. f (i mod n)) [0..<copied])) ! i
          = map (\<lambda>i. f (i mod n)) [0..<copied + count] ! i"
        using i c by (auto simp: nth_append)
    qed (use c in simp)
    then have "repeat_loop (data @ map (\<lambda>i. f (i mod n)) [0..<copied]) (length data) m copied
        = repeat_loop (data @ map (\<lambda>i. f (i mod n)) [0..<copied + count]) (length data) m (copied + count)"
      using True less.prems(3) by (subst repeat_loop.simps) (simp add: Let_def count_def)
    also have "\<dots> = data @ map (\<lambda>i. f (i mod n)) [0..<m]"
    proof (rule less.hyps)
      show "n dvd copied + count \<or> copied + count = m"
        using dvd by (auto simp: count_def min_def)
    qed (use c less.prems(2) True in auto)
    finally show ?thesis .
  next
    case False
    then show ?thesis using less.prems(4) by (subst repeat_loop.simps) simp
  qed
qed

lemma appendRepeated_cyclic:
  assumes "0 < n" "source + n \<le> length data" "0 < m"
  shows "appendRepeated data source n m = Inr (data @ cyclic data source n m)"
proof -
  have "take (min n m) (drop source data) = map (\<lambda>i. data ! (source + i mod n)) [0..<min n m]"
    using assms by (intro nth_equalityI) auto
  moreover have "repeat_loop (data @ map (\<lambda>i. data ! (source + i mod n)) [0..<min n m]) (length data) m (min n m)
      = data @ map (\<lambda>i. data ! (source + i mod n)) [0..<m]"
    using repeat_loop_cyclic[of n "min n m" m data "\<lambda>i. data ! (source + i)"] assms by (auto simp: min_def)
  ultimately show ?thesis using assms by (simp add: appendRepeated_def Let_def cyclic_def)
qed

text \<open>A match of a periodic range copies what follows in the data.\<close>

lemma cyclic_of_match:
  assumes "0 < off" "off \<le> position" "position + m \<le> length input"
    and "\<And>i. i < m \<Longrightarrow> input ! (position - off + i) = input ! (position + i)"
  shows "cyclic (take position input) (position - off) off m = take m (drop position input)"
proof (rule nth_equalityI)
  fix i assume "i < length (cyclic (take position input) (position - off) off m)"
  then have i: "i < m" by (simp add: cyclic_def)
  have "input ! (position - off + i mod off) = input ! (position + i)"
    using i
  proof (induction i rule: less_induct)
    case (less i)
    show ?case
    proof (cases "i < off")
      case False
      then have "position - off + i = position + (i - off)" using assms(2) by simp
      then have "input ! (position + i) = input ! (position + (i - off))" using assms(4)[of i] less.prems by simp
      also have "\<dots> = input ! (position - off + (i - off) mod off)"
        using less.IH[of "i - off"] less.prems False assms(1) by simp
      finally show ?thesis using False by (simp add: mod_if[of i])
    qed (use assms(4)[of i] less.prems in simp)
  qed
  moreover have "position - off + i mod off < position"
    using assms(1,2) mod_less_divisor[OF assms(1), of i] by linarith
  ultimately show "cyclic (take position input) (position - off) off m ! i = take m (drop position input) ! i"
    using i assms(3) by (simp add: cyclic_def)
qed (use assms(3) in \<open>simp add: cyclic_def\<close>)

definition ext_bytes :: "nat \<Rightarrow> bytes" where
  "ext_bytes n = replicate (n div 255) 255 @ [of_nat (n mod 255)]"

lemma ext_bytes_unfold: "ext_bytes n = (if 255 \<le> n then 255 # ext_bytes (n - 255) else [of_nat n])"
proof (cases "255 \<le> n")
  case True
  then have "n div 255 = Suc ((n - 255) div 255)" "n mod 255 = (n - 255) mod 255"
    by (simp_all add: le_div_geq le_mod_geq)
  then show ?thesis using True by (simp add: ext_bytes_def)
qed (simp add: ext_bytes_def)

lemma appendExtendedLength_bytes: "appendExtendedLength out n = out @ ext_bytes n"
proof (induction out n rule: appendExtendedLength.induct)
  case (1 out n)
  then show ?case
    by (subst appendExtendedLength.simps, subst ext_bytes_unfold) simp
qed

lemma drop_Cons_nth:
  "drop p xs = y # ys \<Longrightarrow> p < length xs \<and> xs ! p = y \<and> drop (Suc p) xs = ys"
  by (metis Cons_nth_drop_Suc drop_eq_Nil list.inject list.distinct(1) not_le)

lemma drop_app_split:
  "drop p xs = ys @ zs \<Longrightarrow> drop (p + length ys) xs = zs \<and> take (length ys) (drop p xs) = ys"
  by (metis add.commute append_eq_conv_conj drop_drop)

lemma readExtendedLength_bytes:
  assumes "drop p input = ext_bytes n @ rest" "m + n \<le> u64_max"
  shows "readExtendedLength input p m = Inr (m + n, p + length (ext_bytes n))"
  using assms
proof (induction n arbitrary: p m rule: less_induct)
  case (less n)
  show ?case
  proof (cases "255 \<le> n")
    case True
    then have b: "drop p input = 255 # (ext_bytes (n - 255) @ rest)"
      using less.prems(1) ext_bytes_unfold[of n] by simp
    note d = drop_Cons_nth[OF b]
    have "readExtendedLength input (p + 1) (m + 255) = Inr (m + 255 + (n - 255), p + 1 + length (ext_bytes (n - 255)))"
      using True d less.prems(2) by (intro less.IH) auto
    moreover have "length (ext_bytes n) = Suc (length (ext_bytes (n - 255)))"
      using True ext_bytes_unfold[of n] by simp
    ultimately show ?thesis
      using True d less.prems(2) by (subst readExtendedLength.simps) simp
  next
    case False
    then have b: "drop p input = of_nat n # rest"
      using less.prems(1) ext_bytes_unfold[of n] by simp
    note d = drop_Cons_nth[OF b]
    have u: "unat (of_nat n :: 8 word) = n" using False by (simp add: unat_of_nat)
    show ?thesis
      using False d less.prems(2) u ext_bytes_unfold[of n] by (subst readExtendedLength.simps) simp
  qed
qed

lemma sequence_token_nibbles:
  assumes "l < 16" "m < 16"
  shows "unat (drop_bit 4 (sequence_token l m)) = l" "unat (sequence_token l m AND 15) = m"
proof -
  have "list_all (\<lambda>l. list_all (\<lambda>m. unat (drop_bit 4 (sequence_token l m)) = l
      \<and> unat (sequence_token l m AND 15) = m) [0..<16]) [0..<16]"
    by code_simp
  then show "unat (drop_bit 4 (sequence_token l m)) = l" "unat (sequence_token l m AND 15) = m"
    using assms by (simp_all add: list_all_iff)
qed

lemma offset_bytes:
  assumes "off < 65536"
  shows "unat (of_nat off :: 8 word) OR push_bit 8 (unat (of_nat (off div 256) :: 8 word)) = off"
proof -
  have "unat (of_nat off :: 8 word) = take_bit 8 off"
    "unat (of_nat (off div 256) :: 8 word) = take_bit 8 (drop_bit 8 off)"
    by (simp_all add: unat_of_nat take_bit_eq_mod drop_bit_eq_div)
  moreover have "take_bit 8 off OR push_bit 8 (take_bit 8 (drop_bit 8 off)) = take_bit 16 off"
    by (rule bit_eqI) (auto simp: bit_simps)
  moreover have "take_bit 16 off = off" using assms by (simp add: take_bit_nat_eq_self)
  ultimately show ?thesis by simp
qed

section \<open>The block format\<close>

text \<open>The bytes of a sequence and of the closing literals, and the blocks with their contents.\<close>

definition length_bytes :: "nat \<Rightarrow> bytes" where
  "length_bytes n = (if n \<ge> 15 then ext_bytes (n - 15) else [])"

definition sequence_bytes :: "bytes \<Rightarrow> nat \<Rightarrow> nat \<Rightarrow> bytes" where
  "sequence_bytes lit off m =
     sequence_token (min (length lit) 15) (min (m - 4) 15) # length_bytes (length lit) @ lit
       @ [of_nat off, of_nat (off div 256)] @ length_bytes (m - 4)"

definition final_bytes :: "bytes \<Rightarrow> bytes" where
  "final_bytes lit = sequence_token (min (length lit) 15) 0 # length_bytes (length lit) @ lit"

inductive lz4_sequences :: "bytes \<Rightarrow> bytes \<Rightarrow> bool" where
  start: "lz4_sequences [] []"
| match: "lz4_sequences block data \<Longrightarrow> 4 \<le> m \<Longrightarrow> 0 < off \<Longrightarrow> off < 65536 \<Longrightarrow>
    off \<le> length data + length lit \<Longrightarrow>
    lz4_sequences (block @ sequence_bytes lit off m)
      (data @ lit @ cyclic (data @ lit) (length data + length lit - off) off m)"

inductive_cases lz4_sequences_cases: "lz4_sequences block data"

lemma appendSequence_bytes:
  "literalBegin + literalLength \<le> length input \<Longrightarrow>
   appendSequence out input literalBegin literalLength off m True
     = out @ sequence_bytes (take literalLength (drop literalBegin input)) off m"
  "literalBegin + literalLength \<le> length input \<Longrightarrow>
   appendSequence out input literalBegin literalLength 0 0 False
     = out @ final_bytes (take literalLength (drop literalBegin input))"
  by (simp_all add: appendSequence_def Let_def appendExtendedLength_bytes sequence_bytes_def final_bytes_def
      length_bytes_def)

subsection \<open>Decoding one sequence\<close>

lemma nibble_length:
  assumes "drop p input = length_bytes n @ rest" "k + n \<le> u64_max"
  shows "(if min n 15 = 15 then readExtendedLength input p (min n 15 + k) else Inr (min n 15 + k, p))
    = Inr (n + k, p + length (length_bytes n))"
proof (cases "15 \<le> n")
  case True
  then have "drop p input = ext_bytes (n - 15) @ rest" using assms(1) by (simp add: length_bytes_def)
  from readExtendedLength_bytes[OF this, of "15 + k"] show ?thesis
    using True assms(2) by (simp add: length_bytes_def min_def)
qed (simp add: length_bytes_def min_def)

lemma read_literals_bytes:
  assumes "drop p input = sequence_token (min (length lit) 15) mn # length_bytes (length lit) @ lit @ rest"
    and "mn < 16" "length out + length lit \<le> osize" "length lit \<le> u64_max"
  shows "read_literals input p out osize = Inr (p + 1 + length (length_bytes (length lit)) + length lit, out @ lit)"
proof -
  note d = drop_Cons_nth[OF assms(1)]
  have nib: "unat (drop_bit 4 (input ! p)) = min (length lit) 15"
    using d sequence_token_nibbles(1)[OF _ assms(2), of "min (length lit) 15"] by simp
  have "drop (p + 1) input = length_bytes (length lit) @ lit @ rest" using d by simp
  note nl = nibble_length[OF this, of 0] and e = drop_app_split[OF this]
  have nl': "(if min (length lit) 15 = 15 then readExtendedLength input (p + 1) (min (length lit) 15)
        else Inr (min (length lit) 15, p + 1)) = Inr (length lit, p + 1 + length (length_bytes (length lit)))"
    using nl assms(4) unfolding add_0_right add_0_left by blast
  define p1 where "p1 = p + 1 + length (length_bytes (length lit))"
  have dp: "drop p1 input = lit @ rest" using e(1)[THEN conjunct1] by (simp add: p1_def)
  have "length lit \<le> length (drop p1 input)" unfolding dp by simp
  then have "length lit \<le> length input - p1" by simp
  moreover have "take (length lit) (drop p1 input) = lit" by (simp add: dp)
  ultimately show ?thesis
    unfolding read_literals_def Let_def nib nl' using assms(3) by (simp add: p1_def)
qed

lemma read_match_bytes:
  assumes "drop p input = [of_nat off, of_nat (off div 256)] @ length_bytes (m - 4) @ rest"
    and "4 \<le> m" "0 < off" "off < 65536" "off \<le> length out" "length out + m \<le> osize" "m \<le> u64_max"
  shows "read_match input (min (m - 4) 15) p out osize
    = Inr (p + 2 + length (length_bytes (m - 4)), out @ cyclic out (length out - off) off m)"
proof -
  have b: "drop p input = of_nat off # of_nat (off div 256) # length_bytes (m - 4) @ rest" using assms(1) by simp
  note d1 = drop_Cons_nth[OF b]
  then have "drop (Suc p) input = of_nat (off div 256) # length_bytes (m - 4) @ rest" by simp
  note d2 = drop_Cons_nth[OF this]
  have d3: "drop (p + 2) input = length_bytes (m - 4) @ rest" using d2 by simp
  have off: "unat (input ! p) OR push_bit 8 (unat (input ! (p + 1))) = off"
    using offset_bytes[OF assms(4)] d1 d2 by simp
  have "2 \<le> length (drop p input)" unfolding b by simp
  then have len: "\<not> length input - p < 2" by simp
  have nl: "(if min (m - 4) 15 = 15 then readExtendedLength input (p + 2) (min (m - 4) 15 + 4)
        else Inr (min (m - 4) 15 + 4, p + 2)) = Inr (m, p + 2 + length (length_bytes (m - 4)))"
    using nibble_length[OF d3, of 4] assms(2,7) unfolding le_add_diff_inverse2[OF assms(2)] add.commute[of 4] by blast
  have ap: "appendRepeated out (length out - off) off m = Inr (out @ cyclic out (length out - off) off m)"
    using assms by (intro appendRepeated_cyclic) auto
  show ?thesis
    unfolding read_match_def Let_def off nl using len assms(3,5,6) ap by simp
qed

lemma decode_sequence:
  assumes "drop p input = sequence_bytes lit off m @ rest" "rest \<noteq> []"
    and "4 \<le> m" "0 < off" "off < 65536" "off \<le> length out + length lit"
    and "length out + length lit + m \<le> osize" "osize \<le> u64_max"
  shows "decode_step input p out osize = Inr (p + length (sequence_bytes lit off m),
    out @ lit @ cyclic (out @ lit) (length out + length lit - off) off m)"
proof -
  let ?tail = "[of_nat off, of_nat (off div 256)] @ length_bytes (m - 4) @ rest"
  define p1 where "p1 = p + 1 + length (length_bytes (length lit)) + length lit"
  have b: "drop p input = sequence_token (min (length lit) 15) (min (m - 4) 15)
      # length_bytes (length lit) @ lit @ ?tail"
    using assms(1) by (simp add: sequence_bytes_def)
  have rl: "read_literals input p out osize = Inr (p1, out @ lit)"
    using read_literals_bytes[OF b, of out osize] assms(7,8) by (simp add: p1_def)
  have nib: "unat (input ! p AND 15) = min (m - 4) 15"
    using drop_Cons_nth[OF b] sequence_token_nibbles(2)[of "min (length lit) 15" "min (m - 4) 15"] by simp
  have "drop p input = (sequence_token (min (length lit) 15) (min (m - 4) 15) # length_bytes (length lit) @ lit) @ ?tail"
    using b by simp
  from drop_app_split[OF this] have t: "drop p1 input = ?tail" by (simp add: p1_def ac_simps)
  then have "p1 \<noteq> length input" by auto
  moreover have "read_match input (min (m - 4) 15) p1 (out @ lit) osize
      = Inr (p1 + 2 + length (length_bytes (m - 4)), (out @ lit) @ cyclic (out @ lit) (length (out @ lit) - off) off m)"
    using assms by (intro read_match_bytes[OF t]) auto
  ultimately show ?thesis
    by (simp add: decode_step_def nib rl Let_def sequence_bytes_def p1_def)
qed

lemma decompress_loop_step:
  "position < length input \<Longrightarrow> decode_step input position output osize = Inr (p1, out1) \<Longrightarrow>
   decompress_loop input position output osize = decompress_loop input p1 out1 osize"
  by (subst decompress_loop.simps) simp

lemma decompress_sequences:
  assumes "lz4_sequences block data" "input = block @ rest" "rest \<noteq> []" "length data \<le> osize" "osize \<le> u64_max"
  shows "decompress_loop input 0 [] osize = decompress_loop input (length block) data osize"
  using assms
proof (induction arbitrary: rest rule: lz4_sequences.induct)
  case (match block data m off lit)
  let ?data' = "data @ lit @ cyclic (data @ lit) (length data + length lit - off) off m"
  have len: "length data + length lit + m \<le> osize" using match.prems(3) by (simp add: cyclic_def)
  have d: "drop (length block) input = sequence_bytes lit off m @ rest" using match.prems(1) by simp
  have "decompress_loop input 0 [] osize = decompress_loop input (length block) data osize"
    using match.prems len by (intro match.IH[of "sequence_bytes lit off m @ rest"]) auto
  also have "\<dots> = decompress_loop input (length block + length (sequence_bytes lit off m)) ?data' osize"
    using match.hyps match.prems len by (intro decompress_loop_step decode_sequence[OF d]) auto
  finally show ?case by simp
qed simp

lemma decompress_final:
  assumes "drop p input = final_bytes lit" "length out + length lit = osize" "osize \<le> u64_max"
  shows "decompress_loop input p out osize = Inr (out @ lit)"
proof -
  have b: "drop p input = sequence_token (min (length lit) 15) 0 # length_bytes (length lit) @ lit @ []"
    using assms(1) by (simp add: final_bytes_def)
  have p: "p < length input" using drop_Cons_nth[OF b] by blast
  have rl: "read_literals input p out osize = Inr (p + 1 + length (length_bytes (length lit)) + length lit, out @ lit)"
    using assms(2,3) by (intro read_literals_bytes[OF b]) auto
  have "length (drop p input) = 1 + length (length_bytes (length lit)) + length lit" unfolding b by simp
  then have e: "p + 1 + length (length_bytes (length lit)) + length lit = length input" using p by simp
  have "unat (input ! p AND 15) = 0"
    using drop_Cons_nth[OF b] sequence_token_nibbles(2)[of "min (length lit) 15" 0] by simp
  then have "decode_step input p out osize = Inr (length input, out @ lit)"
    unfolding decode_step_def Let_def rl e by simp
  then have "decompress_loop input p out osize = decompress_loop input (length input) (out @ lit) osize"
    by (rule decompress_loop_step[OF p])
  also have "\<dots> = Inr (out @ lit)" by (subst decompress_loop.simps) simp
  finally show ?thesis .
qed

section \<open>The match search\<close>

lemma readUInt32_bytes:
  "ucast (readUInt32 data i) = data ! i"
  "ucast (drop_bit 8 (readUInt32 data i)) = data ! (i + 1)"
  "ucast (drop_bit 16 (readUInt32 data i)) = data ! (i + 2)"
  "ucast (drop_bit 24 (readUInt32 data i)) = data ! (i + 3)"
  by (rule bit_eqI; auto simp: readUInt32_def bit_simps dest: bit_imp_le_length)+

lemma readUInt32_eq:
  assumes "readUInt32 data i = readUInt32 data j" "k < 4"
  shows "data ! (i + k) = data ! (j + k)"
proof -
  have "k = 0 \<or> k = 1 \<or> k = 2 \<or> k = 3" using assms(2) by linarith
  then show ?thesis
    using readUInt32_bytes[of data i] readUInt32_bytes[of data j] assms(1) by auto
qed

definition same_bytes :: "bytes \<Rightarrow> nat \<Rightarrow> nat \<Rightarrow> nat \<Rightarrow> bool" where
  "same_bytes input i j n \<longleftrightarrow> (\<forall>k < n. input ! (i + k) = input ! (j + k))"

lemma extend_match_same:
  "same_bytes input candidate position n \<Longrightarrow> n \<le> m \<Longrightarrow>
   same_bytes input candidate position (extend_match input position candidate m n)
   \<and> n \<le> extend_match input position candidate m n \<and> extend_match input position candidate m n \<le> m"
proof (induction input position candidate m n rule: extend_match.induct)
  case (1 input position candidate m n)
  show ?case
  proof (cases "n < m \<and> input ! (candidate + n) = input ! (position + n)")
    case True
    then have "same_bytes input candidate position (n + 1)"
      using "1.prems" by (auto simp: same_bytes_def less_Suc_eq)
    with True "1.IH" show ?thesis by (subst (1 2 3) extend_match.simps) fastforce
  next
    case False
    with "1.prems" show ?thesis by (subst (1 2 3) extend_match.simps) auto
  qed
qed

definition good_match :: "bytes \<Rightarrow> nat \<Rightarrow> nat \<times> nat \<Rightarrow> bool" where
  "good_match input position best \<longleftrightarrow> fst best < 4 \<or>
     (0 < snd best \<and> snd best < 65536 \<and> snd best \<le> position \<and> position + fst best + 5 \<le> length input
      \<and> same_bytes input (position - snd best) position (fst best))"

lemma try_candidate_good:
  assumes "good_match input position best" "candidate < position" "position - candidate \<le> 65535"
    "position + 12 \<le> length input"
  shows "good_match input position (try_candidate input position candidate best)"
proof (cases "readUInt32 input candidate = readUInt32 input position")
  case True
  let ?m = "extend_match input position candidate (length input - 5 - position) 4"
  have "same_bytes input candidate position 4" using readUInt32_eq[OF True] by (simp add: same_bytes_def)
  then have "same_bytes input candidate position ?m" "4 \<le> ?m" "?m \<le> length input - 5 - position"
    using extend_match_same[of input candidate position 4 "length input - 5 - position"] assms(4) by auto
  moreover have "position - (position - candidate) = candidate" using assms(2) by simp
  ultimately have "good_match input position (?m, position - candidate)"
    using assms(2,3,4) by (simp add: good_match_def)
  with assms(1) show ?thesis by (simp add: try_candidate_def Let_def)
qed (use assms in \<open>simp add: try_candidate_def\<close>)

lemma match_chain_good:
  "good_match input position best \<Longrightarrow> position + 12 \<le> length input \<Longrightarrow>
   good_match input position (match_chain input position previous best candidate depth)"
  by (induction input position previous best candidate depth rule: match_chain.induct)
    (auto simp: not_le not_less intro!: try_candidate_good)

lemma findMatch_good:
  "position + 12 \<le> length input \<Longrightarrow> good_match input position (findMatch input position candidate previous depth)"
  unfolding findMatch_def by (rule match_chain_good) (simp_all add: good_match_def)

section \<open>The compressor\<close>

lemma length_bytes_length: "length (length_bytes n) = (if n \<ge> 15 then (n - 15) div 255 + 1 else 0)"
  by (simp add: length_bytes_def ext_bytes_def)

lemma length_bytes_bound: "length (length_bytes n) \<le> n div 255 + 1"
  by (simp add: length_bytes_length div_le_mono)

lemma sequence_bytes_length:
  assumes "4 \<le> m"
  shows "length (sequence_bytes lit off m) \<le> length lit + m + length lit div 255"
proof (cases "m < 19")
  case True
  then have "\<not> 15 \<le> m - 4" by linarith
  then have "length_bytes (m - 4) = []" by (simp add: length_bytes_def)
  then show ?thesis using assms length_bytes_bound[of "length lit"] by (simp add: sequence_bytes_def)
next
  case False
  have "(m - 19) div 255 \<le> m - 19" "4 + 15 \<le> m" using False by (simp_all add: div_le_dividend)
  moreover have "length (length_bytes (m - 4)) = (m - 19) div 255 + 1"
    using False by (simp add: length_bytes_def ext_bytes_def)
  ultimately show ?thesis using length_bytes_bound[of "length lit"]
    unfolding sequence_bytes_def by simp
qed

definition comp_inv :: "bytes \<Rightarrow> compressor \<Rightarrow> bool" where
  "comp_inv input c \<longleftrightarrow> lz_anchor c \<le> lz_position c \<and> lz_position c \<le> length input
     \<and> lz4_sequences (lz_output c) (take (lz_anchor c) input)
     \<and> length (lz_output c) \<le> lz_anchor c + lz_anchor c div 255"

lemma comp_inv_match:
  assumes "comp_inv input c" "good_match input (lz_position c) (m, off)" "4 \<le> m"
    and "lz_anchor c' = lz_position c + m" "lz_position c' = lz_position c + m"
    and "lz_output c' = appendSequence (lz_output c) input (lz_anchor c) (lz_position c - lz_anchor c) off m True"
  shows "comp_inv input c'"
proof -
  let ?a = "lz_anchor c" and ?p = "lz_position c"
  have a: "?a \<le> ?p" "?p \<le> length input" "lz4_sequences (lz_output c) (take ?a input)"
    "length (lz_output c) \<le> ?a + ?a div 255" using assms(1) by (simp_all add: comp_inv_def)
  have g: "0 < off" "off < 65536" "off \<le> ?p" "?p + m + 5 \<le> length input"
    "\<And>i. i < m \<Longrightarrow> input ! (?p - off + i) = input ! (?p + i)"
    using assms(2,3) by (auto simp: good_match_def same_bytes_def)
  define lit where "lit = take (?p - ?a) (drop ?a input)"
  have lit: "length lit = ?p - ?a" "take ?a input @ lit = take ?p input"
    using a by (simp_all add: lit_def flip: take_add)
  have out: "lz_output c' = lz_output c @ sequence_bytes lit off m"
    using a assms(6) by (simp add: appendSequence_bytes lit_def)
  have "lz4_sequences (lz_output c @ sequence_bytes lit off m)
      (take ?a input @ lit @ cyclic (take ?a input @ lit) (length (take ?a input) + length lit - off) off m)"
    using a g lit(1) assms(3) by (intro lz4_sequences.match) auto
  moreover have "take ?a input @ lit @ cyclic (take ?a input @ lit) (length (take ?a input) + length lit - off) off m
      = take (?p + m) input"
  proof -
    have "cyclic (take ?p input) (?p - off) off m = take m (drop ?p input)"
      using g by (intro cyclic_of_match) auto
    moreover have "length (take ?a input) + length lit - off = ?p - off" using a lit(1) by simp
    ultimately show ?thesis by (simp add: lit(2) take_add flip: append_assoc)
  qed
  moreover have "length (lz_output c') \<le> (?p + m) + (?p + m) div 255"
  proof -
    have "length (sequence_bytes lit off m) \<le> (?p - ?a) + m + (?p - ?a) div 255"
      using sequence_bytes_length[OF assms(3), of lit off] lit(1) by simp
    moreover have "?a div 255 + (?p - ?a) div 255 \<le> (?p + m) div 255"
    proof -
      have "?a div 255 * 255 \<le> ?a" "(?p - ?a) div 255 * 255 \<le> ?p - ?a" by simp_all
      then have "(?a div 255 + (?p - ?a) div 255) * 255 \<le> ?p + m" using a(1) by (simp add: add_mult_distrib)
      then show ?thesis by (metis div_le_mono nonzero_mult_div_cancel_right zero_neq_numeral)
    qed
    ultimately show ?thesis using a(1,4) out by simp
  qed
  ultimately show ?thesis using out assms(4,5) g by (simp add: comp_inv_def)
qed

lemma compress_step_inv:
  assumes "comp_inv input c" "lz_position c + 12 \<le> length input"
  shows "comp_inv input (compress_step level input c)"
proof -
  let ?p = "lz_position c"
  let ?h = "hashSequence (readUInt32 input ?p)"
  let ?prev = "(lz_previous c)[previous_index (lz_previous c) ?p := lz_table c ! ?h]"
  let ?c1 = "c\<lparr>lz_previous := ?prev, lz_table := (lz_table c)[?h := ?p]\<rparr>"
  obtain m off where fm: "findMatch input ?p (lz_table c ! ?h) ?prev (searchDepth level) = (m, off)" by fastforce
  have g: "good_match input ?p (m, off)" using findMatch_good[OF assms(2)] fm by metis
  have skip: "comp_inv input (?c1\<lparr>lz_position := ?p + 1\<rparr>)" using assms by (simp add: comp_inv_def)
  show ?thesis
  proof (cases "m < 4 \<or> betterNext level input ?c1 m")
    case True
    then have "compress_step level input c = ?c1\<lparr>lz_position := ?p + 1\<rparr>"
      by (auto simp: compress_step_def Let_def fm)
    then show ?thesis using skip by simp
  next
    case False
    then have st: "lz_anchor (compress_step level input c) = ?p + m" "lz_position (compress_step level input c) = ?p + m"
      "lz_output (compress_step level input c)
        = appendSequence (lz_output c) input (lz_anchor c) (?p - lz_anchor c) off m True"
      by (simp_all add: compress_step_def Let_def fm)
    have "4 \<le> m" using False by simp
    from comp_inv_match[OF assms(1) g this st] show ?thesis .
  qed
qed

lemma compress_loop_inv:
  "comp_inv input c \<Longrightarrow> comp_inv input (compress_loop level input c)"
proof (induction level input c rule: compress_loop.induct)
  case (1 level input c)
  show ?case
  proof (cases "lz_position c + 12 \<le> length input")
    case True
    then have "compress_loop level input c = compress_loop level input (compress_step level input c)"
      by (subst compress_loop.simps) simp
    with True "1.IH" compress_step_inv[OF "1.prems" True] show ?thesis by simp
  qed (use "1.prems" in \<open>subst compress_loop.simps, simp\<close>)
qed

lemma compressed_bytes_format:
  obtains block n where "compressed_bytes level input = block @ final_bytes (drop n input)"
    "lz4_sequences block (take n input)" "n \<le> length input" "length block \<le> n + n div 255"
proof
  let ?c = "compress_loop level input (compress_start input)"
  have "lz_anchor (compress_start input) = 0" "lz_position (compress_start input) = 0" "lz_output (compress_start input) = []"
    unfolding compress_start_def compressor.simps by (rule refl)+
  then have "comp_inv input (compress_start input)" by (simp add: comp_inv_def lz4_sequences.start)
  from compress_loop_inv[OF this, of level] show
    "lz4_sequences (lz_output ?c) (take (lz_anchor ?c) input)" "lz_anchor ?c \<le> length input"
    "length (lz_output ?c) \<le> lz_anchor ?c + lz_anchor ?c div 255"
    by (simp_all add: comp_inv_def)
  then show "compressed_bytes level input = lz_output ?c @ final_bytes (drop (lz_anchor ?c) input)"
    by (simp add: compressed_bytes_def Let_def appendSequence_bytes)
qed

lemma compressed_bytes_decode:
  assumes "length input \<le> u64_max"
  shows "decompressBlock (Some (length input)) (compressed_bytes level input) = Inr input"
proof -
  obtain block n where b: "compressed_bytes level input = block @ final_bytes (drop n input)"
    "lz4_sequences block (take n input)" "n \<le> length input"
    by (rule compressed_bytes_format)
  have "decompress_loop (compressed_bytes level input) 0 [] (length input)
      = decompress_loop (compressed_bytes level input) (length block) (take n input) (length input)"
    using b assms by (intro decompress_sequences[OF b(2) b(1)]) (auto simp: final_bytes_def)
  also have "\<dots> = Inr (take n input @ drop n input)"
    using b assms by (intro decompress_final) auto
  finally show ?thesis using b(1) by (simp add: decompressBlock_def final_bytes_def)
qed

lemma compressed_bytes_length:
  assumes "maximumPayloadLength (length input) = Inr n"
  shows "length (compressed_bytes level input) \<le> n"
proof -
  obtain block k where b: "compressed_bytes level input = block @ final_bytes (drop k input)"
    "k \<le> length input" "length block \<le> k + k div 255"
    by (rule compressed_bytes_format)
  have "k div 255 * 255 \<le> k" "(length input - k) div 255 * 255 \<le> length input - k" by simp_all
  then have "(k div 255 + (length input - k) div 255) * 255 \<le> length input"
    using b(2) by (simp add: add_mult_distrib)
  then have d: "k div 255 + (length input - k) div 255 \<le> length input div 255"
    by (metis div_le_mono nonzero_mult_div_cancel_right zero_neq_numeral)
  have "length (final_bytes (drop k input)) \<le> (length input - k) + (length input - k) div 255 + 2"
    using length_bytes_bound[of "length input - k"] by (simp add: final_bytes_def)
  then have "length (block @ final_bytes (drop k input)) \<le> length input + (length input div 255 + 16)"
    unfolding length_append using b(2,3) d by linarith
  then show ?thesis using assms b(1) by (simp add: maximumPayloadLength_def split: if_splits)
qed

text \<open>C1: For every compression level and every input whose worst-case compressed length is
  countable, compression succeeds, the block is no longer than that worst-case length, and
  decompressing it with the original length gives the input back.\<close>

theorem lz4_roundtrip:
  assumes "maximumPayloadLength (length input) = Inr n"
  shows "\<exists>block. compressBlock level input = Inr block \<and> length block \<le> n
    \<and> decompressBlock (Some (length input)) block = Inr input"
proof -
  have "length input \<le> u64_max" using assms by (simp add: maximumPayloadLength_def split: if_splits)
  from compressed_bytes_decode[OF this] compressed_bytes_length[OF assms] assms show ?thesis
    by (simp add: compressBlock_def)
qed

lemma lz4_roundtrip_witness:
  "\<exists>block. compressBlock Default (replicate 300 7) = Inr block \<and> length block \<le> 317
    \<and> decompressBlock (Some 300) block = Inr (replicate 300 7)"
  using lz4_roundtrip[of "replicate 300 7" 317 Default] by (simp add: maximumPayloadLength_def)

lemma read_literals_size:
  "read_literals input p out n = Inr (p1, out1) \<Longrightarrow> length out \<le> n \<Longrightarrow> length out1 \<le> n"
  by (auto simp: read_literals_def Let_def sbind_Inr_iff split: if_splits)

lemma appendRepeated_size:
  "appendRepeated out source k m = Inr out1 \<Longrightarrow> length out1 = length out + m"
  by (cases "m = 0"; cases "k = 0"; cases "source + k \<le> length out")
    (auto simp: appendRepeated_cyclic cyclic_def, auto simp: appendRepeated_def)

lemma decode_step_size:
  assumes "decode_step input p out n = Inr (p1, out1)" "length out \<le> n"
  shows "length out1 \<le> n"
proof -
  obtain p2 out2 where r: "read_literals input p out n = Inr (p2, out2)"
    "(p2 = length input \<and> out1 = out2) \<or> read_match input (unat (input ! p AND 15)) p2 out2 n = Inr (p1, out1)"
    using assms(1) by (auto simp: decode_step_def Let_def sbind_Inr_iff split: if_splits)
  have "length out2 \<le> n" using read_literals_size[OF r(1) assms(2)] .
  with r(2) show ?thesis
    by (auto simp: read_match_def Let_def sbind_Inr_iff dest!: appendRepeated_size split: if_splits)
qed

lemma decompress_loop_size:
  "decompress_loop input p out n = Inr out1 \<Longrightarrow> length out \<le> n \<Longrightarrow> length out1 \<le> n"
proof (induction input p out n rule: decompress_loop.induct)
  case (1 input p out n)
  show ?case
  proof (cases "p < length input")
    case True
    then obtain p2 out2 where s: "decode_step input p out n = Inr (p2, out2)"
      "decompress_loop input p2 out2 n = Inr out1"
      using "1.prems"(1) by (subst (asm) decompress_loop.simps) (auto simp: sbind_Inr_iff)
    then show ?thesis using "1.IH"[OF True s(1) refl s(2)] decode_step_size[OF s(1) "1.prems"(2)] by simp
  next
    case False
    then show ?thesis using "1.prems" by (subst (asm) decompress_loop.simps) simp
  qed
qed

text \<open>C8: The decoder never writes past the expected length, on any input; it succeeds only with
  exactly that many bytes, and without a finite expected length or with an empty block it fails.\<close>

theorem lz4_decoder_bounded:
  "(\<forall>out. decompressBlock expected input = Inr out \<longrightarrow> expected = Some (length out) \<and> input \<noteq> [])
   \<and> (\<forall>p n out out1. length out \<le> n \<longrightarrow> decode_step input p out n = Inr out1 \<longrightarrow> length (snd out1) \<le> n)"
  by (auto simp: decompressBlock_def sbind_Inr_iff decode_step_size split: option.splits if_splits)

lemma lz4_decoder_bounded_witness:
  "decompressBlock (Some 3) [0x30, 1, 2, 3] = Inr [1, 2, 3] \<and> decompressBlock None [0x30, 1, 2, 3] \<noteq> Inr [1, 2, 3]"
proof -
  have "decompressBlock (Some 3) [0x30, 1, 2, 3] = Inr [1, 2, 3]" by code_simp
  moreover have "decompressBlock None [0x30, 1, 2, 3] \<noteq> Inr [1, 2, 3]"
    using lz4_decoder_bounded[of None "[0x30, 1, 2, 3]"] by fastforce
  ultimately show ?thesis ..
qed

end
