(* ===== verification/EventTimers.thy ===== *)
theory EventTimers
  imports Prelude
begin

text \<open>
  The timers of the event system, \<open>event/impl/EventTimer\<close>, and the scheduler state and its
  operations, \<open>event/impl/SchedulerBackend\<close>. Each operation here is one critical section of the
  source; EventLoop composes them into the steps of a thread.
  Time points and deltas are the signed 64-bit nanosecond counts of \<open>TimePoint\<close> and \<open>TimeDelta\<close>;
  the plain addition of \<open>TimePoint\<close> is written with its wrap-around. Callbacks are values of a type
  parameter. A timer is named by a number; the map of the living timers models the shared
  pointers, and the scheduler keeps the names (its weak pointers).
\<close>

section \<open>Time points\<close>

definition tp_add :: "int \<Rightarrow> int \<Rightarrow> int" where
  "tp_add t d = s64 (t + d)"

definition tp_deltaTo :: "int \<Rightarrow> int \<Rightarrow> int" where
  "tp_deltaTo t u = s64 (u - t)"

section \<open>Timers\<close>

datatype timer_mode = Inactive | Once | FixedDelay | FixedRate

datatype timer_error = IntervalNotPositive

record 'c timer =
  tm_callback :: 'c
  tm_mode :: timer_mode
  tm_interval :: int
  tm_next :: int
  tm_lastDue :: int
  tm_generation :: nat
  tm_active :: bool
  tm_pending :: bool

record 'c execution =
  ex_callback :: 'c
  ex_mode :: timer_mode
  ex_dueTime :: int
  ex_generation :: nat

definition tm_create :: "'c \<Rightarrow> 'c timer" where
  "tm_create callback =
     \<lparr>tm_callback = callback, tm_mode = Inactive, tm_interval = 0, tm_next = 0, tm_lastDue = 0,
      tm_generation = 0, tm_active = False, tm_pending = False\<rparr>"

definition tm_start :: "timer_mode \<Rightarrow> int \<Rightarrow> int \<Rightarrow> 'c timer \<Rightarrow> 'c timer" where
  "tm_start mode interval now t =
     t\<lparr>tm_mode := mode, tm_interval := interval,
       tm_next := (if interval > 0 then tp_add now interval else now),
       tm_active := True, tm_pending := False, tm_generation := u64 (tm_generation t + 1)\<rparr>"

definition tm_startOnce :: "int \<Rightarrow> int \<Rightarrow> 'c timer \<Rightarrow> timer_error + 'c timer" where
  "tm_startOnce delay now t = Inr (tm_start Once delay now t)"

definition tm_startFixedDelay :: "int \<Rightarrow> int \<Rightarrow> 'c timer \<Rightarrow> timer_error + 'c timer" where
  "tm_startFixedDelay interval now t =
     (if \<not> interval > 0 then Inl IntervalNotPositive else Inr (tm_start FixedDelay interval now t))"

definition tm_startFixedRate :: "int \<Rightarrow> int \<Rightarrow> 'c timer \<Rightarrow> timer_error + 'c timer" where
  "tm_startFixedRate interval now t =
     (if \<not> interval > 0 then Inl IntervalNotPositive else Inr (tm_start FixedRate interval now t))"

definition tm_stop :: "'c timer \<Rightarrow> 'c timer" where
  "tm_stop t = t\<lparr>tm_active := False, tm_pending := False, tm_mode := Inactive,
                 tm_generation := u64 (tm_generation t + 1)\<rparr>"

definition tm_isActive :: "'c timer \<Rightarrow> bool" where
  "tm_isActive t \<longleftrightarrow> tm_active t \<or> tm_pending t"

definition tm_nextWake :: "'c timer \<Rightarrow> int option" where
  "tm_nextWake t = (if \<not> tm_active t then None else Some (tm_next t))"

definition tm_prepare :: "int \<Rightarrow> 'c timer \<Rightarrow> ('c execution \<times> 'c timer) option" where
  "tm_prepare now t =
     (if \<not> tm_active t \<or> tm_next t > now then None
      else Some (\<lparr>ex_callback = tm_callback t, ex_mode = tm_mode t, ex_dueTime = tm_next t,
                  ex_generation = tm_generation t\<rparr>,
                 t\<lparr>tm_active := False, tm_pending := True, tm_lastDue := tm_next t\<rparr>))"

definition tm_isCallbackPending :: "'c execution \<Rightarrow> 'c timer \<Rightarrow> bool" where
  "tm_isCallbackPending ex t \<longleftrightarrow>
     tm_pending t \<and> tm_generation t = ex_generation ex \<and> tm_mode t = ex_mode ex"

text \<open>The skipping of missed ticks: \<open>None\<close> would be a loop that does not end.\<close>

partial_function (option) rate_loop :: "int \<Rightarrow> int \<Rightarrow> int \<Rightarrow> int option" where
  "rate_loop interval now t = (if t \<le> now then rate_loop interval now (tp_add t interval) else Some t)"

declare rate_loop.simps [code]

text \<open>The timer after a callback, and whether it schedules itself again.\<close>

definition tm_finish :: "'c execution \<Rightarrow> int \<Rightarrow> 'c timer \<Rightarrow> ('c timer \<times> bool) option" where
  "tm_finish ex now t =
     (if \<not> tm_isCallbackPending ex t then Some (t\<lparr>tm_pending := False\<rparr>, False)
      else (let t1 = t\<lparr>tm_pending := False\<rparr>
            in case tm_mode t of
                 Inactive \<Rightarrow> Some (t1\<lparr>tm_mode := Inactive\<rparr>, False)
               | Once \<Rightarrow> Some (t1\<lparr>tm_mode := Inactive\<rparr>, False)
               | FixedDelay \<Rightarrow> Some (t1\<lparr>tm_next := tp_add now (tm_interval t), tm_active := True\<rparr>, True)
               | FixedRate \<Rightarrow>
                   (case rate_loop (tm_interval t) now (tp_add (ex_dueTime ex) (tm_interval t)) of
                      None \<Rightarrow> None
                    | Some next \<Rightarrow> Some (t1\<lparr>tm_next := next, tm_active := True\<rparr>, True))))"

section \<open>Scheduler state\<close>

type_synonym 'c timers = "nat \<Rightarrow> 'c timer option"

record 'c scheduler =
  sc_target :: bool
  sc_delayed :: "(int \<times> 'c) list"
  sc_timers :: "nat list"

definition sc_create :: "'c scheduler" where
  "sc_create = \<lparr>sc_target = False, sc_delayed = [], sc_timers = []\<rparr>"

definition sc_attach :: "'c scheduler \<Rightarrow> 'c scheduler" where
  "sc_attach s = s\<lparr>sc_target := True\<rparr>"

definition wants_wake :: "'c timers \<Rightarrow> nat \<Rightarrow> bool" where
  "wants_wake timers i \<longleftrightarrow> (case timers i of None \<Rightarrow> False | Some t \<Rightarrow> tm_nextWake t \<noteq> None)"

definition sc_schedule :: "'c timers \<Rightarrow> nat \<Rightarrow> 'c scheduler \<Rightarrow> 'c scheduler" where
  "sc_schedule timers i s =
     s\<lparr>sc_timers := filter (\<lambda>j. j \<noteq> i \<and> wants_wake timers j) (sc_timers s)
                    @ (if wants_wake timers i then [i] else [])\<rparr>"

text \<open>The scan of the timers: the due executions, the timers that stay, and the new timer states.\<close>

fun scan_timers :: "int \<Rightarrow> nat list \<Rightarrow> 'c timers \<Rightarrow> (nat \<times> 'c execution) list \<times> nat list \<times> 'c timers" where
  "scan_timers now [] timers = ([], [], timers)"
| "scan_timers now (i # is) timers =
     (case timers i of
        None \<Rightarrow> scan_timers now is timers
      | Some t \<Rightarrow>
          (case tm_prepare now t of
             Some (ex, t') \<Rightarrow>
               (case scan_timers now is (timers(i \<mapsto> t')) of (due, rest, timers') \<Rightarrow> ((i, ex) # due, rest, timers'))
           | None \<Rightarrow>
               (case scan_timers now is timers of
                  (due, rest, timers') \<Rightarrow> (due, if tm_nextWake t \<noteq> None then i # rest else rest, timers'))))"

definition min_wake :: "int option \<Rightarrow> int option \<Rightarrow> int option" where
  "min_wake result next =
     (case next of None \<Rightarrow> result
      | Some n \<Rightarrow> (case result of None \<Rightarrow> Some n | Some r \<Rightarrow> if n < r then Some n else Some r))"

definition sc_nextWakeTime :: "'c timers \<Rightarrow> 'c scheduler \<Rightarrow> int option" where
  "sc_nextWakeTime timers s =
     foldl (\<lambda>result i. min_wake result (case timers i of None \<Rightarrow> None | Some t \<Rightarrow> tm_nextWake t))
       (foldl (\<lambda>result (due, callback). min_wake result (Some due)) None (sc_delayed s)) (sc_timers s)"

section \<open>The cadence of repeating timers\<close>

text \<open>As long as the clock stays one interval below its maximum the loop ends, at the first tick
  after \<open>now\<close> on the grid of the due time.\<close>

lemma rate_loop_ends:
  assumes "0 < interval" "now + interval < 9223372036854775808" "- 9223372036854775808 \<le> t" "t \<le> now + interval"
  shows "\<exists>k u. rate_loop interval now t = Some u \<and> u = t + int k * interval \<and> now < u \<and> u \<le> now + interval"
  using assms(3,4)
proof (induction "nat (now - t + 1)" arbitrary: t rule: less_induct)
  case less
  show ?case
  proof (cases "t \<le> now")
    case True
    then have add: "tp_add t interval = t + interval" using assms less.prems by (simp add: tp_add_def)
    have "\<exists>k u. rate_loop interval now (t + interval) = Some u \<and> u = t + interval + int k * interval
        \<and> now < u \<and> u \<le> now + interval"
      using True assms less.prems by (intro less.hyps) auto
    then obtain k u where "rate_loop interval now (t + interval) = Some u" "u = t + interval + int k * interval"
      "now < u" "u \<le> now + interval" by blast
    then have "rate_loop interval now t = Some u \<and> u = t + int (Suc k) * interval \<and> now < u \<and> u \<le> now + interval"
      using True add by (subst rate_loop.simps) (simp add: algebra_simps)
    then show ?thesis by blast
  next
    case False
    then have "rate_loop interval now t = Some t" by (subst rate_loop.simps) simp
    then show ?thesis using False less.prems by (intro exI[of _ "0 :: nat"] exI[of _ t]) auto
  qed
qed

text \<open>C26: A fixed-rate timer whose callback finishes at any time not before its due time is
  scheduled for the first multiple of its interval after that time, counted from the due time:
  ticks missed by a slow callback are skipped and the cadence does not drift. The loop that
  skips them always ends when the clock is an interval away from its maximum.\<close>

theorem fixed_rate_cadence:
  assumes "tm_isCallbackPending ex t" "tm_mode t = FixedRate" "0 < tm_interval t"
    and "- 9223372036854775808 \<le> ex_dueTime ex" "ex_dueTime ex \<le> now"
    and "now + tm_interval t < 9223372036854775808"
  shows "\<exists>t' k. tm_finish ex now t = Some (t', True) \<and> tm_active t' \<and> \<not> tm_pending t'
    \<and> tm_next t' = ex_dueTime ex + int k * tm_interval t \<and> 0 < k
    \<and> now < tm_next t' \<and> tm_next t' - tm_interval t \<le> now"
proof -
  let ?i = "tm_interval t" and ?d = "ex_dueTime ex"
  have a: "tp_add ?d ?i = ?d + ?i" using assms by (simp add: tp_add_def)
  obtain k u where u: "rate_loop ?i now (?d + ?i) = Some u" "u = ?d + ?i + int k * ?i" "now < u" "u \<le> now + ?i"
    using rate_loop_ends[of ?i now "?d + ?i"] assms by auto
  have "tm_finish ex now t = Some (t\<lparr>tm_pending := False, tm_next := u, tm_active := True\<rparr>, True)"
    using assms(1,2) by (simp add: tm_finish_def a u(1))
  moreover have "u = ?d + int (Suc k) * ?i" using u(2) by (simp add: algebra_simps)
  ultimately show ?thesis using u(3,4) by (intro exI[of _ "t\<lparr>tm_pending := False, tm_next := u, tm_active := True\<rparr>"] exI[of _ "Suc k"]) auto
qed

lemma fixed_rate_cadence_witness:
  "\<exists>t' k. tm_finish \<lparr>ex_callback = (), ex_mode = FixedRate, ex_dueTime = 100, ex_generation = 1\<rparr> 345
      \<lparr>tm_callback = (), tm_mode = FixedRate, tm_interval = 100, tm_next = 100, tm_lastDue = 100,
       tm_generation = 1, tm_active = False, tm_pending = True\<rparr> = Some (t', True)
    \<and> tm_next t' = 100 + int k * 100 \<and> 345 < tm_next t' \<and> tm_next t' - 100 \<le> 345"
proof -
  let ?ex = "\<lparr>ex_callback = (), ex_mode = FixedRate, ex_dueTime = 100, ex_generation = 1\<rparr>"
  let ?t = "\<lparr>tm_callback = (), tm_mode = FixedRate, tm_interval = 100, tm_next = 100, tm_lastDue = 100,
       tm_generation = 1, tm_active = False, tm_pending = True\<rparr>"
  have "tm_isCallbackPending ?ex ?t" by (simp add: tm_isCallbackPending_def)
  from fixed_rate_cadence[OF this, of 345] show ?thesis by auto
qed

text \<open>The time of a timer is a plain sum of the clock and the interval, so a delay close to the
  maximum wraps around: a timer started with the largest delay is due at once.\<close>

lemma timer_delay_overflow:
  assumes "0 < now" "now < 9223372036854775808"
  shows "\<exists>t'. tm_startOnce 9223372036854775807 now t = Inr t' \<and> tm_next t' < 0 \<and> tm_prepare now t' \<noteq> None"
proof -
  have "(now - 1 + 18446744073709551616) mod 18446744073709551616 = now - 1"
    unfolding mod_add_self2 using assms by simp
  then have "tp_add now 9223372036854775807 = now - 9223372036854775809"
    by (simp add: tp_add_def s64_def)
  then show ?thesis using assms by (simp add: tm_startOnce_def tm_start_def tm_prepare_def)
qed

lemma timer_delay_overflow_witness:
  "\<exists>t'. tm_startOnce 9223372036854775807 1000 (tm_create ()) = Inr t' \<and> tm_next t' < 0 \<and> tm_prepare 1000 t' \<noteq> None"
  using timer_delay_overflow[of 1000 "tm_create ()"] by simp

end
