(* ===== verification/EventLoop.thy ===== *)
theory EventLoop
  imports EventTimers
begin

text \<open>
  The event loop \<open>event/impl/EventLoop\<close> with its scheduler backend: posting, quitting and stopping,
  the scheduler's poll and event handler, the error handler, the registration of backends, and
  the decisions of the waiting loop \<open>runOnceImpl\<close>. User callbacks, the error handler and other
  backends are not part of the program: a callback is any sequence of calls of the event
  interface followed by a normal return or an exception.
\<close>

section \<open>State\<close>

datatype 'c event =
    QuitEvent
  | InvocationEvent "'c option"
  | TimerEvent "(nat \<times> 'c execution) option"
  | OtherEvent nat

datatype 'e handler_result = HandlerContinue | HandlerStop | HandlerThrows 'e

record ('c, 'e) event_loop =
  lp_queue :: "'c event list"
  lp_errors :: "'e list"
  lp_handler :: "('e \<Rightarrow> 'e handler_result) option"
  lp_backends :: "nat list"
  lp_attached :: bool
  lp_running :: bool
  lp_stopRequested :: bool
  lp_quitRequested :: bool
  lp_quitEventQueued :: bool

record ('c, 'e) world =
  wd_timers :: "'c timers"
  wd_sched :: "'c scheduler"
  wd_loop :: "('c, 'e) event_loop"

datatype loop_error = ParameterError | LogicError

definition noBackendId :: nat where "noBackendId = 0"
definition schedulerId :: nat where "schedulerId = 1"
definition networkId :: nat where "networkId = 2"

definition lp_create :: "('c, 'e) event_loop" where
  "lp_create = \<lparr>lp_queue = [], lp_errors = [], lp_handler = None, lp_backends = [], lp_attached = False,
     lp_running = False, lp_stopRequested = False, lp_quitRequested = False, lp_quitEventQueued = False\<rparr>"

definition wd_create :: "('c, 'e) world" where
  "wd_create = \<lparr>wd_timers = Map.empty, wd_sched = sc_create, wd_loop = lp_create\<rparr>"

section \<open>Backends\<close>

text \<open>Attaching reaches the scheduler backend when it is registered.\<close>

definition ensureBackendsAttached :: "('c, 'e) world \<Rightarrow> ('c, 'e) world" where
  "ensureBackendsAttached w =
     (if lp_attached (wd_loop w) then w
      else w\<lparr>wd_sched := (if schedulerId \<in> set (lp_backends (wd_loop w)) then sc_attach (wd_sched w) else wd_sched w),
             wd_loop := (wd_loop w)\<lparr>lp_attached := True\<rparr>\<rparr>)"

definition registerBackendInternal :: "nat \<Rightarrow> ('c, 'e) world \<Rightarrow> ('c, 'e) world" where
  "registerBackendInternal b w =
     w\<lparr>wd_sched := (if lp_attached (wd_loop w) \<and> b = schedulerId then sc_attach (wd_sched w) else wd_sched w),
       wd_loop := (wd_loop w)\<lparr>lp_backends := lp_backends (wd_loop w) @ [b]\<rparr>\<rparr>"

definition registerBackend :: "nat \<Rightarrow> ('c, 'e) world \<Rightarrow> loop_error + ('c, 'e) world" where
  "registerBackend b w =
     (if b = noBackendId then Inl ParameterError
      else (let w1 = ensureBackendsAttached w
            in if lp_running (wd_loop w1) then Inl LogicError
               else if b \<in> set (lp_backends (wd_loop w1)) then Inl ParameterError
               else Inr (registerBackendInternal b w1)))"

definition getBackend :: "nat \<Rightarrow> ('c, 'e) world \<Rightarrow> loop_error + nat \<times> ('c, 'e) world" where
  "getBackend b w =
     (if b = noBackendId then Inl ParameterError
      else (let w1 = ensureBackendsAttached w
            in if b \<in> set (lp_backends (wd_loop w1)) then Inr (b, w1)
               else if b = schedulerId \<or> b = networkId then Inr (b, registerBackendInternal b w1)
               else Inl ParameterError))"

section \<open>Posting, quitting and stopping\<close>

definition postInternal :: "'c event \<Rightarrow> bool \<Rightarrow> ('c, 'e) world \<Rightarrow> ('c, 'e) world" where
  "postInternal e allowAfterQuit w =
     (let w1 = ensureBackendsAttached w; l = wd_loop w1
      in if lp_quitRequested l \<and> \<not> allowAfterQuit then w1
         else w1\<lparr>wd_loop := l\<lparr>lp_queue := lp_queue l @ [e]\<rparr>\<rparr>)"

definition post :: "'c event \<Rightarrow> ('c, 'e) world \<Rightarrow> ('c, 'e) world" where
  "post e w = postInternal e False w"

definition invoke :: "'c \<Rightarrow> ('c, 'e) world \<Rightarrow> ('c, 'e) world" where
  "invoke callback w = post (InvocationEvent (Some callback)) w"

definition lp_stop :: "('c, 'e) world \<Rightarrow> ('c, 'e) world" where
  "lp_stop w = w\<lparr>wd_loop := (wd_loop w)\<lparr>lp_stopRequested := True\<rparr>\<rparr>"

definition lp_quit :: "('c, 'e) world \<Rightarrow> ('c, 'e) world" where
  "lp_quit w =
     (if \<not> lp_quitEventQueued (wd_loop w)
      then postInternal QuitEvent True
             (w\<lparr>wd_loop := (wd_loop w)\<lparr>lp_quitRequested := True, lp_quitEventQueued := True\<rparr>\<rparr>)
      else w)"

definition takeError :: "('c, 'e) world \<Rightarrow> 'e option \<times> ('c, 'e) world" where
  "takeError w =
     (case lp_errors (wd_loop w) of
        [] \<Rightarrow> (None, w)
      | e # es \<Rightarrow> (Some e, w\<lparr>wd_loop := (wd_loop w)\<lparr>lp_errors := es\<rparr>\<rparr>))"

definition setErrorHandler :: "('e \<Rightarrow> 'e handler_result) option \<Rightarrow> ('c, 'e) world \<Rightarrow> ('c, 'e) world" where
  "setErrorHandler h w = w\<lparr>wd_loop := (wd_loop w)\<lparr>lp_handler := h\<rparr>\<rparr>"

section \<open>The scheduler\<close>

text \<open>The posts of the poll go through \<open>postFromBackend\<close>; nothing is posted without a target. The code
  collects the due work under the scheduler's lock and posts it after releasing it; here both are
  one step, so calls of other threads between them are not modelled.\<close>

definition sc_poll :: "int \<Rightarrow> ('c, 'e) world \<Rightarrow> ('c, 'e) world" where
  "sc_poll now w =
     (let s = wd_sched w;
          dueInvocations = filter (\<lambda>(due, callback). due \<le> now) (sc_delayed s);
          delayed = filter (\<lambda>(due, callback). \<not> due \<le> now) (sc_delayed s)
      in case scan_timers now (sc_timers s) (wd_timers w) of
        (dueTimers, nextTimers, timers) \<Rightarrow>
          (let w1 = w\<lparr>wd_timers := timers, wd_sched := s\<lparr>sc_delayed := delayed, sc_timers := nextTimers\<rparr>\<rparr>
           in if \<not> sc_target s then w1
              else foldl (\<lambda>w' i. post (TimerEvent (Some i)) w')
                     (foldl (\<lambda>w' (due, callback). invoke callback w') w1 dueInvocations) dueTimers))"

definition sc_invokeAfter :: "int \<Rightarrow> int \<Rightarrow> 'c \<Rightarrow> ('c, 'e) world \<Rightarrow> ('c, 'e) world" where
  "sc_invokeAfter now delay callback w =
     (if \<not> delay > 0
      then (if sc_target (wd_sched w) then invoke callback w else w)
      else w\<lparr>wd_sched := (wd_sched w)\<lparr>sc_delayed := sc_delayed (wd_sched w) @ [(tp_add now delay, callback)]\<rparr>\<rparr>)"

definition lp_invokeAfter :: "int \<Rightarrow> int \<Rightarrow> 'c \<Rightarrow> ('c, 'e) world \<Rightarrow> loop_error + ('c, 'e) world" where
  "lp_invokeAfter now delay callback w =
     (if \<not> delay > 0 then Inr (invoke callback w)
      else sbind (getBackend schedulerId w) (\<lambda>(b, w1). Inr (sc_invokeAfter now delay callback w1)))"

definition scheduleTimer :: "nat \<Rightarrow> ('c, 'e) world \<Rightarrow> ('c, 'e) world" where
  "scheduleTimer i w = w\<lparr>wd_sched := sc_schedule (wd_timers w) i (wd_sched w)\<rparr>"

text \<open>A start of a timer with its scheduling, a stop, and the end of a callback. Starting and finishing
  take the lock of the timer and then that of the scheduler; the two sections are one step here.\<close>

definition startTimer ::
  "nat \<Rightarrow> ('c timer \<Rightarrow> timer_error + 'c timer) \<Rightarrow> ('c, 'e) world \<Rightarrow> timer_error + ('c, 'e) world" where
  "startTimer i start w =
     (case wd_timers w i of
        None \<Rightarrow> Inr w
      | Some t \<Rightarrow> sbind (start t) (\<lambda>t'. Inr (scheduleTimer i (w\<lparr>wd_timers := (wd_timers w)(i \<mapsto> t')\<rparr>))))"

definition stopTimer :: "nat \<Rightarrow> ('c, 'e) world \<Rightarrow> ('c, 'e) world" where
  "stopTimer i w =
     (case wd_timers w i of None \<Rightarrow> w | Some t \<Rightarrow> w\<lparr>wd_timers := (wd_timers w)(i \<mapsto> tm_stop t)\<rparr>)"

definition createTimer :: "nat \<Rightarrow> 'c \<Rightarrow> ('c, 'e) world \<Rightarrow> ('c, 'e) world" where
  "createTimer i callback w = w\<lparr>wd_timers := (wd_timers w)(i \<mapsto> tm_create callback)\<rparr>"

definition finishTimer :: "nat \<Rightarrow> 'c execution \<Rightarrow> int \<Rightarrow> ('c, 'e) world \<Rightarrow> ('c, 'e) world option" where
  "finishTimer i ex now w =
     (case wd_timers w i of
        None \<Rightarrow> Some w
      | Some t \<Rightarrow>
          (case tm_finish ex now t of
             None \<Rightarrow> None
           | Some (t', again) \<Rightarrow>
               (let w1 = w\<lparr>wd_timers := (wd_timers w)(i \<mapsto> t')\<rparr>
                in Some (if again then scheduleTimer i w1 else w1))))"

section \<open>Callbacks and their errors\<close>

text \<open>The events a user of the library can build: timer events carry private data.\<close>

datatype 'c user_event = UserQuit | UserInvocation "'c option" | UserTimer | UserOther nat

fun event_of :: "'c user_event \<Rightarrow> 'c event" where
  "event_of UserQuit = QuitEvent"
| "event_of (UserInvocation callback) = InvocationEvent callback"
| "event_of UserTimer = TimerEvent None"
| "event_of (UserOther n) = OtherEvent n"

datatype 'c api_call =
    ApiPost "'c user_event"
  | ApiInvoke 'c
  | ApiInvokeAfter int 'c
  | ApiStop
  | ApiQuit
  | ApiCreateTimer nat 'c
  | ApiStartOnce nat int
  | ApiStartFixedDelay nat int
  | ApiStartFixedRate nat int
  | ApiStopTimer nat

text \<open>One call with the clock it reads; a refused call throws and changes nothing. A new timer has
  a name that neither the map nor the scheduler's weak pointers know.\<close>

fun api :: "int \<Rightarrow> 'c api_call \<Rightarrow> ('c, 'e) world \<Rightarrow> ('c, 'e) world" where
  "api now (ApiPost e) w = post (event_of e) w"
| "api now (ApiInvoke callback) w = invoke callback w"
| "api now (ApiInvokeAfter delay callback) w =
     (case lp_invokeAfter now delay callback w of Inl _ \<Rightarrow> w | Inr w' \<Rightarrow> w')"
| "api now ApiStop w = lp_stop w"
| "api now ApiQuit w = lp_quit w"
| "api now (ApiCreateTimer i callback) w =
     (case getBackend schedulerId w of
        Inl _ \<Rightarrow> w
      | Inr (b, w1) \<Rightarrow>
          if wd_timers w1 i = None \<and> i \<notin> set (sc_timers (wd_sched w1)) then createTimer i callback w1 else w1)"
| "api now (ApiStartOnce i delay) w =
     (case startTimer i (tm_startOnce delay now) w of Inl _ \<Rightarrow> w | Inr w' \<Rightarrow> w')"
| "api now (ApiStartFixedDelay i interval) w =
     (case startTimer i (tm_startFixedDelay interval now) w of Inl _ \<Rightarrow> w | Inr w' \<Rightarrow> w')"
| "api now (ApiStartFixedRate i interval) w =
     (case startTimer i (tm_startFixedRate interval now) w of Inl _ \<Rightarrow> w | Inr w' \<Rightarrow> w')"
| "api now (ApiStopTimer i) w = stopTimer i w"

type_synonym ('c, 'e) callback_run = "(int \<times> 'c api_call) list \<times> 'e option"

definition run_calls :: "(int \<times> 'c api_call) list \<Rightarrow> ('c, 'e) world \<Rightarrow> ('c, 'e) world" where
  "run_calls calls w = foldl (\<lambda>w' (now, call). api now call w') w calls"

definition captureError :: "'e \<Rightarrow> ('c, 'e) world \<Rightarrow> ('c, 'e) world" where
  "captureError e w = w\<lparr>wd_loop := (wd_loop w)\<lparr>lp_errors := lp_errors (wd_loop w) @ [e]\<rparr>\<rparr>"

definition handleError :: "'e \<Rightarrow> ('c, 'e) world \<Rightarrow> ('c, 'e) world" where
  "handleError e w =
     (let w1 = captureError e w
      in case lp_handler (wd_loop w1) of
           None \<Rightarrow> w1
         | Some h \<Rightarrow> (case h e of
               HandlerContinue \<Rightarrow> w1
             | HandlerStop \<Rightarrow> lp_stop w1
             | HandlerThrows e2 \<Rightarrow> lp_stop (captureError e2 w1)))"

definition handleOptional :: "'e option \<Rightarrow> ('c, 'e) world \<Rightarrow> ('c, 'e) world" where
  "handleOptional thrown w = (case thrown of None \<Rightarrow> w | Some e \<Rightarrow> handleError e w)"

section \<open>Processing one event\<close>

text \<open>The scheduler's handler: whether it handled the event and what it threw; \<open>None\<close> when the
  rescheduling does not end.\<close>

definition sc_handleEvent ::
  "('c, 'e) callback_run \<Rightarrow> int \<Rightarrow> 'c event \<Rightarrow> ('c, 'e) world \<Rightarrow> (bool \<times> 'e option \<times> ('c, 'e) world) option" where
  "sc_handleEvent run now e w =
     (case e of
        TimerEvent None \<Rightarrow> Some (True, None, w)
      | TimerEvent (Some (i, ex)) \<Rightarrow>
          (case wd_timers w i of
             None \<Rightarrow> Some (True, None, w)
           | Some t \<Rightarrow>
               if \<not> tm_isCallbackPending ex t then Some (True, None, w)
               else (case finishTimer i ex now (run_calls (fst run) w) of
                       None \<Rightarrow> None
                     | Some w' \<Rightarrow> Some (True, snd run, w')))
      | _ \<Rightarrow> Some (False, None, w))"

text \<open>Another backend handles an event with a run of its own or declines it with \<open>None\<close>.\<close>

type_synonym ('c, 'e) foreign = "nat \<Rightarrow> 'c event \<Rightarrow> ('c, 'e) callback_run option"

fun dispatch ::
  "('c, 'e) foreign \<Rightarrow> ('c, 'e) callback_run \<Rightarrow> int \<Rightarrow> 'c event \<Rightarrow> nat list \<Rightarrow> ('c, 'e) world \<Rightarrow> ('c, 'e) world option"
where
  "dispatch foreign run now e [] w = Some w"
| "dispatch foreign run now e (b # bs) w =
     (if b = schedulerId
      then (case sc_handleEvent run now e w of
              None \<Rightarrow> None
            | Some (handled, thrown, w1) \<Rightarrow>
                if thrown \<noteq> None \<or> handled then Some (handleOptional thrown w1)
                else dispatch foreign run now e bs w1)
      else (case foreign b e of
              None \<Rightarrow> dispatch foreign run now e bs w
            | Some (calls, thrown) \<Rightarrow> Some (handleOptional thrown (run_calls calls w))))"

definition processInvocationEvent :: "('c, 'e) callback_run \<Rightarrow> 'c option \<Rightarrow> ('c, 'e) world \<Rightarrow> ('c, 'e) world" where
  "processInvocationEvent run callback w =
     (case callback of None \<Rightarrow> w | Some _ \<Rightarrow> handleOptional (snd run) (run_calls (fst run) w))"

definition processEvent ::
  "('c, 'e) foreign \<Rightarrow> ('c, 'e) callback_run \<Rightarrow> int \<Rightarrow> 'c event \<Rightarrow> ('c, 'e) world \<Rightarrow> ('c, 'e) world option" where
  "processEvent foreign run now e w =
     (case e of
        QuitEvent \<Rightarrow>
          Some (lp_stop (w\<lparr>wd_loop := (wd_loop w)\<lparr>lp_quitRequested := True, lp_quitEventQueued := True,
                                               lp_queue := []\<rparr>\<rparr>))
      | InvocationEvent callback \<Rightarrow> Some (processInvocationEvent run callback w)
      | _ \<Rightarrow> dispatch foreign run now e (lp_backends (wd_loop w)) w)"

definition takeNextEvent :: "('c, 'e) world \<Rightarrow> ('c event \<times> ('c, 'e) world) option" where
  "takeNextEvent w =
     (case lp_queue (wd_loop w) of
        [] \<Rightarrow> None
      | e # es \<Rightarrow> Some (e, w\<lparr>wd_loop := (wd_loop w)\<lparr>lp_queue := es\<rparr>\<rparr>))"

section \<open>The waiting loop\<close>

text \<open>The earliest wake time of all backends; \<open>wake\<close> is that of the other backends.\<close>

definition nextBackendWakeTime :: "(nat \<Rightarrow> int option) \<Rightarrow> ('c, 'e) world \<Rightarrow> int option" where
  "nextBackendWakeTime wake w =
     foldl (\<lambda>result b. min_wake result (if b = schedulerId then sc_nextWakeTime (wd_timers w) (wd_sched w) else wake b))
       None (lp_backends (wd_loop w))"

datatype decision = Process | ReturnFalse | PollNative | WaitForever | WaitFor int | Again

text \<open>What one turn of \<open>runOnceImpl\<close> does after polling: \<open>now\<close> and \<open>waitStart\<close> are its clock
  readings, \<open>nativeDone\<close> says that the native poll of a zero wait has been made.\<close>

definition turn_decision ::
  "int option \<Rightarrow> bool \<Rightarrow> bool \<Rightarrow> int \<Rightarrow> int \<Rightarrow> int option \<Rightarrow> ('c, 'e) world \<Rightarrow> decision" where
  "turn_decision maximumWaitEnd pollNativeOnce nativeDone now waitStart backendWake w =
     (if lp_queue (wd_loop w) \<noteq> [] then Process
      else if lp_quitRequested (wd_loop w) then ReturnFalse
      else if lp_stopRequested (wd_loop w) then ReturnFalse
      else if (case maximumWaitEnd of None \<Rightarrow> False | Some m \<Rightarrow> m \<le> now)
           then (if pollNativeOnce \<and> \<not> nativeDone then PollNative else ReturnFalse)
      else (let waitEnd = (case maximumWaitEnd of
                  None \<Rightarrow> backendWake
                | Some m \<Rightarrow> (case backendWake of None \<Rightarrow> Some m | Some b \<Rightarrow> if m < b then Some m else Some b))
            in case waitEnd of
                 None \<Rightarrow> WaitForever
               | Some e \<Rightarrow>
                   (let waitTime = tp_deltaTo waitStart e
                    in if waitTime > 0 then WaitFor waitTime
                       else if (case maximumWaitEnd of None \<Rightarrow> False | Some m \<Rightarrow> m \<le> waitStart)
                            then ReturnFalse else Again)))"

definition maximum_wait_end :: "int option \<Rightarrow> int \<Rightarrow> int option" where
  "maximum_wait_end maximumWait now =
     (case maximumWait of None \<Rightarrow> None | Some d \<Rightarrow> if d > 0 then Some (tp_add now d) else Some now)"

definition begin_run :: "('c, 'e) world \<Rightarrow> loop_error + ('c, 'e) world" where
  "begin_run w =
     (let w1 = ensureBackendsAttached w
      in if lp_running (wd_loop w1) then Inl LogicError
         else Inr (w1\<lparr>wd_loop := (wd_loop w1)\<lparr>lp_running := True, lp_stopRequested := False\<rparr>\<rparr>))"

definition end_run :: "('c, 'e) world \<Rightarrow> ('c, 'e) world" where
  "end_run w = w\<lparr>wd_loop := (wd_loop w)\<lparr>lp_running := False\<rparr>\<rparr>"

text \<open>Whether \<open>run\<close> goes on after a turn that returned \<open>processed\<close>.\<close>

definition run_continues :: "bool \<Rightarrow> ('c, 'e) world \<Rightarrow> bool" where
  "run_continues processed w \<longleftrightarrow>
     \<not> (\<not> processed \<and> lp_quitRequested (wd_loop w)) \<and> \<not> lp_stopRequested (wd_loop w)"

section \<open>The scheduler's scan\<close>

definition timer_due :: "int \<Rightarrow> 'c timers \<Rightarrow> nat \<Rightarrow> bool" where
  "timer_due now timers i \<longleftrightarrow> (case timers i of None \<Rightarrow> False | Some t \<Rightarrow> tm_active t \<and> tm_next t \<le> now)"

definition due_execution :: "'c timers \<Rightarrow> nat \<Rightarrow> 'c execution" where
  "due_execution timers i =
     (case timers i of Some t \<Rightarrow> \<lparr>ex_callback = tm_callback t, ex_mode = tm_mode t, ex_dueTime = tm_next t,
                                  ex_generation = tm_generation t\<rparr>)"

definition fired :: "'c timer \<Rightarrow> 'c timer" where
  "fired t = t\<lparr>tm_active := False, tm_pending := True, tm_lastDue := tm_next t\<rparr>"

lemma tm_prepare_due:
  "timers i = Some t \<Longrightarrow> tm_prepare now t = (if timer_due now timers i then Some (due_execution timers i, fired t) else None)"
  by (simp add: tm_prepare_def timer_due_def due_execution_def fired_def)

lemma wants_wake_active: "wants_wake timers i \<longleftrightarrow> (\<exists>t. timers i = Some t \<and> tm_active t)"
  by (auto simp: wants_wake_def tm_nextWake_def split: option.splits if_splits)

lemma scan_timers_result:
  "distinct is \<Longrightarrow> scan_timers now is timers =
     (map (\<lambda>i. (i, due_execution timers i)) (filter (timer_due now timers) is),
      filter (\<lambda>i. wants_wake timers i \<and> \<not> timer_due now timers i) is,
      (\<lambda>i. if i \<in> set is \<and> timer_due now timers i then map_option fired (timers i) else timers i))"
proof (induction "is" arbitrary: timers)
  case Nil
  then show ?case by simp
next
  case (Cons i "is")
  show ?case
  proof (cases "timers i")
    case None
    then show ?thesis
      using Cons by (auto simp: timer_due_def wants_wake_def fun_eq_iff)
  next
    case (Some t)
    show ?thesis
    proof (cases "timer_due now timers i")
      case True
      define u where "u = timers(i \<mapsto> fired t)"
      have ni: "j \<noteq> i" if "j \<in> set is" for j using that Cons.prems by auto
      then have e: "u j = timers j" if "j \<in> set is" for j using that by (simp add: u_def)
      have d: "timer_due now u j = timer_due now timers j" "wants_wake u j = wants_wake timers j" if "j \<in> set is" for j
        using e[OF that] by (simp_all add: timer_due_def wants_wake_def)
      have f: "filter (timer_due now u) is = filter (timer_due now timers) is"
        "filter (\<lambda>i. wants_wake u i \<and> \<not> timer_due now u i) is = filter (\<lambda>i. wants_wake timers i \<and> \<not> timer_due now timers i) is"
        by (auto intro!: filter_cong simp: d)
      have m: "map (\<lambda>j. (j, due_execution u j)) (filter (timer_due now timers) is)
          = map (\<lambda>j. (j, due_execution timers j)) (filter (timer_due now timers) is)"
        using e by (auto simp: due_execution_def)
      have g: "(\<lambda>j. if j \<in> set is \<and> timer_due now u j then map_option fired (u j) else u j)
          = (\<lambda>j. if j \<in> set (i # is) \<and> timer_due now timers j then map_option fired (timers j) else timers j)"
        using ni d e True Some by (auto simp: fun_eq_iff u_def)
      have "scan_timers now (i # is) timers = (case scan_timers now is u of
          (due, rest, timers') \<Rightarrow> ((i, due_execution timers i) # due, rest, timers'))"
        using True Some by (simp add: tm_prepare_due[where timers = timers and i = i, OF Some] u_def)
      then show ?thesis
        using Cons.IH[of u] Cons.prems True by (simp add: f m g)
    next
      case False
      then show ?thesis
        using Cons.IH[of timers] Cons.prems Some
        by (auto simp: tm_prepare_due[where timers = timers and i = i, OF Some] wants_wake_active tm_nextWake_def fun_eq_iff)
    qed
  qed
qed

section \<open>Posting\<close>

lemma ensureBackendsAttached_simps [simp]:
  "wd_timers (ensureBackendsAttached w) = wd_timers w"
  "sc_delayed (wd_sched (ensureBackendsAttached w)) = sc_delayed (wd_sched w)"
  "sc_timers (wd_sched (ensureBackendsAttached w)) = sc_timers (wd_sched w)"
  "lp_queue (wd_loop (ensureBackendsAttached w)) = lp_queue (wd_loop w)"
  "lp_backends (wd_loop (ensureBackendsAttached w)) = lp_backends (wd_loop w)"
  "lp_quitRequested (wd_loop (ensureBackendsAttached w)) = lp_quitRequested (wd_loop w)"
  "lp_quitEventQueued (wd_loop (ensureBackendsAttached w)) = lp_quitEventQueued (wd_loop w)"
  "lp_errors (wd_loop (ensureBackendsAttached w)) = lp_errors (wd_loop w)"
  by (simp_all add: ensureBackendsAttached_def sc_attach_def)

lemma post_simps [simp]:
  "wd_timers (postInternal e q w) = wd_timers w"
  "sc_delayed (wd_sched (postInternal e q w)) = sc_delayed (wd_sched w)"
  "sc_timers (wd_sched (postInternal e q w)) = sc_timers (wd_sched w)"
  "lp_queue (wd_loop (postInternal e q w))
     = lp_queue (wd_loop w) @ (if lp_quitRequested (wd_loop w) \<and> \<not> q then [] else [e])"
  "lp_backends (wd_loop (postInternal e q w)) = lp_backends (wd_loop w)"
  "lp_quitRequested (wd_loop (postInternal e q w)) = lp_quitRequested (wd_loop w)"
  "lp_quitEventQueued (wd_loop (postInternal e q w)) = lp_quitEventQueued (wd_loop w)"
  "lp_errors (wd_loop (postInternal e q w)) = lp_errors (wd_loop w)"
  by (simp_all add: postInternal_def Let_def)

lemmas posting = post_def invoke_def

text \<open>What a sequence of posts leaves alone, and the queue after it.\<close>

definition same_scheduling :: "('c, 'e) world \<Rightarrow> ('c, 'e) world \<Rightarrow> bool" where
  "same_scheduling w w' \<longleftrightarrow> wd_timers w' = wd_timers w \<and> sc_delayed (wd_sched w') = sc_delayed (wd_sched w)
     \<and> sc_timers (wd_sched w') = sc_timers (wd_sched w) \<and> lp_backends (wd_loop w') = lp_backends (wd_loop w)
     \<and> lp_quitRequested (wd_loop w') = lp_quitRequested (wd_loop w)
     \<and> lp_quitEventQueued (wd_loop w') = lp_quitEventQueued (wd_loop w)
     \<and> lp_errors (wd_loop w') = lp_errors (wd_loop w)"

lemma foldl_post:
  "same_scheduling w (foldl (\<lambda>w' x. post (f x) w') w xs)
   \<and> lp_queue (wd_loop (foldl (\<lambda>w' x. post (f x) w') w xs))
     = lp_queue (wd_loop w) @ (if lp_quitRequested (wd_loop w) then [] else map f xs)"
proof (induction xs arbitrary: w)
  case (Cons x xs)
  then show ?case using Cons.IH[of "post (f x) w"] by (simp add: same_scheduling_def posting)
qed (simp add: same_scheduling_def)

definition poll_events :: "int \<Rightarrow> ('c, 'e) world \<Rightarrow> 'c event list" where
  "poll_events now w =
     map (\<lambda>(due, callback). InvocationEvent (Some callback)) (filter (\<lambda>(due, callback). due \<le> now) (sc_delayed (wd_sched w)))
     @ map (\<lambda>i. TimerEvent (Some (i, due_execution (wd_timers w) i)))
         (filter (timer_due now (wd_timers w)) (sc_timers (wd_sched w)))"

lemma sc_poll_result:
  fixes w :: "('c, 'e) world"
  assumes "distinct (sc_timers (wd_sched w))"
  shows "wd_timers (sc_poll now w) = (\<lambda>i. if i \<in> set (sc_timers (wd_sched w)) \<and> timer_due now (wd_timers w) i
      then map_option fired (wd_timers w i) else wd_timers w i)"
    and "sc_delayed (wd_sched (sc_poll now w)) = filter (\<lambda>(due, callback). \<not> due \<le> now) (sc_delayed (wd_sched w))"
    and "sc_timers (wd_sched (sc_poll now w))
      = filter (\<lambda>i. wants_wake (wd_timers w) i \<and> \<not> timer_due now (wd_timers w) i) (sc_timers (wd_sched w))"
    and "lp_queue (wd_loop (sc_poll now w)) = lp_queue (wd_loop w)
      @ (if sc_target (wd_sched w) \<and> \<not> lp_quitRequested (wd_loop w) then poll_events now w else [])"
    and "lp_backends (wd_loop (sc_poll now w)) = lp_backends (wd_loop w)"
    and "lp_quitRequested (wd_loop (sc_poll now w)) = lp_quitRequested (wd_loop w)"
    and "lp_quitEventQueued (wd_loop (sc_poll now w)) = lp_quitEventQueued (wd_loop w)"
    and "lp_errors (wd_loop (sc_poll now w)) = lp_errors (wd_loop w)"
proof -
  let ?s = "wd_sched w" and ?T = "wd_timers w"
  define timers where "timers = (\<lambda>i. if i \<in> set (sc_timers ?s) \<and> timer_due now ?T i then map_option fired (?T i) else ?T i)"
  define nexts where "nexts = filter (\<lambda>i. wants_wake ?T i \<and> \<not> timer_due now ?T i) (sc_timers ?s)"
  define due where "due = map (\<lambda>i. (i, due_execution ?T i)) (filter (timer_due now ?T) (sc_timers ?s))"
  define inv where "inv = filter (\<lambda>(due :: int, callback :: 'c). due \<le> now) (sc_delayed ?s)"
  define w1 where "w1 = w\<lparr>wd_timers := timers,
    wd_sched := ?s\<lparr>sc_delayed := filter (\<lambda>(due, callback). \<not> due \<le> now) (sc_delayed ?s), sc_timers := nexts\<rparr>\<rparr>"
  have scan: "scan_timers now (sc_timers ?s) ?T = (due, nexts, timers)"
    using scan_timers_result[OF assms] by (simp add: due_def nexts_def timers_def)
  define w2 where "w2 = foldl (\<lambda>w' x. post (InvocationEvent (Some (snd x))) w') w1 inv"
  define w3 where "w3 = foldl (\<lambda>w' i. post (TimerEvent (Some i)) w') w2 due"
  have p: "sc_poll now w = (if \<not> sc_target ?s then w1 else w3)"
    by (simp add: sc_poll_def Let_def scan w1_def w3_def w2_def inv_def invoke_def case_prod_unfold)
  have w12: "same_scheduling w1 w2" "lp_queue (wd_loop w2) = lp_queue (wd_loop w1)
      @ (if lp_quitRequested (wd_loop w1) then [] else map (\<lambda>x. InvocationEvent (Some (snd x))) inv)"
    using foldl_post[of w1 "\<lambda>x. InvocationEvent (Some (snd x))" inv] by (simp_all add: w2_def)
  have w23: "same_scheduling w2 w3" "lp_queue (wd_loop w3) = lp_queue (wd_loop w2)
      @ (if lp_quitRequested (wd_loop w2) then [] else map (\<lambda>i. TimerEvent (Some i)) due)"
    using foldl_post[of w2 "\<lambda>i. TimerEvent (Some i)" due] by (simp_all add: w3_def)
  have ss: "same_scheduling w1 (sc_poll now w)" using w12 w23 p by (auto simp: same_scheduling_def)
  have ev: "poll_events now w = map (\<lambda>x. InvocationEvent (Some (snd x))) inv @ map (\<lambda>i. TimerEvent (Some i)) due"
    by (simp add: poll_events_def inv_def due_def case_prod_unfold o_def)
  show "lp_queue (wd_loop (sc_poll now w)) = lp_queue (wd_loop w)
      @ (if sc_target ?s \<and> \<not> lp_quitRequested (wd_loop w) then poll_events now w else [])"
    using w12 w23 by (simp add: p ev same_scheduling_def w1_def)
  show "wd_timers (sc_poll now w) = (\<lambda>i. if i \<in> set (sc_timers ?s) \<and> timer_due now ?T i then map_option fired (?T i) else ?T i)"
    using ss by (simp add: same_scheduling_def w1_def timers_def)
  show "sc_delayed (wd_sched (sc_poll now w)) = filter (\<lambda>(due, callback). \<not> due \<le> now) (sc_delayed ?s)"
    "sc_timers (wd_sched (sc_poll now w)) = filter (\<lambda>i. wants_wake ?T i \<and> \<not> timer_due now ?T i) (sc_timers ?s)"
    "lp_backends (wd_loop (sc_poll now w)) = lp_backends (wd_loop w)"
    "lp_quitRequested (wd_loop (sc_poll now w)) = lp_quitRequested (wd_loop w)"
    "lp_quitEventQueued (wd_loop (sc_poll now w)) = lp_quitEventQueued (wd_loop w)"
    "lp_errors (wd_loop (sc_poll now w)) = lp_errors (wd_loop w)"
    using ss by (simp_all add: same_scheduling_def w1_def nexts_def)
qed

section \<open>Reachable states\<close>

text \<open>The states of a loop and its scheduler under any interleaving of calls, polls, processed
  events and dropped timers; the number counts the calls, which bounds the timer generations.\<close>

inductive ev_reach :: "nat \<Rightarrow> ('c, 'e) world \<Rightarrow> bool" where
  create: "ev_reach 0 wd_create"
| call: "ev_reach n w \<Longrightarrow> ev_reach (n + 1) (api now c w)"
| poll: "ev_reach n w \<Longrightarrow> schedulerId \<in> set (lp_backends (wd_loop w)) \<Longrightarrow> ev_reach n (sc_poll now w)"
| process: "ev_reach n w \<Longrightarrow> takeNextEvent w = Some (e, w1) \<Longrightarrow>
    (\<And>b calls thrown. foreign b e = Some (calls, thrown) \<Longrightarrow> length calls \<le> k) \<Longrightarrow> length (fst run) \<le> k \<Longrightarrow>
    processEvent foreign run now e w1 = Some w2 \<Longrightarrow> ev_reach (n + k) w2"
| destroy: "ev_reach n w \<Longrightarrow> (\<And>ex. TimerEvent (Some (i, ex)) \<notin> set (lp_queue (wd_loop w))) \<Longrightarrow>
    ev_reach n (w\<lparr>wd_timers := (wd_timers w)(i := None)\<rparr>)"
| register: "ev_reach n w \<Longrightarrow> registerBackend b w = Inr w1 \<Longrightarrow> ev_reach n w1"
| take_error: "ev_reach n w \<Longrightarrow> ev_reach n (snd (takeError w))"
| set_handler: "ev_reach n w \<Longrightarrow> ev_reach n (setErrorHandler h w)"
| begin_run: "ev_reach n w \<Longrightarrow> begin_run w = Inr w1 \<Longrightarrow> ev_reach n w1"
| end_run: "ev_reach n w \<Longrightarrow> ev_reach n (end_run w)"

inductive_cases ev_reach_cases: "ev_reach n w"

fun is_execution :: "nat \<Rightarrow> nat \<Rightarrow> 'c event \<Rightarrow> bool" where
  "is_execution i g (TimerEvent (Some (j, ex))) \<longleftrightarrow> j = i \<and> ex_generation ex = g"
| "is_execution i g e \<longleftrightarrow> False"

definition execution_count :: "nat \<Rightarrow> nat \<Rightarrow> 'c event list \<Rightarrow> nat" where
  "execution_count i g q = length (filter (is_execution i g) q)"

lemma execution_count_simps [simp]:
  "execution_count i g [] = 0"
  "execution_count i g (e # q) = (if is_execution i g e then 1 else 0) + execution_count i g q"
  "execution_count i g (p @ q) = execution_count i g p + execution_count i g q"
  by (simp_all add: execution_count_def)

definition timer_inv :: "nat \<Rightarrow> nat list \<Rightarrow> 'c event list \<Rightarrow> nat \<Rightarrow> 'c timer \<Rightarrow> bool" where
  "timer_inv n scheduled q i t \<longleftrightarrow>
     tm_generation t \<le> n \<and> \<not> (tm_active t \<and> tm_pending t) \<and> (tm_active t \<longrightarrow> i \<in> set scheduled)
     \<and> execution_count i (tm_generation t) q \<le> (if tm_active t then 0 else 1)"

definition ev_inv_of :: "nat \<Rightarrow> 'c timers \<Rightarrow> nat list \<Rightarrow> 'c event list \<Rightarrow> bool" where
  "ev_inv_of n timers scheduled q \<longleftrightarrow> distinct scheduled
     \<and> (\<forall>i t. timers i = Some t \<longrightarrow> timer_inv n scheduled q i t)
     \<and> (\<forall>i ex. TimerEvent (Some (i, ex)) \<in> set q \<longrightarrow> (\<exists>t. timers i = Some t \<and> ex_generation ex \<le> tm_generation t))"

abbreviation ev_inv :: "nat \<Rightarrow> ('c, 'e) world \<Rightarrow> bool" where
  "ev_inv n w \<equiv> ev_inv_of n (wd_timers w) (sc_timers (wd_sched w)) (lp_queue (wd_loop w))"

lemma ev_inv_mono: "ev_inv_of n timers scheduled q \<Longrightarrow> n \<le> m \<Longrightarrow> ev_inv_of m timers scheduled q"
  by (fastforce simp: ev_inv_of_def timer_inv_def)

text \<open>Events without a timer execution do not matter, and events may be dropped.\<close>

definition plain :: "'c event \<Rightarrow> bool" where
  "plain e \<longleftrightarrow> (\<forall>i ex. e \<noteq> TimerEvent (Some (i, ex)))"

lemma plain_simps [simp]:
  "plain QuitEvent" "plain (InvocationEvent c)" "plain (TimerEvent None)" "plain (OtherEvent n)" "plain (event_of u)"
  by (cases u; simp add: plain_def)+

lemma plain_not_execution: "plain e \<Longrightarrow> \<not> is_execution i g e"
  by (cases "(i, g, e)" rule: is_execution.cases) (auto simp: plain_def)

lemma plain_count: "\<forall>e \<in> set es. plain e \<Longrightarrow> execution_count i g es = 0"
  by (induction es) (auto simp: plain_not_execution)

lemma ev_inv_append:
  "ev_inv_of n timers scheduled q \<Longrightarrow> \<forall>e \<in> set es. plain e \<Longrightarrow> ev_inv_of n timers scheduled (q @ es)"
  by (auto simp: ev_inv_of_def timer_inv_def plain_count) (auto simp: plain_def)

lemma ev_inv_tail:
  "ev_inv_of n timers scheduled (e # q) \<Longrightarrow> ev_inv_of n timers scheduled q"
  by (fastforce simp: ev_inv_of_def timer_inv_def split: if_splits)

text \<open>Replacing one timer by a state with an unused generation or one that is not scheduled.\<close>

lemma execution_count_0:
  "(\<And>ex. TimerEvent (Some (i, ex)) \<in> set q \<Longrightarrow> ex_generation ex \<noteq> g) \<Longrightarrow> execution_count i g q = 0"
  unfolding execution_count_def
  by (auto simp: filter_empty_conv elim!: is_execution.elims)

lemma ev_inv_update:
  assumes "ev_inv_of n timers scheduled q" "timers i = Some t" "tm_generation t \<le> tm_generation t'"
    and "tm_generation t' \<le> m" "n \<le> m" "\<not> (tm_active t' \<and> tm_pending t')"
    and "tm_active t' \<longrightarrow> i \<in> set scheduled'"
    and "execution_count i (tm_generation t') q \<le> (if tm_active t' then 0 else 1)"
    and "distinct scheduled'" "\<And>j u. j \<noteq> i \<Longrightarrow> timers j = Some u \<Longrightarrow> tm_active u \<Longrightarrow> j \<in> set scheduled \<Longrightarrow> j \<in> set scheduled'"
  shows "ev_inv_of m (timers(i \<mapsto> t')) scheduled' q"
  unfolding ev_inv_of_def
proof (intro conjI allI impI)
  fix j u assume u: "(timers(i \<mapsto> t')) j = Some u"
  show "timer_inv m scheduled' q j u"
  proof (cases "j = i")
    case True
    then show ?thesis using u assms by (simp add: timer_inv_def)
  next
    case False
    then have "timers j = Some u" using u by simp
    then have "timer_inv n scheduled q j u" using assms(1) by (simp add: ev_inv_of_def)
    then show ?thesis using assms(5) assms(10)[OF False \<open>timers j = Some u\<close>] by (auto simp: timer_inv_def)
  qed
next
  fix j ex assume "TimerEvent (Some (j, ex)) \<in> set q"
  then obtain u where "timers j = Some u" "ex_generation ex \<le> tm_generation u"
    using assms(1) unfolding ev_inv_of_def by blast
  then show "\<exists>u. (timers(i \<mapsto> t')) j = Some u \<and> ex_generation ex \<le> tm_generation u"
    using assms(2,3) by (cases "j = i") auto
qed (rule assms)

lemma fresh_generation:
  assumes "ev_inv_of n timers scheduled q" "timers i = Some t" "n < u64_max"
  shows "u64 (tm_generation t + 1) = tm_generation t + 1" "tm_generation t + 1 \<le> n + 1"
    "execution_count i (tm_generation t + 1) q = 0"
proof -
  have "tm_generation t \<le> n" using assms by (auto simp: ev_inv_of_def timer_inv_def)
  then show "u64 (tm_generation t + 1) = tm_generation t + 1" "tm_generation t + 1 \<le> n + 1" using assms(3) by auto
  show "execution_count i (tm_generation t + 1) q = 0"
    using assms(1,2) by (intro execution_count_0) (fastforce simp: ev_inv_of_def)
qed

section \<open>Calls\<close>

lemma getBackend_scheduler:
  obtains w1 where "getBackend schedulerId w = Inr (schedulerId, w1)"
    "wd_timers w1 = wd_timers w" "sc_timers (wd_sched w1) = sc_timers (wd_sched w)" "lp_queue (wd_loop w1) = lp_queue (wd_loop w)"
    "lp_quitRequested (wd_loop w1) = lp_quitRequested (wd_loop w)"
    "lp_quitEventQueued (wd_loop w1) = lp_quitEventQueued (wd_loop w)"
  by (cases "schedulerId \<in> set (lp_backends (wd_loop w))")
    (auto simp: getBackend_def Let_def noBackendId_def schedulerId_def registerBackendInternal_def sc_attach_def)

definition calls_post :: "('c, 'e) world \<Rightarrow> ('c, 'e) world \<Rightarrow> bool" where
  "calls_post w w' \<longleftrightarrow> (\<exists>es. lp_queue (wd_loop w') = lp_queue (wd_loop w) @ es \<and> (\<forall>e \<in> set es. plain e)
     \<and> (lp_quitRequested (wd_loop w) \<longrightarrow> lp_quitRequested (wd_loop w') \<and> (lp_quitEventQueued (wd_loop w) \<longrightarrow> es = []))
     \<and> (lp_quitEventQueued (wd_loop w) \<longrightarrow> lp_quitEventQueued (wd_loop w')))"

lemma calls_post_same [simp]:
  "lp_queue (wd_loop w') = lp_queue (wd_loop w) \<Longrightarrow>
   (lp_quitRequested (wd_loop w) \<Longrightarrow> lp_quitRequested (wd_loop w')) \<Longrightarrow>
   (lp_quitEventQueued (wd_loop w) \<Longrightarrow> lp_quitEventQueued (wd_loop w')) \<Longrightarrow> calls_post w w'"
  by (auto simp: calls_post_def)

lemma calls_post_trans: "calls_post w w1 \<Longrightarrow> calls_post w1 w2 \<Longrightarrow> calls_post w w2"
  unfolding calls_post_def by (elim exE) (rule exI, auto)

lemma post_calls_post: "plain e \<Longrightarrow> calls_post w (post e w)"
  by (auto simp: calls_post_def posting)

lemma startTimer_inv:
  assumes "ev_inv n w" "n < u64_max" "startTimer i start w = Inr w'"
    and "start = tm_startOnce d now \<or> start = tm_startFixedDelay d now \<or> start = tm_startFixedRate d now"
  shows "ev_inv (n + 1) w' \<and> calls_post w w'"
proof (cases "wd_timers w i")
  case None
  then show ?thesis using assms(1,3) by (auto simp: startTimer_def intro: ev_inv_mono)
next
  case (Some t)
  obtain m where w': "w' = scheduleTimer i (w\<lparr>wd_timers := (wd_timers w)(i \<mapsto> tm_start m d now t)\<rparr>)"
    using assms(3,4) Some
    by (auto simp: startTimer_def tm_startOnce_def tm_startFixedDelay_def tm_startFixedRate_def split: if_splits)
  let ?t = "tm_start m d now t" and ?T = "(wd_timers w)(i \<mapsto> tm_start m d now t)"
  note fresh = fresh_generation[OF assms(1) Some assms(2)]
  have t: "tm_generation ?t = tm_generation t + 1" "tm_active ?t" "\<not> tm_pending ?t"
    using fresh by (simp_all add: tm_start_def)
  have s: "sc_timers (wd_sched w') = filter (\<lambda>j. j \<noteq> i \<and> wants_wake ?T j) (sc_timers (wd_sched w)) @ [i]"
    using t by (simp add: w' scheduleTimer_def sc_schedule_def wants_wake_active)
  have "distinct (sc_timers (wd_sched w))" using assms(1) by (simp add: ev_inv_of_def)
  then have "ev_inv_of (n + 1) ?T (sc_timers (wd_sched w')) (lp_queue (wd_loop w))"
    using fresh t unfolding s
    by (intro ev_inv_update[OF assms(1) Some]) (auto simp: wants_wake_active)
  then show ?thesis by (auto simp: w' scheduleTimer_def)
qed

lemma stopTimer_inv:
  assumes "ev_inv n w" "n < u64_max"
  shows "ev_inv (n + 1) (stopTimer i w)"
proof (cases "wd_timers w i")
  case None
  then show ?thesis using assms(1) by (auto simp: stopTimer_def intro: ev_inv_mono)
next
  case (Some t)
  note fresh = fresh_generation[OF assms(1) Some assms(2)]
  have "distinct (sc_timers (wd_sched w))" using assms(1) by (simp add: ev_inv_of_def)
  then have "ev_inv_of (n + 1) ((wd_timers w)(i \<mapsto> tm_stop t)) (sc_timers (wd_sched w)) (lp_queue (wd_loop w))"
    using fresh by (intro ev_inv_update[OF assms(1) Some]) (auto simp: tm_stop_def)
  then show ?thesis using Some by (simp add: stopTimer_def)
qed

lemma createTimer_inv:
  assumes "ev_inv n w" "wd_timers w i = None"
  shows "ev_inv n (createTimer i callback w)"
proof -
  have ne: "TimerEvent (Some (i, ex)) \<notin> set (lp_queue (wd_loop w))" for ex
    using assms by (fastforce simp: ev_inv_of_def)
  then have "execution_count i 0 (lp_queue (wd_loop w)) = 0" by (intro execution_count_0) auto
  then show ?thesis
    using assms ne by (auto simp: ev_inv_of_def createTimer_def tm_create_def timer_inv_def)
qed

lemma sc_invokeAfter_inv:
  "ev_inv n w \<Longrightarrow> ev_inv n (sc_invokeAfter now d c w) \<and> calls_post w (sc_invokeAfter now d c w)"
  by (auto simp: sc_invokeAfter_def posting ev_inv_append post_calls_post[unfolded posting])

lemma api_inv:
  assumes "ev_inv n w" "n < u64_max"
  shows "ev_inv (n + 1) (api now c w) \<and> calls_post w (api now c w)"
proof -
  have mono: "ev_inv n w' \<Longrightarrow> ev_inv (Suc n) w'" for w' :: "('a, 'b) world" by (erule ev_inv_mono) simp
  obtain w1 where g: "getBackend schedulerId w = Inr (schedulerId, w1)"
    "wd_timers w1 = wd_timers w" "sc_timers (wd_sched w1) = sc_timers (wd_sched w)" "lp_queue (wd_loop w1) = lp_queue (wd_loop w)"
    "lp_quitRequested (wd_loop w1) = lp_quitRequested (wd_loop w)"
    "lp_quitEventQueued (wd_loop w1) = lp_quitEventQueued (wd_loop w)"
    by (rule getBackend_scheduler)
  have w1: "ev_inv n w1" "calls_post w w1" using assms(1) g by simp_all
  have p: "ev_inv n (post e w) \<and> calls_post w (post e w)" if "plain e" for e
    using assms(1) that post_calls_post[of e w] by (simp add: posting ev_inv_append)
  show ?thesis
  proof (cases c)
    case (ApiInvokeAfter d cb)
    have "lp_invokeAfter now d cb w = Inr (if \<not> d > 0 then invoke cb w else sc_invokeAfter now d cb w1)"
      by (simp add: lp_invokeAfter_def g)
    then show ?thesis
      using sc_invokeAfter_inv[OF w1(1), of now d cb] w1(2) p[of "InvocationEvent (Some cb)"] ApiInvokeAfter
      by (auto simp: invoke_def intro: mono calls_post_trans)
  next
    case (ApiCreateTimer i cb)
    have "ev_inv n (createTimer i cb w1) \<and> calls_post w (createTimer i cb w1)" if "wd_timers w1 i = None"
      using createTimer_inv[OF w1(1) that] w1(2) by (auto intro: calls_post_trans simp: createTimer_def)
    then show ?thesis using w1 ApiCreateTimer by (auto simp: g(1) intro: mono)
  next
    case ApiQuit
    have "ev_inv n (lp_quit w)" using assms(1) by (auto simp: lp_quit_def ev_inv_append)
    moreover have "calls_post w (lp_quit w)" by (auto simp: lp_quit_def calls_post_def)
    ultimately show ?thesis using ApiQuit mono[of "lp_quit w"] by simp
  next
    case (ApiStopTimer i)
    then show ?thesis using stopTimer_inv[OF assms] by (auto simp: stopTimer_def split: option.splits)
  next
    case (ApiStartOnce i d)
    then show ?thesis
      using startTimer_inv[OF assms, of i "tm_startOnce d now" _ d now] assms(1)
      by (auto intro: mono split: sum.splits)
  next
    case (ApiStartFixedDelay i d)
    then show ?thesis
      using startTimer_inv[OF assms, of i "tm_startFixedDelay d now" _ d now] assms(1)
      by (auto intro: mono split: sum.splits)
  next
    case (ApiStartFixedRate i d)
    then show ?thesis
      using startTimer_inv[OF assms, of i "tm_startFixedRate d now" _ d now] assms(1)
      by (auto intro: mono split: sum.splits)
  qed (use assms(1) p in \<open>auto intro: mono simp: invoke_def lp_stop_def\<close>)
qed

lemma run_calls_inv:
  "ev_inv n w \<Longrightarrow> n + length calls \<le> u64_max \<Longrightarrow>
   ev_inv (n + length calls) (run_calls calls w) \<and> calls_post w (run_calls calls w)"
proof (induction calls arbitrary: n w)
  case (Cons c calls)
  obtain now a where c: "c = (now, a)" by fastforce
  have "ev_inv (n + 1) (api now a w) \<and> calls_post w (api now a w)" using Cons.prems by (intro api_inv) auto
  then show ?case
    using Cons.IH[of "n + 1" "api now a w"] Cons.prems(2) c calls_post_trans
    by (fastforce simp: run_calls_def)
qed (simp add: run_calls_def)

section \<open>Polling\<close>

lemma count_due:
  "distinct js \<Longrightarrow> execution_count i g (map (\<lambda>j. TimerEvent (Some (j, due_execution T j))) js)
    = (if i \<in> set js \<and> ex_generation (due_execution T i) = g then 1 else 0)"
  by (induction js) auto

lemma poll_events_count:
  assumes "distinct (sc_timers (wd_sched w))"
  shows "execution_count i g (poll_events now w) = (if i \<in> set (sc_timers (wd_sched w)) \<and> timer_due now (wd_timers w) i
    \<and> ex_generation (due_execution (wd_timers w) i) = g then 1 else 0)"
proof -
  have "execution_count i g (map (\<lambda>(due, callback). InvocationEvent (Some callback)) xs) = 0" for xs :: "(int \<times> 'a) list"
    by (rule plain_count) auto
  then show ?thesis using assms by (simp add: poll_events_def count_due)
qed

lemma fired_simps [simp]:
  "tm_generation (fired t) = tm_generation t" "tm_active (fired t) = False" "tm_pending (fired t) = True"
  by (simp_all add: fired_def)

lemma sc_poll_inv:
  assumes "ev_inv n w"
  shows "ev_inv n (sc_poll now w)"
proof -
  let ?T = "wd_timers w" and ?S = "sc_timers (wd_sched w)" and ?q = "lp_queue (wd_loop w)"
  have dist: "distinct ?S" and inv: "\<And>i t. ?T i = Some t \<Longrightarrow> timer_inv n ?S ?q i t"
    and ev: "\<And>i ex. TimerEvent (Some (i, ex)) \<in> set ?q \<Longrightarrow> \<exists>t. ?T i = Some t \<and> ex_generation ex \<le> tm_generation t"
    using assms by (auto simp: ev_inv_of_def)
  note p = sc_poll_result[OF dist, of now]
  define es where "es = (if sc_target (wd_sched w) \<and> \<not> lp_quitRequested (wd_loop w) then poll_events now w else [])"
  have q: "lp_queue (wd_loop (sc_poll now w)) = ?q @ es" using p(4) by (simp add: es_def)
  have gen: "ex_generation (due_execution ?T i) = tm_generation t" if "?T i = Some t" for i t
    using that by (simp add: due_execution_def)
  have cnt: "execution_count i (tm_generation t) es \<le> (if i \<in> set ?S \<and> timer_due now ?T i then 1 else 0)" if "?T i = Some t" for i t
    using poll_events_count[OF dist, of i "tm_generation t" now] by (simp add: es_def)
  show ?thesis
    unfolding ev_inv_of_def
  proof (intro conjI allI impI)
    show "distinct (sc_timers (wd_sched (sc_poll now w)))" using dist p(3) by simp
    fix i t' assume t': "wd_timers (sc_poll now w) i = Some t'"
    show "timer_inv n (sc_timers (wd_sched (sc_poll now w))) (lp_queue (wd_loop (sc_poll now w))) i t'"
    proof (cases "i \<in> set ?S \<and> timer_due now ?T i")
      case True
      then obtain t where t: "?T i = Some t" "t' = fired t" "tm_active t"
        using t' p(1) by (auto simp: timer_due_def split: option.splits)
      then show ?thesis using inv[OF t(1)] cnt[OF t(1)] True by (simp add: timer_inv_def q)
    next
      case False
      then have t: "?T i = Some t'" using t' p(1) by auto
      then have "tm_active t' \<Longrightarrow> wants_wake ?T i" by (simp add: wants_wake_active)
      then show ?thesis using inv[OF t] cnt[OF t] False p(3) by (auto simp: timer_inv_def q)
    qed
  next
    fix i ex assume "TimerEvent (Some (i, ex)) \<in> set (lp_queue (wd_loop (sc_poll now w)))"
    then have "TimerEvent (Some (i, ex)) \<in> set ?q \<or> (ex = due_execution ?T i \<and> timer_due now ?T i)"
      by (auto simp: q es_def poll_events_def split: if_splits)
    then obtain t where "?T i = Some t" "ex_generation ex \<le> tm_generation t"
      using ev gen by (fastforce simp: timer_due_def split: option.splits)
    then show "\<exists>t. wd_timers (sc_poll now w) i = Some t \<and> ex_generation ex \<le> tm_generation t"
      using p(1) by auto
  qed
qed

section \<open>Processing\<close>

lemma finishTimer_inv:
  assumes "ev_inv n w" "finishTimer i ex now w = Some w'" "execution_count i (ex_generation ex) (lp_queue (wd_loop w)) = 0"
  shows "ev_inv n w' \<and> wd_loop w' = wd_loop w"
proof (cases "wd_timers w i")
  case None
  then show ?thesis using assms by (simp add: finishTimer_def)
next
  case (Some t)
  have t: "timer_inv n (sc_timers (wd_sched w)) (lp_queue (wd_loop w)) i t" and dist: "distinct (sc_timers (wd_sched w))"
    using assms(1) Some by (simp_all add: ev_inv_of_def)
  have g: "tm_generation t \<le> n" using t by (simp add: timer_inv_def)
  obtain t' again where f: "tm_finish ex now t = Some (t', again)"
    and w': "w' = (let w1 = w\<lparr>wd_timers := (wd_timers w)(i \<mapsto> t')\<rparr> in if again then scheduleTimer i w1 else w1)"
    using assms(2) Some by (auto simp: finishTimer_def Let_def split: option.splits prod.splits)
  show ?thesis
  proof (cases again)
    case False
    then have "tm_generation t' = tm_generation t" "\<not> tm_pending t'" "tm_active t' \<Longrightarrow> tm_active t"
      "\<not> tm_active t' \<longrightarrow> \<not> tm_active t"
      using f by (auto simp: tm_finish_def Let_def split: if_splits timer_mode.splits option.splits)
    moreover have "execution_count i (tm_generation t) (lp_queue (wd_loop w)) \<le> (if tm_active t then 0 else 1)"
      "tm_active t \<longrightarrow> i \<in> set (sc_timers (wd_sched w))" using t by (simp_all add: timer_inv_def)
    ultimately have "ev_inv_of n ((wd_timers w)(i \<mapsto> t')) (sc_timers (wd_sched w)) (lp_queue (wd_loop w))"
      using g dist by (intro ev_inv_update[OF assms(1) Some]) auto
    then show ?thesis using False by (simp add: w')
  next
    case True
    then have t': "tm_generation t' = tm_generation t" "\<not> tm_pending t'" "tm_active t'" "ex_generation ex = tm_generation t"
      using f by (auto simp: tm_finish_def tm_isCallbackPending_def Let_def split: if_splits timer_mode.splits option.splits)
    have s: "sc_timers (wd_sched w') = filter (\<lambda>j. j \<noteq> i \<and> wants_wake ((wd_timers w)(i \<mapsto> t')) j) (sc_timers (wd_sched w)) @ [i]"
      using t' True by (simp add: w' scheduleTimer_def sc_schedule_def wants_wake_active)
    have "ev_inv_of n ((wd_timers w)(i \<mapsto> t')) (sc_timers (wd_sched w')) (lp_queue (wd_loop w))"
      using g t' dist assms(3) unfolding s
      by (intro ev_inv_update[OF assms(1) Some]) (auto simp: wants_wake_active)
    then show ?thesis using True by (simp add: w' scheduleTimer_def)
  qed
qed

lemma handleOptional_same [simp]:
  "wd_timers (handleOptional e w) = wd_timers w" "wd_sched (handleOptional e w) = wd_sched w"
  "lp_queue (wd_loop (handleOptional e w)) = lp_queue (wd_loop w)"
  "lp_quitRequested (wd_loop (handleOptional e w)) = lp_quitRequested (wd_loop w)"
  "lp_quitEventQueued (wd_loop (handleOptional e w)) = lp_quitEventQueued (wd_loop w)"
  by (simp_all add: handleOptional_def handleError_def captureError_def lp_stop_def Let_def split: option.splits handler_result.splits)

definition no_same_execution :: "'c event \<Rightarrow> ('c, 'e) world \<Rightarrow> bool" where
  "no_same_execution e w \<longleftrightarrow> (\<forall>i ex t. e = TimerEvent (Some (i, ex)) \<longrightarrow> wd_timers w i = Some t \<longrightarrow>
     tm_isCallbackPending ex t \<longrightarrow> execution_count i (ex_generation ex) (lp_queue (wd_loop w)) = 0)"

lemma calls_post_count:
  "calls_post w w' \<Longrightarrow> execution_count i g (lp_queue (wd_loop w')) = execution_count i g (lp_queue (wd_loop w))"
  by (auto simp: calls_post_def plain_count)

lemma sc_handleEvent_inv:
  assumes "ev_inv n w" "n + length (fst run) \<le> u64_max" "no_same_execution e w"
    and "sc_handleEvent run now e w = Some (handled, thrown, w')"
  shows "ev_inv (n + length (fst run)) w' \<and> calls_post w w' \<and> (\<not> handled \<longrightarrow> w' = w \<and> thrown = None)"
proof -
  have same: "ev_inv (n + length (fst run)) w \<and> calls_post w w" using assms(1) by (auto intro: ev_inv_mono)
  consider "w' = w" "\<not> handled \<longrightarrow> thrown = None" | i ex t where "e = TimerEvent (Some (i, ex))" "wd_timers w i = Some t" "tm_isCallbackPending ex t"
      "finishTimer i ex now (run_calls (fst run) w) = Some w'" "handled"
    using assms(4) by (auto simp: sc_handleEvent_def split: event.splits option.splits if_splits)
  then show ?thesis
  proof cases
    case 2
    have r: "ev_inv (n + length (fst run)) (run_calls (fst run) w) \<and> calls_post w (run_calls (fst run) w)"
      by (rule run_calls_inv[OF assms(1,2)])
    have "execution_count i (ex_generation ex) (lp_queue (wd_loop (run_calls (fst run) w))) = 0"
      using calls_post_count[of w "run_calls (fst run) w"] r assms(3) 2(1-3) by (simp add: no_same_execution_def)
    from finishTimer_inv[OF conjunct1[OF r] 2(4) this] r 2(5) show ?thesis
      by (auto intro: calls_post_trans)
  qed (use same in simp)
qed

lemma run_handle_inv:
  assumes "ev_inv n w" "n + k \<le> u64_max" "length calls \<le> k"
  shows "ev_inv (n + k) (handleOptional thrown (run_calls calls w)) \<and> calls_post w (handleOptional thrown (run_calls calls w))"
proof -
  have "n + length calls \<le> u64_max" using assms(2,3) by linarith
  then have r: "ev_inv (n + length calls) (run_calls calls w) \<and> calls_post w (run_calls calls w)"
    by (rule run_calls_inv[OF assms(1)])
  have "calls_post (run_calls calls w) (handleOptional thrown (run_calls calls w))" by simp
  with r have "calls_post w (handleOptional thrown (run_calls calls w))" by (blast intro: calls_post_trans)
  with r show ?thesis using assms(3) by (auto intro: ev_inv_mono)
qed

lemma dispatch_inv:
  assumes "ev_inv n w" "n + k \<le> u64_max" "no_same_execution e w" "length (fst run) \<le> k"
    and "\<And>b calls thrown. foreign b e = Some (calls, thrown) \<Longrightarrow> length calls \<le> k"
  shows "dispatch foreign run now e bs w = Some w' \<Longrightarrow> ev_inv (n + k) w' \<and> calls_post w w'"
proof (induction bs)
  case Nil
  then show ?case using assms(1) by (auto intro: ev_inv_mono)
next
  case (Cons b bs)
  show ?case
  proof (cases "b = schedulerId")
    case True
    then obtain handled thrown w1 where h: "sc_handleEvent run now e w = Some (handled, thrown, w1)"
      "w' = handleOptional thrown w1 \<or> (\<not> handled \<and> dispatch foreign run now e bs w1 = Some w')"
      using Cons.prems by (auto split: option.splits prod.splits if_splits)
    have "n + length (fst run) \<le> u64_max" using assms(2,4) by linarith
    from sc_handleEvent_inv[OF assms(1) this assms(3) h(1)]
    have w1: "ev_inv (n + length (fst run)) w1" "calls_post w w1" "\<not> handled \<longrightarrow> w1 = w" by auto
    have "ev_inv (n + k) w1" using w1(1) assms(4) by (auto intro: ev_inv_mono)
    moreover have "calls_post w (handleOptional thrown w1)" using w1(2) by (auto intro: calls_post_trans)
    ultimately show ?thesis using h(2) w1(3) Cons.IH by auto
  next
    case False
    then show ?thesis
      using Cons run_handle_inv[OF assms(1,2)] assms(5) by (auto split: option.splits)
  qed
qed

lemma takeNextEvent_Some:
  "takeNextEvent w = Some (e, w1) \<longleftrightarrow>
   (\<exists>q. lp_queue (wd_loop w) = e # q \<and> w1 = w\<lparr>wd_loop := (wd_loop w)\<lparr>lp_queue := q\<rparr>\<rparr>)"
  by (auto simp: takeNextEvent_def split: list.splits)

lemma no_same_execution_head:
  assumes "ev_inv n w" "takeNextEvent w = Some (e, w1)"
  shows "no_same_execution e w1"
  unfolding no_same_execution_def
proof (intro allI impI)
  fix i ex t assume e: "e = TimerEvent (Some (i, ex))" "wd_timers w1 i = Some t" "tm_isCallbackPending ex t"
  have "timer_inv n (sc_timers (wd_sched w)) (lp_queue (wd_loop w)) i t"
    using assms e(2) by (auto simp: ev_inv_of_def takeNextEvent_Some)
  then show "execution_count i (ex_generation ex) (lp_queue (wd_loop w1)) = 0"
    using assms(2) e(1,3) by (auto simp: takeNextEvent_Some timer_inv_def tm_isCallbackPending_def)
qed

lemma process_inv:
  assumes "ev_inv n w" "n + k \<le> u64_max" "takeNextEvent w = Some (e, w1)" "length (fst run) \<le> k"
    and "\<And>b calls thrown. foreign b e = Some (calls, thrown) \<Longrightarrow> length calls \<le> k"
    and "processEvent foreign run now e w1 = Some w2"
  shows "ev_inv (n + k) w2 \<and> (e \<noteq> QuitEvent \<longrightarrow> calls_post w1 w2)"
proof -
  have w1: "ev_inv n w1" using assms(1,3) by (auto simp: takeNextEvent_Some dest: ev_inv_tail)
  have mono: "ev_inv (n + k) w1" using w1 by (auto intro: ev_inv_mono)
  show ?thesis
  proof (cases e)
    case QuitEvent
    then have "w2 = lp_stop (w1\<lparr>wd_loop := (wd_loop w1)\<lparr>lp_quitRequested := True, lp_quitEventQueued := True, lp_queue := []\<rparr>\<rparr>)"
      using assms(6) by (simp add: processEvent_def)
    moreover have "ev_inv_of (n + k) (wd_timers w1) (sc_timers (wd_sched w1)) []"
      using mono by (auto simp: ev_inv_of_def timer_inv_def)
    ultimately show ?thesis using QuitEvent by (simp add: lp_stop_def)
  next
    case (InvocationEvent c)
    then show ?thesis
      using assms(6) mono run_handle_inv[OF w1 assms(2,4), of "snd run"]
      by (auto simp: processEvent_def processInvocationEvent_def split: option.splits)
  qed (use assms(6) dispatch_inv[OF w1 assms(2) no_same_execution_head[OF assms(1,3)] assms(4,5)] in
      \<open>auto simp: processEvent_def\<close>)
qed

lemma ev_reach_inv: "ev_reach n w \<Longrightarrow> n \<le> u64_max \<Longrightarrow> ev_inv n w"
proof (induction rule: ev_reach.induct)
  case create
  then show ?case by (simp add: ev_inv_of_def wd_create_def sc_create_def lp_create_def)
next
  case (call n w now c)
  then show ?case using api_inv[of n w now c] by simp
next
  case (poll n w now)
  then show ?case by (simp add: sc_poll_inv)
next
  case (process n w e w1 foreign k run now w2)
  then have "ev_inv n w" by simp
  from process_inv[OF this process.prems process.hyps(2) process.hyps(4,3,5)] show ?case by simp
next
  case (destroy n w i)
  then have "ev_inv n w" by simp
  then show ?case using destroy.hyps(2) by (fastforce simp: ev_inv_of_def)
next
  case (register n w b w1)
  then show ?case
    by (auto simp: registerBackend_def registerBackendInternal_def sc_attach_def Let_def split: if_splits)
next
  case (take_error n w)
  then show ?case by (simp add: takeError_def split: list.splits)
next
  case (set_handler n w h)
  then show ?case by (simp add: setErrorHandler_def)
next
  case (begin_run n w w1)
  then show ?case by (auto simp: begin_run_def Let_def split: if_splits)
next
  case (end_run n w)
  then show ?case by (simp add: end_run_def)
qed

section \<open>Properties of the event loop\<close>

definition accepted :: "nat \<Rightarrow> 'c timer \<Rightarrow> 'c event \<Rightarrow> bool" where
  "accepted i t e \<longleftrightarrow> (case e of TimerEvent (Some (j, ex)) \<Rightarrow> j = i \<and> tm_isCallbackPending ex t | _ \<Rightarrow> False)"

lemma accepted_execution: "accepted i t e \<Longrightarrow> is_execution i (tm_generation t) e"
  by (auto simp: accepted_def tm_isCallbackPending_def split: event.splits option.splits)

text \<open>C4: In every state an event loop can reach (with fewer calls than a 64-bit counter counts), a
  waiting timer is known to the scheduler and has no acceptable execution in the queue, and
  every timer has at most one: no tick of a timer runs its callback twice and none is lost.\<close>

theorem timer_runs_once:
  assumes "ev_reach n w" "n \<le> u64_max" "wd_timers w i = Some t"
  shows "length (filter (accepted i t) (lp_queue (wd_loop w))) \<le> (if tm_active t then 0 else 1)
    \<and> (tm_active t \<longrightarrow> \<not> tm_pending t \<and> i \<in> set (sc_timers (wd_sched w)))"
proof -
  have t: "timer_inv n (sc_timers (wd_sched w)) (lp_queue (wd_loop w)) i t"
    using ev_reach_inv[OF assms(1,2)] assms(3) by (simp add: ev_inv_of_def)
  have "length (filter (accepted i t) q) \<le> execution_count i (tm_generation t) q" for q
    by (induction q) (auto dest: accepted_execution)
  from this[of "lp_queue (wd_loop w)"] t show ?thesis by (auto simp: timer_inv_def)
qed

text \<open>A concrete history for the witnesses: a timer is created and started with an interval of 100.\<close>

definition demo :: "(nat, nat) world" where
  "demo = api 0 (ApiStartFixedRate 7 100) (api 0 (ApiCreateTimer 7 5) wd_create)"

definition demo_timer :: "nat timer" where
  "demo_timer = tm_start FixedRate 100 0 (tm_create 5)"

lemma demo_reach: "ev_reach 2 demo"
proof -
  have "ev_reach (0 + 1 + 1) demo"
    unfolding demo_def by (intro ev_reach.call ev_reach.create)
  then show ?thesis by (simp add: numeral_2_eq_2)
qed

lemma demo_state:
  "wd_timers demo = [7 \<mapsto> demo_timer]"
  "wd_sched demo = \<lparr>sc_target = True, sc_delayed = [], sc_timers = [7]\<rparr>"
  "lp_queue (wd_loop demo) = []" "\<not> lp_quitRequested (wd_loop demo)" "\<not> lp_stopRequested (wd_loop demo)"
  "lp_backends (wd_loop demo) = [schedulerId]"
  by (simp_all add: demo_def wd_create_def lp_create_def sc_create_def getBackend_def noBackendId_def schedulerId_def
      ensureBackendsAttached_def registerBackendInternal_def sc_attach_def createTimer_def startTimer_def
      tm_startFixedRate_def scheduleTimer_def sc_schedule_def wants_wake_def tm_nextWake_def tm_start_def demo_timer_def)

lemma demo_facts:
  "wd_timers demo 7 = Some demo_timer"
  "tm_active demo_timer" "tm_next demo_timer = 100"
  "lp_queue (wd_loop demo) = []" "sc_timers (wd_sched demo) = [7]" "sc_delayed (wd_sched demo) = []"
  "sc_target (wd_sched demo)" "\<not> lp_quitRequested (wd_loop demo)" "lp_backends (wd_loop demo) = [schedulerId]"
  by (simp_all add: demo_state demo_timer_def tm_start_def tp_add_def)

lemma timer_runs_once_witness:
  "length (filter (accepted 7 demo_timer) (lp_queue (wd_loop demo))) \<le> 0
   \<and> 7 \<in> set (sc_timers (wd_sched demo))"
  using timer_runs_once[OF demo_reach _ demo_facts(1)] demo_facts(2) by simp

text \<open>Stopping or restarting a timer cancels every callback of it that is already queued: right
  after the call no queued execution of the timer is acceptable, and each carries an older
  generation than the timer.\<close>

lemma timer_stop_cancels:
  assumes "ev_reach n w" "n < u64_max" "wd_timers w i = Some t"
    and "call \<in> {ApiStopTimer i, ApiStartOnce i d}"
  shows "\<exists>t'. wd_timers (api now call w) i = Some t' \<and> \<not> tm_pending t'
    \<and> (\<forall>ex. TimerEvent (Some (i, ex)) \<in> set (lp_queue (wd_loop (api now call w))) \<longrightarrow>
         ex_generation ex < tm_generation t' \<and> \<not> tm_isCallbackPending ex t')"
proof -
  have inv: "ev_inv n w" using assms(1,2) by (intro ev_reach_inv) auto
  note g = fresh_generation[OF inv assms(3,2)]
  have old: "ex_generation ex \<le> tm_generation t" if "TimerEvent (Some (i, ex)) \<in> set (lp_queue (wd_loop w))" for ex
    using inv that assms(3) by (fastforce simp: ev_inv_of_def)
  define t' where "t' = (if call = ApiStopTimer i then tm_stop t else tm_start Once d now t)"
  have "wd_timers (api now call w) i = Some t'" "lp_queue (wd_loop (api now call w)) = lp_queue (wd_loop w)"
    "tm_generation t' = tm_generation t + 1" "\<not> tm_pending t'"
    using assms(3,4) g(1)
    by (auto simp: t'_def stopTimer_def startTimer_def tm_startOnce_def scheduleTimer_def tm_stop_def tm_start_def)
  then show ?thesis using old by (fastforce simp: tm_isCallbackPending_def)
qed

lemma timer_stop_cancels_witness:
  "\<exists>t'. wd_timers (api 50 (ApiStopTimer 7) demo) 7 = Some t' \<and> \<not> tm_pending t'"
  using timer_stop_cancels[OF demo_reach _ demo_facts(1), of "ApiStopTimer 7" 0 50] by auto



text \<open>The queue of the loop as a first-in first-out queue: what a step of the loop does to it.\<close>

inductive loop_step :: "('c, 'e) world \<Rightarrow> ('c, 'e) world \<Rightarrow> bool" where
  step_call: "loop_step w (api now c w)"
| step_poll: "loop_step w (sc_poll now w)"
| step_process: "takeNextEvent w = Some (e, w1) \<Longrightarrow> processEvent foreign run now e w1 = Some w2 \<Longrightarrow> loop_step w w2"

inductive_simps loop_step_iff: "loop_step w w'"


lemma startTimer_calls_post: "startTimer i start w = Inr w' \<Longrightarrow> calls_post w w'"
  by (auto simp: startTimer_def scheduleTimer_def sbind_Inr_iff split: option.splits)

lemma api_calls_post: "calls_post w (api now c w)"
proof -
  obtain w1 where g: "getBackend schedulerId w = Inr (schedulerId, w1)" "lp_queue (wd_loop w1) = lp_queue (wd_loop w)"
    "lp_quitRequested (wd_loop w1) = lp_quitRequested (wd_loop w)"
    "lp_quitEventQueued (wd_loop w1) = lp_quitEventQueued (wd_loop w)"
    by (rule getBackend_scheduler)
  have w1: "calls_post w w1" using g by simp
  show ?thesis
  proof (cases c)
    case (ApiInvokeAfter d cb)
    have "calls_post w1 (sc_invokeAfter now d cb w1)"
      by (auto simp: sc_invokeAfter_def posting post_calls_post[unfolded posting])
    then show ?thesis
      using ApiInvokeAfter w1
      by (auto simp: lp_invokeAfter_def g(1) posting post_calls_post[unfolded posting] intro: calls_post_trans)
  next
    case (ApiCreateTimer i cb)
    then show ?thesis using w1 by (auto simp: g(1) createTimer_def intro: calls_post_trans)
  next
    case ApiQuit
    then show ?thesis by (auto simp: lp_quit_def calls_post_def)
  qed (auto simp: post_calls_post invoke_def lp_stop_def stopTimer_def
      dest: startTimer_calls_post split: option.splits sum.splits)
qed

lemma run_calls_calls_post: "calls_post w (run_calls calls w)"
proof (induction calls arbitrary: w)
  case (Cons c calls)
  have "calls_post w (api (fst c) (snd c) w)" by (rule api_calls_post)
  then show ?case using Cons[of "api (fst c) (snd c) w"]
    by (auto simp: run_calls_def case_prod_unfold intro: calls_post_trans)
qed (simp add: run_calls_def)

lemma handle_calls_post: "calls_post w (handleOptional thrown (run_calls calls w))"
  by (rule calls_post_trans[OF run_calls_calls_post[of w calls]]) simp

lemma finishTimer_loop: "finishTimer i ex now w = Some w' \<Longrightarrow> wd_loop w' = wd_loop w"
  by (auto simp: finishTimer_def scheduleTimer_def Let_def split: option.splits prod.splits)

lemma sc_handleEvent_calls_post:
  assumes "sc_handleEvent run now e w = Some (handled, thrown, w')"
  shows "calls_post w w' \<and> (\<not> handled \<longrightarrow> w' = w)"
proof -
  have "w' = w \<or> (handled \<and> (\<exists>i ex. finishTimer i ex now (run_calls (fst run) w) = Some w'))"
    using assms by (fastforce simp: sc_handleEvent_def split: event.splits option.splits if_splits)
  then show ?thesis
  proof (elim disjE conjE exE)
    fix i ex assume "handled" "finishTimer i ex now (run_calls (fst run) w) = Some w'"
    moreover from this have "calls_post (run_calls (fst run) w) w'" by (simp add: finishTimer_loop)
    ultimately show ?thesis using run_calls_calls_post[of w "fst run"] by (auto intro: calls_post_trans)
  qed simp
qed

lemma dispatch_calls_post: "dispatch foreign run now e bs w = Some w' \<Longrightarrow> calls_post w w'"
proof (induction bs)
  case (Cons b bs)
  show ?case
  proof (cases "b = schedulerId")
    case True
    then obtain handled thrown w1 where h: "sc_handleEvent run now e w = Some (handled, thrown, w1)"
      "w' = handleOptional thrown w1 \<or> (\<not> handled \<and> dispatch foreign run now e bs w1 = Some w')"
      using Cons.prems by (auto split: option.splits prod.splits if_splits)
    have "calls_post w1 (handleOptional thrown w1)" by simp
    then show ?thesis
      using h(2) sc_handleEvent_calls_post[OF h(1)] Cons.IH by (auto intro: calls_post_trans)
  next
    case False
    then show ?thesis using Cons by (auto simp: handle_calls_post split: option.splits)
  qed
qed simp

lemma process_calls_post:
  assumes "processEvent foreign run now e w = Some w'" "e \<noteq> QuitEvent"
  shows "calls_post w w'"
  using assms
  by (auto simp: processEvent_def processInvocationEvent_def handle_calls_post dispatch_calls_post
      split: event.splits option.splits)

lemma foldl_posts_queue:
  "\<exists>es. lp_queue (wd_loop (sc_poll now w)) = lp_queue (wd_loop w) @ es
    \<and> (lp_quitRequested (wd_loop w) \<longrightarrow> es = [])"
  "lp_quitRequested (wd_loop (sc_poll now w)) = lp_quitRequested (wd_loop w)"
  "lp_quitEventQueued (wd_loop (sc_poll now w)) = lp_quitEventQueued (wd_loop w)"
proof -
  obtain dueTimers nextTimers timers where s: "scan_timers now (sc_timers (wd_sched w)) (wd_timers w) = (dueTimers, nextTimers, timers)"
    by (metis prod_cases3)
  define w1 where "w1 = w\<lparr>wd_timers := timers, wd_sched := (wd_sched w)\<lparr>sc_delayed :=
      filter (\<lambda>(due, callback). \<not> due \<le> now) (sc_delayed (wd_sched w)), sc_timers := nextTimers\<rparr>\<rparr>"
  define inv where "inv = filter (\<lambda>(due, callback). due \<le> now) (sc_delayed (wd_sched w))"
  define w2 where "w2 = foldl (\<lambda>w' x. post (InvocationEvent (Some (snd x))) w') w1 inv"
  have p: "sc_poll now w = (if \<not> sc_target (wd_sched w) then w1 else foldl (\<lambda>w' i. post (TimerEvent (Some i)) w') w2 dueTimers)"
    by (simp add: sc_poll_def Let_def s w1_def w2_def inv_def invoke_def case_prod_unfold)
  note a = foldl_post[of w1 "\<lambda>x. InvocationEvent (Some (snd x))" inv, folded w2_def]
  note b = foldl_post[of w2 "\<lambda>i. TimerEvent (Some i)" dueTimers]
  have l: "wd_loop w1 = wd_loop w" by (simp add: w1_def)
  show "\<exists>es. lp_queue (wd_loop (sc_poll now w)) = lp_queue (wd_loop w) @ es \<and> (lp_quitRequested (wd_loop w) \<longrightarrow> es = [])"
    using a b by (auto simp: p l same_scheduling_def)
  show "lp_quitRequested (wd_loop (sc_poll now w)) = lp_quitRequested (wd_loop w)"
    "lp_quitEventQueued (wd_loop (sc_poll now w)) = lp_quitEventQueued (wd_loop w)"
    using a b by (auto simp: p l same_scheduling_def)
qed

text \<open>Once a quit is requested and its event queued, no step adds an event: the queue only loses
  events from its front and the request stays, so the work left is what was queued before.\<close>

theorem quit_drains_queue:
  assumes "loop_step w w'" "lp_quitRequested (wd_loop w)" "lp_quitEventQueued (wd_loop w)"
  shows "(\<exists>gone. lp_queue (wd_loop w) = gone @ lp_queue (wd_loop w'))
    \<and> lp_quitRequested (wd_loop w') \<and> lp_quitEventQueued (wd_loop w')"
proof -
  consider (call) now c where "w' = api now c w" | (poll) now where "w' = sc_poll now w"
    | (process) e w1 foreign run now where "takeNextEvent w = Some (e, w1)" "processEvent foreign run now e w1 = Some w'"
    using assms(1) unfolding loop_step_iff by blast
  then show ?thesis
  proof cases
  case (call now c)
  then show ?thesis using api_calls_post[of w now c] assms by (auto simp: calls_post_def)
next
  case (poll now)
  then show ?thesis using foldl_posts_queue[of now w] assms by auto
next
  case (process e w1 foreign run now)
  then obtain q where q: "lp_queue (wd_loop w) = e # q" "w1 = w\<lparr>wd_loop := (wd_loop w)\<lparr>lp_queue := q\<rparr>\<rparr>"
    by (auto simp: takeNextEvent_Some)
  show ?thesis
  proof (cases "e = QuitEvent")
    case True
    then show ?thesis using process q by (auto simp: processEvent_def lp_stop_def)
  next
    case False
    from process_calls_post[OF process(2) this] show ?thesis
      using q assms(2,3) by (auto simp: calls_post_def)
  qed
  qed
qed

lemma quit_drains_queue_witness:
  "\<exists>gone. lp_queue (wd_loop (api 0 ApiQuit (wd_create :: (nat, nat) world)))
    = gone @ lp_queue (wd_loop (api 1 (ApiInvoke 5) (api 0 ApiQuit (wd_create :: (nat, nat) world))))"
proof -
  let ?w = "api 0 ApiQuit (wd_create :: (nat, nat) world)"
  have "lp_quitRequested (wd_loop ?w)" "lp_quitEventQueued (wd_loop ?w)" by code_simp+
  from quit_drains_queue[OF step_call[of ?w 1 "ApiInvoke 5"] this] show ?thesis by blast
qed

text \<open>
  A history of the loop: calls, polls and processed events in any order. It records the events
  processed, in the order they were taken, and the events added: those that stand in the queue
  after a step beyond the ones that were there before, less the one a processing step takes.
\<close>

definition added :: "nat \<Rightarrow> ('c, 'e) world \<Rightarrow> ('c, 'e) world \<Rightarrow> 'c event list" where
  "added taken w w' = drop (length (lp_queue (wd_loop w)) - taken) (lp_queue (wd_loop w'))"

inductive loop_history ::
  "('c, 'e) world \<Rightarrow> 'c event list \<Rightarrow> 'c event list \<Rightarrow> ('c, 'e) world \<Rightarrow> bool" where
  history_start: "loop_history w [] [] w"
| history_call: "loop_history w0 posted processed w \<Longrightarrow> w' = api now c w \<Longrightarrow>
    loop_history w0 (posted @ added 0 w w') processed w'"
| history_poll: "loop_history w0 posted processed w \<Longrightarrow> w' = sc_poll now w \<Longrightarrow>
    loop_history w0 (posted @ added 0 w w') processed w'"
| history_process: "loop_history w0 posted processed w \<Longrightarrow> takeNextEvent w = Some (e, w1) \<Longrightarrow>
    processEvent foreign run now e w1 = Some w' \<Longrightarrow>
    loop_history w0 (posted @ added 1 w w') (processed @ [e]) w'"

text \<open>The state after a processed quit event: nothing is queued and nothing is accepted.\<close>

definition quit_done :: "('c, 'e) world \<Rightarrow> bool" where
  "quit_done w \<longleftrightarrow> lp_queue (wd_loop w) = [] \<and> lp_quitRequested (wd_loop w) \<and> lp_quitEventQueued (wd_loop w)"

lemma quit_done_step: "loop_step w w' \<Longrightarrow> quit_done w \<Longrightarrow> quit_done w'"
  using quit_drains_queue[of w w'] by (auto simp: quit_done_def)

lemma added_nothing: "lp_queue (wd_loop w') = [] \<Longrightarrow> added k w w' = []"
  by (simp add: added_def)

lemma added_call: "lp_queue (wd_loop (api now c w)) = lp_queue (wd_loop w) @ added 0 w (api now c w)"
  using api_calls_post[of w now c] by (auto simp: calls_post_def added_def)

lemma added_poll: "lp_queue (wd_loop (sc_poll now w)) = lp_queue (wd_loop w) @ added 0 w (sc_poll now w)"
  using foldl_posts_queue(1)[of now w] by (auto simp: added_def)

lemma added_process:
  assumes "takeNextEvent w = Some (e, w1)" "processEvent foreign run now e w1 = Some w'" "e \<noteq> QuitEvent"
  shows "lp_queue (wd_loop w) @ added 1 w w' = e # lp_queue (wd_loop w')"
proof -
  obtain q where q: "lp_queue (wd_loop w) = e # q" "lp_queue (wd_loop w1) = q"
    using assms(1) by (auto simp: takeNextEvent_Some)
  obtain new where "lp_queue (wd_loop w') = q @ new"
    using process_calls_post[OF assms(2,3)] q(2) by (auto simp: calls_post_def)
  then show ?thesis using q(1) by (simp add: added_def)
qed

lemma processed_quit:
  assumes "takeNextEvent w = Some (QuitEvent, w1)" "processEvent foreign run now QuitEvent w1 = Some w'"
  shows "quit_done w' \<and> (\<exists>q. lp_queue (wd_loop w) = QuitEvent # q)"
  using assms by (auto simp: takeNextEvent_Some processEvent_def lp_stop_def quit_done_def)

text \<open>C18: The loop's queue is first-in first-out over every history of calls, polls and processed
  events: the events processed, followed by those still queued, are exactly the events queued at
  the start followed by the events added, in this order. Processing a quit event is the only
  exception: it is the last event processed, the events before it were processed in order, the
  rest is discarded and the queue stays empty with the quit requested.\<close>

theorem event_queue_fifo:
  assumes "loop_history w posted processed w'"
  shows "if QuitEvent \<in> set processed
    then (\<exists>before rest. processed = before @ [QuitEvent] \<and> QuitEvent \<notin> set before
        \<and> lp_queue (wd_loop w) @ posted = before @ QuitEvent # rest)
      \<and> lp_queue (wd_loop w') = [] \<and> lp_quitRequested (wd_loop w')
    else lp_queue (wd_loop w) @ posted = processed @ lp_queue (wd_loop w')"
proof -
  have "if QuitEvent \<in> set processed
    then (\<exists>before rest. processed = before @ [QuitEvent] \<and> QuitEvent \<notin> set before
        \<and> lp_queue (wd_loop w) @ posted = before @ QuitEvent # rest) \<and> quit_done w'
    else lp_queue (wd_loop w) @ posted = processed @ lp_queue (wd_loop w')"
    using assms
  proof induction
    case (history_call w0 posted processed w w' now c)
    show ?case
    proof (cases "QuitEvent \<in> set processed")
      case True
      then have "quit_done w'" using history_call quit_done_step[OF step_call[of w now c]] by simp
      then show ?thesis using history_call.IH True added_nothing[of w' 0 w] by (simp add: quit_done_def)
    next
      case False
      then show ?thesis using history_call.IH added_call[of now c w] history_call.hyps(2) by simp
    qed
  next
    case (history_poll w0 posted processed w w' now)
    show ?case
    proof (cases "QuitEvent \<in> set processed")
      case True
      then have "quit_done w'" using history_poll quit_done_step[OF step_poll[of w now]] by simp
      then show ?thesis using history_poll.IH True added_nothing[of w' 0 w] by (simp add: quit_done_def)
    next
      case False
      then show ?thesis using history_poll.IH added_poll[of now w] history_poll.hyps(2) by simp
    qed
  next
    case (history_process w0 posted processed w e w1 foreign run now w')
    have "QuitEvent \<notin> set processed"
      using history_process.IH history_process.hyps(2) by (auto simp: quit_done_def takeNextEvent_def)
    then have q: "lp_queue (wd_loop w0) @ posted = processed @ lp_queue (wd_loop w)" "QuitEvent \<notin> set processed"
      using history_process.IH by simp_all
    show ?case
    proof (cases "e = QuitEvent")
      case True
      then have d: "quit_done w'" "\<exists>q. lp_queue (wd_loop w) = QuitEvent # q"
        using processed_quit history_process.hyps(2,3) by blast+
      then have "added 1 w w' = []" by (simp add: added_nothing quit_done_def)
      then show ?thesis using True d q by auto
    next
      case False
      have "(lp_queue (wd_loop w0) @ posted) @ added 1 w w' = processed @ e # lp_queue (wd_loop w')"
        unfolding q(1) append_assoc added_process[OF history_process.hyps(2,3) False] ..
      then show ?thesis using False q(2) by simp
    qed
  qed simp
  then show ?thesis by (auto simp: quit_done_def split: if_splits)
qed

lemma event_queue_fifo_witness:
  "\<exists>w'. loop_history (wd_create :: (nat, nat) world)
       [InvocationEvent (Some 1), InvocationEvent (Some 2)] [InvocationEvent (Some 1)] w'
     \<and> lp_queue (wd_loop w') = [InvocationEvent (Some 2)]"
proof -
  let ?w0 = "wd_create :: (nat, nat) world"
  let ?w1 = "api 0 (ApiInvoke 1) ?w0" and ?w2 = "api 0 (ApiInvoke 2) (api 0 (ApiInvoke 1) ?w0)"
  define w' :: "(nat, nat) world" where "w' = ?w2\<lparr>wd_loop := (wd_loop ?w2)\<lparr>lp_queue := [InvocationEvent (Some 2)]\<rparr>\<rparr>"
  have q: "lp_queue (wd_loop ?w0) = []" "lp_queue (wd_loop ?w1) = [InvocationEvent (Some 1)]"
    "lp_queue (wd_loop ?w2) = [InvocationEvent (Some 1), InvocationEvent (Some 2)]" by code_simp+
  have t: "takeNextEvent ?w2 = Some (InvocationEvent (Some 1), w')"
    using q(3) by (simp add: takeNextEvent_def w'_def)
  have p: "processEvent (\<lambda>_ _. None) ([], None) 0 (InvocationEvent (Some 1)) w' = Some w'"
    by (simp add: processEvent_def processInvocationEvent_def run_calls_def handleOptional_def)
  have a: "added 0 ?w0 ?w1 = [InvocationEvent (Some 1)]" "added 0 ?w1 ?w2 = [InvocationEvent (Some 2)]"
    "added 1 ?w2 w' = []" using q by (simp_all add: added_def w'_def)
  have h: "loop_history ?w0 [InvocationEvent (Some 1), InvocationEvent (Some 2)] [InvocationEvent (Some 1)] w'"
    using history_process[OF history_call[OF history_call[OF history_start[of ?w0] refl[of ?w1]] refl[of ?w2]] t p] a by simp
  then show ?thesis using event_queue_fifo[OF h] q(1) by auto
qed

section \<open>The waiting time\<close>

lemma foldl_min_wake:
  "(foldl (\<lambda>r x. min_wake r (f x)) init xs = None \<longleftrightarrow> init = None \<and> (\<forall>x \<in> set xs. f x = None))
   \<and> (\<forall>m. foldl (\<lambda>r x. min_wake r (f x)) init xs = Some m \<longrightarrow>
        (\<forall>a. init = Some a \<longrightarrow> m \<le> a) \<and> (\<forall>x \<in> set xs. \<forall>a. f x = Some a \<longrightarrow> m \<le> a))"
proof (induction xs arbitrary: init)
  case (Cons x xs)
  show ?case
    using Cons.IH[of "min_wake init (f x)"] by (auto simp: min_wake_def split: option.splits if_splits)
qed simp

lemma sc_nextWakeTime_min:
  "sc_nextWakeTime T s = None \<longleftrightarrow> sc_delayed s = [] \<and> (\<forall>i \<in> set (sc_timers s). \<not> wants_wake T i)"
  "sc_nextWakeTime T s = Some m \<Longrightarrow> (due, cb) \<in> set (sc_delayed s) \<Longrightarrow> m \<le> due"
  "sc_nextWakeTime T s = Some m \<Longrightarrow> i \<in> set (sc_timers s) \<Longrightarrow> T i = Some t \<Longrightarrow> tm_active t \<Longrightarrow> m \<le> tm_next t"
proof -
  define f where "f = (\<lambda>i. case T i of None \<Rightarrow> None | Some t \<Rightarrow> tm_nextWake t)"
  define d where "d = foldl (\<lambda>r (x :: int \<times> 'a). min_wake r (Some (fst x))) None (sc_delayed s)"
  have e: "sc_nextWakeTime T s = foldl (\<lambda>r i. min_wake r (f i)) d (sc_timers s)"
    by (simp add: sc_nextWakeTime_def d_def f_def case_prod_unfold)
  note 1 = foldl_min_wake[of "\<lambda>x. Some (fst x)" None "sc_delayed s", folded d_def]
  note 2 = foldl_min_wake[of f d "sc_timers s", folded e]
  have f: "f i = None \<longleftrightarrow> \<not> wants_wake T i" for i
    by (auto simp: f_def wants_wake_def split: option.splits)
  show "sc_nextWakeTime T s = None \<longleftrightarrow> sc_delayed s = [] \<and> (\<forall>i \<in> set (sc_timers s). \<not> wants_wake T i)"
    using 1 2 f by (cases "sc_delayed s") auto
  assume m: "sc_nextWakeTime T s = Some m"
  { assume i: "i \<in> set (sc_timers s)" "T i = Some t" "tm_active t"
    then have "f i = Some (tm_next t)" by (simp add: f_def tm_nextWake_def)
    with 2 m i(1) show "m \<le> tm_next t" by blast }
  { assume due: "(due, cb) \<in> set (sc_delayed s)"
    then obtain x where x: "d = Some x" using 1 by (cases d) auto
    then have "x \<le> due" using 1 due by fastforce
    moreover have "m \<le> x" using 2 m x by blast
    ultimately show "m \<le> due" by simp }
qed

text \<open>C17: A turn of the loop never sleeps past scheduled work: it waits without a limit only when no
  delayed invocation and no timer waits, and a limited wait ends no later than the earliest of
  them (for wake times in the range of the clock).\<close>

theorem loop_never_oversleeps:
  fixes wake :: "nat \<Rightarrow> int option"
  assumes "ev_reach n w" "n \<le> u64_max" "schedulerId \<in> set (lp_backends (wd_loop w))"
    and "d = turn_decision maximumEnd pollNativeOnce nativeDone now waitStart (nextBackendWakeTime wake w) w"
    and "0 \<le> waitStart" "waitStart < 9223372036854775808"
    and "\<And>e. nextBackendWakeTime wake w = Some e \<or> maximumEnd = Some e \<Longrightarrow> 0 \<le> e \<and> e < 9223372036854775808"
  shows "(d = WaitForever \<longrightarrow> maximumEnd = None \<and> sc_delayed (wd_sched w) = [] \<and> (\<forall>i t. wd_timers w i = Some t \<longrightarrow> \<not> tm_active t))
    \<and> (\<forall>x. d = WaitFor x \<longrightarrow> 0 < x \<and> (\<forall>due cb. (due, cb) \<in> set (sc_delayed (wd_sched w)) \<longrightarrow> waitStart + x \<le> due)
         \<and> (\<forall>i t. wd_timers w i = Some t \<longrightarrow> tm_active t \<longrightarrow> waitStart + x \<le> tm_next t))"
proof -
  let ?T = "wd_timers w" and ?s = "wd_sched w"
  let ?f = "\<lambda>b. if b = schedulerId then sc_nextWakeTime ?T ?s else wake b"
  define b where "b = nextBackendWakeTime wake w"
  note m = foldl_min_wake[of ?f None "lp_backends (wd_loop w)", folded nextBackendWakeTime_def b_def]
  have known: "i \<in> set (sc_timers ?s)" if "?T i = Some t" "tm_active t" for i t
    using ev_reach_inv[OF assms(1,2)] that by (simp add: ev_inv_of_def timer_inv_def)
  have none: "sc_nextWakeTime ?T ?s = None" if "b = None" using m that assms(3) by auto
  have le: "e \<le> x" if "b = Some e" "sc_nextWakeTime ?T ?s = Some x" for e x using m that assms(3) by auto
  have some: "sc_nextWakeTime ?T ?s \<noteq> None \<Longrightarrow> b \<noteq> None" by (metis none)
  define waitEnd where "waitEnd = (case maximumEnd of None \<Rightarrow> b
    | Some m \<Rightarrow> (case b of None \<Rightarrow> Some m | Some b \<Rightarrow> if m < b then Some m else Some b))"
  have we: "waitEnd = None \<longleftrightarrow> maximumEnd = None \<and> b = None" "\<And>e x. waitEnd = Some e \<Longrightarrow> b = Some x \<Longrightarrow> e \<le> x"
    "\<And>e. waitEnd = Some e \<Longrightarrow> b = Some e \<or> maximumEnd = Some e"
    by (auto simp: waitEnd_def split: option.splits if_splits)
  have dec: "d = WaitForever \<Longrightarrow> waitEnd = None" "\<And>x. d = WaitFor x \<Longrightarrow> \<exists>e. waitEnd = Some e \<and> x = tp_deltaTo waitStart e \<and> 0 < x"
    using assms(4) by (auto simp: turn_decision_def Let_def waitEnd_def b_def split: option.splits if_splits)
  show ?thesis
  proof (intro conjI allI impI)
    assume "d = WaitForever"
    then have "maximumEnd = None" "b = None" using dec(1) we(1) by auto
    then show "maximumEnd = None" "sc_delayed ?s = []" using none sc_nextWakeTime_min(1) by auto
    fix i t assume t: "?T i = Some t"
    show "\<not> tm_active t"
      using none[OF \<open>b = None\<close>] sc_nextWakeTime_min(1)[of ?T ?s] known[OF t] t by (auto simp: wants_wake_active)
  next
    fix x assume "d = WaitFor x"
    then obtain e where e: "waitEnd = Some e" "x = tp_deltaTo waitStart e" "0 < x" using dec(2) by blast
    have "0 \<le> e \<and> e < 9223372036854775808" using we(3)[OF e(1)] assms(7) by (auto simp: b_def)
    then have x: "waitStart + x = e" using e(2) assms(5,6) by (simp add: tp_deltaTo_def)
    show "0 < x" by (rule e(3))
    have early: "e \<le> y" if "sc_nextWakeTime ?T ?s = Some z" "z \<le> y" for y z
    proof -
      have "sc_nextWakeTime ?T ?s \<noteq> None" using that(1) by simp
      from some[OF this] obtain v where "b = Some v" by blast
      then show ?thesis using we(2)[OF e(1)] le that by fastforce
    qed
    { fix due cb assume a: "(due, cb) \<in> set (sc_delayed ?s)"
      then have "sc_nextWakeTime ?T ?s \<noteq> None" using sc_nextWakeTime_min(1)[of ?T ?s] by auto
      then obtain z where "sc_nextWakeTime ?T ?s = Some z" by blast
      then show "waitStart + x \<le> due" using early sc_nextWakeTime_min(2)[of ?T ?s] a unfolding x by blast }
    { fix i t assume a: "?T i = Some t" "tm_active t"
      then have "sc_nextWakeTime ?T ?s \<noteq> None"
        using sc_nextWakeTime_min(1)[of ?T ?s] known[OF a] by (auto simp: wants_wake_active)
      then obtain z where "sc_nextWakeTime ?T ?s = Some z" by blast
      then show "waitStart + x \<le> tm_next t"
        using early sc_nextWakeTime_min(3)[of ?T ?s] known[OF a] a unfolding x by blast }
  qed
qed

lemma loop_never_oversleeps_witness:
  "turn_decision None False False 0 10 (nextBackendWakeTime (\<lambda>_. None) demo) demo = WaitFor 90
   \<and> wd_timers demo 7 = Some demo_timer \<and> 10 + 90 \<le> tm_next demo_timer"
proof -
  have b: "nextBackendWakeTime (\<lambda>_. None) demo = Some 100"
    using demo_facts(2,3)
    by (simp add: nextBackendWakeTime_def sc_nextWakeTime_def demo_facts(1,5,6,9) min_wake_def tm_nextWake_def)
  have d: "turn_decision None False False 0 10 (nextBackendWakeTime (\<lambda>_. None) demo) demo = WaitFor 90"
    unfolding b by (simp add: turn_decision_def demo_state tp_deltaTo_def)
  from loop_never_oversleeps[OF demo_reach _ _ refl, of "10" "\<lambda>_. None" None False False 0] d b demo_facts(9)
  have "10 + 90 \<le> tm_next demo_timer" using demo_facts(1,2) by simp
  then show ?thesis using d demo_facts(1) by simp
qed

end
