(* ===== verification/Calendar.thy ===== *)
theory Calendar
  imports Prelude
begin

text \<open>
  The calendar of \<open>src/erbsland/time\<close>: the clamped calendar parts (\<open>Year\<close>, \<open>Month\<close>, \<open>Day\<close>,
  \<open>DayOfYear\<close>, \<open>DayOfWeek\<close>) with their algorithms and the class \<open>Date\<close>, which stores the number
  of days since 0000-01-01 and -1 for an invalid date. Parts and amounts are integers: a part is
  clamped when it is constructed, the amounts \<open>Days\<close>, \<open>Months\<close> and \<open>Years\<close> are saturating 64-bit
  values, and the model applies \<open>sat64\<close> where an operand comes from the caller. The lemmas relate
  the day counter to the calendar: years and days of the year, months and days of the month.
\<close>

section \<open>Calendar parts\<close>

definition mkYear :: "int \<Rightarrow> int" where "mkYear v = clamp 0 9999 v"
definition mkMonth :: "int \<Rightarrow> int" where "mkMonth v = clamp 1 12 v"
definition mkDay :: "int \<Rightarrow> int" where "mkDay v = clamp 1 31 v"
definition mkDayOfYear :: "int \<Rightarrow> int" where "mkDayOfYear v = clamp 1 366 v"
definition mkDayOfWeek :: "int \<Rightarrow> int" where "mkDayOfWeek v = clamp 0 6 v"

text \<open>The zero-based amount of a part with the smallest value \<open>mn\<close>, and back.\<close>

definition toAmount :: "int \<Rightarrow> int \<Rightarrow> int" where "toAmount mn v = v - mn"

definition yearFromAmount :: "int \<Rightarrow> int" where "yearFromAmount a = mkYear (sat64 (a + 0))"
definition monthFromAmount :: "int \<Rightarrow> int" where "monthFromAmount a = mkMonth (sat64 (a + 1))"
definition dayFromAmount :: "int \<Rightarrow> int" where "dayFromAmount a = mkDay (sat64 (a + 1))"
definition dayOfYearFromAmount :: "int \<Rightarrow> int" where
  "dayOfYearFromAmount a = mkDayOfYear (sat64 (a + 1))"

record date_parts =
  dp_year :: int
  dp_month :: int
  dp_day :: int

record year_month =
  ym_year :: int
  ym_month :: int

section \<open>\<open>Year\<close>\<close>

definition cDaysPer400Years :: int where "cDaysPer400Years = 146097"
definition cDaysPer100Years :: int where "cDaysPer100Years = 36524"
definition cDaysPer4Years :: int where "cDaysPer4Years = 1461"
definition cLastValidDay :: int where "cLastValidDay = 3652424"

definition isLeapYear :: "int \<Rightarrow> bool" where
  "isLeapYear y \<longleftrightarrow> (y mod 4 = 0 \<and> y mod 100 \<noteq> 0) \<or> y mod 400 = 0"

definition yearDayCount :: "int \<Rightarrow> int" where
  "yearDayCount y = (if isLeapYear y then 366 else 365)"

definition daysSinceEpoch :: "int \<Rightarrow> int" where
  "daysSinceEpoch y =
     (let d = cDaysPer400Years * (y div 400); y = y mod 400;
          d = (if y > 0 then d + 1 else d);
          d = d + cDaysPer100Years * (y div 100); y = y mod 100;
          d = (if y > 0 then d - 1 else d);
          d = d + cDaysPer4Years * (y div 4); y = y mod 4;
          d = (if y > 0 then d + 1 else d)
      in d + 365 * y)"

definition yearHasNext :: "int \<Rightarrow> bool" where "yearHasNext y \<longleftrightarrow> y \<noteq> 9999"
definition yearHasPrevious :: "int \<Rightarrow> bool" where "yearHasPrevious y \<longleftrightarrow> y \<noteq> 0"
definition yearNext :: "int \<Rightarrow> int" where
  "yearNext y = (if yearHasNext y then mkYear (y + 1) else y)"
definition yearPrevious :: "int \<Rightarrow> int" where
  "yearPrevious y = (if yearHasPrevious y then mkYear (y - 1) else y)"

text \<open>\<open>Year::extractFromEpoch\<close>: the year and the zero-based day of the year.\<close>

definition extractFromEpoch :: "int \<Rightarrow> int \<times> int" where
  "extractFromEpoch days =
     (if days \<le> 0 then (mkYear 0, 0)
      else if days \<ge> cLastValidDay then (mkYear 9999, 365)
      else let years400 = days div cDaysPer400Years; days = days mod cDaysPer400Years in
        if days < 366 then (yearFromAmount (years400 * 400), days)
        else if years400 \<ge> 25 then (mkYear 9999, 365)
        else let days = days - 1;
                 years100 = days div cDaysPer100Years; days = days mod cDaysPer100Years in
          if days < 365 then (yearFromAmount (years400 * 400 + years100 * 100), days)
          else let days = days + 1;
                   years4 = days div cDaysPer4Years; days = days mod cDaysPer4Years;
                   year = years400 * 400 + years100 * 100 + years4 * 4 in
            if days \<ge> 366
            then (yearFromAmount (year + (days - 1) div 365), (days - 1) mod 365)
            else (yearFromAmount year, days))"

definition startDayArray :: "int \<Rightarrow> int list" where
  "startDayArray y =
     (if isLeapYear y
      then [0, 31, 60, 91, 121, 152, 182, 213, 244, 274, 305, 335, 366]
      else [0, 31, 59, 90, 120, 151, 181, 212, 243, 273, 304, 334, 365])"

definition daysBeforeMonth :: "int \<Rightarrow> int \<Rightarrow> int" where
  "daysBeforeMonth y m = startDayArray y ! nat (toAmount 1 m)"

text \<open>\<open>std::ranges::upper_bound\<close> on a sorted range: the number of elements that are not greater.\<close>

definition upper_bound :: "int list \<Rightarrow> int \<Rightarrow> nat" where
  "upper_bound xs v = length (takeWhile (\<lambda>x. \<not> v < x) xs)"

definition monthOfDay :: "int \<Rightarrow> int \<Rightarrow> int" where
  "monthOfDay y dayOfYear =
     monthFromAmount (int (upper_bound (startDayArray y) (toAmount 1 dayOfYear)) - 1)"

section \<open>\<open>Month\<close>\<close>

definition monthDayCount :: "int \<Rightarrow> int \<Rightarrow> int" where
  "monthDayCount m y =
     [0, 31, 28, 31, 30, 31, 30, 31, 31, 30, 31, 30, 31] ! nat m
       + (if m = 2 \<and> isLeapYear y then 1 else 0)"

definition monthLastDay :: "int \<Rightarrow> int \<Rightarrow> int" where
  "monthLastDay m y = dayFromAmount (monthDayCount m y - 1)"

definition firstDayOfYear :: "int \<Rightarrow> int \<Rightarrow> int" where
  "firstDayOfYear m y = dayOfYearFromAmount (daysBeforeMonth y m)"

definition lastDayOfYear :: "int \<Rightarrow> int \<Rightarrow> int" where
  "lastDayOfYear m y = dayOfYearFromAmount (daysBeforeMonth y m + monthDayCount m y - 1)"

definition minimumDayCount :: "int \<Rightarrow> int" where
  "minimumDayCount m =
     (if m = 2 then 28 else if m = 4 \<or> m = 6 \<or> m = 9 \<or> m = 11 then 30 else 31)"

definition maximumDayCount :: "int \<Rightarrow> int" where
  "maximumDayCount m = (if m \<noteq> 2 then minimumDayCount m else 29)"

definition monthHasNext :: "int \<Rightarrow> int \<Rightarrow> bool" where
  "monthHasNext m y \<longleftrightarrow> m \<noteq> 12 \<or> yearHasNext y"

definition monthHasPrevious :: "int \<Rightarrow> int \<Rightarrow> bool" where
  "monthHasPrevious m y \<longleftrightarrow> m \<noteq> 1 \<or> yearHasPrevious y"

definition monthNext :: "int \<Rightarrow> int \<Rightarrow> year_month" where
  "monthNext m y =
     (if m \<noteq> 12 then \<lparr>ym_year = y, ym_month = mkMonth (m + 1)\<rparr>
      else if yearHasNext y then \<lparr>ym_year = yearNext y, ym_month = mkMonth 1\<rparr>
      else \<lparr>ym_year = y, ym_month = m\<rparr>)"

definition monthPrevious :: "int \<Rightarrow> int \<Rightarrow> year_month" where
  "monthPrevious m y =
     (if m \<noteq> 1 then \<lparr>ym_year = y, ym_month = mkMonth (m - 1)\<rparr>
      else if yearHasPrevious y then \<lparr>ym_year = yearPrevious y, ym_month = mkMonth 12\<rparr>
      else \<lparr>ym_year = y, ym_month = m\<rparr>)"

definition extractMonthAndDay :: "int \<Rightarrow> int \<Rightarrow> int \<times> int" where
  "extractMonthAndDay y days =
     (let month = monthOfDay y (dayOfYearFromAmount days)
      in (month, dayFromAmount (days - daysBeforeMonth y month)))"

section \<open>\<open>Day\<close>, \<open>DayOfYear\<close> and \<open>DayOfWeek\<close>\<close>

definition dayExists :: "int \<Rightarrow> int \<Rightarrow> int \<Rightarrow> bool" where
  "dayExists d y m \<longleftrightarrow> toAmount 1 d < monthDayCount m y"

definition dayIsLast :: "int \<Rightarrow> int \<Rightarrow> int \<Rightarrow> bool" where
  "dayIsLast d y m \<longleftrightarrow> toAmount 1 d = monthDayCount m y - 1"

definition dayHasNext :: "int \<Rightarrow> int \<Rightarrow> int \<Rightarrow> bool" where
  "dayHasNext d y m \<longleftrightarrow> \<not> (y = 9999 \<and> m = 12 \<and> dayIsLast d y m)"

definition dayHasPrevious :: "int \<Rightarrow> int \<Rightarrow> int \<Rightarrow> bool" where
  "dayHasPrevious d y m \<longleftrightarrow> \<not> (y = 0 \<and> m = 1 \<and> d = 1)"

definition dayLast :: "int \<Rightarrow> int \<Rightarrow> int" where
  "dayLast y m = dayFromAmount (monthDayCount m y - 1)"

definition dayClamped :: "int \<Rightarrow> int \<Rightarrow> int \<Rightarrow> int" where
  "dayClamped d y m = (let lastValidDay = dayLast y m in if d \<le> lastValidDay then d else lastValidDay)"

definition dayNext :: "int \<Rightarrow> int \<Rightarrow> int \<Rightarrow> date_parts" where
  "dayNext d y m =
     (if \<not> dayIsLast d y m then \<lparr>dp_year = y, dp_month = m, dp_day = mkDay (d + 1)\<rparr>
      else if monthHasNext m y
      then \<lparr>dp_year = ym_year (monthNext m y), dp_month = ym_month (monthNext m y), dp_day = mkDay 1\<rparr>
      else \<lparr>dp_year = y, dp_month = m, dp_day = d\<rparr>)"

definition dayPrevious :: "int \<Rightarrow> int \<Rightarrow> int \<Rightarrow> date_parts" where
  "dayPrevious d y m =
     (if d \<noteq> 1 then \<lparr>dp_year = y, dp_month = m, dp_day = mkDay (d - 1)\<rparr>
      else if monthHasPrevious m y
      then let p = monthPrevious m y in
        \<lparr>dp_year = ym_year p, dp_month = ym_month p, dp_day = dayLast (ym_year p) (ym_month p)\<rparr>
      else \<lparr>dp_year = y, dp_month = m, dp_day = d\<rparr>)"

definition dayOfYearLast :: "int \<Rightarrow> int" where
  "dayOfYearLast y = (if isLeapYear y then 366 else 365)"

definition dayOfYearIsLast :: "int \<Rightarrow> int \<Rightarrow> bool" where
  "dayOfYearIsLast d y \<longleftrightarrow> d = dayOfYearLast y"

definition daysToNext :: "int \<Rightarrow> int \<Rightarrow> int" where
  "daysToNext self other =
     (let delta = toAmount 0 other - toAmount 0 self in if delta < 0 then delta + 7 else delta)"

definition daysToPrevious :: "int \<Rightarrow> int \<Rightarrow> int" where
  "daysToPrevious self other =
     (let delta = toAmount 0 self - toAmount 0 other
      in - (if delta < 0 then delta + 7 else delta))"

section \<open>\<open>Date\<close>\<close>

record date = date_days :: int

definition invalid_date :: date where "invalid_date = \<lparr>date_days = - 1\<rparr>"
definition cLastMonthSinceEpoch :: int where "cLastMonthSinceEpoch = 9999 * 12 + 11"

definition isValid :: "date \<Rightarrow> bool" where "isValid x \<longleftrightarrow> date_days x \<ge> 0"
definition isFirst :: "date \<Rightarrow> bool" where "isFirst x \<longleftrightarrow> date_days x = 0"
definition isLast :: "date \<Rightarrow> bool" where "isLast x \<longleftrightarrow> date_days x = cLastValidDay"

definition date_first :: date where "date_first = \<lparr>date_days = 0\<rparr>"
definition date_last :: date where "date_last = \<lparr>date_days = cLastValidDay\<rparr>"

definition daysFromParts :: "int \<Rightarrow> int \<Rightarrow> int \<Rightarrow> int" where
  "daysFromParts y m d =
     (if toAmount 1 d \<ge> monthDayCount m y then - 1
      else daysSinceEpoch y + daysBeforeMonth y m + toAmount 1 d)"

definition mkDate :: "int \<Rightarrow> int \<Rightarrow> int \<Rightarrow> date" where
  "mkDate y m d = \<lparr>date_days = daysFromParts y m d\<rparr>"

definition date_parts_of :: "date \<Rightarrow> date_parts" where
  "date_parts_of x =
     (if \<not> isValid x then \<lparr>dp_year = 0, dp_month = 1, dp_day = 1\<rparr>
      else let (y, dayOfYear) = extractFromEpoch (date_days x);
               (m, d) = extractMonthAndDay y dayOfYear
           in \<lparr>dp_year = y, dp_month = m, dp_day = d\<rparr>)"

definition date_dayOfYear :: "date \<Rightarrow> int" where
  "date_dayOfYear x =
     (if \<not> isValid x then mkDayOfYear 1
      else let p = date_parts_of x
           in mkDayOfYear (daysBeforeMonth (dp_year p) (dp_month p) + toAmount 1 (dp_day p) + 1))"

definition date_dayOfWeek :: "date \<Rightarrow> int" where
  "date_dayOfWeek x = mkDayOfWeek (((if isValid x then date_days x else 0) + 5) mod 7)"

definition wouldAddDaysSaturate :: "int \<Rightarrow> date \<Rightarrow> bool" where
  "wouldAddDaysSaturate days x \<longleftrightarrow>
     isValid x \<and> (let days = sat64 (days + date_days x) in days < 0 \<or> days > cLastValidDay)"

definition monthsSinceEpoch :: "date \<Rightarrow> int" where
  "monthsSinceEpoch x = toAmount 1 (dp_month (date_parts_of x)) + dp_year (date_parts_of x) * 12"

definition wouldAddMonthsSaturate :: "int \<Rightarrow> date \<Rightarrow> bool" where
  "wouldAddMonthsSaturate months x \<longleftrightarrow>
     isValid x \<and> (let ms = sat64 (monthsSinceEpoch x + months) in ms < 0 \<or> ms > cLastMonthSinceEpoch)"

definition wouldAddYearsSaturate :: "int \<Rightarrow> date \<Rightarrow> bool" where
  "wouldAddYearsSaturate years x \<longleftrightarrow> wouldAddMonthsSaturate (sat64 (years * 12)) x"

definition addDays :: "int \<Rightarrow> date \<Rightarrow> date" where
  "addDays amount x =
     (if \<not> isValid x then invalid_date
      else let days = sat64 (date_days x + amount) in
        if days < 0 then date_first
        else if days > cLastValidDay then date_last
        else \<lparr>date_days = days\<rparr>)"

definition addMonths :: "int \<Rightarrow> date \<Rightarrow> date" where
  "addMonths amount x =
     (if \<not> isValid x then invalid_date
      else let ms = sat64 (monthsSinceEpoch x + amount) in
        if ms < 0 then date_first
        else if ms > cLastMonthSinceEpoch then date_last
        else let newYear = mkYear (ms div 12); newMonth = monthFromAmount (ms mod 12)
             in \<lparr>date_days = daysFromParts newYear newMonth
                              (dayClamped (dp_day (date_parts_of x)) newYear newMonth)\<rparr>)"

definition addYears :: "int \<Rightarrow> date \<Rightarrow> date" where
  "addYears amount x = addMonths (sat64 (amount * 12)) x"

datatype time_error = OverflowError | OutOfRangeError | ParameterError

definition addDaysOrThrow :: "int \<Rightarrow> date \<Rightarrow> time_error + date" where
  "addDaysOrThrow amount x =
     (if wouldAddDaysSaturate amount x then Inl OverflowError else Inr (addDays amount x))"

definition addMonthsOrThrow :: "int \<Rightarrow> date \<Rightarrow> time_error + date" where
  "addMonthsOrThrow amount x =
     (if wouldAddMonthsSaturate amount x then Inl OverflowError else Inr (addMonths amount x))"

definition addYearsOrThrow :: "int \<Rightarrow> date \<Rightarrow> time_error + date" where
  "addYearsOrThrow amount x =
     (if wouldAddYearsSaturate amount x then Inl OverflowError else Inr (addYears amount x))"

definition date_next :: "date \<Rightarrow> date" where
  "date_next x = (if isValid x \<and> \<not> isLast x then \<lparr>date_days = date_days x + 1\<rparr> else invalid_date)"

definition date_previous :: "date \<Rightarrow> date" where
  "date_previous x =
     (if isValid x \<and> \<not> isFirst x then \<lparr>date_days = date_days x - 1\<rparr> else invalid_date)"

definition nextDayOfWeek :: "int \<Rightarrow> date \<Rightarrow> date" where
  "nextDayOfWeek dow x =
     (if \<not> isValid x then invalid_date
      else let delta = daysToNext (date_dayOfWeek x) dow
           in addDays (if delta = 0 then 7 else delta) x)"

definition previousDayOfWeek :: "int \<Rightarrow> date \<Rightarrow> date" where
  "previousDayOfWeek dow x =
     (if \<not> isValid x then invalid_date
      else let delta = daysToPrevious (date_dayOfWeek x) dow
           in addDays (if delta = 0 then - 7 else delta) x)"

definition daysTo :: "date \<Rightarrow> date \<Rightarrow> int" where
  "daysTo x other = (if isValid x \<and> isValid other then date_days other - date_days x else 0)"

definition containsParts :: "int \<Rightarrow> int \<Rightarrow> int \<Rightarrow> bool" where
  "containsParts y m d =
     (if y < 0 \<or> y > 9999 then False
      else if m < 1 \<or> m > 12 then False
      else if d < 1 \<or> d > monthDayCount (mkMonth m) (mkYear y) then False
      else True)"

definition fromYearMonthDay :: "int \<Rightarrow> int \<Rightarrow> int \<Rightarrow> date" where
  "fromYearMonthDay y m d =
     (if \<not> containsParts y m d then invalid_date else mkDate (mkYear y) (mkMonth m) (mkDay d))"

definition fromYearMonthDayOrThrow :: "int \<Rightarrow> int \<Rightarrow> int \<Rightarrow> time_error + date" where
  "fromYearMonthDayOrThrow y m d =
     (let result = fromYearMonthDay y m d
      in if \<not> isValid result then Inl OutOfRangeError else Inr result)"

definition fromPartsOrThrow :: "int \<Rightarrow> int \<Rightarrow> int \<Rightarrow> time_error + date" where
  "fromPartsOrThrow y m d =
     (let result = mkDate y m d in if \<not> isValid result then Inl OutOfRangeError else Inr result)"

definition fromDaysSinceEpoch :: "int \<Rightarrow> date" where
  "fromDaysSinceEpoch days =
     (if days \<ge> 0 \<and> days \<le> cLastValidDay then \<lparr>date_days = days\<rparr> else invalid_date)"

definition date_exists :: "int \<Rightarrow> int \<Rightarrow> int \<Rightarrow> bool" where
  "date_exists y m d \<longleftrightarrow> isValid (mkDate y m d)"

definition firstDayOfMonth :: "int \<Rightarrow> int \<Rightarrow> date" where
  "firstDayOfMonth y m = mkDate y m (mkDay 1)"

definition lastDayOfMonth :: "int \<Rightarrow> int \<Rightarrow> date" where
  "lastDayOfMonth y m = mkDate y m (dayLast y m)"

section \<open>Years and days of the year\<close>

lemma div_mod_eq:
  assumes "(n::int) = k * q + r" "0 \<le> r" "r < k"
  shows "n div k = q" "n mod k = r"
  using int_div_pos_eq[OF assms] int_mod_pos_eq[OF assms] by auto

lemma div_mod_obtain:
  assumes "0 < (k::int)"
  obtains q r where "n = k * q + r" "0 \<le> r" "r < k" "n div k = q" "n mod k = r"
  using assms that[of "n div k" "n mod k"] by auto

text \<open>
  A year is split into its cycles: \<open>y = 400 a + 100 b + 4 c + e\<close>. On this form the day count
  before the year, the leap year rule and the extraction are linear.
\<close>

definition cycles :: "int \<Rightarrow> int \<Rightarrow> int \<Rightarrow> int \<Rightarrow> bool" where
  "cycles a b c e \<longleftrightarrow> 0 \<le> a \<and> 0 \<le> b \<and> b < 4 \<and> 0 \<le> c \<and> c < 25 \<and> 0 \<le> e \<and> e < 4"

lemma year_cycles:
  assumes "0 \<le> y"
  obtains a b c e where "y = 400 * a + 100 * b + 4 * c + e" "cycles a b c e"
proof -
  obtain a r where r: "y = 400 * a + r" "0 \<le> r" "r < 400" using div_mod_obtain[of 400 y] by auto
  obtain b t where t: "r = 100 * b + t" "0 \<le> t" "t < 100" using div_mod_obtain[of 100 r] by auto
  obtain c e where e: "t = 4 * c + e" "0 \<le> e" "e < 4" using div_mod_obtain[of 4 t] by auto
  show ?thesis
    using that[of a b c e] assms r t e by (simp add: cycles_def)
qed

lemma daysSinceEpoch_cycles:
  assumes "cycles a b c e"
  shows "daysSinceEpoch (400 * a + 100 * b + 4 * c + e) =
      146097 * a + (if 100 * b + 4 * c + e > 0 then 1 else 0) + 36524 * b
        - (if 4 * c + e > 0 then 1 else 0) + 1461 * c + (if e > 0 then 1 else 0) + 365 * e"
proof -
  note b = assms[unfolded cycles_def]
  have q1: "(400 * a + 100 * b + 4 * c + e) div 400 = a" "(400 * a + 100 * b + 4 * c + e) mod 400 = 100 * b + 4 * c + e"
    by (rule div_mod_eq[of _ _ a "100 * b + 4 * c + e"]; use b in linarith)+
  have q2: "(100 * b + 4 * c + e) div 100 = b" "(100 * b + 4 * c + e) mod 100 = 4 * c + e"
    by (rule div_mod_eq[of _ _ b "4 * c + e"]; use b in linarith)+
  have q3: "(4 * c + e) div 4 = c" "(4 * c + e) mod 4 = e"
    by (rule div_mod_eq[of _ _ c e]; use b in linarith)+
  show ?thesis
    unfolding daysSinceEpoch_def Let_def cDaysPer400Years_def cDaysPer100Years_def cDaysPer4Years_def
      q1 q2 q3 by simp
qed

lemma isLeapYear_cycles:
  assumes "cycles a b c e"
  shows "isLeapYear (400 * a + 100 * b + 4 * c + e) \<longleftrightarrow> e = 0 \<and> (c \<noteq> 0 \<or> b = 0)"
proof -
  note b = assms[unfolded cycles_def]
  have q1: "(400 * a + 100 * b + 4 * c + e) mod 400 = 100 * b + 4 * c + e"
    by (rule div_mod_eq[of _ _ a "100 * b + 4 * c + e"]; use b in linarith)
  have q2: "(400 * a + 100 * b + 4 * c + e) mod 100 = 4 * c + e"
    by (rule div_mod_eq(2)[of _ 100 "4 * a + b" "4 * c + e"]) (use b in simp_all)
  have q3: "(400 * a + 100 * b + 4 * c + e) mod 4 = e"
    by (rule div_mod_eq(2)[of _ 4 "100 * a + 25 * b + c" e]) (use b in simp_all)
  have "4 * c + e = 0 \<longleftrightarrow> c = 0 \<and> e = 0" "100 * b + 4 * c + e = 0 \<longleftrightarrow> b = 0 \<and> c = 0 \<and> e = 0"
    using b by (safe; linarith)+
  then show ?thesis unfolding isLeapYear_def q1 q2 q3 by auto
qed

lemma daysSinceEpoch_Suc:
  assumes "0 \<le> y"
  shows "daysSinceEpoch (y + 1) = daysSinceEpoch y + yearDayCount y"
proof -
  obtain a b c e where y: "y = 400 * a + 100 * b + 4 * c + e" "cycles a b c e"
    using year_cycles assms by blast
  note r = y(2)[unfolded cycles_def]
  consider "e < 3" | "e = 3" "c < 24" | "e = 3" "c = 24" "b < 3" | "e = 3" "c = 24" "b = 3"
    using r by linarith
  then obtain a' b' c' e' where n: "y + 1 = 400 * a' + 100 * b' + 4 * c' + e'" "cycles a' b' c' e'"
    "daysSinceEpoch (400 * a' + 100 * b' + 4 * c' + e') = daysSinceEpoch y + yearDayCount y"
  proof cases
    case 1
    then have k: "cycles a b c (e + 1)" using r by (simp add: cycles_def)
    show ?thesis
      using that[of a b c "e + 1", OF _ k] r 1
      unfolding y(1) yearDayCount_def isLeapYear_cycles[OF y(2)] daysSinceEpoch_cycles[OF y(2)]
        daysSinceEpoch_cycles[OF k]
      by (simp split: if_splits)
  next
    case 2
    then have k: "cycles a b (c + 1) 0" using r by (simp add: cycles_def)
    show ?thesis
      using that[of a b "c + 1" 0, OF _ k] r 2
      unfolding y(1) yearDayCount_def isLeapYear_cycles[OF y(2)] daysSinceEpoch_cycles[OF y(2)]
        daysSinceEpoch_cycles[OF k]
      by (simp split: if_splits)
  next
    case 3
    then have k: "cycles a (b + 1) 0 0" using r by (simp add: cycles_def)
    show ?thesis
      using that[of a "b + 1" 0 0, OF _ k] r 3
      unfolding y(1) yearDayCount_def isLeapYear_cycles[OF y(2)] daysSinceEpoch_cycles[OF y(2)]
        daysSinceEpoch_cycles[OF k]
      by (simp split: if_splits)
  next
    case 4
    then have k: "cycles (a + 1) 0 0 0" using r by (simp add: cycles_def)
    show ?thesis
      using that[of "a + 1" 0 0 0, OF _ k] r 4
      unfolding y(1) yearDayCount_def isLeapYear_cycles[OF y(2)] daysSinceEpoch_cycles[OF y(2)]
        daysSinceEpoch_cycles[OF k]
      by (simp split: if_splits)
  qed
  then show ?thesis by simp
qed

lemma yearDayCount_bounds: "365 \<le> yearDayCount y" "yearDayCount y \<le> 366"
  by (auto simp: yearDayCount_def)

lemma daysSinceEpoch_mono:
  assumes "0 \<le> y" "y < z"
  shows "daysSinceEpoch y + yearDayCount y \<le> daysSinceEpoch z"
  using assms(2)
proof (induction z rule: int_gr_induct)
  case base
  then show ?case using daysSinceEpoch_Suc[OF assms(1)] by simp
next
  case (step z)
  then show ?case using daysSinceEpoch_Suc[of z] yearDayCount_bounds[of z] assms(1) by linarith
qed

text \<open>A day counter belongs to exactly one day of one year.\<close>

lemma year_day_unique:
  assumes "0 \<le> y" "0 \<le> r" "r < yearDayCount y" "0 \<le> z" "0 \<le> s" "s < yearDayCount z"
    "daysSinceEpoch y + r = daysSinceEpoch z + s"
  shows "y = z \<and> r = s"
proof -
  have "\<not> y < z" "\<not> z < y"
    using daysSinceEpoch_mono[of y z] daysSinceEpoch_mono[of z y] assms by linarith+
  then show ?thesis using assms(7) by simp
qed

lemma daysSinceEpoch_0 [simp]: "daysSinceEpoch 0 = 0"
  by (simp add: daysSinceEpoch_def)

lemma daysSinceEpoch_10000: "daysSinceEpoch 10000 = 3652425"
  by (simp add: daysSinceEpoch_def cDaysPer400Years_def)

lemma daysSinceEpoch_nonneg: "0 \<le> y \<Longrightarrow> 0 \<le> daysSinceEpoch y"
  using daysSinceEpoch_mono[of 0 y] yearDayCount_bounds[of 0] by (cases "y = 0") auto

lemma year_last_day:
  assumes "0 \<le> y" "y \<le> 9999"
  shows "daysSinceEpoch y + yearDayCount y \<le> 3652425"
  using daysSinceEpoch_mono[of y 10000] assms daysSinceEpoch_10000 by simp

lemma yearFromAmount_id [simp]: "0 \<le> y \<Longrightarrow> y \<le> 9999 \<Longrightarrow> yearFromAmount y = y"
  by (simp add: yearFromAmount_def mkYear_def)

lemma monthFromAmount_id [simp]: "0 \<le> m \<Longrightarrow> m \<le> 11 \<Longrightarrow> monthFromAmount m = m + 1"
  by (simp add: monthFromAmount_def mkMonth_def)

lemma dayFromAmount_id [simp]: "0 \<le> d \<Longrightarrow> d \<le> 30 \<Longrightarrow> dayFromAmount d = d + 1"
  by (simp add: dayFromAmount_def mkDay_def)

lemma dayOfYearFromAmount_id [simp]: "0 \<le> d \<Longrightarrow> d \<le> 365 \<Longrightarrow> dayOfYearFromAmount d = d + 1"
  by (simp add: dayOfYearFromAmount_def mkDayOfYear_def)

text \<open>The extraction by cycles finds the year and the day of the year of a counter.\<close>

lemma extract_cycles:
  assumes d: "0 < days" "days < 3652424"
  obtains a b c e r where "cycles a b c e" "400 * a + 100 * b + 4 * c + e \<le> 9999"
    "extractFromEpoch days = (400 * a + 100 * b + 4 * c + e, r)" "0 \<le> r"
    "r < yearDayCount (400 * a + 100 * b + 4 * c + e)"
    "days = daysSinceEpoch (400 * a + 100 * b + 4 * c + e) + r"
proof -
  obtain a r where r0: "days = 146097 * a + r" "0 \<le> r" "r < 146097"
    and ar: "days div 146097 = a" "days mod 146097 = r" using div_mod_obtain[of 146097 days] by auto
  have r: "0 \<le> r" "r < 146097" "days = 146097 * a + r" "0 \<le> a" "a < 25"
    using d r0 by linarith+
  note defs = extractFromEpoch_def Let_def cDaysPer400Years_def cDaysPer100Years_def
    cDaysPer4Years_def cLastValidDay_def
  show ?thesis
  proof (cases "r < 366")
    case True
    have k: "cycles a 0 0 0" using r by (simp add: cycles_def)
    show ?thesis
      using that[OF k] isLeapYear_cycles[OF k] daysSinceEpoch_cycles[OF k] d r True
      by (simp add: defs ar yearDayCount_def mult.commute)
  next
    case F1: False
    obtain b s where s0: "r - 1 = 36524 * b + s" "0 \<le> s" "s < 36524"
      and bs: "(r - 1) div 36524 = b" "(r - 1) mod 36524 = s" using div_mod_obtain[of 36524 "r - 1"] by auto
    have s: "0 \<le> s" "s < 36524" "r - 1 = 36524 * b + s" "0 \<le> b" "b < 4"
      using r F1 s0 by linarith+
    show ?thesis
    proof (cases "s < 365")
      case True
      have k: "cycles a b 0 0" using r s by (simp add: cycles_def)
      have "b \<noteq> 0" using s True F1 by auto
      then show ?thesis
        using that[OF k] isLeapYear_cycles[OF k] daysSinceEpoch_cycles[OF k] d r s True F1
        by (simp add: defs ar bs yearDayCount_def mult.commute)
    next
      case F2: False
      obtain c t where t0: "s + 1 = 1461 * c + t" "0 \<le> t" "t < 1461"
        and ct: "(s + 1) div 1461 = c" "(s + 1) mod 1461 = t" using div_mod_obtain[of 1461 "s + 1"] by auto
      have t: "0 \<le> t" "t < 1461" "s + 1 = 1461 * c + t" "0 \<le> c" "c < 25"
        using s F2 t0 by linarith+
      note red = defs ar bs ct
        yearDayCount_def mult.commute
      show ?thesis
      proof (cases "t < 366")
        case True
        have k: "cycles a b c 0" using r s t by (simp add: cycles_def)
        have "c \<noteq> 0" using t True F2 by auto
        then show ?thesis
          using that[OF k] isLeapYear_cycles[OF k] daysSinceEpoch_cycles[OF k] d r s t True F1 F2
          by (simp add: red)
      next
        case F3: False
        obtain e u where u0: "t - 1 = 365 * e + u" "0 \<le> u" "u < 365"
          and eu: "(t - 1) div 365 = e" "(t - 1) mod 365 = u" using div_mod_obtain[of 365 "t - 1"] by auto
        have u: "0 \<le> u" "u < 365" "t - 1 = 365 * e + u" "0 \<le> e" "e < 4"
          using t F3 u0 by linarith+
        have k: "cycles a b c e" using r s t u by (simp add: cycles_def)
        have "e \<noteq> 0" using u F3 by auto
        then show ?thesis
          using that[OF k] isLeapYear_cycles[OF k] daysSinceEpoch_cycles[OF k] d r s t u F1 F2 F3
          by (simp add: red eu)
      qed
    qed
  qed
qed

section \<open>Months and days of the month\<close>

definition valid_parts :: "int \<Rightarrow> int \<Rightarrow> int \<Rightarrow> bool" where
  "valid_parts y m d \<longleftrightarrow> 0 \<le> y \<and> y \<le> 9999 \<and> 1 \<le> m \<and> m \<le> 12 \<and> 1 \<le> d \<and> d \<le> monthDayCount m y"

lemma month_cases:
  assumes "1 \<le> m" "m \<le> (12::int)"
  shows "m = 1 \<or> m = 2 \<or> m = 3 \<or> m = 4 \<or> m = 5 \<or> m = 6 \<or> m = 7 \<or> m = 8 \<or> m = 9 \<or> m = 10
    \<or> m = 11 \<or> m = 12"
  using assms by presburger

lemmas month_tables = monthDayCount_def daysBeforeMonth_def startDayArray_def toAmount_def
  yearDayCount_def

lemma extractMonthAndDay_valid:
  assumes "1 \<le> m" "m \<le> 12" "1 \<le> d" "d \<le> monthDayCount m y"
  shows "extractMonthAndDay y (daysBeforeMonth y m + (d - 1)) = (m, d)"
proof -
  define r where "r = daysBeforeMonth y m + (d - 1)"
  have r: "0 \<le> r" "r \<le> 365" "d \<le> 31"
    using month_cases[OF assms(1,2)] assms(3,4) by (auto simp: r_def month_tables split: if_splits)
  have "upper_bound (startDayArray y) r = nat m"
    using month_cases[OF assms(1,2)] assms(3,4) unfolding r_def
    by (elim disjE) (auto simp: upper_bound_def month_tables split: if_splits)
  then have "monthOfDay y (dayOfYearFromAmount r) = m"
    using r assms(1,2) by (simp add: monthOfDay_def toAmount_def)
  moreover have "dayFromAmount (r - daysBeforeMonth y m) = d"
    using r assms(3) by (simp add: r_def)
  ultimately show ?thesis by (simp add: extractMonthAndDay_def flip: r_def)
qed

lemma daysBeforeMonth_bounds:
  assumes "1 \<le> m" "m \<le> 12"
  shows "0 \<le> daysBeforeMonth y m" "daysBeforeMonth y m + monthDayCount m y \<le> yearDayCount y"
  using month_cases[OF assms] by (auto simp: month_tables)

lemma month_of_day_exists:
  assumes "0 \<le> r" "r < yearDayCount y"
  obtains m where "1 \<le> m" "m \<le> 12" "daysBeforeMonth y m \<le> r"
    "r < daysBeforeMonth y m + monthDayCount m y"
proof -
  have "\<exists>m \<in> set [1, 2, 3, 4, 5, 6, 7, 8, 9, 10, 11, 12]. daysBeforeMonth y m \<le> r
      \<and> r < daysBeforeMonth y m + monthDayCount m y"
    using assms by (cases "isLeapYear y") (simp_all add: month_tables, arith+)
  then show ?thesis using that by fastforce
qed

section \<open>The day counter and the calendar\<close>

definition date_wf :: "date \<Rightarrow> bool" where
  "date_wf x \<longleftrightarrow> - 1 \<le> date_days x \<and> date_days x \<le> cLastValidDay"

lemma extract_year:
  assumes "0 \<le> days" "days < cLastValidDay"
  obtains y r where "extractFromEpoch days = (y, r)" "0 \<le> y" "y \<le> 9999" "0 \<le> r"
    "r < yearDayCount y" "days = daysSinceEpoch y + r"
proof (cases "days = 0")
  case True
  then show ?thesis
    using that[of 0 0] by (simp add: extractFromEpoch_def mkYear_def yearDayCount_def)
next
  case False
  obtain a b c e r where k: "cycles a b c e" "400 * a + 100 * b + 4 * c + e \<le> 9999"
    "extractFromEpoch days = (400 * a + 100 * b + 4 * c + e, r)" "0 \<le> r"
    "r < yearDayCount (400 * a + 100 * b + 4 * c + e)"
    "days = daysSinceEpoch (400 * a + 100 * b + 4 * c + e) + r"
    by (rule extract_cycles[of days]) (use assms False in \<open>auto simp: cLastValidDay_def\<close>)
  show ?thesis
    by (rule that[OF k(3)]) (use k cycles_def in auto)
qed

text \<open>The parts of a counter exist in the calendar and their counter is the given one.\<close>

lemma date_parts_correct:
  assumes "0 \<le> date_days x" "date_days x \<le> cLastValidDay"
  shows "valid_parts (dp_year (date_parts_of x)) (dp_month (date_parts_of x)) (dp_day (date_parts_of x))"
    "daysFromParts (dp_year (date_parts_of x)) (dp_month (date_parts_of x)) (dp_day (date_parts_of x))
       = date_days x"
proof -
  have last: "daysFromParts 9999 12 31 = 3652424" "valid_parts 9999 12 31"
    "extractMonthAndDay 9999 365 = (12, 31)"
    by (simp_all add: daysFromParts_def month_tables isLeapYear_def daysSinceEpoch_def valid_parts_def
        extractMonthAndDay_def monthOfDay_def upper_bound_def monthFromAmount_def dayFromAmount_def
        mkMonth_def mkDay_def clamp_def cDaysPer400Years_def cDaysPer100Years_def cDaysPer4Years_def)
  have "\<exists>y m d. date_parts_of x = \<lparr>dp_year = y, dp_month = m, dp_day = d\<rparr> \<and> valid_parts y m d
      \<and> daysFromParts y m d = date_days x"
  proof (cases "date_days x = cLastValidDay")
    case True
    then show ?thesis
      using last by (simp add: date_parts_of_def isValid_def cLastValidDay_def extractFromEpoch_def
          mkYear_def)
  next
    case False
    then obtain y r where y: "extractFromEpoch (date_days x) = (y, r)" "0 \<le> y" "y \<le> 9999" "0 \<le> r"
      "r < yearDayCount y" "date_days x = daysSinceEpoch y + r"
      using extract_year[of "date_days x"] assms by auto
    obtain m where m: "1 \<le> m" "m \<le> 12" "daysBeforeMonth y m \<le> r"
      "r < daysBeforeMonth y m + monthDayCount m y"
      using month_of_day_exists[OF y(4,5)] by auto
    define d where "d = r - daysBeforeMonth y m + 1"
    have d: "1 \<le> d" "d \<le> monthDayCount m y" "r = daysBeforeMonth y m + (d - 1)"
      using m by (auto simp: d_def)
    show ?thesis
      using extractMonthAndDay_valid[OF m(1,2) d(1,2)] y m d assms
      by (auto simp: date_parts_of_def isValid_def valid_parts_def daysFromParts_def toAmount_def)
  qed
  then show "valid_parts (dp_year (date_parts_of x)) (dp_month (date_parts_of x)) (dp_day (date_parts_of x))"
    "daysFromParts (dp_year (date_parts_of x)) (dp_month (date_parts_of x)) (dp_day (date_parts_of x))
       = date_days x"
    by auto
qed

lemma daysFromParts_valid:
  assumes "valid_parts y m d"
  shows "daysFromParts y m d = daysSinceEpoch y + daysBeforeMonth y m + (d - 1)"
    "0 \<le> daysFromParts y m d" "daysFromParts y m d \<le> cLastValidDay"
  using assms daysBeforeMonth_bounds[of m y] daysSinceEpoch_nonneg[of y] year_last_day[of y]
  by (auto simp: valid_parts_def daysFromParts_def toAmount_def cLastValidDay_def)

lemma daysFromParts_inject:
  assumes "valid_parts y m d" "valid_parts y' m' d'" "daysFromParts y m d = daysFromParts y' m' d'"
  shows "y = y' \<and> m = m' \<and> d = d'"
proof -
  note a = assms(1,2)[unfolded valid_parts_def]
  have "y = y' \<and> daysBeforeMonth y m + (d - 1) = daysBeforeMonth y' m' + (d' - 1)"
    by (rule year_day_unique)
      (use a daysFromParts_valid(1)[OF assms(1)] daysFromParts_valid(1)[OF assms(2)] assms(3)
        daysBeforeMonth_bounds[of m y] daysBeforeMonth_bounds[of m' y'] in auto)
  then show ?thesis
    using extractMonthAndDay_valid[of m d y] extractMonthAndDay_valid[of m' d' y'] a
    by (metis Pair_inject)
qed

lemma date_parts_mkDate:
  assumes "valid_parts y m d"
  shows "date_parts_of (mkDate y m d) = \<lparr>dp_year = y, dp_month = m, dp_day = d\<rparr>"
proof -
  note v = daysFromParts_valid[OF assms]
  let ?x = "mkDate y m d"
  have x: "date_days ?x = daysFromParts y m d" by (simp add: mkDate_def)
  have "dp_year (date_parts_of ?x) = y \<and> dp_month (date_parts_of ?x) = m \<and> dp_day (date_parts_of ?x) = d"
    by (rule daysFromParts_inject) (use date_parts_correct[of ?x] x v assms in auto)
  then show ?thesis by (cases "date_parts_of ?x") simp
qed

section \<open>Dates\<close>

lemma monthDayCount_bounds:
  assumes "1 \<le> m" "m \<le> 12"
  shows "28 \<le> monthDayCount m y" "monthDayCount m y \<le> 31"
  using month_cases[OF assms] by (auto simp: monthDayCount_def)

lemma containsParts_iff: "containsParts y m d \<longleftrightarrow> valid_parts y m d"
  by (auto simp: containsParts_def valid_parts_def mkMonth_def mkYear_def)

lemma part_constructors [simp]:
  "0 \<le> y \<Longrightarrow> y \<le> 9999 \<Longrightarrow> mkYear y = y"
  "1 \<le> m \<Longrightarrow> m \<le> 12 \<Longrightarrow> mkMonth m = m"
  "1 \<le> d \<Longrightarrow> d \<le> 31 \<Longrightarrow> mkDay d = d"
  by (simp_all add: mkYear_def mkMonth_def mkDay_def)

lemma fromYearMonthDay_valid:
  assumes "valid_parts y m d"
  shows "fromYearMonthDay y m d = mkDate y m d" "isValid (mkDate y m d)"
proof -
  have "d \<le> 31" using assms monthDayCount_bounds[of m y] by (auto simp: valid_parts_def)
  then show "fromYearMonthDay y m d = mkDate y m d"
    using assms unfolding fromYearMonthDay_def containsParts_iff by (simp add: valid_parts_def)
  show "isValid (mkDate y m d)"
    using daysFromParts_valid[OF assms] by (simp add: isValid_def mkDate_def)
qed

lemma date_parts_roundtrip_cases:
  shows "0 \<le> days \<and> days \<le> cLastValidDay \<Longrightarrow>
      (let p = date_parts_of (fromDaysSinceEpoch days) in
        valid_parts (dp_year p) (dp_month p) (dp_day p)
        \<and> fromYearMonthDay (dp_year p) (dp_month p) (dp_day p) = fromDaysSinceEpoch days)"
    and "valid_parts y m d \<Longrightarrow>
      fromYearMonthDayOrThrow y m d = Inr (mkDate y m d) \<and> date_wf (mkDate y m d)
      \<and> date_parts_of (mkDate y m d) = \<lparr>dp_year = y, dp_month = m, dp_day = d\<rparr>"
    and "\<not> valid_parts y m d \<Longrightarrow> fromYearMonthDayOrThrow y m d = Inl OutOfRangeError"
proof -
  assume d: "0 \<le> days \<and> days \<le> cLastValidDay"
  let ?x = "fromDaysSinceEpoch days"
  have x: "date_days ?x = days" using d by (simp add: fromDaysSinceEpoch_def)
  have p: "valid_parts (dp_year (date_parts_of ?x)) (dp_month (date_parts_of ?x)) (dp_day (date_parts_of ?x))"
    "daysFromParts (dp_year (date_parts_of ?x)) (dp_month (date_parts_of ?x)) (dp_day (date_parts_of ?x)) = days"
    using date_parts_correct[of ?x] d x by auto
  show "let p = date_parts_of ?x in valid_parts (dp_year p) (dp_month p) (dp_day p)
      \<and> fromYearMonthDay (dp_year p) (dp_month p) (dp_day p) = ?x"
    using p d by (simp add: Let_def fromYearMonthDay_valid mkDate_def fromDaysSinceEpoch_def)
next
  assume v: "valid_parts y m d"
  show "fromYearMonthDayOrThrow y m d = Inr (mkDate y m d) \<and> date_wf (mkDate y m d)
      \<and> date_parts_of (mkDate y m d) = \<lparr>dp_year = y, dp_month = m, dp_day = d\<rparr>"
    using fromYearMonthDay_valid[OF v] date_parts_mkDate[OF v] daysFromParts_valid[OF v]
    by (simp add: fromYearMonthDayOrThrow_def Let_def date_wf_def mkDate_def)
next
  assume "\<not> valid_parts y m d"
  then show "fromYearMonthDayOrThrow y m d = Inl OutOfRangeError"
    by (simp add: fromYearMonthDayOrThrow_def fromYearMonthDay_def containsParts_iff isValid_def
        invalid_date_def)
qed

text \<open>C14: A date and its calendar parts determine each other: every supported day counter has parts
  that exist in the calendar and rebuild the date, every existing year, month and day gives a
  valid date with exactly these parts, and any other combination of integers is rejected.\<close>

theorem date_parts_roundtrip:
  shows "(0 \<le> days \<and> days \<le> cLastValidDay \<longrightarrow>
      (let p = date_parts_of (fromDaysSinceEpoch days) in
        valid_parts (dp_year p) (dp_month p) (dp_day p)
        \<and> fromYearMonthDay (dp_year p) (dp_month p) (dp_day p) = fromDaysSinceEpoch days))
    \<and> (valid_parts y m d \<longrightarrow>
      fromYearMonthDayOrThrow y m d = Inr (mkDate y m d) \<and> date_wf (mkDate y m d)
      \<and> date_parts_of (mkDate y m d) = \<lparr>dp_year = y, dp_month = m, dp_day = d\<rparr>)
    \<and> (\<not> valid_parts y m d \<longrightarrow> fromYearMonthDayOrThrow y m d = Inl OutOfRangeError)"
  using date_parts_roundtrip_cases by blast

lemma date_parts_roundtrip_witness:
  "fromYearMonthDayOrThrow 2024 2 29 = Inr (mkDate 2024 2 29)
    \<and> fromYearMonthDayOrThrow 2023 2 29 = Inl OutOfRangeError
    \<and> (let p = date_parts_of (fromDaysSinceEpoch 719528) in
        fromYearMonthDay (dp_year p) (dp_month p) (dp_day p) = fromDaysSinceEpoch 719528)"
  using date_parts_roundtrip[of 719528 2024 2 29] date_parts_roundtrip[of 719528 2023 2 29]
  by (simp add: valid_parts_def monthDayCount_def isLeapYear_def cLastValidDay_def Let_def)

section \<open>Stepping through the calendar\<close>

lemma next_month_start:
  assumes "1 \<le> m" "m \<le> 11"
  shows "daysBeforeMonth y (m + 1) = daysBeforeMonth y m + monthDayCount m y"
  using month_cases[of m] assms by (auto simp: month_tables)

lemma year_month_ends: "daysBeforeMonth y 1 = 0" "daysBeforeMonth y 12 + monthDayCount 12 y = yearDayCount y"
  by (auto simp: month_tables)

lemma dayLast_eq: "1 \<le> m \<Longrightarrow> m \<le> 12 \<Longrightarrow> dayLast y m = monthDayCount m y"
  using monthDayCount_bounds[of m y] by (simp add: dayLast_def)

lemmas step_defs = dayNext_def dayPrevious_def dayIsLast_def monthHasNext_def monthHasPrevious_def
  monthNext_def monthPrevious_def yearHasNext_def yearHasPrevious_def yearNext_def yearPrevious_def
  toAmount_def

text \<open>The successor in the calendar has the next day counter, the predecessor the previous one.\<close>

lemma dayNext_counter:
  assumes v: "valid_parts y m d" and n: "daysFromParts y m d \<noteq> cLastValidDay"
  shows "valid_parts (dp_year (dayNext d y m)) (dp_month (dayNext d y m)) (dp_day (dayNext d y m))
    \<and> daysFromParts (dp_year (dayNext d y m)) (dp_month (dayNext d y m)) (dp_day (dayNext d y m))
      = daysFromParts y m d + 1"
proof -
  note a = v[unfolded valid_parts_def]
  note md = monthDayCount_bounds[of m y] monthDayCount_bounds[of "m + 1" y] monthDayCount_bounds[of 1 "y + 1"]
  consider "d < monthDayCount m y" | "d = monthDayCount m y" "m < 12"
    | "d = monthDayCount m y" "m = 12" "y < 9999" | "d = monthDayCount m y" "m = 12" "y = 9999"
    using a by linarith
  then show ?thesis
  proof cases
    case 1
    then have w: "valid_parts y m (d + 1)" using a by (simp add: valid_parts_def)
    then show ?thesis
      using 1 a md daysFromParts_valid(1)[OF v] daysFromParts_valid(1)[OF w] by (simp add: step_defs)
  next
    case 2
    then have w: "valid_parts y (m + 1) 1" using a md by (simp add: valid_parts_def)
    then show ?thesis
      using 2 a md daysFromParts_valid(1)[OF v] daysFromParts_valid(1)[OF w] next_month_start[of m y]
      by (simp add: step_defs)
  next
    case 3
    then have w: "valid_parts (y + 1) 1 1" using a md by (simp add: valid_parts_def)
    then show ?thesis
      using 3 a md daysFromParts_valid(1)[OF v] daysFromParts_valid(1)[OF w]
        daysSinceEpoch_Suc[of y] year_month_ends[of y] year_month_ends[of "y + 1"]
      by (simp add: step_defs)
  next
    case 4
    then have "daysFromParts y m d = cLastValidDay"
      using daysFromParts_valid(1)[OF v] daysSinceEpoch_Suc[of 9999] year_month_ends[of 9999]
        daysSinceEpoch_10000 by (simp add: cLastValidDay_def)
    then show ?thesis using n by simp
  qed
qed

lemma dayPrevious_counter:
  assumes v: "valid_parts y m d" and n: "daysFromParts y m d \<noteq> 0"
  shows "valid_parts (dp_year (dayPrevious d y m)) (dp_month (dayPrevious d y m)) (dp_day (dayPrevious d y m))
    \<and> daysFromParts (dp_year (dayPrevious d y m)) (dp_month (dayPrevious d y m)) (dp_day (dayPrevious d y m))
      = daysFromParts y m d - 1"
proof -
  note a = v[unfolded valid_parts_def]
  note md = monthDayCount_bounds[of m y] monthDayCount_bounds[of "m - 1" y] monthDayCount_bounds[of 12 "y - 1"]
  consider "1 < d" | "d = 1" "1 < m" | "d = 1" "m = 1" "0 < y" | "d = 1" "m = 1" "y = 0"
    using a by linarith
  then show ?thesis
  proof cases
    case 1
    then have w: "valid_parts y m (d - 1)" using a by (simp add: valid_parts_def)
    then show ?thesis
      using 1 a md daysFromParts_valid(1)[OF v] daysFromParts_valid(1)[OF w] by (simp add: step_defs)
  next
    case 2
    then have w: "valid_parts y (m - 1) (monthDayCount (m - 1) y)" using a md by (simp add: valid_parts_def)
    then show ?thesis
      using 2 a md daysFromParts_valid(1)[OF v] daysFromParts_valid(1)[OF w] next_month_start[of "m - 1" y]
      by (simp add: step_defs dayLast_eq)
  next
    case 3
    then have w: "valid_parts (y - 1) 12 (monthDayCount 12 (y - 1))" using a md by (simp add: valid_parts_def)
    then show ?thesis
      using 3 a md daysFromParts_valid(1)[OF v] daysFromParts_valid(1)[OF w]
        daysSinceEpoch_Suc[of "y - 1"] year_month_ends[of y] year_month_ends[of "y - 1"]
      by (simp add: step_defs dayLast_eq)
  next
    case 4
    then have "daysFromParts y m d = 0"
      using daysFromParts_valid(1)[OF v] year_month_ends[of 0] by simp
    then show ?thesis using n by simp
  qed
qed

lemma date_parts_of_counter:
  assumes "valid_parts (dp_year p) (dp_month p) (dp_day p)"
    "daysFromParts (dp_year p) (dp_month p) (dp_day p) = n"
  shows "date_parts_of \<lparr>date_days = n\<rparr> = p"
  using date_parts_mkDate[OF assms(1)] assms(2) by (simp add: mkDate_def)

lemma date_steps_through_calendar_cases:
  assumes "date_wf x" "isValid x"
  shows "\<not> isLast x \<Longrightarrow> date_parts_of (date_next x) =
        dayNext (dp_day (date_parts_of x)) (dp_year (date_parts_of x)) (dp_month (date_parts_of x))
      \<and> date_dayOfWeek (date_next x) = (date_dayOfWeek x + 1) mod 7
      \<and> date_previous (date_next x) = x"
    and "\<not> isFirst x \<Longrightarrow> date_parts_of (date_previous x) =
        dayPrevious (dp_day (date_parts_of x)) (dp_year (date_parts_of x)) (dp_month (date_parts_of x))
      \<and> date_next (date_previous x) = x"
    and "date_dayOfYear x = daysTo (mkDate (dp_year (date_parts_of x)) 1 1) x + 1"
proof -
  let ?p = "date_parts_of x"
  have r: "0 \<le> date_days x" "date_days x \<le> cLastValidDay"
    using assms by (auto simp: date_wf_def isValid_def)
  note v = date_parts_correct[OF r]
  note vp = v(1)[unfolded valid_parts_def]
  have dow: "date_dayOfWeek \<lparr>date_days = n\<rparr> = (n + 5) mod 7" if "0 \<le> n" for n
  proof -
    have "0 \<le> (n + 5) mod 7" "(n + 5) mod 7 < 7" by simp_all
    then show ?thesis using that by (simp add: date_dayOfWeek_def mkDayOfWeek_def isValid_def)
  qed
  have x: "x = \<lparr>date_days = date_days x\<rparr>" by simp
  {
    assume n: "\<not> isLast x"
    then have nx: "date_next x = \<lparr>date_days = date_days x + 1\<rparr>" "date_days x \<noteq> cLastValidDay"
      using assms by (auto simp: date_next_def isLast_def)
    show "date_parts_of (date_next x) = dayNext (dp_day ?p) (dp_year ?p) (dp_month ?p)
        \<and> date_dayOfWeek (date_next x) = (date_dayOfWeek x + 1) mod 7
        \<and> date_previous (date_next x) = x"
    proof (intro conjI)
      show "date_parts_of (date_next x) = dayNext (dp_day ?p) (dp_year ?p) (dp_month ?p)"
        unfolding nx(1) by (rule date_parts_of_counter) (use dayNext_counter[OF v(1)] v(2) nx(2) in auto)
      have "date_dayOfWeek x = (date_days x + 5) mod 7" by (subst x) (rule dow[OF r(1)])
      then show "date_dayOfWeek (date_next x) = (date_dayOfWeek x + 1) mod 7"
        unfolding nx(1) using dow[of "date_days x + 1"] r(1) by (simp add: mod_simps algebra_simps)
      show "date_previous (date_next x) = x"
        unfolding nx(1) using r(1) by (simp add: date_previous_def isValid_def isFirst_def)
    qed
  }
  {
    assume n: "\<not> isFirst x"
    then have nx: "date_previous x = \<lparr>date_days = date_days x - 1\<rparr>" "date_days x \<noteq> 0"
      using assms by (auto simp: date_previous_def isFirst_def)
    show "date_parts_of (date_previous x) = dayPrevious (dp_day ?p) (dp_year ?p) (dp_month ?p)
        \<and> date_next (date_previous x) = x"
    proof
      show "date_parts_of (date_previous x) = dayPrevious (dp_day ?p) (dp_year ?p) (dp_month ?p)"
        unfolding nx(1) by (rule date_parts_of_counter) (use dayPrevious_counter[OF v(1)] v(2) nx(2) in auto)
      show "date_next (date_previous x) = x"
        unfolding nx(1) using r nx(2) by (simp add: date_next_def isValid_def isLast_def)
    qed
  }
  have w: "valid_parts (dp_year ?p) 1 1"
    using vp monthDayCount_bounds[of 1 "dp_year ?p"] by (simp add: valid_parts_def)
  have "0 \<le> daysBeforeMonth (dp_year ?p) (dp_month ?p) + dp_day ?p - 1"
    "daysBeforeMonth (dp_year ?p) (dp_month ?p) + dp_day ?p \<le> 366"
    using vp daysBeforeMonth_bounds[of "dp_month ?p" "dp_year ?p"] yearDayCount_bounds[of "dp_year ?p"]
    by linarith+
  then show "date_dayOfYear x = daysTo (mkDate (dp_year ?p) 1 1) x + 1"
    using assms daysFromParts_valid[OF w] daysFromParts_valid(1)[OF v(1)] v(2) vp
      daysBeforeMonth_bounds[of "dp_month ?p" "dp_year ?p"]
    by (simp add: date_dayOfYear_def Let_def mkDayOfYear_def toAmount_def daysTo_def mkDate_def isValid_def
        year_month_ends)
qed

text \<open>C36: Adding one to the day counter is the step to the next calendar day: the parts of
  the next and the previous date are those that the calendar part Day computes for its next and
  previous day from the month lengths and the leap year rule, the day of the week goes round, and the day of the year
  counts from the first of January.\<close>

theorem date_steps_through_calendar:
  assumes "date_wf x" "isValid x"
  shows "(\<not> isLast x \<longrightarrow> date_parts_of (date_next x) =
        dayNext (dp_day (date_parts_of x)) (dp_year (date_parts_of x)) (dp_month (date_parts_of x))
      \<and> date_dayOfWeek (date_next x) = (date_dayOfWeek x + 1) mod 7
      \<and> date_previous (date_next x) = x)
    \<and> (\<not> isFirst x \<longrightarrow> date_parts_of (date_previous x) =
        dayPrevious (dp_day (date_parts_of x)) (dp_year (date_parts_of x)) (dp_month (date_parts_of x))
      \<and> date_next (date_previous x) = x)
    \<and> (date_dayOfYear x = daysTo (mkDate (dp_year (date_parts_of x)) 1 1) x + 1)"
  using date_steps_through_calendar_cases[OF assms] by blast

lemma date_steps_through_calendar_witness:
  "date_parts_of (date_next \<lparr>date_days = 739310\<rparr>)
      = dayNext (dp_day (date_parts_of \<lparr>date_days = 739310\<rparr>))
          (dp_year (date_parts_of \<lparr>date_days = 739310\<rparr>)) (dp_month (date_parts_of \<lparr>date_days = 739310\<rparr>))
    \<and> date_next (date_previous \<lparr>date_days = 739310\<rparr>) = \<lparr>date_days = 739310\<rparr>
    \<and> date_dayOfWeek \<lparr>date_days = 739310\<rparr> = 3"
  using date_steps_through_calendar[of "\<lparr>date_days = 739310\<rparr>"]
  by (simp add: date_wf_def isValid_def isLast_def isFirst_def cLastValidDay_def date_dayOfWeek_def
      mkDayOfWeek_def)

section \<open>Adding days, months and years\<close>

lemma sat64_cut:
  "sat64 x < 0 \<longleftrightarrow> x < 0"
  "0 \<le> hi \<Longrightarrow> hi < 9223372036854775807 \<Longrightarrow> hi < sat64 x \<longleftrightarrow> hi < x"
  by (auto simp: sat64_def clamp_def max_def min_def)

lemma months_of_valid:
  assumes "date_wf x" "isValid x"
  shows "0 \<le> monthsSinceEpoch x" "monthsSinceEpoch x \<le> cLastMonthSinceEpoch"
proof -
  have "valid_parts (dp_year (date_parts_of x)) (dp_month (date_parts_of x)) (dp_day (date_parts_of x))"
    using date_parts_correct(1)[of x] assms by (auto simp: date_wf_def isValid_def)
  then show "0 \<le> monthsSinceEpoch x" "monthsSinceEpoch x \<le> cLastMonthSinceEpoch"
    by (auto simp: monthsSinceEpoch_def toAmount_def cLastMonthSinceEpoch_def valid_parts_def)
qed

lemma mkDate_wf:
  assumes "valid_parts y m d"
  shows "date_wf (mkDate y m d) \<and> isValid (mkDate y m d)"
  using daysFromParts_valid[OF assms] by (simp add: date_wf_def isValid_def mkDate_def)

lemma addMonths_inside:
  assumes "date_wf x" "isValid x" "target = monthsSinceEpoch x + amount"
    "0 \<le> target \<and> target \<le> cLastMonthSinceEpoch"
  defines "y \<equiv> target div 12" and "m \<equiv> target mod 12 + 1"
  shows "addMonths amount x = mkDate y m (min (dp_day (date_parts_of x)) (monthDayCount m y))"
    "valid_parts y m (min (dp_day (date_parts_of x)) (monthDayCount m y))"
    "date_wf (addMonths amount x) \<and> isValid (addMonths amount x)"
proof -
  let ?d = "dp_day (date_parts_of x)"
  have v: "valid_parts (dp_year (date_parts_of x)) (dp_month (date_parts_of x)) ?d"
    using date_parts_correct(1)[of x] assms(1,2) by (auto simp: date_wf_def isValid_def)
  have m: "1 \<le> m" "m \<le> 12" by (simp_all add: m_def)
  have md: "28 \<le> monthDayCount m y" "monthDayCount m y \<le> 31" using monthDayCount_bounds[OF m] by auto
  have y: "0 \<le> y" "y \<le> 9999" using assms(4) by (auto simp: y_def cLastMonthSinceEpoch_def)
  have s: "sat64 target = target" using assms(4) by (simp add: cLastMonthSinceEpoch_def)
  have "dayClamped ?d y m = min ?d (monthDayCount m y)"
    using dayLast_eq[OF m, of y] by (simp add: dayClamped_def Let_def min_def)
  moreover have "mkYear (target div 12) = y" "monthFromAmount (target mod 12) = m"
    using y by (simp_all add: y_def m_def)
  ultimately show i: "addMonths amount x = mkDate y m (min ?d (monthDayCount m y))"
    using assms(2,4) s by (simp add: addMonths_def Let_def mkDate_def flip: assms(3))
  show p: "valid_parts y m (min ?d (monthDayCount m y))" using y m md v by (simp add: valid_parts_def)
  show "date_wf (addMonths amount x) \<and> isValid (addMonths amount x)" unfolding i by (rule mkDate_wf[OF p])
qed

lemma month_addition_exact_cases:
  assumes "date_wf x" "isValid x" "target = monthsSinceEpoch x + amount"
  shows "addMonths amount x =
      (if target < 0 then date_first
       else if target > cLastMonthSinceEpoch then date_last
       else mkDate (target div 12) (target mod 12 + 1)
              (min (dp_day (date_parts_of x)) (monthDayCount (target mod 12 + 1) (target div 12))))"
    and "0 \<le> target \<and> target \<le> cLastMonthSinceEpoch \<Longrightarrow>
      addMonthsOrThrow amount x = Inr (addMonths amount x)
      \<and> date_wf (addMonths amount x) \<and> isValid (addMonths amount x)
      \<and> monthsSinceEpoch (addMonths amount x) = target"
    and "target < 0 \<or> target > cLastMonthSinceEpoch \<Longrightarrow> addMonthsOrThrow amount x = Inl OverflowError"
proof -
  note inside = addMonths_inside[OF assms]
  have cut: "sat64 target < 0 \<longleftrightarrow> target < 0" "cLastMonthSinceEpoch < sat64 target \<longleftrightarrow> cLastMonthSinceEpoch < target"
    using sat64_cut(1)[of target] sat64_cut(2)[of cLastMonthSinceEpoch target]
    by (simp_all add: cLastMonthSinceEpoch_def)
  show "addMonths amount x =
      (if target < 0 then date_first
       else if target > cLastMonthSinceEpoch then date_last
       else mkDate (target div 12) (target mod 12 + 1)
              (min (dp_day (date_parts_of x)) (monthDayCount (target mod 12 + 1) (target div 12))))"
    using inside(1) cut assms(2) by (simp add: addMonths_def Let_def flip: assms(3))
  {
    assume t: "0 \<le> target \<and> target \<le> cLastMonthSinceEpoch"
    have "addMonthsOrThrow amount x = Inr (addMonths amount x)"
      using t cut by (simp add: addMonthsOrThrow_def wouldAddMonthsSaturate_def flip: assms(3))
    moreover have "monthsSinceEpoch (addMonths amount x) = target"
      unfolding inside(1)[OF t] monthsSinceEpoch_def date_parts_mkDate[OF inside(2)[OF t]]
      by (simp add: toAmount_def)
    ultimately show "addMonthsOrThrow amount x = Inr (addMonths amount x)
      \<and> date_wf (addMonths amount x) \<and> isValid (addMonths amount x)
      \<and> monthsSinceEpoch (addMonths amount x) = target"
      using inside(3)[OF t] by blast
  }
  assume "target < 0 \<or> target > cLastMonthSinceEpoch"
  then show "addMonthsOrThrow amount x = Inl OverflowError"
    using cut assms(2) by (auto simp: addMonthsOrThrow_def wouldAddMonthsSaturate_def simp flip: assms(3))
qed

lemma date_example: "date_parts_of \<lparr>date_days = 739281\<rparr> = \<lparr>dp_year = 2024, dp_month = 1, dp_day = 31\<rparr>"
  by (rule date_parts_of_counter)
    (simp_all add: valid_parts_def monthDayCount_def daysFromParts_def toAmount_def daysSinceEpoch_def
      daysBeforeMonth_def startDayArray_def Let_def cDaysPer400Years_def cDaysPer100Years_def
      cDaysPer4Years_def isLeapYear_def)

text \<open>C23: Adding months moves the month of a date by exactly that many months and keeps the day
  of the month, cut to the last day of the new month; when the month leaves the supported years
  the result is the first or the last date, and exactly then the checking variant throws.\<close>

theorem month_addition_exact:
  assumes "date_wf x" "isValid x" "target = monthsSinceEpoch x + amount"
  shows "(addMonths amount x =
      (if target < 0 then date_first
       else if target > cLastMonthSinceEpoch then date_last
       else mkDate (target div 12) (target mod 12 + 1)
              (min (dp_day (date_parts_of x)) (monthDayCount (target mod 12 + 1) (target div 12)))))
    \<and> (0 \<le> target \<and> target \<le> cLastMonthSinceEpoch \<longrightarrow>
      addMonthsOrThrow amount x = Inr (addMonths amount x)
      \<and> date_wf (addMonths amount x) \<and> isValid (addMonths amount x)
      \<and> monthsSinceEpoch (addMonths amount x) = target)
    \<and> (target < 0 \<or> target > cLastMonthSinceEpoch \<longrightarrow> addMonthsOrThrow amount x = Inl OverflowError)"
  using month_addition_exact_cases[OF assms] by blast

lemma month_addition_exact_witness:
  "addMonths 1 \<lparr>date_days = 739281\<rparr> = mkDate 2024 2 29
    \<and> addMonthsOrThrow 1 \<lparr>date_days = 739281\<rparr> = Inr (mkDate 2024 2 29)
    \<and> addMonthsOrThrow 100000 \<lparr>date_days = 739281\<rparr> = Inl OverflowError"
proof -
  let ?x = "\<lparr>date_days = 739281\<rparr>"
  have x: "date_wf ?x" "isValid ?x" "monthsSinceEpoch ?x = 24288"
    by (simp_all add: date_wf_def isValid_def cLastValidDay_def monthsSinceEpoch_def date_example toAmount_def)
  show ?thesis
    using month_addition_exact[OF x(1,2), of 24289 1] month_addition_exact[OF x(1,2), of 124288 100000]
    by (simp add: x(3) cLastMonthSinceEpoch_def date_example monthDayCount_def isLeapYear_def)
qed

section \<open>Days of the week\<close>

lemma next_day_of_week_cases:
  assumes "date_wf x" "isValid x" "0 \<le> dow" "dow < 7"
  shows "date_days x + 7 \<le> cLastValidDay \<Longrightarrow>
      date_dayOfWeek (nextDayOfWeek dow x) = dow \<and> 1 \<le> daysTo x (nextDayOfWeek dow x)
      \<and> daysTo x (nextDayOfWeek dow x) \<le> 7"
    and "7 \<le> date_days x \<Longrightarrow>
      date_dayOfWeek (previousDayOfWeek dow x) = dow \<and> - 7 \<le> daysTo x (previousDayOfWeek dow x)
      \<and> daysTo x (previousDayOfWeek dow x) \<le> - 1"
    and "nextDayOfWeek 0 date_last = date_last \<and> date_dayOfWeek date_last = 4"
proof -
  define n where "n = date_days x"
  define k where "k = (n + 5) div 7"
  define w where "w = (n + 5) mod 7"
  have nw: "n + 5 = 7 * k + w" "0 \<le> w" "w < 7" unfolding k_def w_def by simp_all
  have n: "0 \<le> n" "n \<le> cLastValidDay" using assms(1,2) by (auto simp: date_wf_def isValid_def n_def)
  have dow: "date_dayOfWeek \<lparr>date_days = i\<rparr> = r" if "0 \<le> i" "i + 5 = 7 * q + r" "0 \<le> r" "r < 7" for i q r
    using that div_mod_eq(2)[of "i + 5" 7 q r] by (simp add: date_dayOfWeek_def mkDayOfWeek_def isValid_def)
  have x: "x = \<lparr>date_days = n\<rparr>" by (simp add: n_def)
  have self: "date_dayOfWeek x = w" unfolding x by (rule dow[OF n(1) nw])
  note defs = nextDayOfWeek_def previousDayOfWeek_def daysToNext_def daysToPrevious_def toAmount_def
    addDays_def Let_def daysTo_def cLastValidDay_def isValid_def
  {
    assume "date_days x + 7 \<le> cLastValidDay"
    then have r: "n + 7 \<le> 3652424" by (simp add: n_def cLastValidDay_def)
    define delta where "delta = (if dow \<le> w then dow - w + 7 else dow - w)"
    have "nextDayOfWeek dow x = \<lparr>date_days = n + delta\<rparr>"
      using n r nw assms(3,4) by (simp add: defs self delta_def flip: n_def)
    moreover have "date_dayOfWeek \<lparr>date_days = n + delta\<rparr> = dow"
      by (rule dow[where q = "if dow \<le> w then k + 1 else k"]) (use n nw assms(3,4) in \<open>auto simp: delta_def\<close>)
    ultimately show "date_dayOfWeek (nextDayOfWeek dow x) = dow \<and> 1 \<le> daysTo x (nextDayOfWeek dow x)
      \<and> daysTo x (nextDayOfWeek dow x) \<le> 7"
      using n nw assms(3,4) by (auto simp: daysTo_def isValid_def delta_def simp flip: n_def)
  }
  {
    assume "7 \<le> date_days x"
    then have r: "7 \<le> n" by (simp add: n_def)
    define delta where "delta = (if w \<le> dow then w - dow + 7 else w - dow)"
    have "previousDayOfWeek dow x = \<lparr>date_days = n - delta\<rparr>"
      using n r nw assms(3,4) by (simp add: defs self delta_def flip: n_def)
    moreover have "date_dayOfWeek \<lparr>date_days = n - delta\<rparr> = dow"
      by (rule dow[where q = "if w \<le> dow then k - 1 else k"]) (use r nw assms(3,4) in \<open>auto simp: delta_def\<close>)
    ultimately show "date_dayOfWeek (previousDayOfWeek dow x) = dow
      \<and> - 7 \<le> daysTo x (previousDayOfWeek dow x) \<and> daysTo x (previousDayOfWeek dow x) \<le> - 1"
      using r nw assms(3,4) by (auto simp: daysTo_def isValid_def delta_def simp flip: n_def)
  }
  show "nextDayOfWeek 0 date_last = date_last \<and> date_dayOfWeek date_last = 4"
    by (simp add: defs date_last_def date_dayOfWeek_def mkDayOfWeek_def)
qed

text \<open>The next requested day of the week is one to seven days later and the previous one is
  one to seven days earlier, except near the ends of the supported range: there the result is the
  last or first date, which may be the date itself and another day of the week; the 31st of
  December 9999 is a Friday and its next Monday is computed as itself.\<close>

lemma next_day_of_week:
  assumes "date_wf x" "isValid x" "0 \<le> dow" "dow < 7"
  shows "(date_days x + 7 \<le> cLastValidDay \<longrightarrow>
      date_dayOfWeek (nextDayOfWeek dow x) = dow \<and> 1 \<le> daysTo x (nextDayOfWeek dow x)
      \<and> daysTo x (nextDayOfWeek dow x) \<le> 7)
    \<and> (7 \<le> date_days x \<longrightarrow>
      date_dayOfWeek (previousDayOfWeek dow x) = dow \<and> - 7 \<le> daysTo x (previousDayOfWeek dow x)
      \<and> daysTo x (previousDayOfWeek dow x) \<le> - 1)
    \<and> (nextDayOfWeek 0 date_last = date_last \<and> date_dayOfWeek date_last = 4)"
  using next_day_of_week_cases[OF assms] by blast

lemma next_day_of_week_witness:
  "date_dayOfWeek (nextDayOfWeek 0 \<lparr>date_days = 739281\<rparr>) = 0
    \<and> date_dayOfWeek (previousDayOfWeek 6 \<lparr>date_days = 739281\<rparr>) = 6"
  using next_day_of_week[of "\<lparr>date_days = 739281\<rparr>" 0] next_day_of_week[of "\<lparr>date_days = 739281\<rparr>" 6]
  by (simp add: date_wf_def isValid_def cLastValidDay_def)

end
