(* ===== verification/Instants.thy ===== *)
theory Instants
  imports Calendar "HOL-Library.Signed_Division"
begin

text \<open>
  Times of day and instants of \<open>src/erbsland/time\<close>: \<open>Time\<close> (nanoseconds since midnight with
  wrapping addition), \<open>Timestamp\<close> (UTC days and nanoseconds, shifted and compared at the
  resolution of seconds to nanoseconds) and the application of a \<open>CalendarDelta\<close> to the date and
  time of a \<open>DateTime\<close>. Each operation is compared with the exact count of nanoseconds since the
  epoch: inside the supported calendar it is exact, outside it saturates or throws.
\<close>

section \<open>\<open>Time\<close>\<close>

definition cNanosecondsPerSecond :: int where "cNanosecondsPerSecond = 1000000000"
definition cSecondsPerDay :: int where "cSecondsPerDay = 86400"
definition cNanosecondsPerDay :: int where "cNanosecondsPerDay = 86400000000000"

definition mkHour :: "int \<Rightarrow> int" where "mkHour v = clamp 0 23 v"
definition mkMinute :: "int \<Rightarrow> int" where "mkMinute v = clamp 0 59 v"
definition mkSecond :: "int \<Rightarrow> int" where "mkSecond v = clamp 0 59 v"

record time_of_day = tod_nanoseconds :: int

definition mkTime :: "int \<Rightarrow> int \<Rightarrow> int \<Rightarrow> int \<Rightarrow> time_of_day" where
  "mkTime hour minute second nsFraction = \<lparr>tod_nanoseconds =
     ((toAmount 0 hour * 60 + toAmount 0 minute) * 60 + toAmount 0 second) * cNanosecondsPerSecond
       + clamp 0 (cNanosecondsPerSecond - 1) nsFraction\<rparr>"

definition time_hour :: "time_of_day \<Rightarrow> int" where
  "time_hour t = mkHour (tod_nanoseconds t div cNanosecondsPerSecond div 3600)"

definition time_minute :: "time_of_day \<Rightarrow> int" where
  "time_minute t = mkMinute ((tod_nanoseconds t div cNanosecondsPerSecond div 60) mod 60)"

definition time_second :: "time_of_day \<Rightarrow> int" where
  "time_second t = mkSecond ((tod_nanoseconds t div cNanosecondsPerSecond) mod 60)"

definition nanosecondFraction :: "time_of_day \<Rightarrow> int" where
  "nanosecondFraction t = tod_nanoseconds t mod cNanosecondsPerSecond"

definition toSecondsSinceMidnight :: "time_of_day \<Rightarrow> int" where
  "toSecondsSinceMidnight t = tod_nanoseconds t div cNanosecondsPerSecond"

definition time_first :: time_of_day where "time_first = mkTime (mkHour 0) (mkMinute 0) (mkSecond 0) 0"
definition time_last :: time_of_day where
  "time_last = mkTime (mkHour 23) (mkMinute 59) (mkSecond 59) 999999999"

text \<open>\<open>SaturatingInteger<int64_t>::wrappedAndCount\<close>: the value wrapped into a range and the
  number of range lengths removed.\<close>

definition wrappedAndCount :: "int \<Rightarrow> int \<Rightarrow> int \<Rightarrow> int \<times> int" where
  "wrappedAndCount v mn mx =
     (if mn > mx then (0, 0)
      else if \<not> (- 9223372036854775808 \<le> mn \<and> mx \<le> 9223372036854775807) then (0, 0)
      else if mn = - 9223372036854775808 \<and> mx = 9223372036854775807 then (v, 0)
      else let distance = \<bar>v - mn\<bar>; valueCount = mx - mn + 1;
               plainRemainder = distance mod valueCount;
               (remainder, wrapCount) =
                 (if v < mn
                  then (if plainRemainder = 0 then 0 else valueCount - plainRemainder,
                        sat64 (0 - (distance div valueCount + (if plainRemainder \<noteq> 0 then 1 else 0))))
                  else (plainRemainder, sat64 (distance div valueCount)))
           in (sat64 (mn + remainder), wrapCount))"

text \<open>\<open>Time::addWithWrap\<close> for a \<open>TimeDelta\<close> (nanoseconds) and for a \<open>Duration\<close> (seconds): the new
  time and the number of days crossed.\<close>

definition addWithWrap :: "int \<Rightarrow> time_of_day \<Rightarrow> time_of_day \<times> int" where
  "addWithWrap delta t =
     (let (ns, days) = wrappedAndCount (sat64 (tod_nanoseconds t + delta)) 0 (cNanosecondsPerDay - 1)
      in (\<lparr>tod_nanoseconds = ns\<rparr>, days))"

definition toDaysAndNanoseconds :: "int \<Rightarrow> int \<times> int" where
  "toDaysAndNanoseconds seconds =
     (seconds sdiv cSecondsPerDay, sat64 ((seconds smod cSecondsPerDay) * cNanosecondsPerSecond))"

definition addDurationWithWrap :: "int \<Rightarrow> time_of_day \<Rightarrow> time_of_day \<times> int" where
  "addDurationWithWrap seconds t =
     (let (days, nanoseconds) = toDaysAndNanoseconds seconds;
          (t', wrapped) = addWithWrap nanoseconds t
      in (t', sat64 (days + wrapped)))"

definition fromDurationSinceMidnight :: "int \<Rightarrow> time_of_day" where
  "fromDurationSinceMidnight delta = fst (addWithWrap delta \<lparr>tod_nanoseconds = 0\<rparr>)"

section \<open>\<open>Timestamp\<close>\<close>

record timestamp =
  ts_days :: int
  ts_nanoseconds :: int

definition cLastDay :: int where "cLastDay = 3652424"
definition invalid_timestamp :: timestamp where
  "invalid_timestamp = \<lparr>ts_days = - 1, ts_nanoseconds = 0\<rparr>"
definition ts_isValid :: "timestamp \<Rightarrow> bool" where "ts_isValid t \<longleftrightarrow> ts_days t \<ge> 0"
definition ts_first :: timestamp where "ts_first = \<lparr>ts_days = 0, ts_nanoseconds = 0\<rparr>"
definition ts_last :: timestamp where
  "ts_last = \<lparr>ts_days = cLastDay, ts_nanoseconds = cNanosecondsPerDay - 1\<rparr>"

definition mkTimestamp :: "date \<Rightarrow> time_of_day \<Rightarrow> timestamp" where
  "mkTimestamp d t =
     \<lparr>ts_days = date_days d, ts_nanoseconds = (if isValid d then tod_nanoseconds t else 0)\<rparr>"

definition ts_date :: "timestamp \<Rightarrow> date" where "ts_date t = fromDaysSinceEpoch (ts_days t)"
definition ts_time :: "timestamp \<Rightarrow> time_of_day" where
  "ts_time t = fromDurationSinceMidnight (ts_nanoseconds t)"

datatype time_epoch = Core | Posix | Windows | Rfc868

fun epochDays :: "time_epoch \<Rightarrow> int" where
  "epochDays Core = 0"
| "epochDays Posix = 719528"
| "epochDays Windows = 584754"
| "epochDays Rfc868 = 693961"

definition ts_epoch :: "time_epoch \<Rightarrow> timestamp" where
  "ts_epoch e = \<lparr>ts_days = epochDays e, ts_nanoseconds = 0\<rparr>"

definition toSecondsAndFractions :: "time_epoch \<Rightarrow> timestamp \<Rightarrow> (int \<times> int) option" where
  "toSecondsAndFractions e t =
     (if \<not> ts_isValid t then None
      else Some ((ts_days t - epochDays e) * cSecondsPerDay + ts_nanoseconds t div cNanosecondsPerSecond,
                 ts_nanoseconds t mod cNanosecondsPerSecond))"

definition fromRawValue :: "int \<Rightarrow> int \<Rightarrow> timestamp option" where
  "fromRawValue days nanoseconds =
     (if days < 0 \<or> nanoseconds < 0 then Some invalid_timestamp
      else if days > cLastDay \<or> nanoseconds \<ge> cNanosecondsPerDay then None
      else Some \<lparr>ts_days = days, ts_nanoseconds = nanoseconds\<rparr>)"

text \<open>\<open>splitAmount\<close> for an amount of \<open>1 / den\<close> seconds: whole days and the rest in nanoseconds.\<close>

definition splitAmount :: "int \<Rightarrow> int \<Rightarrow> int \<times> int" where
  "splitAmount den ticks =
     (let nanosecondsPerTick = cNanosecondsPerSecond div den;
          ticksPerDay = cNanosecondsPerDay div nanosecondsPerTick
      in (ticks sdiv ticksPerDay, (ticks smod ticksPerDay) * nanosecondsPerTick))"

definition shifted :: "int \<Rightarrow> int \<Rightarrow> bool \<Rightarrow> timestamp \<Rightarrow> timestamp \<times> bool" where
  "shifted days nanoseconds subtract t =
     (if \<not> ts_isValid t then (invalid_timestamp, False)
      else let resultDays = ts_days t + (if subtract then - days else days);
               resultTime = ts_nanoseconds t + (if subtract then - nanoseconds else nanoseconds);
               (resultDays, resultTime) =
                 (if resultTime < 0 then (resultDays - 1, resultTime + cNanosecondsPerDay)
                  else if resultTime \<ge> cNanosecondsPerDay
                  then (resultDays + 1, resultTime - cNanosecondsPerDay)
                  else (resultDays, resultTime))
           in if resultDays < 0 \<or> resultDays > cLastDay
              then (if resultDays < 0 then ts_first else ts_last, True)
              else (\<lparr>ts_days = resultDays, ts_nanoseconds = resultTime\<rparr>, False))"

definition ts_added :: "int \<Rightarrow> int \<Rightarrow> timestamp \<Rightarrow> timestamp" where
  "ts_added den amount t =
     (let (days, nanoseconds) = splitAmount den amount in fst (shifted days nanoseconds False t))"

definition ts_wouldAddSaturate :: "int \<Rightarrow> int \<Rightarrow> timestamp \<Rightarrow> bool" where
  "ts_wouldAddSaturate den amount t =
     (let (days, nanoseconds) = splitAmount den amount in snd (shifted days nanoseconds False t))"

definition ts_addedOrThrow :: "int \<Rightarrow> int \<Rightarrow> timestamp \<Rightarrow> time_error + timestamp" where
  "ts_addedOrThrow den amount t =
     (let (days, nanoseconds) = splitAmount den amount;
          (result, overflow) = shifted days nanoseconds False t
      in if overflow then Inl OverflowError else Inr result)"

definition ts_subtracted :: "int \<Rightarrow> int \<Rightarrow> timestamp \<Rightarrow> timestamp" where
  "ts_subtracted den amount t =
     (let (days, nanoseconds) = splitAmount den amount in fst (shifted days nanoseconds True t))"

definition ts_subtractedOrThrow :: "int \<Rightarrow> int \<Rightarrow> timestamp \<Rightarrow> time_error + timestamp" where
  "ts_subtractedOrThrow den amount t =
     (let (days, nanoseconds) = splitAmount den amount;
          (result, overflow) = shifted days nanoseconds True t
      in if overflow then Inl OverflowError else Inr result)"

text \<open>\<open>fromTicks\<close> from a tick amount and from seconds with a fraction.\<close>

definition fromTicks :: "int \<Rightarrow> int \<Rightarrow> time_epoch \<Rightarrow> timestamp option" where
  "fromTicks den ticks e =
     (let (days, nanoseconds) = splitAmount den ticks;
          (result, overflow) = shifted days nanoseconds False (ts_epoch e)
      in if overflow then None else Some result)"

definition fromSecondsAndFractions :: "int \<Rightarrow> int \<Rightarrow> time_epoch \<Rightarrow> timestamp option" where
  "fromSecondsAndFractions seconds fraction e =
     (if fraction < 0 \<or> fraction \<ge> cNanosecondsPerSecond then None
      else let (days, nanoseconds) = splitAmount 1 seconds;
               (result, overflow) = shifted days (nanoseconds + fraction) False (ts_epoch e)
           in if overflow then None else Some result)"

abbreviation i64_max :: int where "i64_max \<equiv> 9223372036854775807"
abbreviation i64_min :: int where "i64_min \<equiv> - 9223372036854775808"

definition distanceTicks :: "timestamp \<Rightarrow> int \<Rightarrow> timestamp \<Rightarrow> int \<times> bool" where
  "distanceTicks other nanosecondsPerTick t =
     (if \<not> ts_isValid t \<or> \<not> ts_isValid other then (0, False)
      else let dayDifference = ts_days other - ts_days t;
               timeDifference = ts_nanoseconds other - ts_nanoseconds t;
               seconds = dayDifference * cSecondsPerDay + timeDifference sdiv cNanosecondsPerSecond;
               fractions = timeDifference smod cNanosecondsPerSecond;
               (seconds, fractions) =
                 (if seconds > 0 \<and> fractions < 0 then (seconds - 1, fractions + cNanosecondsPerSecond)
                  else if seconds < 0 \<and> fractions > 0
                  then (seconds + 1, fractions - cNanosecondsPerSecond)
                  else (seconds, fractions));
               ticksPerSecond = cNanosecondsPerSecond sdiv nanosecondsPerTick;
               fractionalTicks = fractions sdiv nanosecondsPerTick
           in if seconds > i64_max sdiv ticksPerSecond \<or> seconds < i64_min sdiv ticksPerSecond
              then (if seconds > 0 then i64_max else i64_min, True)
              else let wholeTicks = seconds * ticksPerSecond in
                if fractionalTicks > 0 \<and> wholeTicks > i64_max - fractionalTicks
                   \<or> fractionalTicks < 0 \<and> wholeTicks < i64_min - fractionalTicks
                then (if seconds \<ge> 0 then i64_max else i64_min, True)
                else (wholeTicks + fractionalTicks, False))"

definition checkedDistanceTicks :: "timestamp \<Rightarrow> int \<Rightarrow> timestamp \<Rightarrow> time_error + int" where
  "checkedDistanceTicks other nanosecondsPerTick t =
     (if \<not> ts_isValid t \<or> \<not> ts_isValid other then Inl ParameterError
      else let (result, overflow) = distanceTicks other nanosecondsPerTick t
           in if overflow then Inl OverflowError else Inr result)"

definition toTicks :: "int \<Rightarrow> time_epoch \<Rightarrow> timestamp \<Rightarrow> int option" where
  "toTicks den e t =
     (if \<not> ts_isValid t then None
      else let (ticks, overflow) = distanceTicks t (cNanosecondsPerSecond div den) (ts_epoch e)
           in if overflow then None else Some ticks)"

section \<open>Applying a \<open>CalendarDelta\<close> to a \<open>DateTime\<close>\<close>

record calendar_delta =
  cd_nanoseconds :: int
  cd_microseconds :: int
  cd_milliseconds :: int
  cd_seconds :: int
  cd_minutes :: int
  cd_hours :: int
  cd_days :: int
  cd_weeks :: int
  cd_months :: int
  cd_years :: int

type_synonym date_time = "date \<times> time_of_day"

definition dt_saturate :: "bool \<Rightarrow> date_time" where
  "dt_saturate positive = (if positive then (date_last, time_last) else (date_first, time_first))"

definition applyTimeDelta :: "int \<Rightarrow> date_time \<Rightarrow> date_time" where
  "applyTimeDelta amount = (\<lambda>(date, time).
     let (time, days) = addWithWrap amount time
     in if wouldAddDaysSaturate days date then dt_saturate (days > 0) else (addDays days date, time))"

definition applySeconds :: "int \<Rightarrow> date_time \<Rightarrow> date_time" where
  "applySeconds amount = (\<lambda>(date, time).
     let (time, days) = addDurationWithWrap amount time
     in if wouldAddDaysSaturate days date then dt_saturate (days > 0) else (addDays days date, time))"

definition applySubseconds :: "int \<Rightarrow> int \<Rightarrow> int \<Rightarrow> date_time \<Rightarrow> date_time" where
  "applySubseconds v partsPerSecond nsPerPart dt =
     applyTimeDelta ((v smod partsPerSecond) * nsPerPart) (applySeconds (v sdiv partsPerSecond) dt)"

text \<open>Minutes, hours and weeks are first converted to the smaller unit, \<open>num\<close> of which they are.\<close>

definition wouldConvertSaturate :: "int \<Rightarrow> int \<Rightarrow> bool" where
  "wouldConvertSaturate num amount \<longleftrightarrow> sat64 (amount * num) \<noteq> amount * num"

definition applySecondsAmount :: "int \<Rightarrow> int \<Rightarrow> date_time \<Rightarrow> date_time" where
  "applySecondsAmount num amount dt =
     (if wouldConvertSaturate num amount then dt_saturate (amount > 0)
      else applySeconds (sat64 (amount * num)) dt)"

definition applyDays :: "int \<Rightarrow> date_time \<Rightarrow> date_time" where
  "applyDays amount dt =
     (if wouldAddDaysSaturate amount (fst dt) then dt_saturate (amount > 0)
      else (addDays amount (fst dt), snd dt))"

definition applyMonths :: "int \<Rightarrow> date_time \<Rightarrow> date_time" where
  "applyMonths amount dt =
     (if wouldAddMonthsSaturate amount (fst dt) then dt_saturate (amount > 0)
      else (addMonths amount (fst dt), snd dt))"

definition applyYears :: "int \<Rightarrow> date_time \<Rightarrow> date_time" where
  "applyYears amount dt =
     (if wouldAddYearsSaturate amount (fst dt) then dt_saturate (amount > 0)
      else (addYears amount (fst dt), snd dt))"

definition dt_added :: "calendar_delta \<Rightarrow> date_time \<Rightarrow> date_time" where
  "dt_added delta dt =
     (if \<not> isValid (fst dt) then (invalid_date, \<lparr>tod_nanoseconds = 0\<rparr>)
      else let dt = applySubseconds (cd_nanoseconds delta) 1000000000 1 dt;
               dt = applySubseconds (cd_microseconds delta) 1000000 1000 dt;
               dt = applySubseconds (cd_milliseconds delta) 1000 1000000 dt;
               dt = applySeconds (cd_seconds delta) dt;
               dt = applySecondsAmount 60 (cd_minutes delta) dt;
               dt = applySecondsAmount 3600 (cd_hours delta) dt;
               dt = applyDays (cd_days delta) dt;
               dt = (if wouldConvertSaturate 7 (cd_weeks delta) then dt_saturate (cd_weeks delta > 0)
                     else applyDays (sat64 (cd_weeks delta * 7)) dt);
               dt = applyMonths (cd_months delta) dt
           in applyYears (cd_years delta) dt)"

definition applyTimeDeltaOrThrow :: "int \<Rightarrow> date_time \<Rightarrow> time_error + date_time" where
  "applyTimeDeltaOrThrow amount = (\<lambda>(date, time).
     let (time, days) = addWithWrap amount time
     in sbind (addDaysOrThrow days date) (\<lambda>date. Inr (date, time)))"

definition applySecondsOrThrow :: "int \<Rightarrow> date_time \<Rightarrow> time_error + date_time" where
  "applySecondsOrThrow amount = (\<lambda>(date, time).
     let (time, days) = addDurationWithWrap amount time
     in sbind (addDaysOrThrow days date) (\<lambda>date. Inr (date, time)))"

definition applySubsecondsOrThrow :: "int \<Rightarrow> int \<Rightarrow> int \<Rightarrow> date_time \<Rightarrow> time_error + date_time" where
  "applySubsecondsOrThrow v partsPerSecond nsPerPart dt =
     sbind (applySecondsOrThrow (v sdiv partsPerSecond) dt)
       (applyTimeDeltaOrThrow ((v smod partsPerSecond) * nsPerPart))"

definition applySecondsAmountOrThrow :: "int \<Rightarrow> int \<Rightarrow> date_time \<Rightarrow> time_error + date_time" where
  "applySecondsAmountOrThrow num amount dt =
     (if wouldConvertSaturate num amount then Inl OverflowError
      else applySecondsOrThrow (sat64 (amount * num)) dt)"

definition applyDateOrThrow :: "(date \<Rightarrow> time_error + date) \<Rightarrow> date_time \<Rightarrow> time_error + date_time" where
  "applyDateOrThrow f dt = sbind (f (fst dt)) (\<lambda>date. Inr (date, snd dt))"

definition dt_addedOrThrow :: "calendar_delta \<Rightarrow> date_time \<Rightarrow> time_error + date_time" where
  "dt_addedOrThrow delta dt =
     (if \<not> isValid (fst dt) then Inr (invalid_date, \<lparr>tod_nanoseconds = 0\<rparr>)
      else sbind (applySubsecondsOrThrow (cd_nanoseconds delta) 1000000000 1 dt) (\<lambda>dt.
        sbind (applySubsecondsOrThrow (cd_microseconds delta) 1000000 1000 dt) (\<lambda>dt.
        sbind (applySubsecondsOrThrow (cd_milliseconds delta) 1000 1000000 dt) (\<lambda>dt.
        sbind (applySecondsOrThrow (cd_seconds delta) dt) (\<lambda>dt.
        sbind (applySecondsAmountOrThrow 60 (cd_minutes delta) dt) (\<lambda>dt.
        sbind (applySecondsAmountOrThrow 3600 (cd_hours delta) dt) (\<lambda>dt.
        sbind (applyDateOrThrow (addDaysOrThrow (cd_days delta)) dt) (\<lambda>dt.
        sbind (if wouldConvertSaturate 7 (cd_weeks delta) then Inl OverflowError
               else applyDateOrThrow (addDaysOrThrow (sat64 (cd_weeks delta * 7))) dt) (\<lambda>dt.
        sbind (applyDateOrThrow (addMonthsOrThrow (cd_months delta)) dt) (\<lambda>dt.
        applyDateOrThrow (addYearsOrThrow (cd_years delta)) dt))))))))))"

text \<open>\<open>DateTime::wouldAddSaturate\<close>; no result is \<open>std::terminate\<close>.\<close>

definition dt_wouldAddSaturate :: "calendar_delta \<Rightarrow> date_time \<Rightarrow> bool option" where
  "dt_wouldAddSaturate delta dt =
     (if \<not> isValid (fst dt) then Some False
      else case dt_addedOrThrow delta dt of
        Inl _ \<Rightarrow> Some True
      | Inr r \<Rightarrow> if \<not> isValid (fst r) then None else Some False)"

section \<open>Truncated division\<close>

lemma trunc_eq:
  assumes "0 < k" "(n::int) = k * q + r" "0 \<le> n \<Longrightarrow> 0 \<le> r \<and> r < k" "n < 0 \<Longrightarrow> - k < r \<and> r \<le> 0"
  shows "n sdiv k = q" "n smod k = r"
proof -
  have "n sdiv k = q \<and> n smod k = r"
  proof (cases "0 \<le> n")
    case True
    then have "n div k = q" "n mod k = r" using assms div_mod_eq[of n k q r] by auto
    then show ?thesis
      using assms(1) True by (auto simp: signed_divide_int_def smod_int_alt_def sgn_if)
  next
    case False
    then show ?thesis
      using assms div_mod_eq[of "- n" k "- q" "- r"] by (simp add: signed_divide_int_def smod_int_alt_def sgn_if)
  qed
  then show "n sdiv k = q" "n smod k = r" by auto
qed

lemma trunc_obtain:
  assumes "0 < (k::int)"
  obtains q r where "n = k * q + r" "n sdiv k = q" "n smod k = r"
    "0 \<le> n \<Longrightarrow> 0 \<le> r \<and> r < k" "n < 0 \<Longrightarrow> - k < r \<and> r \<le> 0" "\<bar>r\<bar> < k"
proof (cases "0 \<le> n")
  case True
  obtain q r where "n = k * q + r" "0 \<le> r" "r < k" using div_mod_obtain[OF assms] by metis
  then show ?thesis using that[of q r] trunc_eq[OF assms, of n q r] True by auto
next
  case False
  obtain q r where "- n = k * q + r" "0 \<le> r" "r < k" using div_mod_obtain[OF assms] by metis
  then have "n = k * (- q) + (- r)" "0 \<le> r" "r < k" by auto
  then show ?thesis using that[of "- q" "- r"] trunc_eq[OF assms, of n "- q" "- r"] False by auto
qed

section \<open>Times of day\<close>

definition time_wf :: "time_of_day \<Rightarrow> bool" where
  "time_wf t \<longleftrightarrow> 0 \<le> tod_nanoseconds t \<and> tod_nanoseconds t < cNanosecondsPerDay"

definition is_i64 :: "int \<Rightarrow> bool" where "is_i64 x \<longleftrightarrow> i64_min \<le> x \<and> x \<le> i64_max"

lemma wrappedAndCount_day:
  assumes "is_i64 v"
  shows "wrappedAndCount v 0 (cNanosecondsPerDay - 1) = (v mod cNanosecondsPerDay, v div cNanosecondsPerDay)"
proof -
  obtain q r where q: "v = cNanosecondsPerDay * q + r" "0 \<le> r" "r < cNanosecondsPerDay"
    "v div cNanosecondsPerDay = q" "v mod cNanosecondsPerDay = r"
    using div_mod_obtain[of cNanosecondsPerDay v] by (auto simp: cNanosecondsPerDay_def)
  have b: "- 110000 < q" "q < 110000"
    using q(1-3) assms unfolding is_i64_def cNanosecondsPerDay_def by linarith+
  show ?thesis
  proof (cases "0 \<le> v")
    case True
    then have v: "\<bar>v - 0\<bar> = v" "\<not> v < 0" by auto
    have w: "cNanosecondsPerDay - 1 - 0 + 1 = cNanosecondsPerDay" by simp
    show ?thesis
      unfolding wrappedAndCount_def Let_def v(1) w q(4,5)
      using v(2) b q(2,3) by (simp add: cNanosecondsPerDay_def)
  next
    case False
    define q' r' where "q' = (if r = 0 then - q else - q - 1)" and "r' = (if r = 0 then 0 else cNanosecondsPerDay - r)"
    have e: "- v = cNanosecondsPerDay * q' + r'" "0 \<le> r'" "r' < cNanosecondsPerDay"
      using q(1-3) by (auto simp: q'_def r'_def cNanosecondsPerDay_def)
    have d: "(- v) div cNanosecondsPerDay = q'" "(- v) mod cNanosecondsPerDay = r'"
      using div_mod_eq[OF e] by auto
    have v: "\<bar>v - 0\<bar> = - v" "v < 0" using False by auto
    have w: "cNanosecondsPerDay - 1 - 0 + 1 = cNanosecondsPerDay" by simp
    show ?thesis
      unfolding wrappedAndCount_def Let_def v(1) w d q(4,5)
      using v(2) b q(2,3) by (simp add: cNanosecondsPerDay_def q'_def r'_def)
  qed
qed

lemma addWithWrap_exact:
  assumes "is_i64 (tod_nanoseconds t + delta)"
  shows "addWithWrap delta t =
    (\<lparr>tod_nanoseconds = (tod_nanoseconds t + delta) mod cNanosecondsPerDay\<rparr>,
     (tod_nanoseconds t + delta) div cNanosecondsPerDay)"
  using assms wrappedAndCount_day[OF assms] by (simp add: addWithWrap_def is_i64_def)

lemma addDurationWithWrap_exact:
  assumes "time_wf t" "is_i64 seconds"
  shows "addDurationWithWrap seconds t =
    (\<lparr>tod_nanoseconds = (tod_nanoseconds t + seconds * cNanosecondsPerSecond) mod cNanosecondsPerDay\<rparr>,
     (tod_nanoseconds t + seconds * cNanosecondsPerSecond) div cNanosecondsPerDay)"
proof -
  obtain d s where d: "seconds = 86400 * d + s" "seconds sdiv 86400 = d" "seconds smod 86400 = s"
    "0 \<le> seconds \<Longrightarrow> 0 \<le> s \<and> s < 86400" "seconds < 0 \<Longrightarrow> - 86400 < s \<and> s \<le> 0" "\<bar>s\<bar> < 86400"
    using trunc_obtain[of 86400 seconds] by auto
  define ns where "ns = s * 1000000000"
  obtain q r where q: "tod_nanoseconds t + ns = cNanosecondsPerDay * q + r" "0 \<le> r" "r < cNanosecondsPerDay"
    "(tod_nanoseconds t + ns) div cNanosecondsPerDay = q" "(tod_nanoseconds t + ns) mod cNanosecondsPerDay = r"
    using div_mod_obtain[of cNanosecondsPerDay "tod_nanoseconds t + ns"] by (auto simp: cNanosecondsPerDay_def)
  have t: "0 \<le> tod_nanoseconds t" "tod_nanoseconds t < 86400000000000"
    using assms(1) by (auto simp: time_wf_def cNanosecondsPerDay_def)
  have ns: "- 86400000000000 < ns" "ns < 86400000000000" using d(6) by (auto simp: ns_def)
  have i: "is_i64 (tod_nanoseconds t + ns)" using t ns by (simp add: is_i64_def)
  have qb: "- 2 \<le> q" "q \<le> 2" using q(1-3) t ns unfolding cNanosecondsPerDay_def by linarith+
  have db: "- 110000000000000 < d" "d < 110000000000000"
    using d(1,6) assms(2) unfolding is_i64_def by linarith+
  have sn: "sat64 ns = ns" "sat64 (d + q) = d + q" using ns qb db by simp_all
  have total: "tod_nanoseconds t + seconds * 1000000000 = cNanosecondsPerDay * (d + q) + r"
    using q(1) d(1) by (simp add: ns_def cNanosecondsPerDay_def algebra_simps)
  show ?thesis
    unfolding addDurationWithWrap_def toDaysAndNanoseconds_def cSecondsPerDay_def
      cNanosecondsPerSecond_def d(2,3) ns_def[symmetric] sn(1) div_mod_eq[OF total q(2,3)]
    by (simp add: addWithWrap_exact[OF i] q(4,5) sn(2))
qed

lemma mkTime_parts:
  assumes "time_wf t"
  shows "mkTime (time_hour t) (time_minute t) (time_second t) (nanosecondFraction t) = t"
    "0 \<le> time_hour t \<and> time_hour t \<le> 23" "0 \<le> time_minute t \<and> time_minute t \<le> 59"
    "0 \<le> time_second t \<and> time_second t \<le> 59"
    "0 \<le> nanosecondFraction t \<and> nanosecondFraction t < cNanosecondsPerSecond"
proof -
  let ?n = "tod_nanoseconds t"
  obtain s f where f: "?n = 1000000000 * s + f" "0 \<le> f" "f < 1000000000"
    "?n div 1000000000 = s" "?n mod 1000000000 = f" using div_mod_obtain[of 1000000000 ?n] by auto
  obtain m sec where m: "s = 60 * m + sec" "0 \<le> sec" "sec < 60" "s div 60 = m" "s mod 60 = sec"
    using div_mod_obtain[of 60 s] by auto
  obtain h mi where h: "m = 60 * h + mi" "0 \<le> mi" "mi < 60" "m div 60 = h" "m mod 60 = mi"
    using div_mod_obtain[of 60 m] by auto
  have n: "0 \<le> ?n" "?n < 86400000000000" using assms by (auto simp: time_wf_def cNanosecondsPerDay_def)
  have s3600: "s div 3600 = h"
    by (rule div_mod_eq(1)[of s 3600 h "60 * mi + sec"]) (use m(1-3) h(1-3) in auto)
  have hb: "0 \<le> h" "h \<le> 23" using n f(1-3) m(1-3) h(1-3) by linarith+
  have p: "time_hour t = h" "time_minute t = mi" "time_second t = sec" "nanosecondFraction t = f"
    using hb h(2,3) m(2,3) f(2,3)
    by (simp_all add: time_hour_def time_minute_def time_second_def nanosecondFraction_def mkHour_def
        mkMinute_def mkSecond_def cNanosecondsPerSecond_def f(4,5) m(4,5) h(4,5) s3600)
  show "mkTime (time_hour t) (time_minute t) (time_second t) (nanosecondFraction t) = t"
    unfolding p using f(1-3) m(1) h(1) by (simp add: mkTime_def toAmount_def cNanosecondsPerSecond_def)
  show "0 \<le> time_hour t \<and> time_hour t \<le> 23" "0 \<le> time_minute t \<and> time_minute t \<le> 59"
    "0 \<le> time_second t \<and> time_second t \<le> 59"
    "0 \<le> nanosecondFraction t \<and> nanosecondFraction t < cNanosecondsPerSecond"
    unfolding p using hb h(2,3) m(2,3) f(2,3) by (auto simp: cNanosecondsPerSecond_def)
qed

lemma time_wraps_exactly_cases:
  assumes "time_wf t"
  shows "is_i64 (tod_nanoseconds t + delta) \<Longrightarrow>
      time_wf (fst (addWithWrap delta t)) \<and>
      snd (addWithWrap delta t) * cNanosecondsPerDay + tod_nanoseconds (fst (addWithWrap delta t))
        = tod_nanoseconds t + delta"
    and "is_i64 seconds \<Longrightarrow>
      time_wf (fst (addDurationWithWrap seconds t)) \<and>
      snd (addDurationWithWrap seconds t) * cNanosecondsPerDay
        + tod_nanoseconds (fst (addDurationWithWrap seconds t))
        = tod_nanoseconds t + seconds * cNanosecondsPerSecond"
    and "mkTime (time_hour t) (time_minute t) (time_second t) (nanosecondFraction t) = t"
    and "addWithWrap i64_max time_last = addWithWrap i64_max time_first"
proof -
  have n: "0 < cNanosecondsPerDay" by (simp add: cNanosecondsPerDay_def)
  show "is_i64 (tod_nanoseconds t + delta) \<Longrightarrow>
      time_wf (fst (addWithWrap delta t)) \<and>
      snd (addWithWrap delta t) * cNanosecondsPerDay + tod_nanoseconds (fst (addWithWrap delta t))
        = tod_nanoseconds t + delta"
    using n by (simp add: addWithWrap_exact time_wf_def)
  show "is_i64 seconds \<Longrightarrow>
      time_wf (fst (addDurationWithWrap seconds t)) \<and>
      snd (addDurationWithWrap seconds t) * cNanosecondsPerDay
        + tod_nanoseconds (fst (addDurationWithWrap seconds t))
        = tod_nanoseconds t + seconds * cNanosecondsPerSecond"
    using n by (simp add: addDurationWithWrap_exact[OF assms] time_wf_def)
  show "mkTime (time_hour t) (time_minute t) (time_second t) (nanosecondFraction t) = t"
    using mkTime_parts[OF assms] by simp
  show "addWithWrap i64_max time_last = addWithWrap i64_max time_first"
    by (simp add: addWithWrap_def time_last_def time_first_def mkTime_def toAmount_def mkHour_def
        mkMinute_def mkSecond_def cNanosecondsPerSecond_def sat64_def clamp_def)
qed

text \<open>C37: Adding a duration to a time of day wraps at midnight without losing anything: the new
  time and the days crossed add up to the old time plus the amount, for every number of seconds
  and for every number of nanoseconds that fits a 64-bit sum; a time is rebuilt from its parts.
  Near the largest time delta the sum saturates first, and nanoseconds are lost.\<close>

theorem time_wraps_exactly:
  assumes "time_wf t"
  shows "(is_i64 (tod_nanoseconds t + delta) \<longrightarrow>
      time_wf (fst (addWithWrap delta t)) \<and>
      snd (addWithWrap delta t) * cNanosecondsPerDay + tod_nanoseconds (fst (addWithWrap delta t))
        = tod_nanoseconds t + delta)
    \<and> (is_i64 seconds \<longrightarrow>
      time_wf (fst (addDurationWithWrap seconds t)) \<and>
      snd (addDurationWithWrap seconds t) * cNanosecondsPerDay
        + tod_nanoseconds (fst (addDurationWithWrap seconds t))
        = tod_nanoseconds t + seconds * cNanosecondsPerSecond)
    \<and> (mkTime (time_hour t) (time_minute t) (time_second t) (nanosecondFraction t) = t)
    \<and> (addWithWrap i64_max time_last = addWithWrap i64_max time_first)"
  using time_wraps_exactly_cases[OF assms] by blast

lemma time_wraps_exactly_witness:
  "snd (addDurationWithWrap (- 90000) \<lparr>tod_nanoseconds = 1000\<rparr>) * cNanosecondsPerDay
      + tod_nanoseconds (fst (addDurationWithWrap (- 90000) \<lparr>tod_nanoseconds = 1000\<rparr>))
    = 1000 - 90000 * cNanosecondsPerSecond
    \<and> time_wf (fst (addWithWrap 86400000000000 \<lparr>tod_nanoseconds = 1000\<rparr>))"
  using time_wraps_exactly[of "\<lparr>tod_nanoseconds = 1000\<rparr>" 86400000000000 "- 90000"]
  by (simp add: time_wf_def is_i64_def cNanosecondsPerDay_def)

section \<open>Timestamps\<close>

text \<open>The instant of a timestamp, in nanoseconds since the epoch, and the timestamp of an instant.\<close>

definition ts_instant :: "timestamp \<Rightarrow> int" where
  "ts_instant t = ts_days t * cNanosecondsPerDay + ts_nanoseconds t"

definition ts_at :: "int \<Rightarrow> timestamp" where
  "ts_at n = \<lparr>ts_days = n div cNanosecondsPerDay, ts_nanoseconds = n mod cNanosecondsPerDay\<rparr>"

definition ts_wf :: "timestamp \<Rightarrow> bool" where
  "ts_wf t \<longleftrightarrow> 0 \<le> ts_days t \<and> ts_days t \<le> cLastDay
     \<and> 0 \<le> ts_nanoseconds t \<and> ts_nanoseconds t < cNanosecondsPerDay"

definition last_instant :: int where "last_instant = 3652425 * 86400000000000 - 1"

definition tick_unit :: "int \<Rightarrow> bool" where
  "tick_unit den \<longleftrightarrow> den = 1 \<or> den = 1000 \<or> den = 1000000 \<or> den = 1000000000"

lemma ts_at_instant:
  assumes "n = d * cNanosecondsPerDay + s" "0 \<le> s" "s < cNanosecondsPerDay"
  shows "ts_at n = \<lparr>ts_days = d, ts_nanoseconds = s\<rparr>"
  using div_mod_eq[of n cNanosecondsPerDay d s] assms by (simp add: ts_at_def mult.commute)

lemma ts_at_wf:
  assumes "0 \<le> n" "n \<le> last_instant"
  shows "ts_wf (ts_at n)" "ts_instant (ts_at n) = n"
proof -
  obtain q r where q: "n = cNanosecondsPerDay * q + r" "0 \<le> r" "r < cNanosecondsPerDay"
    using div_mod_obtain[of cNanosecondsPerDay n] by (auto simp: cNanosecondsPerDay_def)
  have "0 \<le> q" "q \<le> 3652424" using q assms unfolding last_instant_def cNanosecondsPerDay_def by linarith+
  then show "ts_wf (ts_at n)" "ts_instant (ts_at n) = n"
    using q ts_at_instant[of n q r] by (auto simp: ts_wf_def ts_instant_def cLastDay_def mult.commute)
qed

lemma ts_instant_bounds:
  assumes "ts_wf t"
  shows "0 \<le> ts_instant t" "ts_instant t \<le> last_instant" "ts_at (ts_instant t) = t"
  using assms ts_at_instant[of "ts_instant t" "ts_days t" "ts_nanoseconds t"]
  by (auto simp: ts_wf_def ts_instant_def last_instant_def cLastDay_def cNanosecondsPerDay_def)

lemma splitAmount_exact:
  assumes "tick_unit den"
  obtains d s where "splitAmount den ticks = (d, s)"
    "ticks * (cNanosecondsPerSecond div den) = d * cNanosecondsPerDay + s"
    "- cNanosecondsPerDay < s" "s < cNanosecondsPerDay"
proof -
  define k where "k = cNanosecondsPerSecond div den"
  define u where "u = cNanosecondsPerDay div k"
  have ku: "k * u = cNanosecondsPerDay" "0 < k" "0 < u"
    using assms by (auto simp: tick_unit_def k_def u_def cNanosecondsPerSecond_def cNanosecondsPerDay_def)
  obtain q r where q: "ticks = u * q + r" "ticks sdiv u = q" "ticks smod u = r" "\<bar>r\<bar> < u"
    using trunc_obtain[OF ku(3), of ticks] by metis
  have "ticks * k = q * cNanosecondsPerDay + r * k"
    unfolding ku(1)[symmetric] q(1) by (simp add: algebra_simps)
  moreover have "r * k < u * k" "(- u) * k < r * k"
    using mult_strict_right_mono[of r u k] mult_strict_right_mono[of "- u" r k] q(4) ku(2) by linarith+
  ultimately show ?thesis
    using that[of q "r * k"] q(2,3) ku(1) unfolding splitAmount_def Let_def
    by (simp add: k_def[symmetric] u_def[symmetric] mult.commute)
qed

lemma shifted_exact:
  assumes wf: "ts_wf t" and s: "- cNanosecondsPerDay < s" "s < cNanosecondsPerDay"
    and n: "n = ts_instant t + (if sub then - (d * cNanosecondsPerDay + s) else d * cNanosecondsPerDay + s)"
  shows "shifted d s sub t =
    (if n < 0 then (ts_first, True) else if n > last_instant then (ts_last, True) else (ts_at n, False))"
proof -
  define d' s' where "d' = ts_days t + (if sub then - d else d)"
    and "s' = ts_nanoseconds t + (if sub then - s else s)"
  define D S where "D = (if s' < 0 then d' - 1 else if s' \<ge> cNanosecondsPerDay then d' + 1 else d')"
    and "S = (if s' < 0 then s' + cNanosecondsPerDay else if s' \<ge> cNanosecondsPerDay
          then s' - cNanosecondsPerDay else s')"
  have t: "0 \<le> ts_days t" "0 \<le> ts_nanoseconds t" "ts_nanoseconds t < 86400000000000"
    using wf by (auto simp: ts_wf_def cNanosecondsPerDay_def)
  have S: "0 \<le> S" "S < 86400000000000" "n = D * 86400000000000 + S"
    using t s n by (auto simp: D_def S_def d'_def s'_def cNanosecondsPerDay_def ts_instant_def algebra_simps)
  have "shifted d s sub t =
      (if D < 0 \<or> D > cLastDay then (if D < 0 then ts_first else ts_last, True)
       else (\<lparr>ts_days = D, ts_nanoseconds = S\<rparr>, False))"
    using t(1) by (simp add: shifted_def Let_def ts_isValid_def D_def S_def flip: d'_def s'_def)
  moreover have "D < 0 \<longleftrightarrow> n < 0" "D > cLastDay \<longleftrightarrow> n > last_instant"
    using S unfolding cLastDay_def last_instant_def by linarith+
  moreover have "ts_at n = \<lparr>ts_days = D, ts_nanoseconds = S\<rparr>"
    by (rule ts_at_instant) (use S in \<open>simp_all add: cNanosecondsPerDay_def\<close>)
  ultimately show ?thesis by simp
qed

lemma ts_ends: "ts_first = ts_at 0" "ts_last = ts_at last_instant"
  by (simp_all add: ts_first_def ts_last_def ts_at_def last_instant_def cNanosecondsPerDay_def cLastDay_def)

text \<open>C16: Adding and subtracting an amount of seconds, milliseconds, microseconds or nanoseconds is
  exact on the instant of a timestamp: the result is the timestamp of the shifted instant, kept
  inside the calendar at its first and last nanosecond, and the checking variants throw exactly
  when the instant leaves the calendar; no 64-bit operand is refused.\<close>

theorem timestamp_shift_exact:
  assumes "ts_wf t" "tick_unit den" "step = amount * (cNanosecondsPerSecond div den)"
  shows "ts_added den amount t = ts_at (clamp 0 last_instant (ts_instant t + step))
    \<and> ts_subtracted den amount t = ts_at (clamp 0 last_instant (ts_instant t - step))
    \<and> ts_addedOrThrow den amount t =
        (if 0 \<le> ts_instant t + step \<and> ts_instant t + step \<le> last_instant
         then Inr (ts_at (ts_instant t + step)) else Inl OverflowError)
    \<and> ts_subtractedOrThrow den amount t =
        (if 0 \<le> ts_instant t - step \<and> ts_instant t - step \<le> last_instant
         then Inr (ts_at (ts_instant t - step)) else Inl OverflowError)"
proof -
  obtain d s where s: "splitAmount den amount = (d, s)" "step = d * cNanosecondsPerDay + s"
    "- cNanosecondsPerDay < s" "s < cNanosecondsPerDay"
    using splitAmount_exact[OF assms(2), of amount] assms(3) by metis
  have a: "shifted d s False t = (if ts_instant t + step < 0 then (ts_first, True)
      else if ts_instant t + step > last_instant then (ts_last, True) else (ts_at (ts_instant t + step), False))"
    by (rule shifted_exact[OF assms(1) s(3,4)]) (simp add: s(2))
  have b: "shifted d s True t = (if ts_instant t - step < 0 then (ts_first, True)
      else if ts_instant t - step > last_instant then (ts_last, True) else (ts_at (ts_instant t - step), False))"
    by (rule shifted_exact[OF assms(1) s(3,4)]) (simp add: s(2))
  have l: "0 \<le> last_instant" by (simp add: last_instant_def)
  show ?thesis
    unfolding ts_added_def ts_subtracted_def ts_addedOrThrow_def ts_subtractedOrThrow_def s(1) Let_def
      prod.case a b using l by (auto simp: ts_ends clamp_def)
qed

lemma timestamp_shift_exact_witness:
  "ts_addedOrThrow 1000 (- 1) \<lparr>ts_days = 1, ts_nanoseconds = 0\<rparr>
      = Inr \<lparr>ts_days = 0, ts_nanoseconds = 86399999000000\<rparr>
    \<and> ts_subtracted 1 i64_min \<lparr>ts_days = 1, ts_nanoseconds = 0\<rparr> = ts_last"
proof -
  let ?t = "\<lparr>ts_days = 1, ts_nanoseconds = 0\<rparr>"
  have t: "ts_wf ?t" "tick_unit 1000" "tick_unit 1"
    by (simp_all add: ts_wf_def tick_unit_def cLastDay_def cNanosecondsPerDay_def)
  show ?thesis
    using timestamp_shift_exact[OF t(1,2), of "- 1000000" "- 1"]
      timestamp_shift_exact[OF t(1,3), of "i64_min * 1000000000" i64_min]
    by (simp add: cNanosecondsPerSecond_def ts_instant_def cNanosecondsPerDay_def last_instant_def
        ts_at_def clamp_def ts_last_def cLastDay_def)
qed

section \<open>Distances between timestamps\<close>

text \<open>The seconds and the fraction with the same sign that make up a difference in nanoseconds.\<close>

lemma trunc_compose:
  assumes "0 < (k::int)" "0 < m" "n = m * k * s + f" "s > 0 \<Longrightarrow> 0 \<le> f" "s < 0 \<Longrightarrow> f \<le> 0" "\<bar>f\<bar> < m * k"
  shows "n sdiv k = m * s + f sdiv k"
proof -
  obtain q r where q: "f = k * q + r" "f sdiv k = q" "0 \<le> f \<Longrightarrow> 0 \<le> r \<and> r < k"
    "f < 0 \<Longrightarrow> - k < r \<and> r \<le> 0" using trunc_obtain[OF assms(1), of f] by metis
  have n: "n = k * (m * s + q) + r" using assms(3) q(1) by (simp add: algebra_simps)
  have mk: "0 < m * k" using assms(1,2) by simp
  have "0 \<le> n \<Longrightarrow> f < 0 \<Longrightarrow> False"
  proof -
    assume n0: "0 \<le> n" "f < 0"
    then have "s \<le> 0" using assms(4) by fastforce
    then have "m * k * s \<le> 0" using mk by (simp add: mult_nonneg_nonpos)
    then show False using n0 assms(3) by linarith
  qed
  moreover have "n < 0 \<Longrightarrow> 0 \<le> f \<Longrightarrow> f = 0"
  proof -
    assume n0: "n < 0" "0 \<le> f"
    then have "s < 0" using assms(3) mk by (smt (verit) mult_nonneg_nonneg)
    then show "f = 0" using assms(5) n0 by simp
  qed
  moreover have "f = 0 \<Longrightarrow> r = 0" using q(1,3,2) assms(1) by (simp add: trunc_eq(1) split: if_splits)
  ultimately have "n sdiv k = m * s + q"
    by (intro trunc_eq(1)[OF assms(1) n]) (use q assms(1) in \<open>force+\<close>)
  then show ?thesis using q(2) by simp
qed

lemma distance_parts:
  assumes "ts_wf t" "ts_wf other"
  obtains s f where
    "ts_instant other - ts_instant t = 1000000000 * s + f" "s > 0 \<Longrightarrow> 0 \<le> f" "s < 0 \<Longrightarrow> f \<le> 0"
    "\<bar>f\<bar> < 1000000000" "\<And>k. distanceTicks other k t =
      (let m = cNanosecondsPerSecond sdiv k; q = f sdiv k in
       if s > i64_max sdiv m \<or> s < i64_min sdiv m then (if s > 0 then i64_max else i64_min, True)
       else if q > 0 \<and> s * m > i64_max - q \<or> q < 0 \<and> s * m < i64_min - q
       then (if s \<ge> 0 then i64_max else i64_min, True) else (s * m + q, False))"
proof -
  define td dd where "td = ts_nanoseconds other - ts_nanoseconds t" and "dd = ts_days other - ts_days t"
  obtain q r where q: "td = 1000000000 * q + r" "td sdiv 1000000000 = q" "td smod 1000000000 = r" "\<bar>r\<bar> < 1000000000"
    by (rule trunc_obtain[of 1000000000 td]) auto
  define s0 where "s0 = dd * 86400 + q"
  define s where "s = (if s0 > 0 \<and> r < 0 then s0 - 1 else if s0 < 0 \<and> r > 0 then s0 + 1 else s0)"
  define f where "f = (if s0 > 0 \<and> r < 0 then r + 1000000000 else if s0 < 0 \<and> r > 0 then r - 1000000000 else r)"
  have D: "ts_instant other - ts_instant t = 1000000000 * s0 + r"
    using q(1) by (simp add: ts_instant_def cNanosecondsPerDay_def td_def dd_def s0_def algebra_simps)
  show ?thesis
  proof (rule that[of s f])
    show "ts_instant other - ts_instant t = 1000000000 * s + f" using D by (auto simp: s_def f_def)
    show "s > 0 \<Longrightarrow> 0 \<le> f" "s < 0 \<Longrightarrow> f \<le> 0" "\<bar>f\<bar> < 1000000000"
      using q(4) by (auto simp: s_def f_def split: if_splits)
    fix k
    have v: "ts_isValid t" "ts_isValid other" using assms by (auto simp: ts_isValid_def ts_wf_def)
    have pair: "(if s0 > 0 \<and> r < 0 then (s0 - 1, r + 1000000000)
        else if s0 < 0 \<and> r > 0 then (s0 + 1, r - 1000000000) else (s0, r)) = (s, f)"
      by (simp add: s_def f_def)
    show "distanceTicks other k t =
      (let m = cNanosecondsPerSecond sdiv k; q = f sdiv k in
       if s > i64_max sdiv m \<or> s < i64_min sdiv m then (if s > 0 then i64_max else i64_min, True)
       else if q > 0 \<and> s * m > i64_max - q \<or> q < 0 \<and> s * m < i64_min - q
       then (if s \<ge> 0 then i64_max else i64_min, True) else (s * m + q, False))"
      unfolding distanceTicks_def Let_def
      by (simp only: v not_True_eq_False simp_thms if_False cNanosecondsPerSecond_def cSecondsPerDay_def
          td_def[symmetric] dd_def[symmetric] q(2,3) s0_def[symmetric] pair prod.case)
  qed
qed

lemma mult_over:
  assumes "0 < (m::int)" "c div m < s"
  shows "c < m * s"
proof -
  obtain q r where q: "c = m * q + r" "0 \<le> r" "r < m" "c div m = q" using div_mod_obtain[OF assms(1)] by metis
  have "m * (q + 1) \<le> m * s" using q(4) assms by (intro mult_left_mono) auto
  then show ?thesis using q(1-3) by (simp add: distrib_left)
qed

lemma mult_under:
  assumes "0 < (m::int)" "s \<le> c div m"
  shows "m * s \<le> c"
proof -
  obtain q r where q: "c = m * q + r" "0 \<le> r" "r < m" "c div m = q" using div_mod_obtain[OF assms(1)] by metis
  have "m * s \<le> m * q" using q(4) assms by (intro mult_left_mono) auto
  then show ?thesis using q(1-3) by linarith
qed

lemma clamp_high: "mn \<le> mx \<Longrightarrow> mx < x \<Longrightarrow> clamp mn mx x = mx"
  by (simp add: clamp_def)

lemma clamp_low: "mn \<le> mx \<Longrightarrow> x < mn \<Longrightarrow> clamp mn mx x = mn"
  by (simp add: clamp_def)

lemma trunc_bounds:
  assumes "0 < (k::int)"
  shows "\<bar>f\<bar> < n \<Longrightarrow> \<bar>f sdiv k\<bar> < n" "0 \<le> f \<Longrightarrow> 0 \<le> f sdiv k" "f \<le> 0 \<Longrightarrow> f sdiv k \<le> 0"
proof -
  show "\<bar>f\<bar> < n \<Longrightarrow> \<bar>f sdiv k\<bar> < n" using sdiv_int_range[of f k] by auto
  show "0 \<le> f \<Longrightarrow> 0 \<le> f sdiv k"
    using assms by (auto simp: signed_divide_int_def sgn_if intro!: pos_imp_zdiv_nonneg_iff[THEN iffD2])
  show "f \<le> 0 \<Longrightarrow> f sdiv k \<le> 0"
    using assms by (auto simp: signed_divide_int_def sgn_if intro!: pos_imp_zdiv_nonneg_iff[THEN iffD2])
qed

text \<open>The distance between two timestamps is their difference in nanoseconds divided by the
  tick length and truncated towards zero; it saturates exactly when it does not fit 64 bits, where
  the checking variant throws. At nanosecond resolution the distance leads back: adding it to the
  first timestamp gives the second.\<close>

lemma timestamp_distance_exact:
  assumes "ts_wf t" "ts_wf other" "tick_unit den"
    "ticks = (ts_instant other - ts_instant t) sdiv (cNanosecondsPerSecond div den)"
  shows "distanceTicks other (cNanosecondsPerSecond div den) t = (clamp i64_min i64_max ticks, \<not> is_i64 ticks)
    \<and> checkedDistanceTicks other (cNanosecondsPerSecond div den) t
        = (if is_i64 ticks then Inr ticks else Inl OverflowError)
    \<and> (den = 1000000000 \<and> is_i64 ticks \<longrightarrow> ts_addedOrThrow den ticks t = Inr other)"
proof -
  define k where "k = cNanosecondsPerSecond div den"
  define m where "m = cNanosecondsPerSecond sdiv k"
  have km: "m * k = 1000000000" "0 < k" "0 < m" "m \<le> 1000000000"
    using assms(3) by (auto simp: tick_unit_def k_def m_def cNanosecondsPerSecond_def)
  obtain s f where d: "ts_instant other - ts_instant t = 1000000000 * s + f" "s > 0 \<Longrightarrow> 0 \<le> f"
    "s < 0 \<Longrightarrow> f \<le> 0" "\<bar>f\<bar> < 1000000000" "distanceTicks other k t =
      (let m = cNanosecondsPerSecond sdiv k; q = f sdiv k in
       if s > i64_max sdiv m \<or> s < i64_min sdiv m then (if s > 0 then i64_max else i64_min, True)
       else if q > 0 \<and> s * m > i64_max - q \<or> q < 0 \<and> s * m < i64_min - q
       then (if s \<ge> 0 then i64_max else i64_min, True) else (s * m + q, False))"
    by (rule distance_parts[OF assms(1,2)]) (rule that)
  define q where "q = f sdiv k"
  have ticks: "ticks = m * s + q"
    unfolding assms(4) k_def[symmetric] q_def
    by (rule trunc_compose) (use d km in \<open>auto simp: mult.commute\<close>)
  have qb: "\<bar>q\<bar> < 1000000000" "0 \<le> f \<Longrightarrow> 0 \<le> q" "f \<le> 0 \<Longrightarrow> q \<le> 0"
    using trunc_bounds[OF km(2)] d(4) by (auto simp: q_def)
  have sd: "i64_max sdiv m = i64_max div m" "i64_min sdiv m = - (9223372036854775808 div m)"
    using km(3) by (simp_all add: signed_divide_int_def)
  have big: "i64_max < m * s" if "s > i64_max sdiv m"
    by (rule mult_over[OF km(3)]) (use that sd in simp)
  have small: "m * s < i64_min" if "s < i64_min sdiv m"
    using mult_over[OF km(3), of 9223372036854775808 "- s"] that sd by simp
  have fits: "i64_min \<le> m * s" "m * s \<le> i64_max" if "\<not> (s > i64_max sdiv m \<or> s < i64_min sdiv m)"
    using mult_under[OF km(3), of s i64_max] mult_under[OF km(3), of "- s" 9223372036854775808] that sd
    by simp_all
  have sgn: "s > 0 \<Longrightarrow> 0 \<le> q" "s < 0 \<Longrightarrow> q \<le> 0" using d(2,3) qb by auto
  have ms: "0 \<le> s \<Longrightarrow> 0 \<le> m * s" "s \<le> 0 \<Longrightarrow> m * s \<le> 0" "m * s > 0 \<Longrightarrow> s > 0"
    using km(3) by (simp_all add: mult_nonneg_nonpos zero_less_mult_iff)
  have main: "distanceTicks other k t = (clamp i64_min i64_max ticks, \<not> is_i64 ticks)"
  proof -
    note eq = d(5)[unfolded Let_def, folded m_def q_def, unfolded mult.commute[of s m] ticks[symmetric]]
    consider (hi) "s > i64_max sdiv m" | (lo) "\<not> s > i64_max sdiv m" "s < i64_min sdiv m"
      | (ok) "\<not> (s > i64_max sdiv m \<or> s < i64_min sdiv m)" by blast
    then show ?thesis
    proof cases
      case hi
      have "0 < s" "i64_max < ticks" using big[OF hi] ms(3) sgn(1) by (auto simp: ticks)
      then show ?thesis unfolding eq using hi by (simp add: is_i64_def clamp_high)
    next
      case lo
      have "s < 0" using small[OF lo(2)] ms(1) by linarith
      then have "\<not> 0 < s" "ticks < i64_min" using small[OF lo(2)] sgn(2) by (auto simp: ticks)
      then show ?thesis unfolding eq using lo by (simp add: is_i64_def clamp_low)
    next
      case ok
      note b = fits[OF ok]
      consider (over) "q > 0" "m * s > i64_max - q" | (under) "q < 0" "m * s < i64_min - q"
        | (fit) "\<not> (q > 0 \<and> m * s > i64_max - q)" "\<not> (q < 0 \<and> m * s < i64_min - q)" by blast
      then show ?thesis
      proof cases
        case over
        have "\<not> s < 0" using sgn(2) over(1) by linarith
        then have "0 \<le> s" "i64_max < ticks" using over by (auto simp: ticks)
        then show ?thesis unfolding eq using ok over by (simp add: is_i64_def clamp_high)
      next
        case under
        have "\<not> 0 < s" using sgn(1) under(1) by linarith
        then have "s \<le> 0" "ticks < i64_min" using under by (auto simp: ticks)
        moreover have "s \<noteq> 0" using under qb(1) by auto
        ultimately show ?thesis unfolding eq using ok under by (simp add: is_i64_def clamp_low)
      next
        case fit
        then have "i64_min \<le> ticks" "ticks \<le> i64_max" using b by (auto simp: ticks)
        then show ?thesis unfolding eq using ok fit by (simp add: is_i64_def)
      qed
    qed
  qed
  have shift_back: "ts_addedOrThrow 1000000000 (ts_instant b - ts_instant a) a = Inr b"
    if "ts_wf a" "ts_wf b" for a b
    using timestamp_shift_exact[OF that(1), of 1000000000 "ts_instant b - ts_instant a" "ts_instant b - ts_instant a"]
      ts_instant_bounds[OF that(2)] by (simp add: tick_unit_def cNanosecondsPerSecond_def)
  have checked: "checkedDistanceTicks other k t = (if is_i64 ticks then Inr ticks else Inl OverflowError)"
    using assms(1,2) main
    by (auto simp: checkedDistanceTicks_def ts_isValid_def ts_wf_def is_i64_def)
  have one: "ticks = ts_instant other - ts_instant t" if "den = 1000000000"
    using that by (simp add: assms(4) cNanosecondsPerSecond_def)
  show ?thesis
    unfolding k_def[symmetric] using main checked one shift_back[OF assms(1,2)] by simp
qed

lemma timestamp_distance_exact_witness:
  "checkedDistanceTicks \<lparr>ts_days = 0, ts_nanoseconds = 999\<rparr> 1000 \<lparr>ts_days = 1, ts_nanoseconds = 0\<rparr>
      = Inr (- 86399999999)
    \<and> snd (distanceTicks ts_last 1 ts_first)"
proof -
  let ?a = "\<lparr>ts_days = 1, ts_nanoseconds = 0\<rparr>" and ?b = "\<lparr>ts_days = 0, ts_nanoseconds = 999\<rparr>"
  have w: "ts_wf ?a" "ts_wf ?b" "ts_wf ts_first" "ts_wf ts_last" "tick_unit 1000000" "tick_unit 1000000000"
    by (simp_all add: ts_wf_def tick_unit_def cLastDay_def cNanosecondsPerDay_def ts_first_def ts_last_def)
  show ?thesis
    using timestamp_distance_exact[OF w(1,2,5) refl] timestamp_distance_exact[OF w(3,4,6) refl]
    by (simp add: cNanosecondsPerSecond_def ts_instant_def cNanosecondsPerDay_def is_i64_def
        ts_first_def ts_last_def cLastDay_def)
qed

section \<open>Calendar deltas\<close>

text \<open>The instant of a date and a time, and the date and time of an instant.\<close>

definition dt_instant :: "date_time \<Rightarrow> int" where
  "dt_instant dt = date_days (fst dt) * cNanosecondsPerDay + tod_nanoseconds (snd dt)"

definition dt_at :: "int \<Rightarrow> date_time" where
  "dt_at n = (\<lparr>date_days = n div cNanosecondsPerDay\<rparr>, \<lparr>tod_nanoseconds = n mod cNanosecondsPerDay\<rparr>)"

definition dt_wf :: "date_time \<Rightarrow> bool" where
  "dt_wf dt \<longleftrightarrow> isValid (fst dt) \<and> date_wf (fst dt) \<and> time_wf (snd dt)"

definition in_calendar :: "int \<Rightarrow> bool" where
  "in_calendar n \<longleftrightarrow> 0 \<le> n \<and> n \<le> last_instant"

lemma dt_instant_in_calendar: "dt_wf dt \<Longrightarrow> in_calendar (dt_instant dt)"
  by (auto simp: dt_wf_def dt_instant_def in_calendar_def last_instant_def date_wf_def isValid_def
      time_wf_def cLastValidDay_def cNanosecondsPerDay_def)

lemma dt_at_parts:
  assumes "n = d * cNanosecondsPerDay + s" "0 \<le> s" "s < cNanosecondsPerDay"
  shows "dt_at n = (\<lparr>date_days = d\<rparr>, \<lparr>tod_nanoseconds = s\<rparr>)"
    "in_calendar n \<longleftrightarrow> 0 \<le> d \<and> d \<le> cLastValidDay"
proof -
  show "dt_at n = (\<lparr>date_days = d\<rparr>, \<lparr>tod_nanoseconds = s\<rparr>)"
    using div_mod_eq[of n cNanosecondsPerDay d s] assms by (simp add: dt_at_def mult.commute)
  show "in_calendar n \<longleftrightarrow> 0 \<le> d \<and> d \<le> cLastValidDay"
    using assms unfolding in_calendar_def last_instant_def cNanosecondsPerDay_def cLastValidDay_def by linarith
qed

lemma dt_at_wf:
  assumes "in_calendar n"
  shows "dt_wf (dt_at n)" "dt_instant (dt_at n) = n"
proof -
  obtain q r where q: "n = cNanosecondsPerDay * q + r" "0 \<le> r" "r < cNanosecondsPerDay"
    using div_mod_obtain[of cNanosecondsPerDay n] by (auto simp: cNanosecondsPerDay_def)
  show "dt_wf (dt_at n)" "dt_instant (dt_at n) = n"
    using q dt_at_parts[of n q r] assms
    by (auto simp: dt_wf_def dt_instant_def isValid_def date_wf_def time_wf_def mult.commute)
qed

text \<open>
  Every time-based step is a shift of the instant by a fixed number of nanoseconds: the throwing
  variants fail and the saturating variants stop at an end of the calendar when it is left.
\<close>

definition shiftOrThrow :: "int \<Rightarrow> date_time \<Rightarrow> time_error + date_time" where
  "shiftOrThrow n dt = (if in_calendar (dt_instant dt + n) then Inr (dt_at (dt_instant dt + n)) else Inl OverflowError)"

definition shift_saturating :: "int \<Rightarrow> date_time \<Rightarrow> date_time" where
  "shift_saturating n dt =
     (if in_calendar (dt_instant dt + n) then dt_at (dt_instant dt + n) else dt_saturate (n > 0))"

lemma wouldAddDaysSaturate_iff:
  "isValid x \<Longrightarrow> wouldAddDaysSaturate a x \<longleftrightarrow> a + date_days x < 0 \<or> a + date_days x > cLastValidDay"
  using sat64_cut(1)[of "a + date_days x"] sat64_cut(2)[of cLastValidDay "a + date_days x"]
  by (simp add: wouldAddDaysSaturate_def Let_def cLastValidDay_def)

lemma addDays_exact:
  assumes "isValid x" "\<not> wouldAddDaysSaturate a x"
  shows "addDays a x = \<lparr>date_days = date_days x + a\<rparr>"
  using assms wouldAddDaysSaturate_iff[OF assms(1), of a] by (simp add: addDays_def Let_def cLastValidDay_def)

lemma shift_step:
  assumes wf: "dt_wf (date, time)" and q: "tod_nanoseconds time + n = q * cNanosecondsPerDay + r"
    "0 \<le> r" "r < cNanosecondsPerDay"
  shows "sbind (addDaysOrThrow q date) (\<lambda>date. Inr (date, \<lparr>tod_nanoseconds = r\<rparr>)) = shiftOrThrow n (date, time)"
    "(if wouldAddDaysSaturate q date then dt_saturate (q > 0) else (addDays q date, \<lparr>tod_nanoseconds = r\<rparr>))
      = shift_saturating n (date, time)"
proof -
  have v: "isValid date" "0 \<le> date_days date" "date_days date \<le> cLastValidDay"
    and t: "0 \<le> tod_nanoseconds time" "tod_nanoseconds time < cNanosecondsPerDay"
    using wf by (auto simp: dt_wf_def date_wf_def isValid_def time_wf_def)
  have e: "dt_instant (date, time) + n = (date_days date + q) * cNanosecondsPerDay + r"
    using q(1) by (simp add: dt_instant_def algebra_simps)
  note p = dt_at_parts[OF e q(2,3)]
  have w: "wouldAddDaysSaturate q date \<longleftrightarrow> \<not> in_calendar (dt_instant (date, time) + n)"
    unfolding wouldAddDaysSaturate_iff[OF v(1)] p(2) by auto
  have a: "\<not> wouldAddDaysSaturate q date \<Longrightarrow> addDays q date = \<lparr>date_days = date_days date + q\<rparr>"
    using addDays_exact[OF v(1)] by simp
  show "sbind (addDaysOrThrow q date) (\<lambda>date. Inr (date, \<lparr>tod_nanoseconds = r\<rparr>)) = shiftOrThrow n (date, time)"
    using a w p(1) by (simp add: addDaysOrThrow_def shiftOrThrow_def)
  have "q > 0 \<longleftrightarrow> n > 0" if out: "\<not> in_calendar (dt_instant (date, time) + n)"
  proof -
    consider "date_days date + q < 0" | "date_days date + q > cLastValidDay" using out unfolding p(2) by linarith
    then show ?thesis
    proof cases
      case 1
      then show ?thesis using q v t unfolding cNanosecondsPerDay_def by linarith
    next
      case 2
      then show ?thesis using q v t unfolding cNanosecondsPerDay_def by linarith
    qed
  qed
  then show "(if wouldAddDaysSaturate q date then dt_saturate (q > 0) else (addDays q date, \<lparr>tod_nanoseconds = r\<rparr>))
      = shift_saturating n (date, time)"
    using a w p(1) by (simp add: shift_saturating_def)
qed

lemma day_split: "(n::int) = n div cNanosecondsPerDay * cNanosecondsPerDay + n mod cNanosecondsPerDay"
  "0 \<le> n mod cNanosecondsPerDay" "n mod cNanosecondsPerDay < cNanosecondsPerDay"
  by (simp_all add: cNanosecondsPerDay_def)

lemma applyTimeDelta_shift:
  assumes "dt_wf dt" "\<bar>n\<bar> \<le> 1000000000"
  shows "applyTimeDeltaOrThrow n dt = shiftOrThrow n dt" "applyTimeDelta n dt = shift_saturating n dt"
proof -
  obtain date time where dt: "dt = (date, time)" by fastforce
  have "is_i64 (tod_nanoseconds time + n)"
    using assms by (auto simp: dt dt_wf_def time_wf_def cNanosecondsPerDay_def is_i64_def)
  note e = addWithWrap_exact[OF this]
  note s = shift_step[OF assms(1)[unfolded dt] day_split]
  show "applyTimeDeltaOrThrow n dt = shiftOrThrow n dt" "applyTimeDelta n dt = shift_saturating n dt"
    unfolding dt applyTimeDeltaOrThrow_def applyTimeDelta_def prod.case e Let_def
    using s by simp_all
qed

lemma applySeconds_shift:
  assumes "dt_wf dt" "is_i64 n"
  shows "applySecondsOrThrow n dt = shiftOrThrow (n * cNanosecondsPerSecond) dt"
    "applySeconds n dt = shift_saturating (n * cNanosecondsPerSecond) dt"
proof -
  obtain date time where dt: "dt = (date, time)" by fastforce
  have "time_wf time" using assms(1) by (simp add: dt dt_wf_def)
  note e = addDurationWithWrap_exact[OF this assms(2)]
  note s = shift_step[OF assms(1)[unfolded dt] day_split]
  show "applySecondsOrThrow n dt = shiftOrThrow (n * cNanosecondsPerSecond) dt"
    "applySeconds n dt = shift_saturating (n * cNanosecondsPerSecond) dt"
    unfolding dt applySecondsOrThrow_def applySeconds_def prod.case e Let_def
    using s by simp_all
qed

text \<open>What every step keeps: a result is well formed, the checking variant throws an overflow
  error only, and when it returns, the saturating variant returns the same.\<close>

definition step_agrees :: "(date_time \<Rightarrow> time_error + date_time) \<Rightarrow> (date_time \<Rightarrow> date_time) \<Rightarrow> bool" where
  "step_agrees f g \<longleftrightarrow> (\<forall>dt. dt_wf dt \<longrightarrow> dt_wf (g dt) \<and> (\<forall>r. f dt = Inr r \<longrightarrow> g dt = r)
     \<and> (\<forall>e. f dt = Inl e \<longrightarrow> e = OverflowError))"

lemma step_agreesD: "step_agrees f g \<Longrightarrow> dt_wf dt \<Longrightarrow> dt_wf (g dt)"
  "step_agrees f g \<Longrightarrow> dt_wf dt \<Longrightarrow> f dt = Inr r \<Longrightarrow> g dt = r"
  "step_agrees f g \<Longrightarrow> dt_wf dt \<Longrightarrow> f dt = Inl e \<Longrightarrow> e = OverflowError"
  unfolding step_agrees_def by blast+

lemma step_agrees_sbind:
  "step_agrees f g \<Longrightarrow> step_agrees f' g' \<Longrightarrow> step_agrees (\<lambda>dt. sbind (f dt) f') (\<lambda>dt. g' (g dt))"
  unfolding step_agrees_def
proof (intro allI impI)
  fix dt
  assume a: "\<forall>dt. dt_wf dt \<longrightarrow> dt_wf (g dt) \<and> (\<forall>r. f dt = Inr r \<longrightarrow> g dt = r) \<and> (\<forall>e. f dt = Inl e \<longrightarrow> e = OverflowError)"
    "\<forall>dt. dt_wf dt \<longrightarrow> dt_wf (g' dt) \<and> (\<forall>r. f' dt = Inr r \<longrightarrow> g' dt = r) \<and> (\<forall>e. f' dt = Inl e \<longrightarrow> e = OverflowError)"
    and dt: "dt_wf dt"
  have g: "dt_wf (g dt)" using a(1) dt by blast
  show "dt_wf (g' (g dt)) \<and> (\<forall>r. sbind (f dt) f' = Inr r \<longrightarrow> g' (g dt) = r)
      \<and> (\<forall>e. sbind (f dt) f' = Inl e \<longrightarrow> e = OverflowError)"
  proof (cases "f dt")
    case (Inl e)
    then show ?thesis using a dt g by (metis sbind_simps(1) Inl_Inr_False sum.inject(1))
  next
    case (Inr r)
    then have "g dt = r" using a(1) dt by blast
    moreover have "sbind (f dt) f' = f' r" using Inr by simp
    ultimately show ?thesis using a(2) g by metis
  qed
qed

lemma dt_saturate_wf: "dt_wf (dt_saturate p)"
  by (simp add: dt_saturate_def dt_wf_def isValid_def date_wf_def time_wf_def date_last_def date_first_def
      time_last_def time_first_def mkTime_def toAmount_def mkHour_def mkMinute_def mkSecond_def clamp_def
      cNanosecondsPerDay_def cNanosecondsPerSecond_def cLastValidDay_def)

lemma shift_agrees: "step_agrees (shiftOrThrow n) (shift_saturating n)"
  using dt_at_wf(1) dt_saturate_wf by (auto simp: step_agrees_def shiftOrThrow_def shift_saturating_def)

lemma step_agrees_cong:
  assumes "step_agrees f g" "\<And>dt. dt_wf dt \<Longrightarrow> f' dt = f dt" "\<And>dt. dt_wf dt \<Longrightarrow> g' dt = g dt"
  shows "step_agrees f' g'"
  using assms by (simp add: step_agrees_def)

lemma applySeconds_agrees: "is_i64 n \<Longrightarrow> step_agrees (applySecondsOrThrow n) (applySeconds n)"
  by (rule step_agrees_cong[OF shift_agrees]) (simp_all add: applySeconds_shift)

lemma applyTimeDelta_agrees: "\<bar>n\<bar> \<le> 1000000000 \<Longrightarrow> step_agrees (applyTimeDeltaOrThrow n) (applyTimeDelta n)"
  by (rule step_agrees_cong[OF shift_agrees]) (simp_all add: applyTimeDelta_shift)

definition sub_unit :: "int \<Rightarrow> int \<Rightarrow> bool" where
  "sub_unit p k \<longleftrightarrow> 0 < p \<and> 0 < k \<and> p * k = cNanosecondsPerSecond"

lemma sub_unit_parts:
  assumes "sub_unit p k" "is_i64 v"
  shows "is_i64 (v sdiv p)" "\<bar>v smod p * k\<bar> \<le> 1000000000"
    "v sdiv p * cNanosecondsPerSecond + v smod p * k = v * k"
proof -
  have pk: "0 < p" "0 < k" "p * k = 1000000000"
    using assms(1) by (auto simp: sub_unit_def cNanosecondsPerSecond_def)
  obtain q r where q: "v = p * q + r" "v sdiv p = q" "v smod p = r" "\<bar>r\<bar> < p"
    using trunc_obtain[OF pk(1), of v] by metis
  have "\<bar>q\<bar> \<le> \<bar>v\<bar>" using sdiv_int_range[of v p] q(2) by auto
  then show "is_i64 (v sdiv p)"
    using trunc_bounds(2,3)[OF pk(1), of v] assms(2) unfolding q(2) is_i64_def by linarith
  have "\<bar>r\<bar> * k \<le> p * k" using q(4) pk(2) by (intro mult_right_mono) auto
  then show "\<bar>v smod p * k\<bar> \<le> 1000000000" using pk by (simp add: q(3) abs_mult)
  have "v * k = q * (p * k) + r * k" unfolding q(1) by (simp add: algebra_simps)
  then show "v sdiv p * cNanosecondsPerSecond + v smod p * k = v * k"
    unfolding q(2,3) cNanosecondsPerSecond_def pk(3) by simp
qed

lemma applySubseconds_agrees:
  assumes "sub_unit p k" "is_i64 v"
  shows "step_agrees (applySubsecondsOrThrow v p k) (applySubseconds v p k)"
  using step_agrees_sbind[OF applySeconds_agrees applyTimeDelta_agrees] sub_unit_parts[OF assms]
  unfolding applySubsecondsOrThrow_def applySubseconds_def by blast

lemma applySecondsAmount_agrees: "step_agrees (applySecondsAmountOrThrow num v) (applySecondsAmount num v)"
proof (cases "wouldConvertSaturate num v")
  case True
  then show ?thesis
    using dt_saturate_wf by (simp add: step_agrees_def applySecondsAmountOrThrow_def applySecondsAmount_def)
next
  case False
  have "is_i64 (sat64 (v * num))" by (auto simp: is_i64_def sat64_def clamp_def)
  from applySeconds_agrees[OF this] show ?thesis
    using False by (simp add: step_agrees_def applySecondsAmountOrThrow_def applySecondsAmount_def)
qed

text \<open>A step on the date alone, by days, months or years.\<close>

lemma date_step_agrees:
  assumes "\<And>x. date_wf x \<Longrightarrow> isValid x \<Longrightarrow> \<not> w x \<Longrightarrow> date_wf (g x) \<and> isValid (g x)"
  shows "step_agrees (applyDateOrThrow (\<lambda>x. if w x then Inl OverflowError else Inr (g x)))
    (\<lambda>dt. if w (fst dt) then dt_saturate p else (g (fst dt), snd dt))"
  using assms dt_saturate_wf by (auto simp: step_agrees_def applyDateOrThrow_def dt_wf_def)

lemma applyDays_agrees: "step_agrees (applyDateOrThrow (addDaysOrThrow a)) (applyDays a)"
  unfolding applyDays_def[abs_def] addDaysOrThrow_def[abs_def]
proof (rule date_step_agrees)
  fix x assume x: "date_wf x" "isValid x" "\<not> wouldAddDaysSaturate a x"
  then show "date_wf (addDays a x) \<and> isValid (addDays a x)"
    using addDays_exact[OF x(2,3)] wouldAddDaysSaturate_iff[OF x(2), of a]
    by (auto simp: date_wf_def isValid_def)
qed

lemma months_step:
  assumes "date_wf x" "isValid x" "\<not> wouldAddMonthsSaturate a x"
  shows "date_wf (addMonths a x) \<and> isValid (addMonths a x)"
proof -
  have "0 \<le> monthsSinceEpoch x + a \<and> monthsSinceEpoch x + a \<le> cLastMonthSinceEpoch"
    using assms(2,3) sat64_cut(1)[of "monthsSinceEpoch x + a"]
      sat64_cut(2)[of cLastMonthSinceEpoch "monthsSinceEpoch x + a"]
    by (simp add: wouldAddMonthsSaturate_def Let_def cLastMonthSinceEpoch_def)
  then show ?thesis using addMonths_inside[OF assms(1,2) refl] by blast
qed

lemma applyMonths_agrees: "step_agrees (applyDateOrThrow (addMonthsOrThrow a)) (applyMonths a)"
  unfolding applyMonths_def[abs_def] addMonthsOrThrow_def[abs_def]
  by (rule date_step_agrees) (rule months_step)

lemma applyYears_agrees: "step_agrees (applyDateOrThrow (addYearsOrThrow a)) (applyYears a)"
  unfolding applyYears_def[abs_def] addYearsOrThrow_def[abs_def] wouldAddYearsSaturate_def addYears_def
  by (rule date_step_agrees) (rule months_step)

lemma applyWeeks_agrees: "step_agrees
    (\<lambda>dt. if wouldConvertSaturate 7 v then Inl OverflowError
      else applyDateOrThrow (addDaysOrThrow (sat64 (v * 7))) dt)
    (\<lambda>dt. if wouldConvertSaturate 7 v then dt_saturate (v > 0) else applyDays (sat64 (v * 7)) dt)"
  using applyDays_agrees[of "sat64 (v * 7)"] dt_saturate_wf
  by (cases "wouldConvertSaturate 7 v") (simp_all add: step_agrees_def)

text \<open>What a checking step adds to the instant.\<close>

definition step_adds :: "(date_time \<Rightarrow> time_error + date_time) \<Rightarrow> int \<Rightarrow> bool" where
  "step_adds f n \<longleftrightarrow> (\<forall>dt r. dt_wf dt \<longrightarrow> f dt = Inr r \<longrightarrow> dt_wf r \<and> dt_instant r = dt_instant dt + n)"

lemma step_adds_sbind:
  "step_adds f n \<Longrightarrow> step_adds g m \<Longrightarrow> step_adds (\<lambda>dt. sbind (f dt) g) (n + m)"
  unfolding step_adds_def sbind_Inr_iff by (metis add.assoc)

lemma shift_adds: "step_adds (shiftOrThrow n) n"
  unfolding step_adds_def shiftOrThrow_def by (metis dt_at_wf Inl_Inr_False sum.inject(2))

lemma step_adds_cong: "step_adds f n \<Longrightarrow> (\<And>dt. dt_wf dt \<Longrightarrow> f' dt = f dt) \<Longrightarrow> step_adds f' n"
  by (simp add: step_adds_def)

lemma applySeconds_adds: "is_i64 n \<Longrightarrow> step_adds (applySecondsOrThrow n) (n * cNanosecondsPerSecond)"
  by (rule step_adds_cong[OF shift_adds]) (simp add: applySeconds_shift)

lemma applySubseconds_adds:
  assumes "sub_unit p k" "is_i64 v"
  shows "step_adds (applySubsecondsOrThrow v p k) (v * k)"
proof -
  have "step_adds (applyTimeDeltaOrThrow (v smod p * k)) (v smod p * k)"
    by (rule step_adds_cong[OF shift_adds]) (simp add: applyTimeDelta_shift sub_unit_parts[OF assms])
  from step_adds_sbind[OF applySeconds_adds this, of "v sdiv p"] show ?thesis
    unfolding applySubsecondsOrThrow_def[abs_def] using sub_unit_parts[OF assms] by simp
qed

lemma applySecondsAmount_adds:
  "step_adds (applySecondsAmountOrThrow num v) (v * num * cNanosecondsPerSecond)"
proof (cases "wouldConvertSaturate num v")
  case True
  then show ?thesis by (simp add: step_adds_def applySecondsAmountOrThrow_def)
next
  case False
  have "is_i64 (sat64 (v * num))" by (auto simp: is_i64_def sat64_def clamp_def)
  from applySeconds_adds[OF this] show ?thesis
    using False by (simp add: step_adds_def applySecondsAmountOrThrow_def wouldConvertSaturate_def)
qed

lemma applyDays_adds: "step_adds (applyDateOrThrow (addDaysOrThrow a)) (a * cNanosecondsPerDay)"
  unfolding step_adds_def
proof (intro allI impI)
  fix dt r assume dt: "dt_wf dt" and r: "applyDateOrThrow (addDaysOrThrow a) dt = Inr r"
  have v: "isValid (fst dt)" "date_wf (fst dt)" using dt by (auto simp: dt_wf_def)
  have n: "\<not> wouldAddDaysSaturate a (fst dt)" "r = (addDays a (fst dt), snd dt)"
    using r by (auto simp: applyDateOrThrow_def addDaysOrThrow_def split: if_splits)
  show "dt_wf r \<and> dt_instant r = dt_instant dt + a * cNanosecondsPerDay"
    using addDays_exact[OF v(1) n(1)] n wouldAddDaysSaturate_iff[OF v(1), of a] v dt
    by (auto simp: dt_wf_def dt_instant_def date_wf_def isValid_def algebra_simps)
qed

lemma addMonths_zero:
  assumes "date_wf x" "isValid x"
  shows "addMonths 0 x = x"
proof -
  let ?p = "date_parts_of x"
  have p: "valid_parts (dp_year ?p) (dp_month ?p) (dp_day ?p)"
    "daysFromParts (dp_year ?p) (dp_month ?p) (dp_day ?p) = date_days x"
    using date_parts_correct[of x] assms by (auto simp: date_wf_def isValid_def)
  note v = p(1)[unfolded valid_parts_def]
  have m: "monthsSinceEpoch x = 12 * dp_year ?p + (dp_month ?p - 1)" "0 \<le> dp_month ?p - 1" "dp_month ?p - 1 < 12"
    using v by (auto simp: monthsSinceEpoch_def toAmount_def)
  note dm = div_mod_eq[OF m]
  have "addMonths 0 x = mkDate (dp_year ?p) (dp_month ?p) (dp_day ?p)"
    using addMonths_inside(1)[OF assms, of "monthsSinceEpoch x" 0] months_of_valid[OF assms] dm v by simp
  then show ?thesis using p(2) by (simp add: mkDate_def)
qed

lemma applyMonths_zero: "step_adds (applyDateOrThrow (addMonthsOrThrow 0)) 0"
  "step_adds (applyDateOrThrow (addYearsOrThrow 0)) 0"
  using addMonths_zero
  by (auto simp: step_adds_def applyDateOrThrow_def addMonthsOrThrow_def addYearsOrThrow_def addYears_def
      dt_wf_def dt_instant_def split: if_splits)

section \<open>The whole delta\<close>

definition cd_wf :: "calendar_delta \<Rightarrow> bool" where
  "cd_wf d \<longleftrightarrow> is_i64 (cd_nanoseconds d) \<and> is_i64 (cd_microseconds d) \<and> is_i64 (cd_milliseconds d)
     \<and> is_i64 (cd_seconds d)"

definition cd_length :: "calendar_delta \<Rightarrow> int" where
  "cd_length d = cd_nanoseconds d + cd_microseconds d * 1000 + cd_milliseconds d * 1000000
     + (cd_seconds d + cd_minutes d * 60 + cd_hours d * 3600) * cNanosecondsPerSecond
     + (cd_days d + cd_weeks d * 7) * cNanosecondsPerDay"

lemma sub_units: "sub_unit 1000000000 1" "sub_unit 1000000 1000" "sub_unit 1000 1000000"
  by (simp_all add: sub_unit_def cNanosecondsPerSecond_def)

text \<open>The two chains of steps, composed once for the agreement and once for the length.\<close>

lemma cd_wfD:
  assumes "cd_wf d"
  shows "is_i64 (cd_nanoseconds d)" "is_i64 (cd_microseconds d)" "is_i64 (cd_milliseconds d)"
    "is_i64 (cd_seconds d)"
  using assms by (auto simp: cd_wf_def)

lemma delta_agrees:
  assumes "cd_wf d" "dt_wf dt"
  shows "dt_wf (dt_added d dt)"
    "dt_addedOrThrow d dt = Inr r \<Longrightarrow> dt_added d dt = r"
    "dt_addedOrThrow d dt = Inl e \<Longrightarrow> e = OverflowError"
proof -
  note w = cd_wfD[OF assms(1)]
  have v: "isValid (fst dt)" using assms(2) by (simp add: dt_wf_def)
  note chain = step_agrees_sbind[OF applySubseconds_agrees[OF sub_units(1) w(1)]
      step_agrees_sbind[OF applySubseconds_agrees[OF sub_units(2) w(2)]
      step_agrees_sbind[OF applySubseconds_agrees[OF sub_units(3) w(3)]
      step_agrees_sbind[OF applySeconds_agrees[OF w(4)]
      step_agrees_sbind[OF applySecondsAmount_agrees[of 60 "cd_minutes d"]
      step_agrees_sbind[OF applySecondsAmount_agrees[of 3600 "cd_hours d"]
      step_agrees_sbind[OF applyDays_agrees[of "cd_days d"]
      step_agrees_sbind[OF applyWeeks_agrees[of "cd_weeks d"]
      step_agrees_sbind[OF applyMonths_agrees[of "cd_months d"] applyYears_agrees[of "cd_years d"]]]]]]]]]]
  note eq = dt_added_def[of d dt, unfolded Let_def, simplified v not_True_eq_False if_False]
    dt_addedOrThrow_def[of d dt, simplified v not_True_eq_False if_False]
  show "dt_wf (dt_added d dt)" unfolding eq using step_agreesD(1)[OF chain assms(2)] .
  show "dt_addedOrThrow d dt = Inr r \<Longrightarrow> dt_added d dt = r"
    unfolding eq by (rule step_agreesD(2)[OF chain assms(2)])
  show "dt_addedOrThrow d dt = Inl e \<Longrightarrow> e = OverflowError"
    unfolding eq by (rule step_agreesD(3)[OF chain assms(2)])
qed

lemma applyWeeks_adds: "step_adds
    (\<lambda>dt. if wouldConvertSaturate 7 v then Inl OverflowError
      else applyDateOrThrow (addDaysOrThrow (sat64 (v * 7))) dt) (v * 7 * cNanosecondsPerDay)"
  using applyDays_adds[of "v * 7"]
  by (cases "wouldConvertSaturate 7 v") (simp_all add: step_adds_def wouldConvertSaturate_def)

lemma delta_adds:
  assumes "cd_wf d" "dt_wf dt" "cd_months d = 0" "cd_years d = 0" "dt_addedOrThrow d dt = Inr r"
  shows "dt_instant r = dt_instant dt + cd_length d"
proof -
  note w = cd_wfD[OF assms(1)]
  have v: "isValid (fst dt)" using assms(2) by (simp add: dt_wf_def)
  note chain = step_adds_sbind[OF applySubseconds_adds[OF sub_units(1) w(1)]
      step_adds_sbind[OF applySubseconds_adds[OF sub_units(2) w(2)]
      step_adds_sbind[OF applySubseconds_adds[OF sub_units(3) w(3)]
      step_adds_sbind[OF applySeconds_adds[OF w(4)]
      step_adds_sbind[OF applySecondsAmount_adds[of 60 "cd_minutes d"]
      step_adds_sbind[OF applySecondsAmount_adds[of 3600 "cd_hours d"]
      step_adds_sbind[OF applyDays_adds[of "cd_days d"]
      step_adds_sbind[OF applyWeeks_adds[of "cd_weeks d"]
      step_adds_sbind[OF applyMonths_zero]]]]]]]]]
  note eq = dt_addedOrThrow_def[of d dt, simplified v not_True_eq_False if_False assms(3,4)]
  have "dt_instant r = dt_instant dt + (cd_nanoseconds d * 1 + (cd_microseconds d * 1000
      + (cd_milliseconds d * 1000000 + (cd_seconds d * cNanosecondsPerSecond
      + (cd_minutes d * 60 * cNanosecondsPerSecond + (cd_hours d * 3600 * cNanosecondsPerSecond
      + (cd_days d * cNanosecondsPerDay + (cd_weeks d * 7 * cNanosecondsPerDay + (0 + 0)))))))))"
    using chain[unfolded step_adds_def, rule_format, OF assms(2) assms(5)[unfolded eq]] by simp
  then show ?thesis by (simp add: cd_length_def algebra_simps)
qed

text \<open>C22: Applying a calendar delta to a date and time always gives a valid date and time. The
  checking variant fails with an overflow error only, and when it succeeds the saturating variant
  returns the same; the saturation test answers exactly whether the checking variant fails and
  never terminates the program. Without months and years, a successful application moves the
  instant by the exact length of the delta, from nanoseconds to weeks.\<close>

theorem calendar_delta_exact:
  assumes "dt_wf dt" "cd_wf delta"
  shows "dt_wf (dt_added delta dt)
    \<and> dt_wouldAddSaturate delta dt = Some (dt_addedOrThrow delta dt = Inl OverflowError)
    \<and> (case dt_addedOrThrow delta dt of
        Inl e \<Rightarrow> e = OverflowError
      | Inr r \<Rightarrow> dt_added delta dt = r
          \<and> (cd_months delta = 0 \<and> cd_years delta = 0 \<longrightarrow>
               dt_instant r = dt_instant dt + cd_length delta))"
proof (cases "dt_addedOrThrow delta dt")
  case (Inl e)
  then show ?thesis
    using delta_agrees[OF assms(2,1)] assms(1) by (auto simp: dt_wouldAddSaturate_def dt_wf_def)
next
  case (Inr r)
  then have r: "dt_added delta dt = r" "dt_wf r" using delta_agrees[OF assms(2,1)] by auto
  then have "dt_wouldAddSaturate delta dt = Some False"
    using Inr assms(1) by (simp add: dt_wouldAddSaturate_def dt_wf_def)
  then show ?thesis using Inr r delta_adds[OF assms(2,1)] by simp
qed

lemma calendar_delta_exact_witness:
  "dt_wf (dt_added \<lparr>cd_nanoseconds = - 1, cd_microseconds = 0, cd_milliseconds = 0, cd_seconds = 0,
      cd_minutes = 0, cd_hours = 25, cd_days = 0, cd_weeks = 1, cd_months = 0, cd_years = 0\<rparr>
      (\<lparr>date_days = 10\<rparr>, \<lparr>tod_nanoseconds = 0\<rparr>))"
proof -
  let ?d = "\<lparr>cd_nanoseconds = - 1, cd_microseconds = 0, cd_milliseconds = 0, cd_seconds = 0,
      cd_minutes = 0, cd_hours = 25, cd_days = 0, cd_weeks = 1, cd_months = 0, cd_years = 0\<rparr>"
  let ?dt = "(\<lparr>date_days = 10\<rparr>, \<lparr>tod_nanoseconds = 0\<rparr>) :: date_time"
  have w: "dt_wf ?dt" "cd_wf ?d"
    by (simp_all add: dt_wf_def isValid_def date_wf_def cLastValidDay_def time_wf_def cNanosecondsPerDay_def
        cd_wf_def is_i64_def)
  show ?thesis using calendar_delta_exact[OF w] by blast
qed

end
