(* ===== verification/Utf8.thy ===== *)
theory Utf8
  imports Prelude
begin

text \<open>
  The UTF-8 codec of \<open>src/erbsland/text/u8/impl\<close>: strict, tolerant and trying decoders, the
  cursor functions that step over encoded characters in both directions without decoding, the
  encoder, and the comparison of strings by code point. Bytes are 8-bit words and masked and
  shifted as in the source. A code point under construction has at most 21 bits, so the model
  builds it as a natural number where the source uses 32-bit words. Positions are numbers; the
  decoders return the new position together with the character.
\<close>

unbundle bit_operations_syntax

section \<open>Code points\<close>

definition isValidUnicode :: "nat \<Rightarrow> bool" where
  "isValidUnicode c \<longleftrightarrow> c \<le> 0x10FFFF \<and> c \<noteq> 0xFEFF \<and> (c < 0xD800 \<or> c > 0xDFFF)"

definition replacement :: nat where "replacement = 0xFFFD"

definition encodedLength :: "nat \<Rightarrow> nat" where
  "encodedLength c =
     (if \<not> isValidUnicode c then 0 else if c \<le> 0x7F then 1 else if c \<le> 0x7FF then 2
      else if c \<le> 0xFFFF then 3 else 4)"

section \<open>Decoding one character\<close>

definition is_continuation :: "byte8 \<Rightarrow> bool" where
  "is_continuation b \<longleftrightarrow> b AND 0b11000000 = 0b10000000"

text \<open>The start byte of a sequence: its length and the bits it contributes.\<close>

definition start_byte :: "byte8 \<Rightarrow> (nat \<times> nat) option" where
  "start_byte b =
     (if b AND 0b11100000 = 0b11000000 \<and> b \<ge> 0b11000010 then Some (2, unat (b AND 0b00011111))
      else if b AND 0b11110000 = 0b11100000 then Some (3, unat (b AND 0b00001111))
      else if b AND 0b11111000 = 0b11110000 \<and> b < 0b11110101 then Some (4, unat (b AND 0b00000111))
      else None)"

definition add_continuation :: "nat \<Rightarrow> byte8 \<Rightarrow> nat" where
  "add_continuation u b = push_bit 6 u OR unat (b AND 0b00111111)"

datatype u8_error = U8OutOfRange | U8UnexpectedEnd nat | U8UnexpectedContinuation nat
  | U8Overlong nat | U8InvalidStart nat | U8InvalidCharacter nat

definition decodeCont :: "byte8 list \<Rightarrow> nat \<Rightarrow> nat \<Rightarrow> u8_error + nat" where
  "decodeCont buffer index u =
     (if index \<ge> length buffer then Inl (U8UnexpectedEnd (length buffer))
      else if \<not> is_continuation (buffer ! index) then Inl (U8UnexpectedContinuation index)
      else Inr (add_continuation u (buffer ! index)))"

definition decodeCharOrThrow :: "byte8 list \<Rightarrow> nat \<Rightarrow> u8_error + nat \<times> nat" where
  "decodeCharOrThrow buffer position =
     (if position \<ge> length buffer then Inl U8OutOfRange
      else let b = buffer ! position in
        if b < 0x80 then Inr (unat b, position + 1)
        else sbind
          (if b AND 0b11100000 = 0b11000000 \<and> b \<ge> 0b11000010
           then sbind (decodeCont buffer (position + 1) (unat (b AND 0b00011111))) (\<lambda>u.
                Inr (u, position + 2))
           else if b AND 0b11110000 = 0b11100000
           then sbind (decodeCont buffer (position + 1) (unat (b AND 0b00001111))) (\<lambda>u.
                sbind (decodeCont buffer (position + 2) u) (\<lambda>u.
                if u < 0x800 then Inl (U8Overlong position) else Inr (u, position + 3)))
           else if b AND 0b11111000 = 0b11110000 \<and> b < 0b11110101
           then sbind (decodeCont buffer (position + 1) (unat (b AND 0b00000111))) (\<lambda>u.
                sbind (decodeCont buffer (position + 2) u) (\<lambda>u.
                sbind (decodeCont buffer (position + 3) u) (\<lambda>u.
                if u < 0x10000 then Inl (U8Overlong position) else Inr (u, position + 4))))
           else Inl (U8InvalidStart position))
          (\<lambda>(u, index). if \<not> isValidUnicode u then Inl (U8InvalidCharacter position)
                        else Inr (u, index)))"

text \<open>The loop over the continuation bytes in the tolerant decoders.\<close>

fun cont_loop :: "byte8 list \<Rightarrow> nat \<Rightarrow> nat \<Rightarrow> nat \<Rightarrow> (nat \<times> nat) option" where
  "cont_loop buffer 0 index u = Some (index, u)"
| "cont_loop buffer (Suc n) index u =
     (if index \<ge> length buffer then None
      else if \<not> is_continuation (buffer ! index) then None
      else cont_loop buffer n (index + 1) (add_continuation u (buffer ! index)))"

definition overlong :: "nat \<Rightarrow> nat \<Rightarrow> bool" where
  "overlong sequenceSize u \<longleftrightarrow> (sequenceSize = 3 \<and> u < 0x800) \<or> (sequenceSize = 4 \<and> u < 0x10000)"

definition decodeCharOrReplace :: "byte8 list \<Rightarrow> nat \<Rightarrow> nat \<times> nat" where
  "decodeCharOrReplace buffer position =
     (if position \<ge> length buffer then (0, position)
      else let b = buffer ! position in
        if b < 0x80 then (unat b, position + 1)
        else case start_byte b of
          None \<Rightarrow> (replacement, position + 1)
        | Some (sequenceSize, u) \<Rightarrow>
          (case cont_loop buffer (sequenceSize - 1) (position + 1) u of
             None \<Rightarrow> (replacement, position + 1)
           | Some (index, u) \<Rightarrow>
             if overlong sequenceSize u then (replacement, position + 1)
             else if \<not> isValidUnicode u then (replacement, index)
             else (u, index)))"

definition tryDecodeChar :: "byte8 list \<Rightarrow> nat \<Rightarrow> nat option \<times> nat" where
  "tryDecodeChar buffer position =
     (if position \<ge> length buffer then (None, position)
      else let b = buffer ! position in
        if b < 0x80 then (Some (unat b), position + 1)
        else case start_byte b of
          None \<Rightarrow> (None, position + 1)
        | Some (sequenceSize, u) \<Rightarrow>
          (case cont_loop buffer (sequenceSize - 1) (position + 1) u of
             None \<Rightarrow> (None, position + 1)
           | Some (index, u) \<Rightarrow>
             if overlong sequenceSize u then (None, position + 1)
             else if \<not> isValidUnicode u then (None, index)
             else (Some u, index)))"

section \<open>Moving over characters\<close>

definition fastAdvanceChar :: "byte8 list \<Rightarrow> nat \<Rightarrow> nat" where
  "fastAdvanceChar buffer index =
     (if index \<ge> length buffer \<or> buffer = [] then index
      else let isContinuationByte = (\<lambda>delta. index + delta < length buffer \<and> is_continuation (buffer ! (index + delta)));
               byteAt = (\<lambda>delta. buffer ! (index + delta));
               b = buffer ! index;
               advanceLength =
                 (if b < 0x80 \<or> b AND 0b11111000 = 0b11111000 then 1
                  else if b AND 0b11100000 = 0b11000000
                  then (if b \<ge> 0b11000010 \<and> isContinuationByte 1 then 2 else 1)
                  else if b AND 0b11110000 = 0b11100000
                  then (if isContinuationByte 1 \<and> isContinuationByte 2 \<and> (b \<noteq> 0xE0 \<or> byteAt 1 \<ge> 0xA0)
                        then 3 else 1)
                  else if b AND 0b11111000 = 0b11110000
                  then (if b < 0b11110101 \<and> isContinuationByte 1 \<and> isContinuationByte 2
                           \<and> isContinuationByte 3 \<and> (b \<noteq> 0xF0 \<or> byteAt 1 \<ge> 0x90)
                        then 4 else 1)
                  else 1)
           in index + advanceLength)"

text \<open>\<open>lengthByte\<close>: 0 asks to look one byte further back.\<close>

definition lengthByte :: "byte8 list \<Rightarrow> nat \<Rightarrow> nat \<Rightarrow> nat" where
  "lengthByte buffer index delta =
     (if index < delta then 1
      else let startIndex = index - delta; b = buffer ! startIndex in
        if is_continuation b then 0
        else if b < 0x80 \<or> b AND 0b11111000 = 0b11111000 then 1
        else if b AND 0b11100000 = 0b11000000 \<and> delta = 2 \<and> b \<ge> 0b11000010 then 2
        else if b AND 0b11110000 = 0b11100000 \<and> delta = 3
                \<and> (b \<noteq> 0xE0 \<or> buffer ! (startIndex + 1) \<ge> 0xA0) then 3
        else if b AND 0b11111000 = 0b11110000 \<and> delta = 4 \<and> b < 0b11110101
                \<and> (b \<noteq> 0xF0 \<or> buffer ! (startIndex + 1) \<ge> 0x90) then 4
        else 1)"

fun retreat_loop :: "byte8 list \<Rightarrow> nat \<Rightarrow> nat list \<Rightarrow> nat" where
  "retreat_loop buffer index [] = 1"
| "retreat_loop buffer index (delta # deltas) =
     (let result = lengthByte buffer index delta
      in if result > 0 then result else retreat_loop buffer index deltas)"

definition fastRetreatChar :: "byte8 list \<Rightarrow> nat \<Rightarrow> nat" where
  "fastRetreatChar buffer position =
     (let index = min position (length buffer)
      in if index = 0 \<or> buffer = [] then position
         else position - retreat_loop buffer index [1, 2, 3, 4])"

section \<open>Encoding\<close>

definition u8_write :: "nat \<Rightarrow> byte8 list" where
  "u8_write c =
     (if \<not> isValidUnicode c then []
      else if c < 0x80 then [of_nat c]
      else if c < 0x800 then
        [0xC0 OR of_nat (drop_bit 6 c AND 0x1F), 0x80 OR of_nat (c AND 0x3F)]
      else if c < 0x10000 then
        [0xE0 OR of_nat (drop_bit 12 c AND 0x0F), 0x80 OR of_nat (drop_bit 6 c AND 0x3F),
         0x80 OR of_nat (c AND 0x3F)]
      else
        [0xF0 OR of_nat (drop_bit 18 c AND 0x07), 0x80 OR of_nat (drop_bit 12 c AND 0x3F),
         0x80 OR of_nat (drop_bit 6 c AND 0x3F), 0x80 OR of_nat (c AND 0x3F)])"

section \<open>Bytes as numbers\<close>

text \<open>The masks of the code are ranges of bytes and low-order bits.\<close>

lemma high_bits:
  fixes b :: byte8
  shows "unat (b AND NOT (mask n)) = unat b - unat b mod 2 ^ n"
proof -
  have t: "unat (take_bit n b) = unat b mod 2 ^ n"
    by (subst unsigned_take_bit_eq) (rule take_bit_eq_mod)
  then have le: "take_bit n b \<le> b" by (simp only: word_le_nat_alt) simp
  have "(b AND NOT (mask n)) AND take_bit n b = 0" by (rule bit_eqI) (auto simp: bit_simps)
  then have "(b AND NOT (mask n)) + take_bit n b = (b AND NOT (mask n)) OR take_bit n b"
    by (rule disjunctive_add_eq_or)
  also have "\<dots> = b" by (rule bit_eqI) (auto simp: bit_simps)
  finally have "b AND NOT (mask n) = b - take_bit n b" by (simp add: algebra_simps)
  then show ?thesis using unat_sub[OF le] t by simp
qed

lemma floor_iff:
  assumes "0 < (k::nat)"
  shows "n - n mod k = k * c \<longleftrightarrow> k * c \<le> n \<and> n < k * c + k"
proof
  assume "n - n mod k = k * c"
  moreover have "n mod k \<le> n" "n mod k < k" using assms by simp_all
  ultimately show "k * c \<le> n \<and> n < k * c + k" by linarith
next
  assume "k * c \<le> n \<and> n < k * c + k"
  then have "n div k = c" by (intro div_nat_eqI) (simp_all add: mult.commute)
  then show "n - n mod k = k * c" by (simp add: minus_mod_eq_mult_div)
qed

lemma byte_ranges:
  fixes b :: byte8
  shows "is_continuation b \<longleftrightarrow> 128 \<le> unat b \<and> unat b < 192"
    "b AND 0b11100000 = 0b11000000 \<longleftrightarrow> 192 \<le> unat b \<and> unat b < 224"
    "b AND 0b11110000 = 0b11100000 \<longleftrightarrow> 224 \<le> unat b \<and> unat b < 240"
    "b AND 0b11111000 = 0b11110000 \<longleftrightarrow> 240 \<le> unat b \<and> unat b < 248"
    "b AND 0b11111000 = 0b11111000 \<longleftrightarrow> 248 \<le> unat b"
proof -
  have m: "(0b11000000 :: byte8) = NOT (mask 6)" "(0b11100000 :: byte8) = NOT (mask 5)"
    "(0b11110000 :: byte8) = NOT (mask 4)" "(0b11111000 :: byte8) = NOT (mask 3)"
    by (simp_all add: mask_eq_exp_minus_1)
  have e: "b AND NOT (mask n) = c \<longleftrightarrow> unat b - unat b mod 2 ^ n = unat c" for n c
    unfolding high_bits[symmetric] by (simp only: word_unat_eq_iff)
  have l: "unat b < 256" using unsigned_less[of b] by simp
  note f = floor_iff[of 64 "unat b" 2] floor_iff[of 32 "unat b" 6] floor_iff[of 16 "unat b" 14]
    floor_iff[of 8 "unat b" 30] floor_iff[of 8 "unat b" 31]
  show "is_continuation b \<longleftrightarrow> 128 \<le> unat b \<and> unat b < 192"
    unfolding is_continuation_def m(1) e using f(1) by simp
  show "b AND 0b11100000 = 0b11000000 \<longleftrightarrow> 192 \<le> unat b \<and> unat b < 224"
    unfolding m(2) e using f(2) by simp
  show "b AND 0b11110000 = 0b11100000 \<longleftrightarrow> 224 \<le> unat b \<and> unat b < 240"
    unfolding m(3) e using f(3) by simp
  show "b AND 0b11111000 = 0b11110000 \<longleftrightarrow> 240 \<le> unat b \<and> unat b < 248"
    unfolding m(4) e using f(4) by simp
  show "b AND 0b11111000 = 0b11111000 \<longleftrightarrow> 248 \<le> unat b"
    unfolding m(4) e using f(5) l by (simp flip: m(4))
qed

lemma byte_masks:
  fixes b :: byte8
  shows "unat (b AND 0b00111111) = unat b mod 64" "unat (b AND 0b00011111) = unat b mod 32"
    "unat (b AND 0b00001111) = unat b mod 16" "unat (b AND 0b00000111) = unat b mod 8"
proof -
  have "b AND 0b00111111 = take_bit 6 b" "b AND 0b00011111 = take_bit 5 b"
    "b AND 0b00001111 = take_bit 4 b" "b AND 0b00000111 = take_bit 3 b"
    by (simp_all add: take_bit_eq_mask mask_eq_exp_minus_1)
  then show "unat (b AND 0b00111111) = unat b mod 64" "unat (b AND 0b00011111) = unat b mod 32"
    "unat (b AND 0b00001111) = unat b mod 16" "unat (b AND 0b00000111) = unat b mod 8"
    by (simp_all add: unsigned_take_bit_eq take_bit_eq_mod unat_mod_distrib)
qed

lemma byte_order:
  fixes b :: byte8
  shows "b < 0x80 \<longleftrightarrow> unat b < 128" "b \<ge> 0b11000010 \<longleftrightarrow> 194 \<le> unat b" "b < 0b11110101 \<longleftrightarrow> unat b < 245"
    "b \<ge> 0xA0 \<longleftrightarrow> 160 \<le> unat b" "b \<ge> 0x90 \<longleftrightarrow> 144 \<le> unat b"
  by (auto simp: word_less_nat_alt word_le_nat_alt unat_arith_simps)

lemma byte_special: "(b :: byte8) = 0xE0 \<longleftrightarrow> unat b = 224" "(b :: byte8) = 0xF0 \<longleftrightarrow> unat b = 240"
  by (auto simp: unat_arith_simps)

lemma byte_bound: "unat (b :: byte8) < 256"
  using unsigned_less[of b] by simp

lemma add_continuation_eq: "add_continuation u b = 64 * u + unat b mod 64"
proof -
  have "push_bit 6 u OR take_bit 6 (unat b) = push_bit 6 u + take_bit 6 (unat b)"
    by (rule disjunctive_add_eq_or[symmetric]) (rule bit_eqI, auto simp: bit_simps)
  then show ?thesis by (simp add: add_continuation_def byte_masks push_bit_eq_mult take_bit_eq_mod)
qed

lemma start_byte_eq:
  "start_byte b =
    (if 194 \<le> unat b \<and> unat b < 224 then Some (2, unat b - 192)
     else if 224 \<le> unat b \<and> unat b < 240 then Some (3, unat b - 224)
     else if 240 \<le> unat b \<and> unat b < 245 then Some (4, unat b - 240) else None)"
proof -
  have m: "n mod k = n - k * c" if "k * c \<le> n" "n < k * c + k" for n k c :: nat
  proof -
    have "0 < k" using that by (cases k) simp_all
    then have "n - n mod k = k * c" "n mod k \<le> n" using that floor_iff[of k n c] by simp_all
    then show ?thesis by linarith
  qed
  have "unat b mod 32 = unat b - 192" if "192 \<le> unat b" "unat b < 224" using m[of 32 6] that by simp
  moreover have "unat b mod 16 = unat b - 224" if "224 \<le> unat b" "unat b < 240" using m[of 16 14] that by simp
  moreover have "unat b mod 8 = unat b - 240" if "240 \<le> unat b" "unat b < 248" using m[of 8 30] that by simp
  ultimately show ?thesis
    unfolding start_byte_def byte_ranges byte_masks byte_order by auto
qed

lemma or_add:
  fixes c :: byte8
  assumes "c AND mask n = 0" "x < 2 ^ n" "unat c + x < 256"
  shows "unat (c OR of_nat x) = unat c + x"
proof -
  have x: "unat (of_nat x :: byte8) = x" using assms(3) by (simp add: unat_of_nat)
  have "take_bit n (of_nat x :: byte8) = of_nat x"
    using assms(2) x by (metis take_bit_nat_eq_self unsigned_take_bit_eq word_unat_eq_iff)
  then have "c AND of_nat x = (c AND mask n) AND of_nat x"
    by (metis and.assoc and.commute take_bit_eq_mask)
  then have "c AND of_nat x = 0" unfolding assms(1) by simp
  then have "c OR of_nat x = c + of_nat x" by (rule disjunctive_add_eq_or[symmetric])
  moreover have "unat (c + of_nat x) = unat c + x"
    using unat_add_lem[of c "of_nat x"] assms(3) x by simp
  ultimately show ?thesis by simp
qed

lemma or_byte:
  "x < 32 \<Longrightarrow> unat ((0xC0 :: byte8) OR of_nat x) = 192 + x"
  "x < 16 \<Longrightarrow> unat ((0xE0 :: byte8) OR of_nat x) = 224 + x"
  "x < 8 \<Longrightarrow> unat ((0xF0 :: byte8) OR of_nat x) = 240 + x"
  "x < 64 \<Longrightarrow> unat ((0x80 :: byte8) OR of_nat x) = 128 + x"
  using or_add[of "0xC0" 5 x] or_add[of "0xE0" 4 x] or_add[of "0xF0" 3 x] or_add[of "0x80" 6 x]
  by (simp_all add: mask_eq_exp_minus_1)

lemma code_point_parts:
  "drop_bit 6 c AND 0x1F = c div 64 mod 32" "c AND 0x3F = c mod (64::nat)"
  "drop_bit 12 c AND 0x0F = c div 4096 mod 16" "drop_bit 6 c AND 0x3F = c div 64 mod (64::nat)"
  "drop_bit 18 c AND 0x07 = c div 262144 mod 8" "drop_bit 12 c AND 0x3F = c div 4096 mod 64"
proof -
  have m: "n AND 0x1F = n mod 32" "n AND 0x3F = n mod 64" "n AND 0x0F = n mod 16" "n AND 0x07 = n mod 8" for n :: nat
    using take_bit_eq_mask[of 5 n] take_bit_eq_mask[of 6 n] take_bit_eq_mask[of 4 n] take_bit_eq_mask[of 3 n]
    by (simp_all add: mask_eq_exp_minus_1 take_bit_eq_mod)
  show "drop_bit 6 c AND 0x1F = c div 64 mod 32" "c AND 0x3F = c mod (64::nat)"
    "drop_bit 12 c AND 0x0F = c div 4096 mod 16" "drop_bit 6 c AND 0x3F = c div 64 mod (64::nat)"
    "drop_bit 18 c AND 0x07 = c div 262144 mod 8" "drop_bit 12 c AND 0x3F = c div 4096 mod 64"
    by (simp_all only: m drop_bit_eq_div) simp_all
qed

section \<open>Byte-structured sequences\<close>

text \<open>
  All decoders and cursor functions recognise the same sequences at a position: a start byte with
  its continuation bytes that is not overlong. \<open>scan_char\<close> gives the length and the code point.
\<close>

definition scan_char :: "byte8 list \<Rightarrow> nat \<Rightarrow> (nat \<times> nat) option" where
  "scan_char buffer p =
     (if unat (buffer ! p) < 128 then Some (1, unat (buffer ! p))
      else case start_byte (buffer ! p) of None \<Rightarrow> None
      | Some (n, u) \<Rightarrow> (case cont_loop buffer (n - 1) (p + 1) u of None \<Rightarrow> None
        | Some (i, v) \<Rightarrow> if overlong n v then None else Some (n, v)))"

lemma cont_loop_index: "cont_loop buffer n i u = Some (j, v) \<Longrightarrow> j = i + n"
  by (induction n arbitrary: i u) (fastforce split: if_splits)+

lemma start_byte_size: "start_byte b = Some (n, u) \<Longrightarrow> 2 \<le> n \<and> n \<le> 4"
  by (auto simp: start_byte_eq split: if_splits)

lemma ascii_valid: "n < 128 \<Longrightarrow> isValidUnicode n"
  by (simp add: isValidUnicode_def)

lemma scan_char_step:
  assumes "p < length buffer"
  obtains "buffer ! p < 0x80" "scan_char buffer p = Some (1, unat (buffer ! p))" "isValidUnicode (unat (buffer ! p))"
  | "\<not> buffer ! p < 0x80" "start_byte (buffer ! p) = None" "scan_char buffer p = None"
  | n u where "\<not> buffer ! p < 0x80" "start_byte (buffer ! p) = Some (n, u)"
      "cont_loop buffer (n - 1) (p + 1) u = None" "scan_char buffer p = None"
  | n u v where "\<not> buffer ! p < 0x80" "start_byte (buffer ! p) = Some (n, u)"
      "cont_loop buffer (n - 1) (p + 1) u = Some (p + n, v)"
      "scan_char buffer p = (if overlong n v then None else Some (n, v))"
proof (cases "buffer ! p < 0x80")
  case True
  then show ?thesis using that(1) by (simp add: scan_char_def byte_order ascii_valid)
next
  case F: False
  show ?thesis
  proof (cases "start_byte (buffer ! p)")
    case None
    then show ?thesis using that(2) F by (simp add: scan_char_def byte_order)
  next
    case (Some nu)
    then obtain n u where s: "start_byte (buffer ! p) = Some (n, u)" by (cases nu) simp
    show ?thesis
    proof (cases "cont_loop buffer (n - 1) (p + 1) u")
      case None
      then show ?thesis using that(3) F s by (simp add: scan_char_def byte_order)
    next
      case (Some iv)
      then obtain i v where c: "cont_loop buffer (n - 1) (p + 1) u = Some (i, v)" by (cases iv) simp
      then have "i = p + n" using cont_loop_index[OF c] start_byte_size[OF s] by simp
      then show ?thesis using that(4)[of n u v] F s c by (simp add: scan_char_def byte_order)
    qed
  qed
qed

lemma decodeCharOrReplace_scan:
  assumes "p < length buffer"
  shows "decodeCharOrReplace buffer p =
    (case scan_char buffer p of None \<Rightarrow> (replacement, p + 1)
     | Some (n, u) \<Rightarrow> (if isValidUnicode u then u else replacement, p + n))"
  by (rule scan_char_step[OF assms]) (use assms in \<open>simp_all add: decodeCharOrReplace_def Let_def\<close>)

lemma tryDecodeChar_scan:
  assumes "p < length buffer"
  shows "tryDecodeChar buffer p =
    (case scan_char buffer p of None \<Rightarrow> (None, p + 1)
     | Some (n, u) \<Rightarrow> (if isValidUnicode u then Some u else None, p + n))"
  by (rule scan_char_step[OF assms]) (use assms in \<open>simp_all add: tryDecodeChar_def Let_def\<close>)

text \<open>The three shapes of a sequence, with the condition on the second byte for overlong forms.\<close>

definition cont_at :: "byte8 list \<Rightarrow> nat \<Rightarrow> bool" where
  "cont_at buffer i \<longleftrightarrow> i < length buffer \<and> 128 \<le> unat (buffer ! i) \<and> unat (buffer ! i) < 192"

definition sequence_length :: "byte8 list \<Rightarrow> nat \<Rightarrow> nat" where
  "sequence_length buffer p = (case scan_char buffer p of None \<Rightarrow> 1 | Some (n, u) \<Rightarrow> n)"

lemma cont_loop_numerals:
  "cont_loop buffer (Suc 0) i u = (if cont_at buffer i then Some (i + 1, 64 * u + unat (buffer ! i) mod 64) else None)"
  "cont_loop buffer 2 i u = (if cont_at buffer i \<and> cont_at buffer (i + 1)
     then Some (i + 2, 64 * (64 * u + unat (buffer ! i) mod 64) + unat (buffer ! (i + 1)) mod 64) else None)"
  "cont_loop buffer 3 i u = (if cont_at buffer i \<and> cont_at buffer (i + 1) \<and> cont_at buffer (i + 2)
     then Some (i + 3, 64 * (64 * (64 * u + unat (buffer ! i) mod 64) + unat (buffer ! (i + 1)) mod 64)
       + unat (buffer ! (i + 2)) mod 64) else None)"
  by (auto simp: numeral_2_eq_2 numeral_3_eq_3 cont_at_def byte_ranges add_continuation_eq)

lemma cont_mod: "128 \<le> n \<Longrightarrow> n < 192 \<Longrightarrow> n mod 64 = n - (128::nat)"
  using floor_iff[of 64 n 2] by simp

lemma overlong_bounds:
  fixes x y z w :: nat
  shows "y < 64 \<Longrightarrow> z < 64 \<Longrightarrow> 64 * (64 * x + y) + z < 2048 \<longleftrightarrow> x = 0 \<and> y < 32"
    and "y < 64 \<Longrightarrow> z < 64 \<Longrightarrow> w < 64 \<Longrightarrow>
      64 * (64 * (64 * x + y) + z) + w < 65536 \<longleftrightarrow> x = 0 \<and> y < 16"
  by (intro iffI conjI; simp; linarith)+

lemma scan_char_cases:
  assumes "p < length buffer"
  shows "scan_char buffer p =
    (let b = unat (buffer ! p); b1 = unat (buffer ! (p + 1)); b2 = unat (buffer ! (p + 2)); b3 = unat (buffer ! (p + 3)) in
     if b < 128 then Some (1, b)
     else if 194 \<le> b \<and> b < 224 \<and> cont_at buffer (p + 1) then Some (2, 64 * (b - 192) + (b1 - 128))
     else if 224 \<le> b \<and> b < 240 \<and> cont_at buffer (p + 1) \<and> cont_at buffer (p + 2) \<and> (b \<noteq> 224 \<or> 160 \<le> b1)
     then Some (3, 64 * (64 * (b - 224) + (b1 - 128)) + (b2 - 128))
     else if 240 \<le> b \<and> b < 245 \<and> cont_at buffer (p + 1) \<and> cont_at buffer (p + 2) \<and> cont_at buffer (p + 3)
        \<and> (b \<noteq> 240 \<or> 144 \<le> b1)
     then Some (4, 64 * (64 * (64 * (b - 240) + (b1 - 128)) + (b2 - 128)) + (b3 - 128))
     else None)"
proof -
  define b b1 b2 b3 where "b = unat (buffer ! p)" and "b1 = unat (buffer ! (p + 1))"
    and "b2 = unat (buffer ! (p + 2))" and "b3 = unat (buffer ! (p + 3))"
  note d = b_def[symmetric] b1_def[symmetric] b2_def[symmetric] b3_def[symmetric]
  have c: "cont_at buffer (p + 1) \<Longrightarrow> 128 \<le> b1 \<and> b1 < 192 \<and> b1 mod 64 = b1 - 128"
    "cont_at buffer (p + 2) \<Longrightarrow> 128 \<le> b2 \<and> b2 < 192 \<and> b2 mod 64 = b2 - 128"
    "cont_at buffer (p + 3) \<Longrightarrow> 128 \<le> b3 \<and> b3 < 192 \<and> b3 mod 64 = b3 - 128"
    by (auto simp: cont_at_def cont_mod b1_def b2_def b3_def)
  have i: "p + 1 + 1 = p + 2" "p + 1 + 2 = p + 3" by simp_all
  note loop = cont_loop_numerals[where i = "p + 1", unfolded i, unfolded d]
  have n: "(2::nat) - 1 = Suc 0" "(3::nat) - 1 = 2" "(4::nat) - 1 = 3" by simp_all
  note start = start_byte_eq[of "buffer ! p", unfolded d]
  consider "b < 128" | "194 \<le> b" "b < 224" | "224 \<le> b" "b < 240" | "240 \<le> b" "b < 245"
    | "128 \<le> b" "\<not> (194 \<le> b \<and> b < 245)" by linarith
  then show ?thesis
  proof cases
    case 1
    then show ?thesis unfolding scan_char_def Let_def d by simp
  next
    case 2
    then have s: "start_byte (buffer ! p) = Some (2, b - 192)" using start by simp
    show ?thesis
      using 2 c(1) unfolding scan_char_def Let_def d s option.case prod.case n loop
      by (cases "cont_at buffer (p + 1)") (simp_all add: overlong_def)
  next
    case 3
    then have s: "start_byte (buffer ! p) = Some (3, b - 224)" using start by simp
    show ?thesis
    proof (cases "cont_at buffer (p + 1) \<and> cont_at buffer (p + 2)")
      case True
      have o: "overlong 3 (64 * (64 * (b - 224) + (b1 - 128)) + (b2 - 128)) \<longleftrightarrow> \<not> (b \<noteq> 224 \<or> 160 \<le> b1)"
      proof -
        have "64 * (64 * (b - 224) + (b1 - 128)) + (b2 - 128) < 2048 \<longleftrightarrow> b - 224 = 0 \<and> b1 - 128 < 32"
          by (rule overlong_bounds(1)) (use c True in auto)
        moreover have "b - 224 = 0 \<longleftrightarrow> b = 224" "b1 - 128 < 32 \<longleftrightarrow> \<not> 160 \<le> b1" using 3 c True by auto
        ultimately show ?thesis by (simp add: overlong_def)
      qed
      have m: "b1 mod 64 = b1 - 128" "b2 mod 64 = b2 - 128" using c True by auto
      have g: "cont_at buffer (p + 1)" "cont_at buffer (p + 2)" using True by auto
      show ?thesis
        unfolding scan_char_def Let_def d s option.case prod.case n loop m if_P[OF True] o
        using 3 g by simp
    next
      case False
      then show ?thesis using 3 unfolding scan_char_def Let_def d s option.case prod.case n loop by auto
    qed
  next
    case 4
    then have s: "start_byte (buffer ! p) = Some (4, b - 240)" using start by simp
    show ?thesis
    proof (cases "cont_at buffer (p + 1) \<and> cont_at buffer (p + 2) \<and> cont_at buffer (p + 3)")
      case True
      have o: "overlong 4 (64 * (64 * (64 * (b - 240) + (b1 - 128)) + (b2 - 128)) + (b3 - 128))
          \<longleftrightarrow> \<not> (b \<noteq> 240 \<or> 144 \<le> b1)"
      proof -
        have "64 * (64 * (64 * (b - 240) + (b1 - 128)) + (b2 - 128)) + (b3 - 128) < 65536
            \<longleftrightarrow> b - 240 = 0 \<and> b1 - 128 < 16"
          by (rule overlong_bounds(2)) (use c True in auto)
        moreover have "b - 240 = 0 \<longleftrightarrow> b = 240" "b1 - 128 < 16 \<longleftrightarrow> \<not> 144 \<le> b1" using 4 c True by auto
        ultimately show ?thesis by (simp add: overlong_def)
      qed
      have m: "b1 mod 64 = b1 - 128" "b2 mod 64 = b2 - 128" "b3 mod 64 = b3 - 128" using c True by auto
      have g: "cont_at buffer (p + 1)" "cont_at buffer (p + 2)" "cont_at buffer (p + 3)" using True by auto
      show ?thesis
        unfolding scan_char_def Let_def d s option.case prod.case n loop m if_P[OF True] o
        using 4 g by simp
    next
      case False
      then show ?thesis using 4 unfolding scan_char_def Let_def d s option.case prod.case n loop by auto
    qed
  next
    case 5
    then have s: "start_byte (buffer ! p) = None" using start by auto
    show ?thesis using 5 unfolding scan_char_def Let_def d s by auto
  qed
qed

lemma decodeCont_eq:
  "decodeCont buffer i u = (if cont_at buffer i then Inr (64 * u + unat (buffer ! i) mod 64)
     else if i \<ge> length buffer then Inl (U8UnexpectedEnd (length buffer)) else Inl (U8UnexpectedContinuation i))"
  by (auto simp: decodeCont_def cont_at_def byte_ranges add_continuation_eq)

text \<open>The strict decoder accepts exactly the structured sequences of valid code points.\<close>

lemma decodeCont_Inr:
  "decodeCont buffer i u = Inr v \<longleftrightarrow> cont_at buffer i \<and> v = 64 * u + unat (buffer ! i) mod 64"
  by (auto simp: decodeCont_eq)

lemma decodeCharOrThrow_scan:
  assumes "p < length buffer"
  shows "decodeCharOrThrow buffer p = Inr (u, q) \<longleftrightarrow>
    (\<exists>n. scan_char buffer p = Some (n, u) \<and> q = p + n \<and> isValidUnicode u)"
proof -
  define b where "b = buffer ! p"
  have p: "\<not> length buffer \<le> p" using assms by simp
  note D = decodeCharOrThrow_def[of buffer p, folded b_def, unfolded Let_def byte_ranges byte_masks byte_order
      if_not_P[OF p]]
  have sb: "start_byte (buffer ! p) = (if 194 \<le> unat b \<and> unat b < 224 then Some (2, unat b mod 32)
     else if 224 \<le> unat b \<and> unat b < 240 then Some (3, unat b mod 16)
     else if 240 \<le> unat b \<and> unat b < 245 then Some (4, unat b mod 8) else None)"
    unfolding b_def start_byte_def byte_ranges byte_masks byte_order by auto
  have n: "(2::nat) - 1 = Suc 0" "(3::nat) - 1 = 2" "(4::nat) - 1 = 3" "p + 1 + 1 = p + 2" "p + 1 + 2 = p + 3" by simp_all
  note loop = cont_loop_numerals[of buffer "p + 1", unfolded n]
  consider "unat b < 128" | "194 \<le> unat b" "unat b < 224" | "224 \<le> unat b" "unat b < 240"
    | "240 \<le> unat b" "unat b < 245" | "128 \<le> unat b" "\<not> (194 \<le> unat b \<and> unat b < 245)" by linarith
  then show ?thesis
  proof cases
    case 1
    then show ?thesis
      unfolding D scan_char_def Let_def b_def[symmetric] by (auto simp: ascii_valid)
  next
    case 2
    then have s: "start_byte (buffer ! p) = Some (2, unat b mod 32)" using sb by simp
    have r: "\<not> unat b < 128" "(192 \<le> unat b \<and> unat b < 224) \<and> 194 \<le> unat b" using 2 by simp_all
    show ?thesis
      unfolding D scan_char_def Let_def b_def[symmetric] s[folded b_def] option.case prod.case n loop
        if_not_P[OF r(1)] if_P[OF r(2)] sbind_Inr_iff decodeCont_Inr
      by (cases "cont_at buffer (p + 1)") (fastforce simp: overlong_def split: if_splits simp del: add_2_eq_Suc')+
  next
    case 3
    then have s: "start_byte (buffer ! p) = Some (3, unat b mod 16)" using sb by simp
    have r: "\<not> unat b < 128" "\<not> ((192 \<le> unat b \<and> unat b < 224) \<and> 194 \<le> unat b)" "224 \<le> unat b \<and> unat b < 240"
      using 3 by simp_all
    define w where "w = 64 * (64 * (unat b mod 16) + unat (buffer ! (p + 1)) mod 64) + unat (buffer ! (p + 2)) mod 64"
    have "decodeCharOrThrow buffer p = Inr (u, q) \<longleftrightarrow>
        cont_at buffer (p + 1) \<and> cont_at buffer (p + 2) \<and> \<not> w < 2048 \<and> isValidUnicode w \<and> u = w \<and> q = p + 3"
      unfolding D if_not_P[OF r(1)] if_not_P[OF r(2)] if_P[OF r(3)] sbind_Inr_iff decodeCont_Inr ex_simps
      by (simp only: simp_thms ex_simps sum.inject split: if_split prod.split) (auto simp: w_def split: if_splits)
    then show ?thesis
      unfolding scan_char_def Let_def b_def[symmetric] s[folded b_def] option.case prod.case n loop
        if_not_P[OF r(1)] w_def[symmetric] by (auto simp: overlong_def)
  next
    case 4
    then have s: "start_byte (buffer ! p) = Some (4, unat b mod 8)" using sb by simp
    have r: "\<not> unat b < 128" "\<not> ((192 \<le> unat b \<and> unat b < 224) \<and> 194 \<le> unat b)" "\<not> (224 \<le> unat b \<and> unat b < 240)"
      "(240 \<le> unat b \<and> unat b < 248) \<and> unat b < 245"
      using 4 by simp_all
    define w where "w = 64 * (64 * (64 * (unat b mod 8) + unat (buffer ! (p + 1)) mod 64) + unat (buffer ! (p + 2)) mod 64)
        + unat (buffer ! (p + 3)) mod 64"
    have "decodeCharOrThrow buffer p = Inr (u, q) \<longleftrightarrow> cont_at buffer (p + 1) \<and> cont_at buffer (p + 2)
        \<and> cont_at buffer (p + 3) \<and> \<not> w < 65536 \<and> isValidUnicode w \<and> u = w \<and> q = p + 4"
      unfolding D if_not_P[OF r(1)] if_not_P[OF r(2)] if_not_P[OF r(3)] if_P[OF r(4)] sbind_Inr_iff decodeCont_Inr
      by (simp only: simp_thms ex_simps sum.inject split: if_split prod.split) (auto simp: w_def split: if_splits)
    then show ?thesis
      unfolding scan_char_def Let_def b_def[symmetric] s[folded b_def] option.case prod.case n loop
        if_not_P[OF r(1)] w_def[symmetric] by (auto simp: overlong_def)
  next
    case 5
    then have s: "start_byte (buffer ! p) = None" using sb by auto
    show ?thesis using 5 unfolding D scan_char_def Let_def b_def[symmetric] s[folded b_def] by auto
  qed
qed

section \<open>Character boundaries\<close>

lemma fastAdvanceChar_scan:
  assumes "p < length buffer"
  shows "fastAdvanceChar buffer p = p + sequence_length buffer p"
proof -
  have p: "\<not> (length buffer \<le> p \<or> buffer = [])" using assms by auto
  have c: "p + d < length buffer \<and> is_continuation (buffer ! (p + d)) \<longleftrightarrow> cont_at buffer (p + d)" for d
    by (simp add: cont_at_def byte_ranges)
  define b b1 c1 c2 c3 where "b = unat (buffer ! p)" and "b1 = unat (buffer ! (p + 1))" and "c1 = cont_at buffer (p + 1)"
    and "c2 = cont_at buffer (p + 2)" and "c3 = cont_at buffer (p + 3)"
  note fold = b_def[symmetric] b1_def[symmetric] c1_def[symmetric] c2_def[symmetric] c3_def[symmetric]
  note D = fastAdvanceChar_def[of buffer p, unfolded if_not_P[OF p] Let_def c byte_ranges(2-) byte_order, unfolded byte_special, unfolded fold]
  note S = scan_char_cases[OF assms, unfolded Let_def, unfolded fold]
  have l: "b < 256" using byte_bound b_def by simp
  consider "b < 128" | "194 \<le> b" "b < 224" | "224 \<le> b" "b < 240"
    | "240 \<le> b" "b < 245" | "128 \<le> b" "\<not> (194 \<le> b \<and> b < 245)" by linarith
  then show ?thesis
  proof cases
    case 1
    then show ?thesis unfolding D sequence_length_def S by simp
  next
    case 2
    then show ?thesis unfolding D sequence_length_def S by (cases c1) simp_all
  next
    case 3
    then show ?thesis unfolding D sequence_length_def S by (cases c1; cases c2; cases "b = 224"; cases "160 \<le> b1") simp_all
  next
    case 4
    then show ?thesis unfolding D sequence_length_def S
      by (cases c1; cases c2; cases c3; cases "b = 240"; cases "144 \<le> b1") simp_all
  next
    case 5
    then show ?thesis unfolding D sequence_length_def S using l by auto
  qed
qed

lemma sequence_length_pos: "0 < sequence_length buffer p"
  by (auto simp: sequence_length_def scan_char_def dest: start_byte_size split: option.splits if_splits)

lemma sequence_structure:
  assumes "p < length buffer" "sequence_length buffer p = n" "n \<noteq> 1"
  shows "(n = 2 \<and> 194 \<le> unat (buffer ! p) \<and> unat (buffer ! p) < 224 \<and> cont_at buffer (p + 1))
    \<or> (n = 3 \<and> 224 \<le> unat (buffer ! p) \<and> unat (buffer ! p) < 240 \<and> cont_at buffer (p + 1) \<and> cont_at buffer (p + 2)
        \<and> (unat (buffer ! p) \<noteq> 224 \<or> 160 \<le> unat (buffer ! (p + 1))))
    \<or> (n = 4 \<and> 240 \<le> unat (buffer ! p) \<and> unat (buffer ! p) < 245 \<and> cont_at buffer (p + 1) \<and> cont_at buffer (p + 2)
        \<and> cont_at buffer (p + 3) \<and> (unat (buffer ! p) \<noteq> 240 \<or> 144 \<le> unat (buffer ! (p + 1))))"
  using assms unfolding sequence_length_def scan_char_cases[OF assms(1)] Let_def by (auto split: if_splits)

lemma sequence_structureI:
  assumes "p < length buffer"
  shows "194 \<le> unat (buffer ! p) \<Longrightarrow> unat (buffer ! p) < 224 \<Longrightarrow> cont_at buffer (p + 1) \<Longrightarrow> sequence_length buffer p = 2"
    "224 \<le> unat (buffer ! p) \<Longrightarrow> unat (buffer ! p) < 240 \<Longrightarrow> cont_at buffer (p + 1) \<Longrightarrow> cont_at buffer (p + 2)
      \<Longrightarrow> unat (buffer ! p) \<noteq> 224 \<or> 160 \<le> unat (buffer ! (p + 1)) \<Longrightarrow> sequence_length buffer p = 3"
    "240 \<le> unat (buffer ! p) \<Longrightarrow> unat (buffer ! p) < 245 \<Longrightarrow> cont_at buffer (p + 1) \<Longrightarrow> cont_at buffer (p + 2)
      \<Longrightarrow> cont_at buffer (p + 3) \<Longrightarrow> unat (buffer ! p) \<noteq> 240 \<or> 144 \<le> unat (buffer ! (p + 1))
      \<Longrightarrow> sequence_length buffer p = 4"
  unfolding sequence_length_def scan_char_cases[OF assms] Let_def by auto

lemma sequence_end:
  assumes "p < length buffer"
  shows "p + sequence_length buffer p \<le> length buffer"
    "\<And>i. p < i \<Longrightarrow> i < p + sequence_length buffer p \<Longrightarrow> cont_at buffer i"
proof -
  have "p + sequence_length buffer p \<le> length buffer \<and>
    (\<forall>i. p < i \<and> i < p + sequence_length buffer p \<longrightarrow> cont_at buffer i)"
  proof (cases "sequence_length buffer p = 1")
    case True
    then show ?thesis using assms by auto
  next
    case False
    have i: "p < i \<and> i < p + 2 \<longleftrightarrow> i = p + 1" "p < i \<and> i < p + 3 \<longleftrightarrow> i = p + 1 \<or> i = p + 2"
      "p < i \<and> i < p + 4 \<longleftrightarrow> i = p + 1 \<or> i = p + 2 \<or> i = p + 3" for i by linarith+
    have c: "cont_at buffer j \<Longrightarrow> j < length buffer" for j by (simp add: cont_at_def)
    consider "sequence_length buffer p = 2" "cont_at buffer (p + 1)"
      | "sequence_length buffer p = 3" "cont_at buffer (p + 1)" "cont_at buffer (p + 2)"
      | "sequence_length buffer p = 4" "cont_at buffer (p + 1)" "cont_at buffer (p + 2)" "cont_at buffer (p + 3)"
      using sequence_structure[OF assms refl False] by blast
    then show ?thesis
    proof cases
      case a: 1
      show ?thesis unfolding a(1) i using a(2) c[OF a(2)] by auto
    next
      case a: 2
      show ?thesis unfolding a(1) i using a(2,3) c[OF a(3)] by auto
    next
      case a: 3
      show ?thesis unfolding a(1) i using a(2-4) c[OF a(4)] by auto
    qed
  qed
  then show "p + sequence_length buffer p \<le> length buffer"
    "\<And>i. p < i \<Longrightarrow> i < p + sequence_length buffer p \<Longrightarrow> cont_at buffer i" by blast+
qed

text \<open>The boundaries of a byte string are the positions reached by advancing from its start.\<close>

definition boundary :: "byte8 list \<Rightarrow> nat \<Rightarrow> bool" where
  "boundary buffer p \<longleftrightarrow> (\<exists>k. p = (fastAdvanceChar buffer ^^ k) 0)"

lemma fastAdvanceChar_ge: "p \<le> fastAdvanceChar buffer p"
  using fastAdvanceChar_scan[of p buffer] by (cases "p < length buffer") (auto simp: fastAdvanceChar_def)

lemma boundary_mono: "i \<le> j \<Longrightarrow> (fastAdvanceChar buffer ^^ i) 0 \<le> (fastAdvanceChar buffer ^^ j) 0"
proof (induction j)
  case (Suc j)
  then show ?case
    using fastAdvanceChar_ge[of "(fastAdvanceChar buffer ^^ j) 0" buffer]
    by (cases "i = Suc j") (auto intro: order_trans)
qed simp

lemma boundary_next:
  assumes "boundary buffer q" "boundary buffer p" "q < p"
  shows "fastAdvanceChar buffer q \<le> p"
proof -
  obtain i j where ij: "q = (fastAdvanceChar buffer ^^ i) 0" "p = (fastAdvanceChar buffer ^^ j) 0"
    using assms by (auto simp: boundary_def)
  then have "Suc i \<le> j" using boundary_mono[of j i buffer] assms(3) by (meson leD not_less_eq_eq)
  then show ?thesis using boundary_mono[of "Suc i" j buffer] ij by simp
qed

lemma before_boundary:
  assumes "boundary buffer p" "p \<le> length buffer" "q < p"
  shows "boundary buffer q \<or> cont_at buffer q"
proof -
  obtain k where k: "p = (fastAdvanceChar buffer ^^ k) 0" using assms(1) by (auto simp: boundary_def)
  have "q < (fastAdvanceChar buffer ^^ k) 0 \<Longrightarrow> (fastAdvanceChar buffer ^^ k) 0 \<le> length buffer
      \<Longrightarrow> boundary buffer q \<or> cont_at buffer q" for k
  proof (induction k)
    case (Suc k)
    let ?r = "(fastAdvanceChar buffer ^^ k) 0"
    show ?case
    proof (cases "q < ?r")
      case True
      then show ?thesis
        using Suc fastAdvanceChar_ge[of ?r buffer] by auto
    next
      case False
      then have r: "?r < length buffer" using Suc.prems by simp
      have "q < ?r + sequence_length buffer ?r" using Suc.prems(1) fastAdvanceChar_scan[OF r] by simp
      then show ?thesis
        using sequence_end(2)[OF r, of q] False by (cases "q = ?r") (auto simp: boundary_def)
    qed
  qed simp
  then show ?thesis using k assms(2,3) by blast
qed

lemma continuation_has_no_sequence:
  assumes "cont_at buffer p"
  shows "sequence_length buffer p = 1"
proof (rule ccontr)
  assume "sequence_length buffer p \<noteq> 1"
  then show False using sequence_structure[of p buffer] assms by (auto simp: cont_at_def)
qed

lemma lengthByte_sequence:
  assumes d: "1 \<le> d" "d \<le> 4" "d \<le> q" and q: "q \<le> length buffer"
    and c: "\<And>i. q - d < i \<Longrightarrow> i < q \<Longrightarrow> cont_at buffer i"
  shows "lengthByte buffer q d =
    (if cont_at buffer (q - d) then 0 else if sequence_length buffer (q - d) = d then d else 1)"
proof -
  define r where "r = q - d"
  have r: "r < length buffer" "\<not> q < d" "q = r + d" using d q by (simp_all add: r_def)
  have c': "cont_at buffer (r + j)" if "0 < j" "j < d" for j using c[of "r + j", folded r_def] that r(3) by simp
  have cr: "cont_at buffer r \<longleftrightarrow> is_continuation (buffer ! r)" using r by (simp add: cont_at_def byte_ranges)
  define b b1 where "b = unat (buffer ! r)" and "b1 = unat (buffer ! (r + 1))"
  note L = lengthByte_def[of buffer q d, folded r_def, unfolded if_not_P[OF r(2)] Let_def cr[symmetric]
      byte_ranges(2-) byte_order, unfolded byte_special, folded b_def b1_def]
  note S = sequence_structure[OF r(1) refl, folded b_def b1_def]
  note I = sequence_structureI[OF r(1), folded b_def b1_def]
  have n: "d = 1 \<or> d = 2 \<or> d = 3 \<or> d = 4" using d by linarith
  show ?thesis
  proof (cases "cont_at buffer r")
    case True
    then show ?thesis unfolding L by (simp add: r_def)
  next
    case False
    consider "d = 1" | "d = 2" | "d = 3" | "d = 4" using n by blast
    then show ?thesis
    proof cases
      case 1
      then show ?thesis unfolding L using False by (simp add: r_def)
    next
      case 2
      have "cont_at buffer (r + 1)" using c'[of 1] 2 by simp
      then have "sequence_length buffer r = 2 \<longleftrightarrow> 194 \<le> b \<and> b < 224" using S I(1) by auto
      then show ?thesis unfolding L r_def[symmetric] using False 2 by auto
    next
      case 3
      have "cont_at buffer (r + 1)" "cont_at buffer (r + 2)" using c'[of 1] c'[of 2] 3 by simp_all
      then have "sequence_length buffer r = 3 \<longleftrightarrow> 224 \<le> b \<and> b < 240 \<and> (b \<noteq> 224 \<or> 160 \<le> b1)" using S I(2) by auto
      then show ?thesis unfolding L r_def[symmetric] using False 3 by auto
    next
      case 4
      have "cont_at buffer (r + 1)" "cont_at buffer (r + 2)" "cont_at buffer (r + 3)"
        using c'[of 1] c'[of 2] c'[of 3] 4 by simp_all
      then have "sequence_length buffer r = 4 \<longleftrightarrow> 240 \<le> b \<and> b < 245 \<and> (b \<noteq> 240 \<or> 144 \<le> b1)" using S I(3) by auto
      then show ?thesis unfolding L r_def[symmetric] using False 4 by auto
    qed
  qed
qed

text \<open>A stray continuation byte that the cursor stepped over alone is stepped back over alone.\<close>

lemma retreat_stray:
  assumes p: "boundary buffer p" "cont_at buffer p"
  shows "retreat_loop buffer (p + 1) [1, 2, 3, 4] = 1"
proof -
  let ?q = "p + 1"
  have l: "?q \<le> length buffer" using p(2) by (simp add: cont_at_def)
  have step: "lengthByte buffer ?q d = 1 \<or> lengthByte buffer ?q d = 0 \<and> d \<le> ?q \<and> cont_at buffer (?q - d)"
    if d: "1 \<le> d" "d \<le> 4" and c: "\<And>i. ?q - d < i \<Longrightarrow> i < ?q \<Longrightarrow> cont_at buffer i" for d
  proof (cases "d \<le> ?q")
    case False
    then show ?thesis by (simp add: lengthByte_def)
  next
    case True
    note E = lengthByte_sequence[OF d True l c]
    have "sequence_length buffer (?q - d) \<noteq> d \<or> d = 1" if "\<not> cont_at buffer (?q - d)"
    proof (rule ccontr)
      assume "\<not> (sequence_length buffer (?q - d) \<noteq> d \<or> d = 1)"
      then have s: "sequence_length buffer (?q - d) = d" "?q - d < p" using d True by auto
      then have "boundary buffer (?q - d)"
        using before_boundary[OF p(1) _ s(2)] l that by simp
      then have "fastAdvanceChar buffer (?q - d) \<le> p" using boundary_next[OF _ p(1)] s(2) by blast
      moreover have "?q - d < length buffer" using s(2) l by linarith
      ultimately show False using fastAdvanceChar_scan[of "?q - d" buffer] s(1) True by simp
    qed
    then show ?thesis using E True by auto
  qed
  have 1: "lengthByte buffer ?q 1 = 0" using step[of 1] lengthByte_sequence[of 1 ?q buffer] l p(2) by auto
  have i: "p + 1 - d < i \<Longrightarrow> i < p + 1 \<Longrightarrow> i = p \<or> p + 1 - (d - 1) < i \<or> i = p + 1 - (d - 1) \<or> d \<le> 1" for i d by linarith
  have c2: "\<And>i. ?q - 2 < i \<Longrightarrow> i < ?q \<Longrightarrow> cont_at buffer i"
  proof -
    fix i assume "?q - 2 < i" "i < ?q"
    then have "i = p" by linarith
    then show "cont_at buffer i" using p(2) by simp
  qed
  have c3: "\<And>i. ?q - 3 < i \<Longrightarrow> i < ?q \<Longrightarrow> cont_at buffer i" if "cont_at buffer (?q - 2)"
  proof -
    fix i assume "?q - 3 < i" "i < ?q"
    then have "i = p \<or> i = ?q - 2" by linarith
    then show "cont_at buffer i" using p(2) that by auto
  qed
  have c4: "\<And>i. ?q - 4 < i \<Longrightarrow> i < ?q \<Longrightarrow> cont_at buffer i" if "cont_at buffer (?q - 2)" "cont_at buffer (?q - 3)"
  proof -
    fix i assume "?q - 4 < i" "i < ?q"
    then have "i = p \<or> i = ?q - 2 \<or> i = ?q - 3" by linarith
    then show "cont_at buffer i" using p(2) that by auto
  qed
  have "lengthByte buffer ?q 2 = 1 \<or> lengthByte buffer ?q 2 = 0 \<and> cont_at buffer (?q - 2)"
    using step[of 2] c2 by fastforce
  moreover have "lengthByte buffer ?q 3 = 1 \<or> lengthByte buffer ?q 3 = 0 \<and> cont_at buffer (?q - 3)"
    if "cont_at buffer (?q - 2)" using step[of 3] c3[OF that] by fastforce
  moreover have "lengthByte buffer ?q 4 = 1 \<or> lengthByte buffer ?q 4 = 0"
    if "cont_at buffer (?q - 2)" "cont_at buffer (?q - 3)" using step[of 4] c4[OF that] by fastforce
  ultimately show ?thesis using 1 by (auto simp: Let_def)
qed

lemma retreat_sequence:
  assumes p: "p < length buffer" "\<not> cont_at buffer p"
  shows "retreat_loop buffer (p + sequence_length buffer p) [1, 2, 3, 4] = sequence_length buffer p"
proof -
  define n where "n = sequence_length buffer p"
  note e = sequence_end[OF p(1), folded n_def]
  have n: "n = 1 \<or> n = 2 \<or> n = 3 \<or> n = 4"
    using sequence_structure[OF p(1) refl, folded n_def] by blast
  have L: "lengthByte buffer (p + n) d = (if d = n then n else 0)" if "1 \<le> d" "d \<le> n" for d
  proof -
    have le: "d \<le> 4" "d \<le> p + n" using n that by auto
    have c: "cont_at buffer i" if "p + n - d < i" "i < p + n" for i
      using e(2)[of i] that \<open>d \<le> n\<close> by linarith
    have "cont_at buffer (p + n - d)" if "d < n" using e(2)[of "p + n - d"] that \<open>1 \<le> d\<close> by linarith
    moreover have "p + n - d = p" if "d = n" using that by simp
    ultimately show ?thesis
      using lengthByte_sequence[OF that(1) le e(1) c] p(2) n_def that by (cases "d = n") auto
  qed
  from n show ?thesis
    unfolding n_def[symmetric] using L[of 1] L[of 2] L[of 3] L[of 4] by (auto simp: Let_def)
qed

lemma cursor_steps:
  assumes "boundary buffer p" "p < length buffer"
  shows "fastRetreatChar buffer (fastAdvanceChar buffer p) = p
    \<and> p < fastAdvanceChar buffer p \<and> fastAdvanceChar buffer p \<le> length buffer"
proof -
  define n where "n = sequence_length buffer p"
  have a: "fastAdvanceChar buffer p = p + n" using fastAdvanceChar_scan[OF assms(2)] by (simp add: n_def)
  have n: "0 < n" "p + n \<le> length buffer"
    using sequence_length_pos sequence_end(1)[OF assms(2)] by (simp_all add: n_def)
  have "retreat_loop buffer (p + n) [1, 2, 3, 4] = n"
  proof (cases "cont_at buffer p")
    case True
    then have "n = 1" by (simp add: n_def continuation_has_no_sequence)
    then show ?thesis using retreat_stray[OF assms(1) True] by simp
  qed (use retreat_sequence[OF assms(2)] in \<open>simp add: n_def\<close>)
  moreover have "buffer \<noteq> []" "min (p + n) (length buffer) = p + n" "p + n \<noteq> 0" using n assms(2) by auto
  ultimately have "fastRetreatChar buffer (p + n) = p"
    unfolding fastRetreatChar_def Let_def by simp
  then show ?thesis unfolding a using n by simp
qed

section \<open>Properties of the cursors\<close>

text \<open>C31: Stepping forwards and back over an encoded character are inverse at every position the
  forward cursor reaches from the start of a buffer, whatever bytes the buffer holds: at a start
  byte without its continuation bytes, a stray continuation byte or an overlong form both move by
  one byte, and at a well-formed sequence both move over the whole sequence.\<close>

theorem cursor_steps_inverse:
  assumes "boundary buffer p" "p < length buffer"
  shows "fastRetreatChar buffer (fastAdvanceChar buffer p) = p
    \<and> p < fastAdvanceChar buffer p \<and> fastAdvanceChar buffer p \<le> length buffer"
  using cursor_steps[OF assms] by blast

text \<open>Stray and truncated sequences: a lone continuation byte, then a three-byte sequence cut short.\<close>

definition malformed_bytes :: "byte8 list" where
  "malformed_bytes = [0x41, 0x80, 0xE2, 0x82, 0xAC, 0xE2, 0x82]"

theorem cursor_steps_inverse_witness:
  "fastRetreatChar malformed_bytes (fastAdvanceChar malformed_bytes 2) = 2"
proof -
  have "boundary malformed_bytes 2" unfolding boundary_def by (rule exI[of _ 2]) code_simp
  then show ?thesis using cursor_steps_inverse[of malformed_bytes 2] by (simp add: malformed_bytes_def)
qed

text \<open>The three decoders agree with each other and with the cursor at every position of every
  buffer: the tolerant and the trying decoder move exactly as the cursor does, the strict decoder
  accepts exactly the characters the trying decoder yields and then stops where they stop, and the
  tolerant decoder gives the replacement character in all other cases.\<close>

lemma decoders_agree:
  assumes "p < length buffer"
  shows "snd (tryDecodeChar buffer p) = fastAdvanceChar buffer p
    \<and> decodeCharOrReplace buffer p =
        (case fst (tryDecodeChar buffer p) of None \<Rightarrow> replacement | Some u \<Rightarrow> u, fastAdvanceChar buffer p)
    \<and> (\<forall>u q. decodeCharOrThrow buffer p = Inr (u, q) \<longleftrightarrow> tryDecodeChar buffer p = (Some u, q))
    \<and> (\<forall>u. fst (tryDecodeChar buffer p) = Some u \<longrightarrow> isValidUnicode u)"
  unfolding decodeCharOrThrow_scan[OF assms] tryDecodeChar_scan[OF assms] decodeCharOrReplace_scan[OF assms]
    fastAdvanceChar_scan[OF assms] sequence_length_def
  by (cases "scan_char buffer p") (auto split: if_splits)

theorem decoders_agree_witness: "snd (tryDecodeChar malformed_bytes 2) = fastAdvanceChar malformed_bytes 2"
  using decoders_agree[of 2 malformed_bytes] by (simp add: malformed_bytes_def)

section \<open>Encoding as numbers\<close>

definition utf8_numbers :: "nat \<Rightarrow> nat list" where
  "utf8_numbers c =
     (if c < 128 then [c]
      else if c < 2048 then [192 + c div 64, 128 + c mod 64]
      else if c < 65536 then [224 + c div 4096, 128 + c div 64 mod 64, 128 + c mod 64]
      else [240 + c div 262144, 128 + c div 4096 mod 64, 128 + c div 64 mod 64, 128 + c mod 64])"

lemma valid_bound: "isValidUnicode c \<Longrightarrow> c < 1114112"
  by (simp add: isValidUnicode_def)

lemma u8_write_numbers:
  assumes "isValidUnicode c"
  shows "map unat (u8_write c) = utf8_numbers c"
proof -
  have b: "c < 1114112" using valid_bound[OF assms] .
  have lt: "c < 2048 \<Longrightarrow> c div 64 < 32" "c < 65536 \<Longrightarrow> c div 4096 < 16" "c div 262144 < 8" "c div 262144 < 16"
    using b by (simp_all add: less_mult_imp_div_less)
  have m: "(c::nat) mod 64 < 64" "c div 64 mod 64 < 64" "c div 4096 mod 64 < 64" by simp_all
  have f: "c < 2048 \<Longrightarrow> c div 64 mod 32 = c div 64" "c < 65536 \<Longrightarrow> c div 4096 mod 16 = c div 4096"
    "c div 262144 mod 8 = c div 262144" using lt by simp_all
  note o = or_byte(4)[OF m(1)] or_byte(4)[OF m(2)] or_byte(4)[OF m(3)]
  consider "c < 128" | "128 \<le> c" "c < 2048" | "2048 \<le> c" "c < 65536" | "65536 \<le> c" by linarith
  then show ?thesis
  proof cases
    case 1
    then show ?thesis using assms by (simp add: u8_write_def utf8_numbers_def unat_of_nat)
  next
    case 2
    then show ?thesis using assms
      unfolding u8_write_def utf8_numbers_def code_point_parts f(1)[OF 2(2)]
      using or_byte(1)[OF lt(1)[OF 2(2)]] o by simp
  next
    case 3
    then show ?thesis using assms
      unfolding u8_write_def utf8_numbers_def code_point_parts f(2)[OF 3(2)]
      using or_byte(2)[OF lt(2)[OF 3(2)]] o by (simp add: drop_bit_eq_div)
  next
    case 4
    then show ?thesis using assms
      unfolding u8_write_def utf8_numbers_def code_point_parts f(3)
      using or_byte(3)[OF lt(3)] o by (simp add: drop_bit_eq_div)
  qed
qed

lemma u8_write_length: "isValidUnicode c \<Longrightarrow> length (u8_write c) = encodedLength c"
  by (simp add: u8_write_def encodedLength_def)

lemma parts_unique:
  fixes x y z w :: nat
  assumes "y < 64"
  shows "(64 * x + y) div 64 = x" "(64 * x + y) mod 64 = y"
    and "z < 64 \<Longrightarrow> (64 * (64 * x + y) + z) div 4096 = x"
    and "z < 64 \<Longrightarrow> w < 64 \<Longrightarrow> (64 * (64 * (64 * x + y) + z) + w) div 262144 = x"
    and "z < 64 \<Longrightarrow> w < 64 \<Longrightarrow> (64 * (64 * (64 * x + y) + z) + w) div 4096 = 64 * x + y"
proof -
  show A: "(64 * x + y) div 64 = x" "(64 * x + y) mod 64 = y" for x using assms by simp_all
  show "(64 * (64 * x + y) + z) div 4096 = x" if "z < 64" by (rule div_nat_eqI) (use assms that in \<open>simp_all add: algebra_simps\<close>)
  show "(64 * (64 * (64 * x + y) + z) + w) div 262144 = x" if "z < 64" "w < 64"
    by (rule div_nat_eqI) (use assms that in \<open>simp_all add: algebra_simps\<close>)
  show "(64 * (64 * (64 * x + y) + z) + w) div 4096 = 64 * x + y" if "z < 64" "w < 64"
    by (rule div_nat_eqI) (use assms that in \<open>simp_all add: algebra_simps\<close>)
qed

lemma three_byte_bound: "x < 16 \<Longrightarrow> y < 64 \<Longrightarrow> z < 64 \<Longrightarrow> 64 * (64 * x + y) + z < (65536 :: nat)"
  by simp

lemma take_drop_nth:
  assumes "p + n \<le> length xs"
  shows "take n (drop p xs) = map (\<lambda>i. xs ! (p + i)) [0..<n]"
  by (rule nth_equalityI) (use assms in auto)

text \<open>The structured sequences are the encodings: scanning gives the numbers and back.\<close>

lemma scan_numbers:
  assumes p: "p < length buffer" and s: "scan_char buffer p = Some (n, c)"
  shows "map unat (take n (drop p buffer)) = utf8_numbers c"
proof -
  have n: "sequence_length buffer p = n" using s by (simp add: sequence_length_def)
  have le: "p + n \<le> length buffer" using sequence_end(1)[OF p] n by simp
  define b b1 b2 b3 where "b = unat (buffer ! p)" and "b1 = unat (buffer ! (p + 1))"
    and "b2 = unat (buffer ! (p + 2))" and "b3 = unat (buffer ! (p + 3))"
  note d = b_def[symmetric] b1_def[symmetric] b2_def[symmetric] b3_def[symmetric]
  have c: "cont_at buffer (p + 1) \<Longrightarrow> 128 \<le> b1 \<and> b1 < 192" "cont_at buffer (p + 2) \<Longrightarrow> 128 \<le> b2 \<and> b2 < 192"
    "cont_at buffer (p + 3) \<Longrightarrow> 128 \<le> b3 \<and> b3 < 192" by (auto simp: cont_at_def b1_def b2_def b3_def)
  note S = s[unfolded scan_char_cases[OF p] Let_def, unfolded d]
  have T: "take n (drop p buffer) = map (\<lambda>i. buffer ! (p + i)) [0..<n]" by (rule take_drop_nth[OF le])
  have U: "[0..<2] = [0, 1]" "[0..<3] = [0, 1, 2]" "[0..<4] = [0, 1, 2, 3::nat]" by (simp_all add: upt_rec)
  consider "n = 1" "b < 128" "c = b"
    | "n = 2" "194 \<le> b" "b < 224" "cont_at buffer (p + 1)" "c = 64 * (b - 192) + (b1 - 128)"
    | "n = 3" "224 \<le> b" "b < 240" "cont_at buffer (p + 1)" "cont_at buffer (p + 2)" "b \<noteq> 224 \<or> 160 \<le> b1"
      "c = 64 * (64 * (b - 224) + (b1 - 128)) + (b2 - 128)"
    | "n = 4" "240 \<le> b" "b < 245" "cont_at buffer (p + 1)" "cont_at buffer (p + 2)" "cont_at buffer (p + 3)"
      "b \<noteq> 240 \<or> 144 \<le> b1" "c = 64 * (64 * (64 * (b - 240) + (b1 - 128)) + (b2 - 128)) + (b3 - 128)"
    using S by (simp split: if_splits)
  then show ?thesis
  proof cases
    case 1
    then show ?thesis unfolding T by (simp add: utf8_numbers_def flip: b_def)
  next
    case 2
    have y: "b1 - 128 < 64" using c(1)[OF 2(4)] by linarith
    have "128 \<le> c" "c < 2048" using 2(2,3,5) y by linarith+
    moreover have "c div 64 = b - 192" "c mod 64 = b1 - 128" unfolding 2(5) using parts_unique(1,2)[OF y] by simp_all
    ultimately show ?thesis unfolding T unfolding 2(1) U list.map add_0_right d using 2(2) c(1)[OF 2(4)]
      by (simp add: utf8_numbers_def)
  next
    case 3
    have y: "b1 - 128 < 64" "b2 - 128 < 64" using c(1)[OF 3(4)] c(2)[OF 3(5)] by linarith+
    have "1 \<le> b - 224 \<or> 32 \<le> b1 - 128" using 3(2,6) by arith
    then have "2048 \<le> c" unfolding 3(7) by auto
    moreover have "c < 65536"
      unfolding 3(7) by (rule three_byte_bound) (use 3(2,3) y in auto)
    moreover have "c div 4096 = b - 224" "c div 64 mod 64 = b1 - 128" "c mod 64 = b2 - 128"
      unfolding 3(7) by (simp_all only: parts_unique(3)[OF y] parts_unique(1,2)[OF y(2)] parts_unique(1,2)[OF y(1)])
    ultimately show ?thesis unfolding T unfolding 3(1) U list.map add_0_right d using 3(2) c(1)[OF 3(4)] c(2)[OF 3(5)]
      by (simp add: utf8_numbers_def)
  next
    case 4
    have y: "b1 - 128 < 64" "b2 - 128 < 64" "b3 - 128 < 64"
      using c(1)[OF 4(4)] c(2)[OF 4(5)] c(3)[OF 4(6)] by linarith+
    have "1 \<le> b - 240 \<or> 16 \<le> b1 - 128" using 4(2,7) by arith
    then have "65536 \<le> c" unfolding 4(8) by auto
    moreover have "c div 262144 = b - 240" "c div 4096 mod 64 = b1 - 128" "c div 64 mod 64 = b2 - 128" "c mod 64 = b3 - 128"
      unfolding 4(8) by (simp_all only: parts_unique(4,5)[OF y(1)] parts_unique(4,5)[OF y] parts_unique(1,2)[OF y(3)]
        parts_unique(1,2)[OF y(2)] parts_unique(1,2)[OF y(1)])
    ultimately show ?thesis unfolding T unfolding 4(1) U list.map add_0_right d using 4(2) c(1)[OF 4(4)] c(2)[OF 4(5)] c(3)[OF 4(6)]
      by (simp add: utf8_numbers_def)
  qed
qed

lemma numbers_parts:
  fixes c :: nat
  shows "c = 64 * (c div 64) + c mod 64"
    and "c = 64 * (64 * (c div 4096) + c div 64 mod 64) + c mod 64"
    and "c = 64 * (64 * (64 * (c div 262144) + c div 4096 mod 64) + c div 64 mod 64) + c mod 64"
proof -
  have d: "n = 64 * (n div 64) + n mod 64" for n :: nat by simp
  show "c = 64 * (c div 64) + c mod 64" by (rule d)
  show "c = 64 * (64 * (c div 4096) + c div 64 mod 64) + c mod 64"
    using d[of c] d[of "c div 64"] by (simp add: div_mult2_eq[symmetric])
  show "c = 64 * (64 * (64 * (c div 262144) + c div 4096 mod 64) + c div 64 mod 64) + c mod 64"
    using d[of c] d[of "c div 64"] d[of "c div 4096"] by (simp add: div_mult2_eq[symmetric])
qed

lemma utf8_numbers_length: "isValidUnicode c \<Longrightarrow> length (utf8_numbers c) = encodedLength c"
  by (simp add: utf8_numbers_def encodedLength_def)

lemma scan_encoded:
  assumes v: "isValidUnicode c" and t: "take (encodedLength c) (drop p buffer) = u8_write c"
  shows "scan_char buffer p = Some (encodedLength c, c)"
proof -
  define n where "n = encodedLength c"
  have l: "length (u8_write c) = n" "0 < n" "n \<le> 4"
    using u8_write_length[OF v] v by (simp_all add: n_def encodedLength_def)
  have "length (take n (drop p buffer)) = n" unfolding n_def using t l(1) by (simp add: n_def)
  then have le: "p + n \<le> length buffer" using l(2) by auto
  then have p: "p < length buffer" using l(2) by simp
  have g: "unat (buffer ! (p + i)) = utf8_numbers c ! i" if "i < n" for i
  proof -
    have "buffer ! (p + i) = take n (drop p buffer) ! i" using le that by simp
    also have "\<dots> = u8_write c ! i" using t n_def by simp
    finally show ?thesis using u8_write_numbers[OF v] that l(1) by (metis nth_map)
  qed
  have b: "c < 1114112" using valid_bound[OF v] .
  have m: "c mod 64 < 64" "c div 64 mod 64 < 64" "c div 4096 mod 64 < 64" by simp_all
  consider "c < 128" "n = 1" | "128 \<le> c" "c < 2048" "n = 2" | "2048 \<le> c" "c < 65536" "n = 3" | "65536 \<le> c" "n = 4"
  proof -
    have "n = (if c < 128 then 1 else if c < 2048 then 2 else if c < 65536 then 3 else 4)"
      using v unfolding n_def encodedLength_def by auto
    then show ?thesis using that by (cases "c < 128"; cases "c < 2048"; cases "c < 65536") auto
  qed
  then show ?thesis
  proof cases
    case 1
    then show ?thesis using g[of 0] by (simp add: scan_char_cases[OF p] Let_def utf8_numbers_def flip: n_def)
  next
    case 2
    have x: "2 \<le> c div 64" "c div 64 < 32" using 2 by (simp_all add: less_mult_imp_div_less Suc_leI div_greater_zero_iff)
    have e: "unat (buffer ! p) = 192 + c div 64" "unat (buffer ! (p + 1)) = 128 + c mod 64"
      using g[of 0] g[of 1] 2 by (simp_all add: utf8_numbers_def)
    have "cont_at buffer (p + 1)" using e m le 2 by (simp add: cont_at_def)
    then show ?thesis
      unfolding scan_char_cases[OF p] Let_def e n_def[symmetric] 2(3) using x numbers_parts(1)[of c] by simp
  next
    case 3
    have x: "c div 4096 < 16" using 3 by (simp add: less_mult_imp_div_less)
    have "c < 2048 \<longleftrightarrow> c div 4096 = 0 \<and> c div 64 mod 64 < 32"
      using overlong_bounds(1)[OF m(2) m(1), of "c div 4096"] by (simp only: numbers_parts(2)[of c, symmetric])
    then have y: "c div 4096 \<noteq> 0 \<or> 32 \<le> c div 64 mod 64" using 3(1) by (meson not_le)
    have e: "unat (buffer ! p) = 224 + c div 4096" "unat (buffer ! (p + 1)) = 128 + c div 64 mod 64"
      "unat (buffer ! (p + 2)) = 128 + c mod 64"
      using g[of 0] g[of 1] g[of 2] 3 by (simp_all add: utf8_numbers_def)
    have "cont_at buffer (p + 1)" "cont_at buffer (p + 2)" using e m le 3 by (simp_all add: cont_at_def)
    then show ?thesis
      unfolding scan_char_cases[OF p] Let_def e n_def[symmetric] 3(3) using x y numbers_parts(2)[of c] by auto
  next
    case 4
    have x: "c div 262144 < 5" using b by (simp add: less_mult_imp_div_less)
    have "c < 65536 \<longleftrightarrow> c div 262144 = 0 \<and> c div 4096 mod 64 < 16"
      using overlong_bounds(2)[OF m(3) m(2) m(1), of "c div 262144"] by (simp only: numbers_parts(3)[of c, symmetric])
    then have y: "c div 262144 \<noteq> 0 \<or> 16 \<le> c div 4096 mod 64" using 4(1) by (meson not_le)
    have e: "unat (buffer ! p) = 240 + c div 262144" "unat (buffer ! (p + 1)) = 128 + c div 4096 mod 64"
      "unat (buffer ! (p + 2)) = 128 + c div 64 mod 64" "unat (buffer ! (p + 3)) = 128 + c mod 64"
      using g[of 0] g[of 1] g[of 2] g[of 3] 4 by (simp_all add: utf8_numbers_def)
    have "cont_at buffer (p + 1)" "cont_at buffer (p + 2)" "cont_at buffer (p + 3)"
      using e m le 4 by (simp_all add: cont_at_def)
    then show ?thesis
      unfolding scan_char_cases[OF p] Let_def e n_def[symmetric] 4(2) using x y numbers_parts(3)[of c] by auto
  qed
qed

lemma scan_valid_iff:
  assumes "p < length buffer"
  shows "scan_char buffer p = Some (n, c) \<and> isValidUnicode c \<longleftrightarrow>
    isValidUnicode c \<and> n = encodedLength c \<and> take n (drop p buffer) = u8_write c"
proof (intro iffI conjI; elim conjE)
  assume s: "scan_char buffer p = Some (n, c)" and v: "isValidUnicode c"
  have "map unat (take n (drop p buffer)) = map unat (u8_write c)"
    using scan_numbers[OF assms s] u8_write_numbers[OF v] by simp
  then show t: "take n (drop p buffer) = u8_write c"
    using inj_map_eq_map[of "unat :: byte8 \<Rightarrow> nat"] by (simp add: inj_def word_unat_eq_iff)
  have "p + n \<le> length buffer" using sequence_end(1)[OF assms] s by (simp add: sequence_length_def)
  then show "n = encodedLength c" using t u8_write_length[OF v] by (metis add_le_imp_le_diff add.commute length_drop length_take min.absorb2)
qed (auto intro: scan_encoded)

end
