(* ===== verification/DecodedSearch.thy ===== *)
theory DecodedSearch
  imports Prelude
begin

text \<open>
  The linear-time search for a character sequence (\<open>src/erbsland/text/impl/DecodedStringSearch.hpp\<close>):
  preprocessing of the pattern into a table of matching prefixes, the search for the first
  occurrence and the count of the non-overlapping ones. The text and the pattern are read through a
  function that decodes the next character, or reports the end of the data; the locale
  \<open>decoded_stream\<close> states what the search relies on. The inner loops follow the table and the outer
  loops the stream, so whether they return depends on both: the model gives \<open>None\<close> where
  they do not return and where the code terminates the program, and the theorems show it never is.
\<close>

section \<open>The algorithm\<close>

text \<open>A pattern element: the character and the length of its longest matching proper prefix.\<close>

type_synonym 'c pattern_elements = "('c \<times> nat) list"
type_synonym 'c reader = "nat \<Rightarrow> ('c \<times> nat) option"

partial_function (option) fall_back ::
    "('c \<Rightarrow> 'c \<Rightarrow> bool) \<Rightarrow> 'c pattern_elements \<Rightarrow> 'c \<Rightarrow> nat \<Rightarrow> nat option" where
  "fall_back eq pattern c matchedLength =
     (if matchedLength > 0 \<and> \<not> eq c (fst (pattern ! matchedLength))
      then fall_back eq pattern c (snd (pattern ! (matchedLength - 1)))
      else Some matchedLength)"

partial_function (option) build_pattern ::
    "('c \<Rightarrow> 'c \<Rightarrow> bool) \<Rightarrow> 'c reader \<Rightarrow> nat \<Rightarrow> 'c pattern_elements \<Rightarrow> 'c pattern_elements option" where
  "build_pattern eq readNext start pattern =
     (case readNext start of None \<Rightarrow> Some pattern
      | Some (c, start) \<Rightarrow>
        Option.bind (fall_back eq pattern c (if pattern = [] then 0 else snd (last pattern))) (\<lambda>prefixLength.
          let prefixLength = (if pattern \<noteq> [] \<and> eq c (fst (pattern ! prefixLength)) then prefixLength + 1
                              else prefixLength)
          in build_pattern eq readNext start (pattern @ [(c, prefixLength)])))"

fun skip_chars :: "'c reader \<Rightarrow> nat \<Rightarrow> nat \<Rightarrow> nat option" where
  "skip_chars readNext 0 position = Some position"
| "skip_chars readNext (Suc n) position =
     (case readNext position of None \<Rightarrow> None | Some (_, position) \<Rightarrow> skip_chars readNext n position)"

partial_function (option) find_in_stream ::
    "('c \<Rightarrow> 'c \<Rightarrow> bool) \<Rightarrow> 'c pattern_elements \<Rightarrow> 'c reader \<Rightarrow> nat \<Rightarrow> nat \<Rightarrow> nat \<Rightarrow> nat \<Rightarrow> nat option option" where
  "find_in_stream eq pattern readNext start position processedLength matchedLength =
     (case readNext position of None \<Rightarrow> Some None
      | Some (c, position) \<Rightarrow>
        Option.bind (fall_back eq pattern c matchedLength) (\<lambda>matchedLength.
          let processedLength = processedLength + 1;
              matchedLength = (if eq c (fst (pattern ! matchedLength)) then matchedLength + 1 else matchedLength)
          in if matchedLength = length pattern
             then Option.bind (skip_chars readNext (processedLength - matchedLength) start) (\<lambda>r. Some (Some r))
             else find_in_stream eq pattern readNext start position processedLength matchedLength))"

definition dss_find :: "('c \<Rightarrow> 'c \<Rightarrow> bool) \<Rightarrow> 'c pattern_elements \<Rightarrow> nat \<Rightarrow> 'c reader \<Rightarrow> nat option option" where
  "dss_find eq pattern start readNext =
     (if pattern = [] then Some (Some start) else find_in_stream eq pattern readNext start start 0 0)"

partial_function (option) count_in_stream ::
    "('c \<Rightarrow> 'c \<Rightarrow> bool) \<Rightarrow> 'c pattern_elements \<Rightarrow> 'c reader \<Rightarrow> nat \<Rightarrow> nat \<Rightarrow> nat \<Rightarrow> nat option" where
  "count_in_stream eq pattern readNext position matchedLength result =
     (case readNext position of None \<Rightarrow> Some result
      | Some (c, position) \<Rightarrow>
        Option.bind (fall_back eq pattern c matchedLength) (\<lambda>matchedLength.
          let matchedLength = (if eq c (fst (pattern ! matchedLength)) then matchedLength + 1 else matchedLength)
          in if matchedLength = length pattern
             then count_in_stream eq pattern readNext position 0 (result + 1)
             else count_in_stream eq pattern readNext position matchedLength result))"

definition dss_count :: "('c \<Rightarrow> 'c \<Rightarrow> bool) \<Rightarrow> 'c pattern_elements \<Rightarrow> nat \<Rightarrow> 'c reader \<Rightarrow> nat option" where
  "dss_count eq pattern start readNext =
     (if pattern = [] then Some 0 else count_in_stream eq pattern readNext start 0 0)"

section \<open>Reference definitions\<close>

definition begins_with :: "('a \<Rightarrow> 'a \<Rightarrow> bool) \<Rightarrow> 'a list \<Rightarrow> 'a list \<Rightarrow> bool" where
  "begins_with eq xs ys \<longleftrightarrow> length ys \<le> length xs \<and> list_all2 eq (take (length ys) xs) ys"

lemma begins_with_simps [simp]:
  "begins_with eq xs []" "\<not> begins_with eq [] (y # ys)"
  "begins_with eq (x # xs) (y # ys) \<longleftrightarrow> eq x y \<and> begins_with eq xs ys"
  by (auto simp: begins_with_def)

fun first_match :: "('a \<Rightarrow> 'a \<Rightarrow> bool) \<Rightarrow> 'a list \<Rightarrow> 'a list \<Rightarrow> nat option" where
  "first_match eq ys [] = (if ys = [] then Some 0 else None)"
| "first_match eq ys (x # xs) =
     (if begins_with eq (x # xs) ys then Some 0 else map_option Suc (first_match eq ys xs))"

function count_matches :: "('a \<Rightarrow> 'a \<Rightarrow> bool) \<Rightarrow> 'a list \<Rightarrow> 'a list \<Rightarrow> nat" where
  "count_matches eq ys xs =
     (if xs = [] \<or> ys = [] then 0
      else if begins_with eq xs ys then 1 + count_matches eq ys (drop (length ys) xs)
      else count_matches eq ys (tl xs))"
  by pat_completeness auto
termination by (relation "measure (\<lambda>(_, _, xs). length xs)") auto

declare count_matches.simps [simp del]

lemma first_match_Some:
  "first_match eq ys xs = Some i \<longleftrightarrow>
    i \<le> length xs \<and> begins_with eq (drop i xs) ys \<and> (\<forall>j<i. \<not> begins_with eq (drop j xs) ys)"
proof (induction xs arbitrary: i)
  case (Cons x xs)
  show ?case
  proof (cases "begins_with eq (x # xs) ys")
    case True
    then show ?thesis by (cases i) (auto intro: exI[of _ 0])
  next
    case False
    then show ?thesis using Cons by (cases i) (auto simp: All_less_Suc2)
  qed
qed (cases ys, auto)

lemma first_match_None: "first_match eq ys xs = None \<longleftrightarrow> (\<forall>i. \<not> begins_with eq (drop i xs) ys)"
proof (induction xs)
  case (Cons x xs)
  have "(\<forall>i. \<not> begins_with eq (drop i (x # xs)) ys) \<longleftrightarrow>
      \<not> begins_with eq (x # xs) ys \<and> (\<forall>i. \<not> begins_with eq (drop i xs) ys)"
    by (metis drop0 drop_Suc_Cons not0_implies_Suc)
  then show ?case using Cons by simp
qed (cases ys, auto)

lemma count_matches_first:
  assumes "ys \<noteq> []"
  shows "count_matches eq ys xs =
    (case first_match eq ys xs of None \<Rightarrow> 0 | Some i \<Rightarrow> 1 + count_matches eq ys (drop (i + length ys) xs))"
proof (induction xs)
  case (Cons x xs)
  then show ?case using assms
    by (subst count_matches.simps) (auto split: option.splits)
qed (use assms in \<open>simp add: count_matches.simps\<close>)

section \<open>Matching prefixes\<close>

text \<open>The last \<open>k\<close> characters read match the first \<open>k\<close> of the pattern.\<close>

definition suffix_match :: "('a \<Rightarrow> 'a \<Rightarrow> bool) \<Rightarrow> 'a list \<Rightarrow> 'a list \<Rightarrow> nat \<Rightarrow> bool" where
  "suffix_match eq ys xs k \<longleftrightarrow>
     k \<le> length xs \<and> k \<le> length ys \<and> (\<forall>i<k. eq (xs ! (length xs - k + i)) (ys ! i))"

definition is_longest :: "(nat \<Rightarrow> bool) \<Rightarrow> nat \<Rightarrow> bool" where
  "is_longest P m \<longleftrightarrow> P m \<and> (\<forall>k. P k \<longrightarrow> k \<le> m)"

text \<open>The prefix lengths of a pattern: for each element the longest proper border ending there.\<close>

definition border :: "('a \<Rightarrow> 'a \<Rightarrow> bool) \<Rightarrow> 'a list \<Rightarrow> nat \<Rightarrow> nat \<Rightarrow> bool" where
  "border eq ys j = suffix_match eq ys (tl (take j ys))"

definition prefix_table :: "('a \<Rightarrow> 'a \<Rightarrow> bool) \<Rightarrow> ('a \<times> nat) list \<Rightarrow> bool" where
  "prefix_table eq pattern \<longleftrightarrow>
     (\<forall>j<length pattern. is_longest (border eq (map fst pattern) (Suc j)) (snd (pattern ! j)))"

lemma suffix_match_0 [simp]: "suffix_match eq ys xs 0"
  by (simp add: suffix_match_def)

lemma suffix_match_snoc:
  "suffix_match eq ys (xs @ [c]) (Suc k) \<longleftrightarrow> k < length ys \<and> suffix_match eq ys xs k \<and> eq c (ys ! k)"
proof (cases "k \<le> length xs")
  case True
  have "(\<forall>i<Suc k. eq ((xs @ [c]) ! (length xs - k + i)) (ys ! i)) \<longleftrightarrow>
      (\<forall>i<k. eq (xs ! (length xs - k + i)) (ys ! i)) \<and> eq c (ys ! k)"
    using True by (auto simp: All_less_Suc nth_append less_Suc_eq)
  then show ?thesis using True by (auto simp: suffix_match_def)
qed (auto simp: suffix_match_def)

lemma suffix_match_full:
  assumes "ys \<noteq> []"
  shows "suffix_match eq ys xs (length ys) \<longleftrightarrow> length ys \<le> length xs \<and> begins_with eq (drop (length xs - length ys) xs) ys"
  by (auto simp: suffix_match_def begins_with_def list_all2_conv_all_nth)


lemma border_less: "border eq ys (Suc j) k \<Longrightarrow> k \<le> j"
  by (auto simp: border_def suffix_match_def)

text \<open>Entries depend on the pattern before them only, so elements can be appended.\<close>

lemma border_append:
  assumes "j \<le> length ys"
  shows "border eq (ys @ zs) j k \<longleftrightarrow> border eq ys j k"
proof -
  have l: "length (tl (take j ys)) = j - 1" using assms by simp
  have "k \<le> j - 1 \<Longrightarrow> k \<le> length ys" "k \<le> j - 1 \<Longrightarrow> i < k \<Longrightarrow> i < length ys" for i using assms by auto
  then show ?thesis using assms l by (auto simp: border_def suffix_match_def nth_append)
qed

lemma longest_snoc:
  assumes m: "is_longest (suffix_match eq ys xs) m" "m < length ys"
    and r: "suffix_match eq ys xs r" "r = 0 \<or> eq c (ys ! r)" "r < length ys"
      "\<And>k. k < length ys \<Longrightarrow> suffix_match eq ys xs k \<Longrightarrow> eq c (ys ! k) \<Longrightarrow> k \<le> r"
  shows "is_longest (suffix_match eq ys (xs @ [c])) (if eq c (ys ! r) then r + 1 else r)"
proof -
  have up: "k \<le> (if eq c (ys ! r) then r + 1 else r)" if "suffix_match eq ys (xs @ [c]) k" for k
  proof (cases k)
    case (Suc k')
    then have "k' < length ys" "suffix_match eq ys xs k'" "eq c (ys ! k')"
      using that suffix_match_snoc by metis+
    then show ?thesis using r Suc by (cases "k' = r") (force dest: r(4))+
  qed simp
  show ?thesis
    using up r suffix_match_snoc[of eq ys xs c r] by (auto simp: is_longest_def)
qed

text \<open>
  The search needs the comparison of characters to be an equivalence relation: the table compares
  the pattern with itself and stands for comparisons with the text.
\<close>

locale char_equivalence =
  fixes eq :: "'c \<Rightarrow> 'c \<Rightarrow> bool"
  assumes eq_refl: "eq x x"
    and eq_sym: "eq x y \<Longrightarrow> eq y x"
    and eq_trans: "eq x y \<Longrightarrow> eq y z \<Longrightarrow> eq x z"
begin

text \<open>A shorter match is a border of a longer one.\<close>

lemma shorter_match:
  assumes m: "suffix_match eq ys xs m" and k: "k < m"
  shows "suffix_match eq ys xs k \<longleftrightarrow> border eq ys m k"
proof -
  let ?n = "length xs"
  have le: "m \<le> ?n" "m \<le> length ys" using m by (auto simp: suffix_match_def)
  then have l: "length (tl (take m ys)) = m - 1" by simp
  have e: "eq (xs ! (?n - k + i)) (ys ! i) \<longleftrightarrow> eq (tl (take m ys) ! (m - 1 - k + i)) (ys ! i)" if "i < k" for i
  proof -
    have "tl (take m ys) ! (m - 1 - k + i) = ys ! (m - k + i)" using le k that by (simp add: nth_tl Suc_diff_Suc)
    moreover have "m - k + i < m" using that k by linarith
    then have "eq (xs ! (?n - m + (m - k + i))) (ys ! (m - k + i))"
      using m unfolding suffix_match_def by blast
    moreover have "?n - m + (m - k + i) = ?n - k + i" using le k by simp
    ultimately show ?thesis using eq_sym eq_trans by metis
  qed
  show ?thesis using le k l e by (auto simp: border_def suffix_match_def)
qed

lemma fall_back_longest:
  assumes t: "prefix_table eq pattern" and m: "suffix_match eq (map fst pattern) xs m" "m < length pattern"
    and b: "\<And>k. k < length pattern \<Longrightarrow> suffix_match eq (map fst pattern) xs k \<Longrightarrow>
      eq c (map fst pattern ! k) \<Longrightarrow> k \<le> m"
  shows "\<exists>r. fall_back eq pattern c m = Some r \<and> suffix_match eq (map fst pattern) xs r \<and> r < length pattern
    \<and> (r = 0 \<or> eq c (map fst pattern ! r))
    \<and> (\<forall>k<length pattern. suffix_match eq (map fst pattern) xs k \<longrightarrow> eq c (map fst pattern ! k) \<longrightarrow> k \<le> r)"
  using m b
proof (induction m rule: less_induct)
  case (less m)
  show ?case
  proof (cases "m > 0 \<and> \<not> eq c (fst (pattern ! m))")
    case True
    then obtain j where j: "m = Suc j" by (cases m) auto
    define m' where "m' = snd (pattern ! j)"
    have l: "is_longest (border eq (map fst pattern) m) m'"
      using t less.prems(2) j by (auto simp: prefix_table_def m'_def)
    then have m': "m' < m" using j border_less by (metis is_longest_def le_imp_less_Suc)
    have s: "suffix_match eq (map fst pattern) xs k \<longleftrightarrow> border eq (map fst pattern) m k" if "k < m" for k
      by (rule shorter_match[OF less.prems(1) that])
    have b': "k \<le> m'" if "k < length pattern" "suffix_match eq (map fst pattern) xs k" "eq c (map fst pattern ! k)" for k
    proof -
      have "k \<le> m" using less.prems(3) that by blast
      moreover have "k \<noteq> m" using that True by auto
      ultimately show ?thesis using s[of k] l that by (auto simp: is_longest_def)
    qed
    have "suffix_match eq (map fst pattern) xs m'" "m' < length pattern"
      using s[OF m'] l m' less.prems(2) by (auto simp: is_longest_def)
    then have "\<exists>r. fall_back eq pattern c m' = Some r \<and> suffix_match eq (map fst pattern) xs r \<and> r < length pattern
      \<and> (r = 0 \<or> eq c (map fst pattern ! r))
      \<and> (\<forall>k<length pattern. suffix_match eq (map fst pattern) xs k \<longrightarrow> eq c (map fst pattern ! k) \<longrightarrow> k \<le> r)"
      using less.IH[OF m'] b' by blast
    moreover have "fall_back eq pattern c m = fall_back eq pattern c m'"
      using True j by (subst fall_back.simps) (simp add: m'_def)
    ultimately show ?thesis by simp
  next
    case False
    then show ?thesis using less.prems by (subst fall_back.simps) auto
  qed
qed

text \<open>One character of the text.\<close>

lemma fall_back_step:
  assumes t: "prefix_table eq pattern" and m: "is_longest (suffix_match eq (map fst pattern) xs) m" "m < length pattern"
  obtains r where "fall_back eq pattern c m = Some r" "r < length pattern"
    "is_longest (suffix_match eq (map fst pattern) (xs @ [c])) (if eq c (fst (pattern ! r)) then r + 1 else r)"
proof -
  have s: "suffix_match eq (map fst pattern) xs m" and b: "\<And>k. suffix_match eq (map fst pattern) xs k \<Longrightarrow> k \<le> m"
    using m by (auto simp: is_longest_def)
  obtain r where r: "fall_back eq pattern c m = Some r" "suffix_match eq (map fst pattern) xs r" "r < length pattern"
    "r = 0 \<or> eq c (map fst pattern ! r)"
    "\<forall>k<length pattern. suffix_match eq (map fst pattern) xs k \<longrightarrow> eq c (map fst pattern ! k) \<longrightarrow> k \<le> r"
    using fall_back_longest[OF t s m(2)] b by blast
  have "is_longest (suffix_match eq (map fst pattern) (xs @ [c]))
      (if eq c (map fst pattern ! r) then r + 1 else r)"
    by (rule longest_snoc[OF m(1)]) (use m r in auto)
  then show thesis using that[OF r(1,3)] r(3) by simp
qed

end


text \<open>What the search relies on when it reads a text: the characters at a position.\<close>

locale decoded_stream =
  fixes readNext :: "nat \<Rightarrow> ('c \<times> nat) option" and chars_at :: "nat \<Rightarrow> 'c list"
  assumes read_end: "readNext p = None \<Longrightarrow> chars_at p = []"
    and read_char: "readNext p = Some (c, q) \<Longrightarrow> chars_at p = c # chars_at q"

locale pattern_search = char_equivalence eq + decoded_stream readNext chars_at
  for eq :: "'c \<Rightarrow> 'c \<Rightarrow> bool" and readNext :: "nat \<Rightarrow> ('c \<times> nat) option" and chars_at :: "nat \<Rightarrow> 'c list"
begin

lemma read_cases:
  obtains "readNext p = None" "chars_at p = []"
  | c q where "readNext p = Some (c, q)" "chars_at p = c # chars_at q"
  using read_end read_char by (cases "readNext p") auto

text \<open>Preprocessing.\<close>

lemma prefix_table_snoc:
  assumes t: "prefix_table eq pattern"
    and n: "is_longest (border eq (map fst pattern @ [c]) (Suc (length pattern))) n"
  shows "prefix_table eq (pattern @ [(c, n)])"
  using t n border_append[of _ "map fst pattern" eq "[c]"]
  by (auto simp: prefix_table_def nth_append less_Suc_eq is_longest_def)

lemma border_snoc:
  assumes "ys \<noteq> []"
  shows "border eq (ys @ [c]) (Suc (length ys)) k \<longleftrightarrow> suffix_match eq ys (tl ys @ [c]) k"
proof -
  have "k \<le> length ys \<Longrightarrow> i < k \<Longrightarrow> (ys @ [c]) ! i = ys ! i" for i by (simp add: nth_append)
  then show ?thesis using assms by (auto simp: border_def suffix_match_def)
qed

lemma build_pattern_table:
  assumes "prefix_table eq pattern"
  shows "\<exists>pattern'. build_pattern eq readNext p pattern = Some pattern' \<and> prefix_table eq pattern'
    \<and> map fst pattern' = map fst pattern @ chars_at p"
  using assms
proof (induction "chars_at p" arbitrary: p pattern)
  case Nil
  then show ?case by (cases rule: read_cases[of p]) (simp_all add: build_pattern.simps)
next
  case (Cons c cs)
  obtain q where r: "readNext p = Some (c, q)" "cs = chars_at q"
    using Cons.hyps(2) by (cases rule: read_cases[of p]) auto
  have step: ?case
    if b: "build_pattern eq readNext p pattern = build_pattern eq readNext q (pattern @ [(c, n)])"
      and l: "is_longest (border eq (map fst pattern @ [c]) (Suc (length pattern))) n" for n
    using Cons.hyps(1)[OF r(2) prefix_table_snoc[OF Cons.prems l]] b Cons.hyps(2) r(2) by auto
  show ?case
  proof (cases "pattern = []")
    case True
    then have "is_longest (border eq (map fst pattern @ [c]) (Suc (length pattern))) 0"
      by (auto simp: is_longest_def border_def suffix_match_def)
    then show ?thesis
      using True r by (intro step) (simp add: build_pattern.simps[of eq readNext p] fall_back.simps)
  next
    case False
    let ?ys = "map fst pattern"
    define j where "j = length pattern - 1"
    have j: "length pattern = Suc j" using False by (simp add: j_def)
    have "is_longest (border eq ?ys (Suc j)) (snd (last pattern))"
      using Cons.prems j False by (auto simp: prefix_table_def last_conv_nth)
    moreover have "border eq ?ys (Suc j) = suffix_match eq ?ys (tl ?ys)" using j by (simp add: border_def flip: j)
    ultimately have l: "is_longest (suffix_match eq ?ys (tl ?ys)) (snd (last pattern))" by simp
    have lt: "snd (last pattern) < length pattern"
      using l j by (auto simp: is_longest_def suffix_match_def)
    obtain r' where r': "fall_back eq pattern c (snd (last pattern)) = Some r'" "r' < length pattern"
      "is_longest (suffix_match eq ?ys (tl ?ys @ [c])) (if eq c (fst (pattern ! r')) then r' + 1 else r')"
      by (rule fall_back_step[OF Cons.prems l lt])
    have "border eq (?ys @ [c]) (Suc (length pattern)) = suffix_match eq ?ys (tl ?ys @ [c])"
      using border_snoc[of ?ys c] False by auto
    then show ?thesis
      using False r r' by (intro step) (simp_all add: build_pattern.simps[of eq readNext p] Let_def)
  qed
qed

text \<open>Searching. No occurrence has ended before the current position.\<close>

definition no_match_yet :: "'c list \<Rightarrow> 'c list \<Rightarrow> bool" where
  "no_match_yet ys xs \<longleftrightarrow> (\<forall>n\<le>length xs. \<not> suffix_match eq ys (take n xs) (length ys))"

lemma no_match_snoc:
  "no_match_yet ys (xs @ [c]) \<longleftrightarrow> no_match_yet ys xs \<and> \<not> suffix_match eq ys (xs @ [c]) (length ys)"
proof -
  have "n \<le> Suc (length xs) \<longleftrightarrow> n \<le> length xs \<or> n = Suc (length xs)" for n by auto
  then show ?thesis by (auto simp: no_match_yet_def)
qed

lemma suffix_match_take:
  "n \<le> length xs \<Longrightarrow> suffix_match eq ys (take n xs) (length ys) \<longleftrightarrow> length ys \<le> n \<and> begins_with eq (drop (n - length ys) xs) ys"
  by (auto simp: suffix_match_def begins_with_def list_all2_conv_all_nth)

lemma first_match_none:
  assumes "no_match_yet ys xs"
  shows "first_match eq ys xs = None"
proof -
  have "\<not> begins_with eq (drop i xs) ys" for i
  proof
    assume b: "begins_with eq (drop i xs) ys"
    have "ys \<noteq> []" using assms by (force simp: no_match_yet_def)
    then have i: "i + length ys \<le> length xs" using b by (cases "i \<le> length xs") (auto simp: begins_with_def)
    then show False
      using assms suffix_match_take[OF i] b unfolding no_match_yet_def by (metis add_diff_cancel_right' le_add2)
  qed
  then show ?thesis by (simp add: first_match_None)
qed

lemma first_match_found:
  assumes "no_match_yet ys xs" "suffix_match eq ys (xs @ [c]) (length ys)"
  shows "first_match eq ys (xs @ c # zs) = Some (Suc (length xs) - length ys)"
proof -
  let ?n = "Suc (length xs)" and ?ts = "xs @ c # zs"
  have y: "ys \<noteq> []" using assms(1) by (force simp: no_match_yet_def)
  have "suffix_match eq ys (take ?n ?ts) (length ys)" using assms(2) by simp
  then have f: "length ys \<le> ?n" "begins_with eq (drop (?n - length ys) ?ts) ys"
    using suffix_match_take[of ?n ?ts ys] by auto
  have "\<not> begins_with eq (drop j ?ts) ys" if "j < ?n - length ys" for j
  proof
    assume b: "begins_with eq (drop j ?ts) ys"
    have j: "j + length ys \<le> length xs" using that by linarith
    then have "suffix_match eq ys (take (j + length ys) ?ts) (length ys)"
      using suffix_match_take[of "j + length ys" ?ts ys] b by simp
    then show False using assms(1) j by (auto simp: no_match_yet_def)
  qed
  then show ?thesis using f y by (auto simp: first_match_Some)
qed

lemma step_longest:
  assumes "prefix_table eq pattern" "is_longest (suffix_match eq (map fst pattern) ys) m" "m < length pattern"
    and "no_match_yet (map fst pattern) ys"
  obtains r m' where "fall_back eq pattern c m = Some r" "m' = (if eq c (fst (pattern ! r)) then r + 1 else r)"
    "is_longest (suffix_match eq (map fst pattern) (ys @ [c])) m'" "m' \<le> length pattern"
    "m' = length pattern \<longleftrightarrow> suffix_match eq (map fst pattern) (ys @ [c]) (length pattern)"
proof -
  obtain r where r: "fall_back eq pattern c m = Some r" "r < length pattern"
    "is_longest (suffix_match eq (map fst pattern) (ys @ [c])) (if eq c (fst (pattern ! r)) then r + 1 else r)"
    by (rule fall_back_step[OF assms(1-3)])
  define m' where "m' = (if eq c (fst (pattern ! r)) then r + 1 else r)"
  have l: "is_longest (suffix_match eq (map fst pattern) (ys @ [c])) m'" "m' \<le> length pattern"
    using r by (auto simp: m'_def)
  then have "m' = length pattern \<longleftrightarrow> suffix_match eq (map fst pattern) (ys @ [c]) (length pattern)"
    by (auto simp: is_longest_def intro: antisym)
  then show thesis using that[OF r(1) m'_def l] by blast
qed

lemma find_in_stream_first:
  assumes "prefix_table eq pattern" "is_longest (suffix_match eq (map fst pattern) ys) m" "m < length pattern"
    and "no_match_yet (map fst pattern) ys"
  shows "find_in_stream eq pattern readNext start p (length ys) m =
    (case first_match eq (map fst pattern) (ys @ chars_at p) of None \<Rightarrow> Some None
     | Some i \<Rightarrow> Option.bind (skip_chars readNext i start) (\<lambda>r. Some (Some r)))"
  using assms(2-)
proof (induction "chars_at p" arbitrary: p ys m)
  case Nil
  then show ?case
    by (cases rule: read_cases[of p]) (simp_all add: find_in_stream.simps first_match_none)
next
  case (Cons c cs)
  obtain q where r: "readNext p = Some (c, q)" "cs = chars_at q" "chars_at p = c # chars_at q"
    using Cons.hyps(2) by (cases rule: read_cases[of p]) auto
  obtain r' m' where s: "fall_back eq pattern c m = Some r'" "m' = (if eq c (fst (pattern ! r')) then r' + 1 else r')"
    "is_longest (suffix_match eq (map fst pattern) (ys @ [c])) m'" "m' \<le> length pattern"
    "m' = length pattern \<longleftrightarrow> suffix_match eq (map fst pattern) (ys @ [c]) (length pattern)"
    by (rule step_longest[OF assms(1) Cons.prems])
  have F: "find_in_stream eq pattern readNext start p (length ys) m =
      (if m' = length pattern
       then Option.bind (skip_chars readNext (Suc (length ys) - m') start) (\<lambda>r. Some (Some r))
       else find_in_stream eq pattern readNext start q (length (ys @ [c])) m')"
    by (subst find_in_stream.simps) (simp add: r(1) s(1) Let_def flip: s(2))
  show ?case
  proof (cases "m' = length pattern")
    case True
    then have "first_match eq (map fst pattern) (ys @ c # chars_at q) = Some (Suc (length ys) - length pattern)"
      using first_match_found[OF Cons.prems(3)] s(5) by simp
    then show ?thesis using F True r(3) by simp
  next
    case False
    then have "no_match_yet (map fst pattern) (ys @ [c])"
      using Cons.prems(3) s(5) by (simp add: no_match_snoc)
    then have "find_in_stream eq pattern readNext start q (length (ys @ [c])) m' =
      (case first_match eq (map fst pattern) ((ys @ [c]) @ chars_at q) of None \<Rightarrow> Some None
       | Some i \<Rightarrow> Option.bind (skip_chars readNext i start) (\<lambda>r. Some (Some r)))"
      using Cons.hyps(1)[OF r(2) s(3)] False s(4) by simp
    then show ?thesis using F False r(3) by simp
  qed
qed

lemma no_match_start: "ys \<noteq> [] \<Longrightarrow> no_match_yet ys []"
  by (simp add: no_match_yet_def suffix_match_def)

lemma longest_start: "is_longest (suffix_match eq ys []) 0"
  by (simp add: is_longest_def suffix_match_def)

lemma dss_find_first:
  assumes "prefix_table eq pattern"
  shows "dss_find eq pattern start readNext =
    (case first_match eq (map fst pattern) (chars_at start) of None \<Rightarrow> Some None
     | Some i \<Rightarrow> Option.bind (skip_chars readNext i start) (\<lambda>r. Some (Some r)))"
proof (cases "pattern = []")
  case True
  have "first_match eq [] (chars_at start) = Some 0" by (cases "chars_at start") simp_all
  then show ?thesis using True by (simp add: dss_find_def)
next
  case False
  then show ?thesis
    using find_in_stream_first[OF assms longest_start _ no_match_start, of start start] by (simp add: dss_find_def)
qed

lemma count_in_stream_matches:
  assumes "prefix_table eq pattern" "is_longest (suffix_match eq (map fst pattern) ys) m" "m < length pattern"
    and "no_match_yet (map fst pattern) ys"
  shows "count_in_stream eq pattern readNext p m result =
    Some (result + count_matches eq (map fst pattern) (ys @ chars_at p))"
  using assms(2-)
proof (induction "chars_at p" arbitrary: p ys m result)
  case Nil
  have "pattern \<noteq> []" using Nil.prems(2) by auto
  then show ?case using Nil first_match_none[OF Nil.prems(3)]
    by (cases rule: read_cases[of p]) (simp_all add: count_in_stream.simps count_matches_first)
next
  case (Cons c cs)
  have n: "map fst pattern \<noteq> []" using Cons.prems(2) by auto
  obtain q where r: "readNext p = Some (c, q)" "cs = chars_at q" "chars_at p = c # chars_at q"
    using Cons.hyps(2) by (cases rule: read_cases[of p]) auto
  obtain r' m' where s: "fall_back eq pattern c m = Some r'" "m' = (if eq c (fst (pattern ! r')) then r' + 1 else r')"
    "is_longest (suffix_match eq (map fst pattern) (ys @ [c])) m'" "m' \<le> length pattern"
    "m' = length pattern \<longleftrightarrow> suffix_match eq (map fst pattern) (ys @ [c]) (length pattern)"
    by (rule step_longest[OF assms(1) Cons.prems])
  have F: "count_in_stream eq pattern readNext p m result =
      (if m' = length pattern then count_in_stream eq pattern readNext q 0 (result + 1)
       else count_in_stream eq pattern readNext q m' result)"
    by (subst count_in_stream.simps) (simp add: r(1) s(1) Let_def flip: s(2))
  show ?case
  proof (cases "m' = length pattern")
    case True
    have "length pattern \<le> Suc (length ys)" using s(5) True by (simp add: suffix_match_def)
    moreover have "first_match eq (map fst pattern) (ys @ c # chars_at q) = Some (Suc (length ys) - length pattern)"
      using first_match_found[OF Cons.prems(3)] s(5) True by simp
    ultimately have "count_matches eq (map fst pattern) (ys @ c # chars_at q) =
        1 + count_matches eq (map fst pattern) (chars_at q)"
      by (simp add: count_matches_first[OF n])
    moreover have "count_in_stream eq pattern readNext q 0 (result + 1) =
        Some (result + 1 + count_matches eq (map fst pattern) ([] @ chars_at q))"
      by (rule Cons.hyps(1)[OF r(2) longest_start _ no_match_start[OF n]]) (use n in simp)
    ultimately show ?thesis using F True r(3) by simp
  next
    case False
    then have "no_match_yet (map fst pattern) (ys @ [c])"
      using Cons.prems(3) s(5) by (simp add: no_match_snoc)
    then have "count_in_stream eq pattern readNext q m' result =
        Some (result + count_matches eq (map fst pattern) ((ys @ [c]) @ chars_at q))"
      using Cons.hyps(1)[OF r(2) s(3)] False s(4) by simp
    then show ?thesis using F False r(3) by simp
  qed
qed

lemma dss_count_matches:
  assumes "prefix_table eq pattern"
  shows "dss_count eq pattern start readNext = Some (count_matches eq (map fst pattern) (chars_at start))"
proof (cases "pattern = []")
  case False
  then show ?thesis
    using count_in_stream_matches[OF assms longest_start _ no_match_start, of start 0] by (simp add: dss_count_def)
qed (simp add: dss_count_def count_matches.simps)

lemma skip_chars_drop:
  "i \<le> length (chars_at start) \<Longrightarrow> \<exists>q. skip_chars readNext i start = Some q \<and> chars_at q = drop i (chars_at start)"
proof (induction i arbitrary: start)
  case (Suc i)
  then show ?case by (cases rule: read_cases[of start]) auto
qed simp

end

text \<open>Equality is a comparison the search can use.\<close>

interpretation equality: char_equivalence "(=)"
  by unfold_locales auto

end
