(* ===== verification/U8Strings.thy ===== *)
theory U8Strings
  imports Utf8 DecodedSearch
begin

text \<open>
  UTF-8 strings as byte buffers (\<open>src/erbsland/text/u8/impl\<close>): decoding of whole buffers,
  validation, the writer into a fixed span and \<open>createUtf8String\<close>, and the comparison, search and
  cursor operations of the string tools. Every operation works on the bytes through the decoders of
  \<open>Utf8\<close>; the lemmas state each as an operation on the list of decoded characters.
\<close>

section \<open>Decoding whole buffers\<close>

datatype EncodingMode = Strict | Tolerant

lemma sequence_moves:
  assumes "p < length data"
  shows "snd (decodeCharOrReplace data p) = fastAdvanceChar data p" "snd (tryDecodeChar data p) = fastAdvanceChar data p"
    and "decodeCharOrThrow data p = Inr (u, q) \<Longrightarrow> q = fastAdvanceChar data p"
    and "p < fastAdvanceChar data p" "fastAdvanceChar data p \<le> length data"
  using sequence_length_pos[of data p] sequence_end(1)[OF assms]
  unfolding decodeCharOrThrow_scan[OF assms] tryDecodeChar_scan[OF assms] decodeCharOrReplace_scan[OF assms]
    fastAdvanceChar_scan[OF assms] sequence_length_def
  by (auto split: option.splits)

lemma decoders_move_dest:
  assumes "p < length data"
  shows "(c, q) = decodeCharOrReplace data p \<Longrightarrow> p < q" "(r, q) = tryDecodeChar data p \<Longrightarrow> p < q"
    "decodeCharOrThrow data p = Inr (u, q) \<Longrightarrow> p < q"
  and "decodeCharOrReplace data p = (c, q) \<Longrightarrow> p < q"
  using sequence_moves[OF assms] by (metis snd_conv)+

text \<open>The callback gets the character and its state, and tells whether to go on.\<close>

function forEachDecodedCharacter ::
    "EncodingMode \<Rightarrow> byte8 list \<Rightarrow> nat \<Rightarrow> (nat \<Rightarrow> 's \<Rightarrow> 's \<times> bool) \<Rightarrow> 's \<Rightarrow> u8_error + 's \<times> bool" where
  "forEachDecodedCharacter mode data position f s =
     (if position < length data
      then sbind (case mode of Strict \<Rightarrow> decodeCharOrThrow data position
                  | Tolerant \<Rightarrow> Inr (decodeCharOrReplace data position))
        (\<lambda>(character, position). case f character s of (s, continue) \<Rightarrow>
           if \<not> continue then Inr (s, False) else forEachDecodedCharacter mode data position f s)
      else Inr (s, True))"
  by pat_completeness auto
termination
  by (relation "measure (\<lambda>(_, data, position, _). length data - position)")
    (auto split: EncodingMode.splits intro!: diff_less_mono2 intro: decoders_move_dest)

function isValid_from :: "byte8 list \<Rightarrow> nat \<Rightarrow> bool" where
  "isValid_from data position =
     (if position < length data
      then (case tryDecodeChar data position of (None, _) \<Rightarrow> False | (Some _, position) \<Rightarrow> isValid_from data position)
      else True)"
  by pat_completeness auto
termination
  by (relation "measure (\<lambda>(data, position). length data - position)") (auto intro!: diff_less_mono2 intro: decoders_move_dest)

definition isValidUtf8 :: "byte8 list \<Rightarrow> bool" where "isValidUtf8 data \<longleftrightarrow> isValid_from data 0"

declare forEachDecodedCharacter.simps [simp del] isValid_from.simps [simp del]

text \<open>The characters the tolerant decoder reads from a position on.\<close>

function decoded :: "byte8 list \<Rightarrow> nat \<Rightarrow> nat list" where
  "decoded data position =
     (if position < length data
      then (case decodeCharOrReplace data position of (c, position) \<Rightarrow> c # decoded data position) else [])"
  by pat_completeness auto
termination
  by (relation "measure (\<lambda>(data, position). length data - position)") (auto intro!: diff_less_mono2 intro: decoders_move_dest)

declare decoded.simps [simp del]

abbreviation chars :: "byte8 list \<Rightarrow> nat list" where "chars data \<equiv> decoded data 0"

definition encoded :: "nat list \<Rightarrow> byte8 list" where "encoded cs = concat (map u8_write cs)"

fun walk :: "(nat \<Rightarrow> 's \<Rightarrow> 's \<times> bool) \<Rightarrow> nat list \<Rightarrow> 's \<Rightarrow> 's \<times> bool" where
  "walk f [] s = (s, True)"
| "walk f (c # cs) s = (case f c s of (s, continue) \<Rightarrow> if continue then walk f cs s else (s, False))"

lemma forEach_tolerant: "forEachDecodedCharacter Tolerant data p f s = Inr (walk f (decoded data p) s)"
proof (induction data p arbitrary: s rule: decoded.induct)
  case (1 data p)
  show ?case
  proof (cases "p < length data")
    case True
    obtain c q where d: "decodeCharOrReplace data p = (c, q)" by fastforce
    obtain s' k where f: "f c s = (s', k)" by fastforce
    show ?thesis
      using True 1[OF True d[symmetric]] by (subst forEachDecodedCharacter.simps, subst decoded.simps) (simp add: d f)
  qed (simp add: forEachDecodedCharacter.simps[of Tolerant data p] decoded.simps[of data p])
qed

section \<open>Valid encodings\<close>

lemma encoded_simps [simp]: "encoded [] = []" "encoded (c # cs) = u8_write c @ encoded cs"
  by (simp_all add: encoded_def)

lemma decodeCharOrThrow_encoded:
  assumes "p < length data"
  shows "decodeCharOrThrow data p = Inr (c, q) \<longleftrightarrow>
    isValidUnicode c \<and> q = p + encodedLength c \<and> take (encodedLength c) (drop p data) = u8_write c"
  unfolding decodeCharOrThrow_scan[OF assms] using scan_valid_iff[OF assms, of _ c] by metis

lemma tryDecodeChar_encoded:
  assumes "p < length data"
  shows "tryDecodeChar data p = (Some c, q) \<longleftrightarrow>
    isValidUnicode c \<and> q = p + encodedLength c \<and> take (encodedLength c) (drop p data) = u8_write c"
proof -
  have "tryDecodeChar data p = (Some c, q) \<longleftrightarrow> decodeCharOrThrow data p = Inr (c, q)"
    unfolding tryDecodeChar_scan[OF assms] decodeCharOrThrow_scan[OF assms]
    by (cases "scan_char data p") (auto split: if_splits)
  then show ?thesis unfolding decodeCharOrThrow_encoded[OF assms] .
qed

definition valid_suffix :: "byte8 list \<Rightarrow> nat \<Rightarrow> nat list \<Rightarrow> bool" where
  "valid_suffix data p cs \<longleftrightarrow> list_all isValidUnicode cs \<and> drop p data = encoded cs"

lemma encodedLength_pos: "isValidUnicode c \<Longrightarrow> 0 < encodedLength c"
  by (simp add: encodedLength_def)

lemma valid_suffix_end: "length data \<le> p \<Longrightarrow> valid_suffix data p cs \<longleftrightarrow> cs = []"
  by (cases cs) (auto simp: valid_suffix_def u8_write_def)

lemma valid_suffix_step:
  assumes "p < length data"
  shows "valid_suffix data p cs \<longleftrightarrow> (\<exists>c q cs'. cs = c # cs' \<and> tryDecodeChar data p = (Some c, q) \<and> valid_suffix data q cs')"
proof
  assume v: "valid_suffix data p cs"
  then obtain c cs' where cs: "cs = c # cs'" using assms by (cases cs) (auto simp: valid_suffix_def)
  have c: "isValidUnicode c" and d: "drop p data = u8_write c @ encoded cs'" and vs: "list_all isValidUnicode cs'"
    using v cs by (simp_all add: valid_suffix_def)
  have "take (encodedLength c) (drop p data) = u8_write c" unfolding d using u8_write_length[OF c] by simp
  moreover have "drop (p + encodedLength c) data = encoded cs'"
    using arg_cong[OF d, of "drop (encodedLength c)"] u8_write_length[OF c] by (simp add: add.commute)
  ultimately show "\<exists>c q cs'. cs = c # cs' \<and> tryDecodeChar data p = (Some c, q) \<and> valid_suffix data q cs'"
    using cs c vs by (auto simp: tryDecodeChar_encoded[OF assms] valid_suffix_def)
next
  assume "\<exists>c q cs'. cs = c # cs' \<and> tryDecodeChar data p = (Some c, q) \<and> valid_suffix data q cs'"
  then obtain c cs' where cs: "cs = c # cs'" "isValidUnicode c" "take (encodedLength c) (drop p data) = u8_write c"
    "valid_suffix data (p + encodedLength c) cs'" by (auto simp: tryDecodeChar_encoded[OF assms])
  have "drop p data = take (encodedLength c) (drop p data) @ drop (p + encodedLength c) data"
    by (metis append_take_drop_id drop_drop add.commute)
  then show "valid_suffix data p cs" using cs by (simp add: valid_suffix_def)
qed

lemma isValid_from_iff: "isValid_from data p \<longleftrightarrow> (\<exists>cs. valid_suffix data p cs)"
proof (induction data p rule: isValid_from.induct)
  case (1 data p)
  show ?case
  proof (cases "p < length data")
    case True
    obtain r q where t: "tryDecodeChar data p = (r, q)" by fastforce
    show ?thesis
    proof (cases r)
      case (Some c)
      then show ?thesis
        using 1[OF True t[symmetric] Some] True t valid_suffix_step[OF True]
        by (subst isValid_from.simps) (auto simp: Some)
    qed (use True t valid_suffix_step[OF True] in \<open>auto simp: isValid_from.simps[of data p]\<close>)
  qed (auto simp: isValid_from.simps[of data p] valid_suffix_end)
qed

lemma valid_suffix_decoded: "valid_suffix data p cs \<Longrightarrow> decoded data p = cs"
proof (induction data p arbitrary: cs rule: decoded.induct)
  case (1 data p)
  show ?case
  proof (cases "p < length data")
    case True
    then obtain c q cs' where c: "cs = c # cs'" "tryDecodeChar data p = (Some c, q)" "valid_suffix data q cs'"
      using valid_suffix_step 1(2) by blast
    then have d: "decodeCharOrReplace data p = (c, q)"
      using decoders_agree[OF True] by (metis fst_conv option.simps(5) snd_conv)
    show ?thesis using True 1(1)[OF True d[symmetric] c(3)] c(1) by (subst decoded.simps) (simp add: d)
  qed (use 1 valid_suffix_end in \<open>auto simp: decoded.simps[of data p]\<close>)
qed

definition collect :: "nat \<Rightarrow> nat list \<Rightarrow> nat list \<times> bool" where
  "collect c cs = (cs @ [c], True)"

definition decode_strict :: "byte8 list \<Rightarrow> u8_error + nat list" where
  "decode_strict data = sbind (forEachDecodedCharacter Strict data 0 collect []) (\<lambda>(cs, _). Inr cs)"

lemma walk_collect: "walk collect cs s = (s @ cs, True)"
  by (induction cs arbitrary: s) (simp_all add: collect_def)

lemma forEach_strict:
  "forEachDecodedCharacter Strict data p collect s = Inr (r, k) \<longleftrightarrow> k \<and> (\<exists>cs. r = s @ cs \<and> valid_suffix data p cs)"
proof (induction data p arbitrary: s rule: decoded.induct)
  case (1 data p)
  show ?case
  proof (cases "p < length data")
    case True
    show ?thesis
    proof (cases "decodeCharOrThrow data p")
      case (Inl e)
      then have "tryDecodeChar data p \<noteq> (Some c, q)" for c q
        unfolding tryDecodeChar_encoded[OF True] decodeCharOrThrow_encoded[OF True, symmetric] by simp
      then show ?thesis using Inl True valid_suffix_step[OF True]
        by (subst forEachDecodedCharacter.simps) auto
    next
      case (Inr cq)
      obtain c q where d: "decodeCharOrThrow data p = Inr (c, q)" using Inr by (cases cq) simp
      then have t: "tryDecodeChar data p = (Some c, q)"
        unfolding tryDecodeChar_encoded[OF True] decodeCharOrThrow_encoded[OF True] by simp
      have e: "(c, q) = decodeCharOrReplace data p"
        using decoders_agree[OF True] t by (metis fst_conv option.simps(5) snd_conv)
      have s: "collect c s = (s @ [c], True)" by (simp add: collect_def)
      show ?thesis using True 1[OF True e] valid_suffix_step[OF True] t
        by (subst forEachDecodedCharacter.simps) (auto simp: d s)
    qed
  qed (auto simp: forEachDecodedCharacter.simps[of Strict data p] valid_suffix_end)
qed

text \<open>C29: The strict decoder accepts exactly the encodings: it returns the characters cs for
  a buffer if and only if they are all valid code points and the buffer is the bytes the encoder
  writes for them, so encoding and decoding are inverse and no character has two encodings.\<close>

theorem strict_decoder_exact:
  "decode_strict data = Inr cs \<longleftrightarrow> list_all isValidUnicode cs \<and> data = encoded cs"
  unfolding decode_strict_def using forEach_strict[of data 0 "[]"]
  by (auto simp: sbind_Inr_iff valid_suffix_def)

lemma isValidUtf8_iff: "isValidUtf8 data \<longleftrightarrow> (\<exists>cs. list_all isValidUnicode cs \<and> data = encoded cs)"
  by (simp add: isValidUtf8_def isValid_from_iff valid_suffix_def)

lemma chars_encoded: "list_all isValidUnicode cs \<Longrightarrow> chars (encoded cs) = cs"
  using valid_suffix_decoded[of "encoded cs" 0 cs] by (simp add: valid_suffix_def)

lemma chars_valid: "list_all isValidUnicode (decoded data p)"
proof (induction data p rule: decoded.induct)
  case (1 data p)
  show ?case
  proof (cases "p < length data")
    case True
    obtain c q where d: "decodeCharOrReplace data p = (c, q)" by fastforce
    have "isValidUnicode replacement" by (simp add: isValidUnicode_def replacement_def)
    then have "isValidUnicode c"
      using decoders_agree[OF True] d by (auto split: option.splits)
    then show ?thesis using True 1[OF True d[symmetric]] by (subst decoded.simps) (simp add: d)
  qed (simp add: decoded.simps[of data p])
qed

section \<open>Writing\<close>

record span_writer =
  sw_data :: "byte8 list"
  sw_position :: nat

definition writeChar8 :: "span_writer \<Rightarrow> byte8 \<Rightarrow> span_writer" where
  "writeChar8 w b =
     (if sw_position w \<ge> length (sw_data w) then w
      else w\<lparr>sw_data := (sw_data w)[sw_position w := b], sw_position := sw_position w + 1\<rparr>)"

definition sw_write :: "span_writer \<Rightarrow> nat \<Rightarrow> span_writer" where
  "sw_write w c = foldl writeChar8 w (u8_write c)"

definition createUtf8String :: "byte8 list \<Rightarrow> u8_error + byte8 list" where
  "createUtf8String data =
     (if data = [] then Inr []
      else sbind (forEachDecodedCharacter Tolerant data 0 (\<lambda>c reserved. (reserved + encodedLength c, True)) 0)
        (\<lambda>(reservedSize, _). if reservedSize = 0 then Inr []
          else sbind (forEachDecodedCharacter Tolerant data 0 (\<lambda>c w. (sw_write w c, True))
                       \<lparr>sw_data = replicate reservedSize 0, sw_position = 0\<rparr>)
            (\<lambda>(w, _). Inr (sw_data w))))"

lemma writeChar8_fits:
  "foldl writeChar8 \<lparr>sw_data = xs @ replicate (length bs + n) 0, sw_position = length xs\<rparr> bs
    = \<lparr>sw_data = (xs @ bs) @ replicate n 0, sw_position = length (xs @ bs)\<rparr>"
proof (induction bs arbitrary: xs)
  case (Cons b bs)
  have "writeChar8 \<lparr>sw_data = xs @ replicate (length (b # bs) + n) 0, sw_position = length xs\<rparr> b
      = \<lparr>sw_data = (xs @ [b]) @ replicate (length bs + n) 0, sw_position = length (xs @ [b])\<rparr>"
    by (simp add: writeChar8_def list_update_append)
  then show ?case using Cons.IH[of "xs @ [b]"] by simp
qed simp

lemma walk_write:
  assumes "list_all isValidUnicode cs"
  shows "walk (\<lambda>c w. (sw_write w c, True)) cs
      \<lparr>sw_data = xs @ replicate (length (encoded cs)) 0, sw_position = length xs\<rparr>
    = (\<lparr>sw_data = xs @ encoded cs, sw_position = length (xs @ encoded cs)\<rparr>, True)"
  using assms
proof (induction cs arbitrary: xs)
  case (Cons c cs)
  then show ?case
    using writeChar8_fits[of xs "u8_write c" "length (encoded cs)"] Cons.IH[of "xs @ u8_write c"]
    by (simp add: sw_write_def)
qed simp

lemma walk_length:
  "list_all isValidUnicode cs \<Longrightarrow>
    walk (\<lambda>c reserved. (reserved + encodedLength c, True)) cs n = (n + length (encoded cs), True)"
  by (induction cs arbitrary: n) (simp_all add: u8_write_length)

lemma encoded_nonempty: "list_all isValidUnicode cs \<Longrightarrow> encoded cs = [] \<longleftrightarrow> cs = []"
  by (cases cs) (auto simp: u8_write_def)

lemma createUtf8String_encoded: "createUtf8String data = Inr (encoded (chars data))"
proof -
  note v = chars_valid[of data 0]
  show ?thesis
    using walk_write[OF v, of "[]"] walk_length[OF v, of 0] encoded_nonempty[OF v]
    by (auto simp: createUtf8String_def forEach_tolerant decoded.simps[of "[]"])
qed

lemma encoded_chars_valid: "isValidUtf8 (encoded (chars data))" "encoded (chars data) = data \<longleftrightarrow> isValidUtf8 data"
proof -
  note v = chars_valid[of data 0]
  show "isValidUtf8 (encoded (chars data))" using v by (auto simp: isValidUtf8_iff)
  show "encoded (chars data) = data \<longleftrightarrow> isValidUtf8 data" using v chars_encoded by (metis isValidUtf8_iff)
qed

text \<open>C30: Sanitising a string writes exactly the reserved bytes: createUtf8String gives the
  encoding of the characters the tolerant decoder reads, always a valid string with those
  characters, and it returns a buffer unchanged if and only if the buffer is valid.\<close>

theorem createUtf8String_sanitises:
  "createUtf8String data = Inr (encoded (chars data)) \<and> isValidUtf8 (encoded (chars data))
    \<and> chars (encoded (chars data)) = chars data \<and> (encoded (chars data) = data \<longleftrightarrow> isValidUtf8 data)"
  using createUtf8String_encoded encoded_chars_valid chars_encoded[OF chars_valid] by blast

section \<open>Comparing decoded characters\<close>

type_synonym char_compare = "(nat \<Rightarrow> nat \<Rightarrow> ordering) option"

definition charactersEqual :: "char_compare \<Rightarrow> nat \<Rightarrow> nat \<Rightarrow> bool" where
  "charactersEqual compareFn left right =
     (case compareFn of None \<Rightarrow> left = right | Some f \<Rightarrow> f left right = OrdEqual)"

definition compare_chars :: "char_compare \<Rightarrow> nat \<Rightarrow> nat \<Rightarrow> ordering" where
  "compare_chars compareFn left right =
     (case compareFn of None \<Rightarrow> order_of left right | Some f \<Rightarrow> f left right)"

function compareDecoded_from :: "char_compare \<Rightarrow> byte8 list \<Rightarrow> nat \<Rightarrow> byte8 list \<Rightarrow> nat \<Rightarrow> ordering" where
  "compareDecoded_from compareFn left leftPosition right rightPosition =
     (if leftPosition < length left \<and> rightPosition < length right
      then (case decodeCharOrReplace left leftPosition of (leftCharacter, leftPosition) \<Rightarrow>
            case decodeCharOrReplace right rightPosition of (rightCharacter, rightPosition) \<Rightarrow>
            let result = compare_chars compareFn leftCharacter rightCharacter in
            if result \<noteq> OrdEqual then result
            else compareDecoded_from compareFn left leftPosition right rightPosition)
      else if leftPosition < length left then OrdGreater
      else if rightPosition < length right then OrdLess
      else OrdEqual)"
  by pat_completeness auto
termination
  by (relation "measure (\<lambda>(_, left, position, _). length left - position)")
    (auto intro!: diff_less_mono2 intro: decoders_move_dest)

definition compareDecodedSpans :: "byte8 list \<Rightarrow> byte8 list \<Rightarrow> char_compare \<Rightarrow> ordering" where
  "compareDecodedSpans left right compareFn = compareDecoded_from compareFn left 0 right 0"

function matchesDecoded_from :: "char_compare \<Rightarrow> byte8 list \<Rightarrow> nat \<Rightarrow> byte8 list \<Rightarrow> nat \<Rightarrow> bool" where
  "matchesDecoded_from compareFn haystack haystackPosition needle needlePosition =
     (if needlePosition < length needle
      then if haystackPosition \<ge> length haystack then False
        else (case decodeCharOrReplace haystack haystackPosition of (haystackCharacter, haystackPosition) \<Rightarrow>
              case decodeCharOrReplace needle needlePosition of (needleCharacter, needlePosition) \<Rightarrow>
              if \<not> charactersEqual compareFn haystackCharacter needleCharacter then False
              else matchesDecoded_from compareFn haystack haystackPosition needle needlePosition)
      else True)"
  by pat_completeness auto
termination
  by (relation "measure (\<lambda>(_, _, _, needle, position). length needle - position)")
    (auto intro!: diff_less_mono2 intro: decoders_move_dest)

definition matchesDecodedSpan :: "byte8 list \<Rightarrow> nat \<Rightarrow> byte8 list \<Rightarrow> char_compare \<Rightarrow> bool" where
  "matchesDecodedSpan haystack candidateStart needle compareFn =
     matchesDecoded_from compareFn haystack candidateStart needle 0"

definition startsWithDecodedSpan :: "byte8 list \<Rightarrow> byte8 list \<Rightarrow> char_compare \<Rightarrow> bool" where
  "startsWithDecodedSpan haystack needle compareFn =
     (needle = [] \<or> matchesDecodedSpan haystack 0 needle compareFn)"

text \<open>The loop from the ends; it returns because each step retreats.\<close>

partial_function (option) endsWith_from ::
    "char_compare \<Rightarrow> byte8 list \<Rightarrow> nat \<Rightarrow> byte8 list \<Rightarrow> nat \<Rightarrow> bool option" where
  "endsWith_from compareFn haystack haystackPosition needle needlePosition =
     (if needlePosition = 0 then Some True
      else if haystackPosition = 0 then Some False
      else let haystackPosition = fastRetreatChar haystack haystackPosition;
               needlePosition = fastRetreatChar needle needlePosition in
        if \<not> charactersEqual compareFn (fst (decodeCharOrReplace haystack haystackPosition))
              (fst (decodeCharOrReplace needle needlePosition)) then Some False
        else endsWith_from compareFn haystack haystackPosition needle needlePosition)"

definition endsWithDecodedSpan :: "byte8 list \<Rightarrow> byte8 list \<Rightarrow> char_compare \<Rightarrow> bool option" where
  "endsWithDecodedSpan haystack needle compareFn =
     (if needle = [] then Some True
      else endsWith_from compareFn haystack (length haystack) needle (length needle))"

function endOfMatch_from :: "byte8 list \<Rightarrow> nat \<Rightarrow> byte8 list \<Rightarrow> nat \<Rightarrow> nat" where
  "endOfMatch_from haystack start needle needlePosition =
     (if needlePosition < length needle \<and> start < length haystack
      then endOfMatch_from haystack (fastAdvanceChar haystack start) needle (fastAdvanceChar needle needlePosition)
      else start)"
  by pat_completeness auto
termination
  by (relation "measure (\<lambda>(haystack, start, _). length haystack - start)")
    (auto intro!: diff_less_mono2 intro: sequence_moves)

declare endOfMatch_from.simps [simp del]

definition endOfMatch :: "byte8 list \<Rightarrow> nat \<Rightarrow> byte8 list \<Rightarrow> nat" where
  "endOfMatch haystack start needle = endOfMatch_from haystack start needle 0"

text \<open>The allocation-free search loops.\<close>

function find_loop :: "char_compare \<Rightarrow> byte8 list \<Rightarrow> byte8 list \<Rightarrow> nat \<Rightarrow> nat option" where
  "find_loop compareFn data needle position =
     (if position < length data
      then if matchesDecodedSpan data position needle compareFn then Some position
        else find_loop compareFn data needle (fastAdvanceChar data position)
      else None)"
  by pat_completeness auto
termination
  by (relation "measure (\<lambda>(_, data, _, position). length data - position)")
    (auto intro!: diff_less_mono2 intro: sequence_moves)

lemma endOfMatch_moves:
  assumes "needle \<noteq> []" "p < length data"
  shows "p < endOfMatch data p needle"
proof -
  have ge: "q \<le> endOfMatch_from data q needle n" for q n
  proof (induction data q needle n rule: endOfMatch_from.induct)
    case (1 data q needle n)
    then show ?case using sequence_moves(4)[of q data]
      by (subst endOfMatch_from.simps) (auto intro: order_trans less_imp_le)
  qed
  show ?thesis
    using assms ge[of "fastAdvanceChar data p" "fastAdvanceChar needle 0"] sequence_moves(4)[OF assms(2)]
    unfolding endOfMatch_def by (subst endOfMatch_from.simps) (auto simp: Suc_le_eq)
qed

function count_loop :: "char_compare \<Rightarrow> byte8 list \<Rightarrow> byte8 list \<Rightarrow> nat \<Rightarrow> nat \<Rightarrow> nat" where
  "count_loop compareFn data needle position result =
     (if position < length data \<and> needle \<noteq> []
      then if matchesDecodedSpan data position needle compareFn
        then count_loop compareFn data needle (endOfMatch data position needle) (result + 1)
        else count_loop compareFn data needle (fastAdvanceChar data position) result
      else result)"
  by pat_completeness auto
termination
  by (relation "measure (\<lambda>(_, data, _, position, _). length data - position)")
    (auto intro!: diff_less_mono2 intro: sequence_moves endOfMatch_moves)

declare compareDecoded_from.simps [simp del] matchesDecoded_from.simps [simp del]
  find_loop.simps [simp del] count_loop.simps [simp del]

section \<open>Strings as lists of characters\<close>

lemma decoded_end [simp]: "length data \<le> p \<Longrightarrow> decoded data p = []"
  by (simp add: decoded.simps[of data p])

lemma decoded_step:
  assumes "p < length data"
  shows "decoded data p = fst (decodeCharOrReplace data p) # decoded data (fastAdvanceChar data p)"
  using sequence_moves(1)[OF assms] assms by (subst decoded.simps) (auto split: prod.split)

lemma decoded_empty_iff: "decoded data p = [] \<longleftrightarrow> length data \<le> p"
  using decoded_step[of p data] by (cases "p < length data") auto

lemma decoded_obtain:
  assumes "p < length data"
  obtains c q where "decodeCharOrReplace data p = (c, q)" "fastAdvanceChar data p = q" "p < q" "q \<le> length data"
    "decoded data p = c # decoded data q"
  using sequence_moves[OF assms] decoded_step[OF assms] that[of "fst (decodeCharOrReplace data p)" "fastAdvanceChar data p"]
  by (metis prod.collapse)

text \<open>The order of two strings and the beginning of one string by another, as lists.\<close>

fun lex_compare :: "('a \<Rightarrow> 'a \<Rightarrow> ordering) \<Rightarrow> 'a list \<Rightarrow> 'a list \<Rightarrow> ordering" where
  "lex_compare f [] [] = OrdEqual"
| "lex_compare f (x # xs) [] = OrdGreater"
| "lex_compare f [] (y # ys) = OrdLess"
| "lex_compare f (x # xs) (y # ys) = (if f x y \<noteq> OrdEqual then f x y else lex_compare f xs ys)"

lemma compareDecoded_chars:
  "compareDecoded_from f left p right q = lex_compare (compare_chars f) (decoded left p) (decoded right q)"
proof (induction f left p right q rule: compareDecoded_from.induct)
  case (1 f left p right q)
  show ?case
  proof (cases "p < length left \<and> q < length right")
    case True
    then have l: "p < length left" and r: "q < length right" by auto
    obtain x p' where L: "decodeCharOrReplace left p = (x, p')" "decoded left p = x # decoded left p'"
      by (rule decoded_obtain[OF l])
    obtain y q' where R: "decodeCharOrReplace right q = (y, q')" "decoded right q = y # decoded right q'"
      by (rule decoded_obtain[OF r])
    show ?thesis
      using 1[OF True L(1)[symmetric] R(1)[symmetric] refl] True
      by (simp add: compareDecoded_from.simps[of f left p right q] L R Let_def)
  next
    case False
    then show ?thesis
      by (cases "p < length left"; cases "q < length right")
        (auto simp: compareDecoded_from.simps[of f left p right q] dest!: decoded_step)
  qed
qed

lemma matchesDecoded_chars:
  "matchesDecoded_from f haystack p needle q \<longleftrightarrow>
    begins_with (charactersEqual f) (decoded haystack p) (decoded needle q)"
proof (induction f haystack p needle q rule: matchesDecoded_from.induct)
  case (1 f haystack p needle q)
  show ?case
  proof (cases "q < length needle")
    case r: True
    obtain y q' where R: "decodeCharOrReplace needle q = (y, q')" "decoded needle q = y # decoded needle q'"
      by (rule decoded_obtain[OF r])
    show ?thesis
    proof (cases "p < length haystack")
      case l: True
      obtain x p' where L: "decodeCharOrReplace haystack p = (x, p')" "decoded haystack p = x # decoded haystack p'"
        by (rule decoded_obtain[OF l])
      show ?thesis
        using 1[OF r _ L(1)[symmetric] R(1)[symmetric]] l r
        by (simp add: matchesDecoded_from.simps[of f haystack p needle q] L R)
    qed (use r R in \<open>simp add: matchesDecoded_from.simps[of f haystack p needle q]\<close>)
  qed (simp add: matchesDecoded_from.simps[of f haystack p needle q])
qed

text \<open>Boundaries count the characters before them.\<close>

definition nth_boundary :: "byte8 list \<Rightarrow> nat \<Rightarrow> nat" where
  "nth_boundary data k = (fastAdvanceChar data ^^ k) 0"

lemma decoded_nth_boundary:
  assumes "k \<le> length (chars data)"
  shows "decoded data (nth_boundary data k) = drop k (chars data)" "nth_boundary data k \<le> length data"
proof -
  have "decoded data (nth_boundary data k) = drop k (chars data) \<and> nth_boundary data k \<le> length data"
    using assms
  proof (induction k)
    case (Suc k)
    then have IH: "decoded data (nth_boundary data k) = drop k (chars data)" by simp
    with Suc.prems have "decoded data (nth_boundary data k) \<noteq> []" by simp
    then have p: "nth_boundary data k < length data" by (simp add: decoded_empty_iff)
    obtain c q where "fastAdvanceChar data (nth_boundary data k) = q" "q \<le> length data"
      "decoded data (nth_boundary data k) = c # decoded data q" by (rule decoded_obtain[OF p])
    moreover from this have "decoded data q = tl (drop k (chars data))" using IH by (metis list.sel(3))
    ultimately show ?case by (simp add: nth_boundary_def drop_Suc tl_drop)
  qed (simp add: nth_boundary_def)
  then show "decoded data (nth_boundary data k) = drop k (chars data)" "nth_boundary data k \<le> length data" by auto
qed

lemma nth_boundary_end: "nth_boundary data (length (chars data)) = length data"
  using decoded_nth_boundary[of "length (chars data)" data] decoded_empty_iff[of data "nth_boundary data (length (chars data))"]
  by simp

lemma nth_boundary_char:
  assumes "k < length (chars data)"
  shows "fst (decodeCharOrReplace data (nth_boundary data k)) = chars data ! k"
    "fastRetreatChar data (nth_boundary data (Suc k)) = nth_boundary data k" "0 < nth_boundary data (Suc k)"
proof -
  have d: "decoded data (nth_boundary data k) = drop k (chars data)" using decoded_nth_boundary(1) assms by simp
  then have p: "nth_boundary data k < length data" using assms decoded_empty_iff[of data "nth_boundary data k"] by simp
  show "fst (decodeCharOrReplace data (nth_boundary data k)) = chars data ! k"
    using d decoded_step[OF p] assms by (metis Cons_nth_drop_Suc list.inject)
  have "boundary data (nth_boundary data k)" by (auto simp: boundary_def nth_boundary_def)
  then show "fastRetreatChar data (nth_boundary data (Suc k)) = nth_boundary data k" "0 < nth_boundary data (Suc k)"
    using cursor_steps[OF _ p] sequence_moves(4)[OF p] by (simp_all add: nth_boundary_def)
qed

lemma endsWith_boundaries:
  assumes "i \<le> length (chars haystack)" "j \<le> length (chars needle)"
  shows "endsWith_from f haystack (nth_boundary haystack i) needle (nth_boundary needle j) =
    Some (j \<le> i \<and> list_all2 (charactersEqual f) (drop (i - j) (take i (chars haystack))) (take j (chars needle)))"
  using assms
proof (induction j arbitrary: i)
  case 0
  then show ?case by (simp add: endsWith_from.simps nth_boundary_def)
next
  case (Suc j)
  note n = nth_boundary_char[of j needle]
  show ?case
  proof (cases i)
    case 0
    then show ?thesis using n Suc.prems by (simp add: endsWith_from.simps) (simp add: nth_boundary_def)
  next
    case i: (Suc i')
    note h = nth_boundary_char[of i' haystack]
    have u: "take (Suc i') (chars haystack) = take i' (chars haystack) @ [chars haystack ! i']"
      "take (Suc j) (chars needle) = take j (chars needle) @ [chars needle ! j]"
      using Suc.prems i by (simp_all add: take_Suc_conv_app_nth)
    show ?thesis
      using Suc.IH[of i'] Suc.prems n h i
      by (subst endsWith_from.simps) (auto simp: Let_def u list_all2_append)
  qed
qed

text \<open>C11: The comparisons on bytes are the comparisons of the decoded characters, whatever bytes
  the strings hold: the order is the lexicographic order under the comparison function, a string
  starts with another if the characters of the other begin its own, and the search backwards from
  the ends returns and finds the other string exactly when its characters end the string's.\<close>

theorem comparisons_on_characters:
  "compareDecodedSpans left right f = lex_compare (compare_chars f) (chars left) (chars right)
    \<and> startsWithDecodedSpan left right f = begins_with (charactersEqual f) (chars left) (chars right)
    \<and> endsWithDecodedSpan left right f = Some (length (chars right) \<le> length (chars left)
        \<and> list_all2 (charactersEqual f) (drop (length (chars left) - length (chars right)) (chars left)) (chars right))"
  using endsWith_boundaries[of "length (chars left)" left "length (chars right)" right f]
  by (auto simp: compareDecodedSpans_def compareDecoded_chars startsWithDecodedSpan_def matchesDecodedSpan_def
      matchesDecoded_chars endsWithDecodedSpan_def nth_boundary_end)

section \<open>Searching\<close>

text \<open>The end of the data is the end-of-data signal of the code's reader.\<close>

definition readNext :: "byte8 list \<Rightarrow> nat \<Rightarrow> (nat \<times> nat) option" where
  "readNext data position = (if position \<ge> length data then None else Some (decodeCharOrReplace data position))"

interpretation u8_stream: decoded_stream "readNext data" "decoded data" for data
proof
  fix p c q
  show "readNext data p = None \<Longrightarrow> decoded data p = []" by (simp add: readNext_def split: if_splits)
  show "decoded data p = c # decoded data q" if "readNext data p = Some (c, q)"
  proof -
    have "p < length data" "decodeCharOrReplace data p = (c, q)" using that by (auto simp: readNext_def split: if_splits)
    then show ?thesis by (simp add: decoded.simps[of data p])
  qed
qed

definition isUsefulFor :: "nat \<Rightarrow> bool" where "isUsefulFor nativeLength \<longleftrightarrow> nativeLength \<ge> 64"

definition prepared_pattern :: "char_compare \<Rightarrow> byte8 list \<Rightarrow> nat pattern_elements option" where
  "prepared_pattern compareFn needle = build_pattern (charactersEqual compareFn) (readNext needle) 0 []"

text \<open>An index that is no index is \<open>None\<close>; the outer option is that of the search loops.\<close>

definition u8_find :: "byte8 list \<Rightarrow> byte8 list \<Rightarrow> nat option \<Rightarrow> char_compare \<Rightarrow> nat option option" where
  "u8_find data needle start compareFn =
     (case start of None \<Rightarrow> Some None
      | Some start \<Rightarrow>
        if start > length data then Some None
        else if needle = [] then Some (Some start)
        else if isUsefulFor (length needle)
        then Option.bind (prepared_pattern compareFn needle) (\<lambda>pattern.
               dss_find (charactersEqual compareFn) pattern start (readNext data))
        else Some (find_loop compareFn data needle start))"

definition u8_count :: "byte8 list \<Rightarrow> byte8 list \<Rightarrow> char_compare \<Rightarrow> nat option" where
  "u8_count data needle compareFn =
     (if needle = [] then Some 0
      else if isUsefulFor (length needle)
      then Option.bind (prepared_pattern compareFn needle) (\<lambda>pattern.
             dss_count (charactersEqual compareFn) pattern 0 (readNext data))
      else Some (count_loop compareFn data needle 0 0))"

definition u8_contains :: "byte8 list \<Rightarrow> byte8 list \<Rightarrow> char_compare \<Rightarrow> bool option" where
  "u8_contains data needle compareFn =
     Option.bind (u8_find data needle (Some 0) compareFn) (\<lambda>i. Some (i \<noteq> None))"

lemma find_loop_first:
  "needle \<noteq> [] \<Longrightarrow> find_loop f data needle p =
    (case first_match (charactersEqual f) (chars needle) (decoded data p) of None \<Rightarrow> None
     | Some i \<Rightarrow> Some ((fastAdvanceChar data ^^ i) p))"
proof (induction f data needle p rule: find_loop.induct)
  case (1 f data needle p)
  have n: "chars needle \<noteq> []" using 1(2) by (simp add: decoded_empty_iff)
  show ?case
  proof (cases "p < length data")
    case True
    obtain c q where d: "fastAdvanceChar data p = q" "decoded data p = c # decoded data q"
      by (rule decoded_obtain[OF True])
    have m: "matchesDecodedSpan data p needle f \<longleftrightarrow> begins_with (charactersEqual f) (c # decoded data q) (chars needle)"
      unfolding matchesDecodedSpan_def matchesDecoded_chars d ..
    show ?thesis
      using 1(1)[OF True _ 1(2)] True d m
      by (subst find_loop.simps) (auto simp: funpow_Suc_right simp del: funpow.simps(2) split: option.splits)
  qed (use n in \<open>simp add: find_loop.simps[of f data needle p]\<close>)
qed

lemma endOfMatch_drop:
  "decoded data (endOfMatch_from data p needle n) = drop (length (decoded needle n)) (decoded data p)"
proof (induction data p needle n rule: endOfMatch_from.induct)
  case (1 data p needle n)
  show ?case
  proof (cases "n < length needle \<and> p < length data")
    case True
    then have n: "n < length needle" and p: "p < length data" by auto
    obtain c q where "fastAdvanceChar data p = q" "decoded data p = c # decoded data q" by (rule decoded_obtain[OF p])
    moreover obtain d r where "fastAdvanceChar needle n = r" "decoded needle n = d # decoded needle r"
      by (rule decoded_obtain[OF n])
    ultimately show ?thesis using 1[OF True] True by (simp add: endOfMatch_from.simps[of data p needle n])
  qed (auto simp: endOfMatch_from.simps[of data p needle n])
qed

lemma count_loop_matches:
  "needle \<noteq> [] \<Longrightarrow> count_loop f data needle p result =
    result + count_matches (charactersEqual f) (chars needle) (decoded data p)"
proof (induction f data needle p result rule: count_loop.induct)
  case (1 f data needle p result)
  have n: "chars needle \<noteq> []" using 1(3) by (simp add: decoded_empty_iff)
  show ?case
  proof (cases "p < length data")
    case True
    obtain c q where d: "fastAdvanceChar data p = q" "decoded data p = c # decoded data q"
      by (rule decoded_obtain[OF True])
    have m: "matchesDecodedSpan data p needle f \<longleftrightarrow> begins_with (charactersEqual f) (decoded data p) (chars needle)"
      unfolding matchesDecodedSpan_def matchesDecoded_chars ..
    have e: "decoded data (endOfMatch data p needle) = drop (length (chars needle)) (decoded data p)"
      unfolding endOfMatch_def endOfMatch_drop ..
    show ?thesis
      using 1(1)[OF conjI[OF True 1(3)] _ 1(3)] 1(2)[OF conjI[OF True 1(3)] _ 1(3)] True 1(3) n m e d
      by (subst count_loop.simps, subst count_matches.simps) auto
  qed (use 1(3) in \<open>simp add: count_loop.simps[of f data needle p] count_matches.simps\<close>)
qed

lemma skip_chars_u8:
  "i \<le> length (decoded data p) \<Longrightarrow> skip_chars (readNext data) i p = Some ((fastAdvanceChar data ^^ i) p)"
proof (induction i arbitrary: p)
  case (Suc i)
  then have "decoded data p \<noteq> []" by auto
  then have p: "p < length data" by (simp add: decoded_empty_iff)
  obtain c q where "decodeCharOrReplace data p = (c, q)" "fastAdvanceChar data p = q" "decoded data p = c # decoded data q"
    by (rule decoded_obtain[OF p])
  then show ?case using Suc p by (simp add: readNext_def funpow_Suc_right del: funpow.simps(2))
qed simp

lemma u8_pattern_search:
  assumes "equivp (charactersEqual f)"
  shows "pattern_search (charactersEqual f) (readNext data) (decoded data)"
proof (rule pattern_search.intro)
  show "char_equivalence (charactersEqual f)"
    using assms by unfold_locales (auto elim: equivpE dest: reflpD sympD transpD)
qed (rule u8_stream.decoded_stream_axioms)

lemma prepared_pattern_table:
  assumes "equivp (charactersEqual f)"
  obtains pattern where "prepared_pattern f needle = Some pattern" "prefix_table (charactersEqual f) pattern"
    "map fst pattern = chars needle"
  using pattern_search.build_pattern_table[OF u8_pattern_search[OF assms, of needle], of "[]" 0]
  by (auto simp: prefix_table_def prepared_pattern_def)

text \<open>C6: Long needles are searched with a preprocessed pattern and short ones by comparing at each
  position, and the two give the same results for every text and needle, malformed ones included,
  whenever the comparison of characters is an equivalence relation: the search and the count always
  return, never reach the end of the data while locating the match, and find what the simple loops
  find, which is the first occurrence in the decoded characters, counted without overlaps.\<close>

theorem search_algorithms_agree:
  assumes "equivp (charactersEqual f)" "start \<le> length data" "needle \<noteq> []"
  shows "u8_find data needle (Some start) f = Some (find_loop f data needle start)
    \<and> u8_count data needle f = Some (count_loop f data needle 0 0)
    \<and> find_loop f data needle start =
        map_option (\<lambda>i. (fastAdvanceChar data ^^ i) start)
          (first_match (charactersEqual f) (chars needle) (decoded data start))
    \<and> count_loop f data needle 0 0 = count_matches (charactersEqual f) (chars needle) (chars data)"
proof -
  obtain pattern where p: "prepared_pattern f needle = Some pattern" "prefix_table (charactersEqual f) pattern"
    "map fst pattern = chars needle" by (rule prepared_pattern_table[OF assms(1)])
  note s = u8_pattern_search[OF assms(1), of data]
  have "dss_find (charactersEqual f) pattern start (readNext data) = Some (find_loop f data needle start)"
    unfolding pattern_search.dss_find_first[OF s p(2)] find_loop_first[OF assms(3)] p(3)
    by (cases "first_match (charactersEqual f) (chars needle) (decoded data start)")
      (auto simp: skip_chars_u8 dest: iffD1[OF first_match_Some])
  moreover have "dss_count (charactersEqual f) pattern 0 (readNext data) = Some (count_loop f data needle 0 0)"
    unfolding pattern_search.dss_count_matches[OF s p(2)] count_loop_matches[OF assms(3)] p(3) by simp
  moreover have "find_loop f data needle start =
        map_option (\<lambda>i. (fastAdvanceChar data ^^ i) start)
          (first_match (charactersEqual f) (chars needle) (decoded data start))"
    unfolding find_loop_first[OF assms(3)] by (simp split: option.splits)
  ultimately show ?thesis
    using assms(2,3) p(1) count_loop_matches[OF assms(3)] by (simp add: u8_find_def u8_count_def)
qed

text \<open>Comparing without regard to the case of ASCII letters.\<close>

definition ascii_fold :: "nat \<Rightarrow> nat" where "ascii_fold c = (if 65 \<le> c \<and> c \<le> 90 then c + 32 else c)"

definition ascii_caseless :: char_compare where
  "ascii_caseless = Some (\<lambda>a b. order_of (ascii_fold a) (ascii_fold b))"

theorem search_algorithms_agree_witness:
  "u8_find (replicate 100 0x41) (replicate 64 0x61) (Some 0) ascii_caseless =
    Some (find_loop ascii_caseless (replicate 100 0x41) (replicate 64 0x61) 0)"
proof -
  have "equivp (charactersEqual ascii_caseless)"
    by (rule equivpI) (auto simp: charactersEqual_def ascii_caseless_def intro!: reflpI sympI transpI)
  then show ?thesis using search_algorithms_agree[of ascii_caseless 0 "replicate 100 0x41" "replicate 64 0x61"] by simp
qed

end
