(* ===== verification/U8Reading.thy ===== *)
theory U8Reading
  imports U8Strings
begin

text \<open>
  Reading, moving and searching for single characters in a UTF-8 string
  (\<open>src/erbsland/text/u8/impl/U8StringReadTools.cpp\<close> and the character searches of
  \<open>U8StringComparisonTools.cpp\<close>). An index that is no index is \<open>None\<close>, and so is an infinite length.
  A character set is the list of its ranges.
\<close>

section \<open>Operations\<close>

datatype char_result = Character nat | EndOfData | NoCodePoint

definition charAt :: "byte8 list \<Rightarrow> nat option \<Rightarrow> char_result" where
  "charAt data startIndex =
     (case startIndex of None \<Rightarrow> NoCodePoint
      | Some position \<Rightarrow>
        if position = length data then EndOfData
        else if position > length data then NoCodePoint
        else Character (fst (decodeCharOrReplace data position)))"

definition read_char :: "byte8 list \<Rightarrow> nat option \<Rightarrow> char_result \<times> nat option" where
  "read_char data index =
     (case index of None \<Rightarrow> (NoCodePoint, index)
      | Some position \<Rightarrow>
        if position = length data then (EndOfData, index)
        else if position > length data then (NoCodePoint, index)
        else (case decodeCharOrReplace data position of (c, position) \<Rightarrow> (Character c, Some position)))"

definition readAndRetreat :: "byte8 list \<Rightarrow> nat option \<Rightarrow> char_result \<times> nat option" where
  "readAndRetreat data index =
     (case index of None \<Rightarrow> (NoCodePoint, index)
      | Some position \<Rightarrow>
        if position = 0 then (EndOfData, index)
        else if position > length data then (NoCodePoint, index)
        else let startIndex = fastRetreatChar data position
             in (Character (fst (decodeCharOrReplace data startIndex)), Some startIndex))"

fun advance_loop :: "byte8 list \<Rightarrow> nat \<Rightarrow> nat \<Rightarrow> nat" where
  "advance_loop data 0 index = index"
| "advance_loop data (Suc count) index =
     (if index < length data then advance_loop data count (fastAdvanceChar data index) else index)"

definition advance :: "byte8 list \<Rightarrow> nat option \<Rightarrow> nat option \<Rightarrow> nat option \<times> bool" where
  "advance data index count =
     (case index of None \<Rightarrow> (index, False)
      | Some i \<Rightarrow>
        if count = Some 0 then (index, False)
        else if i \<ge> length data \<or> count = None then (Some (length data), i < length data)
        else (Some (advance_loop data (the count) i), True))"

fun retreat_loop_chars :: "byte8 list \<Rightarrow> nat \<Rightarrow> nat \<Rightarrow> nat" where
  "retreat_loop_chars data 0 index = index"
| "retreat_loop_chars data (Suc count) index =
     (if index = 0 then index else retreat_loop_chars data count (fastRetreatChar data index))"

definition retreat :: "byte8 list \<Rightarrow> nat option \<Rightarrow> nat option \<Rightarrow> nat option \<times> bool" where
  "retreat data index count =
     (case index of None \<Rightarrow> (index, False)
      | Some i \<Rightarrow>
        if count = Some 0 \<or> i = 0 then (index, False)
        else let i = min i (length data) in
          if count = None \<or> the count \<ge> i \<or> data = [] then (Some 0, True)
          else (Some (retreat_loop_chars data (the count) i), True))"

type_synonym char_set = "(nat \<times> nat) list"

definition set_contains :: "char_set \<Rightarrow> nat \<Rightarrow> bool" where
  "set_contains characters c \<longleftrightarrow> (\<exists>r\<in>set characters. fst r \<le> c \<and> c \<le> snd r)"

text \<open>A set of one ASCII character is searched as a byte.\<close>

definition single_ascii :: "char_set \<Rightarrow> nat option" where
  "single_ascii characters =
     (case characters of [r] \<Rightarrow> if fst r = snd r \<and> fst r \<le> 0x7F then Some (fst r) else None | _ \<Rightarrow> None)"

fun find_byte :: "byte8 list \<Rightarrow> byte8 \<Rightarrow> nat option" where
  "find_byte [] b = None"
| "find_byte (x # xs) b = (if x = b then Some 0 else map_option Suc (find_byte xs b))"

function findFirst_loop :: "byte8 list \<Rightarrow> char_set \<Rightarrow> bool \<Rightarrow> nat \<Rightarrow> nat option" where
  "findFirst_loop data characters isMatching position =
     (if position < length data
      then (case decodeCharOrReplace data position of (character, next_position) \<Rightarrow>
            if set_contains characters character = isMatching then Some position
            else findFirst_loop data characters isMatching next_position)
      else None)"
  by pat_completeness auto
termination
  by (relation "measure (\<lambda>(data, _, _, position). length data - position)")
    (auto intro!: diff_less_mono2 intro: decoders_move_dest)

declare findFirst_loop.simps [simp del]

definition findFirstOfCharacterSet :: "byte8 list \<Rightarrow> char_set \<Rightarrow> nat option \<Rightarrow> bool \<Rightarrow> nat option" where
  "findFirstOfCharacterSet data characters start isMatching =
     (case start of None \<Rightarrow> None
      | Some start \<Rightarrow>
        if start \<ge> length data then None
        else case (if isMatching then single_ascii characters else None) of
          Some separator \<Rightarrow> map_option (\<lambda>i. start + i) (find_byte (drop start data) (of_nat separator))
        | None \<Rightarrow> findFirst_loop data characters isMatching start)"

partial_function (option) findLast_loop :: "byte8 list \<Rightarrow> char_set \<Rightarrow> bool \<Rightarrow> nat \<Rightarrow> nat option option" where
  "findLast_loop data characters isMatching position =
     (if position = 0 then Some None
      else let position = fastRetreatChar data position in
        if set_contains characters (fst (decodeCharOrReplace data position)) = isMatching
        then Some (Some position)
        else findLast_loop data characters isMatching position)"

definition findLastOfCharacterSet :: "byte8 list \<Rightarrow> char_set \<Rightarrow> nat option \<Rightarrow> bool \<Rightarrow> nat option option" where
  "findLastOfCharacterSet data characters end_index isMatching =
     (case end_index of None \<Rightarrow> Some None
      | Some position \<Rightarrow>
        if position = 0 then Some None
        else if data = [] \<or> position > length data then Some None
        else findLast_loop data characters isMatching position)"

definition contains_char :: "byte8 list \<Rightarrow> nat \<Rightarrow> u8_error + bool" where
  "contains_char data character =
     sbind (forEachDecodedCharacter Tolerant data 0 (\<lambda>c result. (c = character, c \<noteq> character)) False)
       (\<lambda>(result, _). Inr result)"

definition count_char :: "byte8 list \<Rightarrow> nat \<Rightarrow> u8_error + nat" where
  "count_char data character =
     sbind (forEachDecodedCharacter Tolerant data 0 (\<lambda>c result. (if c = character then result + 1 else result, True)) 0)
       (\<lambda>(result, _). Inr result)"

definition containsOneOf :: "byte8 list \<Rightarrow> char_set \<Rightarrow> u8_error + bool" where
  "containsOneOf data characters =
     (if characters = [] then Inr False
      else sbind (forEachDecodedCharacter Tolerant data 0
                   (\<lambda>c result. (set_contains characters c, \<not> set_contains characters c)) False)
        (\<lambda>(result, _). Inr result))"

definition containsOnly :: "byte8 list \<Rightarrow> char_set \<Rightarrow> u8_error + bool" where
  "containsOnly data characters =
     sbind (forEachDecodedCharacter Tolerant data 0
              (\<lambda>c result. (set_contains characters c, set_contains characters c)) True)
       (\<lambda>(result, _). Inr result)"

section \<open>Reading and moving\<close>

lemma nth_boundary_mono: "i \<le> j \<Longrightarrow> nth_boundary data i \<le> nth_boundary data j"
  unfolding nth_boundary_def by (rule boundary_mono)

lemma nth_boundary_less:
  assumes "k < length (chars data)"
  shows "nth_boundary data k < length data" "nth_boundary data k < nth_boundary data (Suc k)"
    "decodeCharOrReplace data (nth_boundary data k) = (chars data ! k, nth_boundary data (Suc k))"
proof -
  have "decoded data (nth_boundary data k) = drop k (chars data)" using decoded_nth_boundary(1) assms by simp
  then show p: "nth_boundary data k < length data"
    using assms decoded_empty_iff[of data "nth_boundary data k"] by simp
  have s: "nth_boundary data (Suc k) = fastAdvanceChar data (nth_boundary data k)" by (simp add: nth_boundary_def)
  show "nth_boundary data k < nth_boundary data (Suc k)" unfolding s by (rule sequence_moves(4)[OF p])
  show "decodeCharOrReplace data (nth_boundary data k) = (chars data ! k, nth_boundary data (Suc k))"
    unfolding s by (rule prod_eqI) (simp_all add: nth_boundary_char(1)[OF assms] sequence_moves(1)[OF p])
qed

lemma nth_boundary_ge: "k \<le> length (chars data) \<Longrightarrow> k \<le> nth_boundary data k"
proof (induction k)
  case (Suc k)
  then show ?case using nth_boundary_less(2)[of k data] by simp
qed simp

lemma nth_boundary_inj:
  assumes "k < length (chars data)"
  shows "nth_boundary data k \<noteq> length data"
  using nth_boundary_less(1)[OF assms] by simp

lemma advance_loop_boundary:
  "k \<le> length (chars data) \<Longrightarrow>
    advance_loop data n (nth_boundary data k) = nth_boundary data (min (k + n) (length (chars data)))"
proof (induction n arbitrary: k)
  case (Suc n)
  show ?case
  proof (cases "k < length (chars data)")
    case True
    have "fastAdvanceChar data (nth_boundary data k) = nth_boundary data (Suc k)" by (simp add: nth_boundary_def)
    then show ?thesis using True nth_boundary_less(1)[OF True] Suc.IH[of "Suc k"] by simp
  next
    case False
    then show ?thesis using Suc.prems by (simp add: nth_boundary_end)
  qed
qed simp

lemma retreat_loop_boundary:
  "k \<le> length (chars data) \<Longrightarrow> retreat_loop_chars data n (nth_boundary data k) = nth_boundary data (k - n)"
proof (induction n arbitrary: k)
  case (Suc n)
  show ?case
  proof (cases k)
    case 0
    then show ?thesis by (simp add: nth_boundary_def)
  next
    case (Suc k')
    then show ?thesis using Suc.prems Suc.IH[of k'] nth_boundary_char[of k' data] by simp
  qed
qed simp

text \<open>The cursor reads the characters of a string in order from either end: at the start of the
  character number k reading yields it and moves behind it, reading backwards from behind it
  yields it and moves before it, both report the end of the data at their end and stay there, and
  moving by n characters arrives n characters further or at the end of the string.\<close>

lemma cursor_reads_characters:
  assumes "k \<le> length (chars data)"
  shows "read_char data (Some (nth_boundary data k)) =
      (if k < length (chars data) then (Character (chars data ! k), Some (nth_boundary data (k + 1)))
       else (EndOfData, Some (length data)))
    \<and> readAndRetreat data (Some (nth_boundary data k)) =
      (if 0 < k then (Character (chars data ! (k - 1)), Some (nth_boundary data (k - 1))) else (EndOfData, Some 0))
    \<and> advance data (Some (nth_boundary data k)) (Some n) =
      (Some (nth_boundary data (min (k + n) (length (chars data)))), 0 < n \<and> k < length (chars data))
    \<and> retreat data (Some (nth_boundary data k)) (Some n) = (Some (nth_boundary data (k - n)), 0 < n \<and> 0 < k)"
proof (intro conjI)
  let ?N = "length (chars data)" and ?b = "nth_boundary data"
  have e: "?b k = length data" if "\<not> k < ?N" using that assms nth_boundary_end[of data] by (metis le_neq_implies_less)
  have b0: "?b 0 = 0" by (simp add: nth_boundary_def)
  have le: "?b k \<le> length data" using decoded_nth_boundary(2)[OF assms] .
  have pos: "0 < ?b k" if "0 < k" using nth_boundary_ge[OF assms] that by simp
  show "read_char data (Some (?b k)) = (if k < ?N then (Character (chars data ! k), Some (?b (k + 1)))
       else (EndOfData, Some (length data)))"
    using e nth_boundary_less[of k data] by (cases "k < ?N") (auto simp: read_char_def)
  show "readAndRetreat data (Some (?b k)) =
      (if 0 < k then (Character (chars data ! (k - 1)), Some (?b (k - 1))) else (EndOfData, Some 0))"
  proof (cases k)
    case (Suc j)
    then have "j < ?N" using assms by simp
    then show ?thesis using nth_boundary_char[of j data] le Suc by (simp add: readAndRetreat_def Let_def)
  qed (simp add: readAndRetreat_def b0)
  show "advance data (Some (?b k)) (Some n) = (Some (?b (min (k + n) ?N)), 0 < n \<and> k < ?N)"
  proof (cases "k < ?N")
    case True
    then show ?thesis using nth_boundary_less(1)[OF True] advance_loop_boundary[OF assms, of n]
      by (auto simp: advance_def)
  next
    case False
    then have "min (k + n) ?N = k" using assms by simp
    then show ?thesis using e[OF False] False by (auto simp: advance_def)
  qed
  show "retreat data (Some (?b k)) (Some n) = (Some (?b (k - n)), 0 < n \<and> 0 < k)"
  proof (cases "k = 0")
    case False
    have "data \<noteq> []" using False assms by (auto simp: decoded.simps[of "[]"])
    moreover have "?b (k - n) = 0" if "?b k \<le> n" using that nth_boundary_ge[OF assms] b0 by simp
    ultimately show ?thesis using retreat_loop_boundary[OF assms, of n] pos False le
      by (auto simp: retreat_def Let_def min_absorb1)
  qed (auto simp: retreat_def b0)
qed

theorem cursor_reads_characters_witness:
  "retreat malformed_bytes (Some (nth_boundary malformed_bytes 1)) (Some 1) = (Some 0, True)"
proof -
  have "chars malformed_bytes \<noteq> []" by (simp add: decoded_empty_iff malformed_bytes_def)
  then have "1 \<le> length (chars malformed_bytes)" by (simp add: Suc_le_eq)
  then show ?thesis using cursor_reads_characters[of 1 malformed_bytes 1] by (simp add: nth_boundary_def)
qed

section \<open>Searching for characters\<close>

text \<open>The byte of an ASCII character occurs only as the encoding of that character.\<close>

lemma ascii_char:
  assumes p: "p < length data" and c: "c < 128"
  shows "fst (decodeCharOrReplace data p) = c \<longleftrightarrow> unat (data ! p) = c"
    "unat (data ! p) = c \<Longrightarrow> fastAdvanceChar data p = p + 1"
proof -
  have "fst (decodeCharOrReplace data p) = c" "fastAdvanceChar data p = p + 1" if "unat (data ! p) = c"
  proof -
    have "scan_char data p = Some (1, c)" using that c by (simp add: scan_char_def)
    then show "fst (decodeCharOrReplace data p) = c" "fastAdvanceChar data p = p + 1"
      using ascii_valid[OF c] by (simp_all add: decodeCharOrReplace_scan[OF p] fastAdvanceChar_scan[OF p] sequence_length_def)
  qed
  moreover have "unat (data ! p) = c" if d: "fst (decodeCharOrReplace data p) = c"
  proof -
    obtain n u where s: "scan_char data p = Some (n, u)" "u = c"
      using d c by (auto simp: decodeCharOrReplace_scan[OF p] replacement_def split: option.splits if_splits)
    have "map unat (take n (drop p data)) = [c]"
      using scan_numbers[OF p s(1)] s(2) c by (simp add: utf8_numbers_def)
    then show ?thesis using p by (cases n) (auto simp: Cons_nth_drop_Suc[symmetric])
  qed
  ultimately show "fst (decodeCharOrReplace data p) = c \<longleftrightarrow> unat (data ! p) = c"
    "unat (data ! p) = c \<Longrightarrow> fastAdvanceChar data p = p + 1" by blast+
qed

lemma ascii_not_inside:
  assumes p: "p < length data" and i: "p < i" "i < fastAdvanceChar data p"
  shows "128 \<le> unat (data ! i)"
  using sequence_end(2)[OF p i(1)] i(2) fastAdvanceChar_scan[OF p] by (simp add: cont_at_def)

lemma find_byte_Some:
  "find_byte xs b = Some i \<longleftrightarrow> i < length xs \<and> xs ! i = b \<and> (\<forall>j<i. xs ! j \<noteq> b)"
proof (induction xs arbitrary: i)
  case (Cons x xs)
  then show ?case by (cases i) (auto simp: All_less_Suc2)
qed simp

lemma find_byte_None: "find_byte xs b = None \<longleftrightarrow> b \<notin> set xs"
  by (induction xs) auto

lemma set_contains_single:
  "single_ascii characters = Some s \<Longrightarrow> set_contains characters c \<longleftrightarrow> c = s"
  "single_ascii characters = Some s \<Longrightarrow> s < 128"
  by (auto simp: single_ascii_def set_contains_def split: list.splits if_splits)

text \<open>The search for a byte from one position continues behind the character at the position.\<close>

lemma find_byte_skip:
  assumes "\<forall>i. p \<le> i \<and> i < q \<longrightarrow> data ! i \<noteq> b" "p \<le> q" "q \<le> length data"
  shows "map_option ((+) p) (find_byte (drop p data) b) = map_option ((+) q) (find_byte (drop q data) b)"
  using assms
proof (induction "q - p" arbitrary: p)
  case (Suc n)
  then have p: "p < length data" "p < q" "data ! p \<noteq> b" by auto
  then have "find_byte (drop p data) b = map_option Suc (find_byte (drop (Suc p) data) b)"
    by (simp add: Cons_nth_drop_Suc[symmetric])
  then have "map_option ((+) p) (find_byte (drop p data) b) = map_option ((+) (Suc p)) (find_byte (drop (Suc p) data) b)"
    by (cases "find_byte (drop (Suc p) data) b") simp_all
  also have "\<dots> = map_option ((+) q) (find_byte (drop q data) b)"
    by (rule Suc.hyps(1)) (use Suc p in auto)
  finally show ?case .
qed simp

lemma findFirst_ascii:
  assumes "single_ascii characters = Some s"
  shows "p \<le> length data \<Longrightarrow> findFirst_loop data characters True p =
    map_option ((+) p) (find_byte (drop p data) (of_nat s))"
proof (induction "length data - p" arbitrary: p rule: less_induct)
  case less
  note s = set_contains_single[OF assms]
  have u: "unat (of_nat s :: byte8) = s" using s(2) by (simp add: unat_of_nat)
  show ?case
  proof (cases "p < length data")
    case True
    obtain c q where d: "decodeCharOrReplace data p = (c, q)" "fastAdvanceChar data p = q" "p < q" "q \<le> length data"
      by (rule decoded_obtain[OF True])
    have c: "c = s \<longleftrightarrow> data ! p = of_nat s"
      using ascii_char(1)[OF True s(2)] d(1) u by (simp add: word_unat_eq_iff)
    show ?thesis
    proof (cases "c = s")
      case True
      then show ?thesis using c d \<open>p < length data\<close> s(1)
        by (simp add: findFirst_loop.simps[of data characters True p] Cons_nth_drop_Suc[symmetric])
    next
      case False
      have "\<forall>i. p \<le> i \<and> i < q \<longrightarrow> data ! i \<noteq> of_nat s"
      proof (intro allI impI)
        fix i assume i: "p \<le> i \<and> i < q"
        show "data ! i \<noteq> of_nat s"
        proof (cases "i = p")
          case True
          then show ?thesis using False c by simp
        next
          case F: False
          then have "128 \<le> unat (data ! i)" using ascii_not_inside[OF True, of i] i d(2) by simp
          then show ?thesis using u s(2) by auto
        qed
      qed
      then have "map_option ((+) p) (find_byte (drop p data) (of_nat s)) = findFirst_loop data characters True q"
        using find_byte_skip[of p q data "of_nat s"] less.hyps[of q] d True by simp
      then show ?thesis using False True d s(1) by (simp add: findFirst_loop.simps[of data characters True p])
    qed
  qed (simp add: findFirst_loop.simps[of data characters True p])
qed

text \<open>Positions in a list of characters.\<close>

fun first_index :: "('a \<Rightarrow> bool) \<Rightarrow> 'a list \<Rightarrow> nat option" where
  "first_index P [] = None"
| "first_index P (x # xs) = (if P x then Some 0 else map_option Suc (first_index P xs))"

definition last_index :: "('a \<Rightarrow> bool) \<Rightarrow> 'a list \<Rightarrow> nat option" where
  "last_index P xs = map_option (\<lambda>i. length xs - 1 - i) (first_index P (rev xs))"

lemma last_index_snoc: "last_index P (xs @ [x]) = (if P x then Some (length xs) else last_index P xs)"
  by (auto simp: last_index_def option.map_comp comp_def)

lemma findFirst_chars:
  "findFirst_loop data characters m p =
    map_option (\<lambda>i. (fastAdvanceChar data ^^ i) p) (first_index (\<lambda>c. set_contains characters c = m) (decoded data p))"
proof (induction data characters m p rule: findFirst_loop.induct)
  case (1 data characters m p)
  show ?case
  proof (cases "p < length data")
    case True
    obtain c q where d: "decodeCharOrReplace data p = (c, q)" "fastAdvanceChar data p = q" "decoded data p = c # decoded data q"
      by (rule decoded_obtain[OF True])
    show ?thesis
    proof (cases "set_contains characters c = m")
      case False
      then show ?thesis using 1[OF True d(1)[symmetric] False] True d
        by (simp add: findFirst_loop.simps[of data characters m p] option.map_comp comp_def funpow_Suc_right
            del: funpow.simps(2))
    qed (use True d in \<open>simp add: findFirst_loop.simps[of data characters m p]\<close>)
  qed (simp add: findFirst_loop.simps[of data characters m p])
qed

lemma findLast_chars:
  "k \<le> length (chars data) \<Longrightarrow> findLast_loop data characters m (nth_boundary data k) =
    Some (map_option (nth_boundary data) (last_index (\<lambda>c. set_contains characters c = m) (take k (chars data))))"
proof (induction k)
  case 0
  then show ?case by (simp add: findLast_loop.simps nth_boundary_def last_index_def)
next
  case (Suc k)
  then have k: "k < length (chars data)" by simp
  note n = nth_boundary_char[OF k]
  have "take (Suc k) (chars data) = take k (chars data) @ [chars data ! k]" using k by (rule take_Suc_conv_app_nth)
  then show ?case
    using n k Suc.IH by (subst findLast_loop.simps) (simp add: Let_def last_index_snoc min_absorb2 less_imp_le)
qed

text \<open>The callbacks that stop early.\<close>

lemma walk_contains:
  "fst (walk (\<lambda>c result. (P c, \<not> P c)) cs r) \<longleftrightarrow> (if cs = [] then r else \<exists>c\<in>set cs. P c)"
  by (induction cs arbitrary: r) auto

lemma walk_only:
  "fst (walk (\<lambda>c result. (P c, P c)) cs r) \<longleftrightarrow> (if cs = [] then r else \<forall>c\<in>set cs. P c)"
  by (induction cs arbitrary: r) auto

lemma walk_count:
  "fst (walk (\<lambda>c result. (if c = x then result + 1 else result, True)) cs n) = n + count_list cs x"
  by (induction cs arbitrary: n) auto

text \<open>The searches for characters see a string as its characters: the search for the first
  character in or outside a set gives the position of the first such character from the start
  on, also when a set of one ASCII character is searched as a byte; the search backwards returns and
  gives the position of the last one before the end position; and the tests and counts that stop
  early give the answer for all characters.\<close>

lemma character_searches:
  "findFirstOfCharacterSet data characters (Some p) m =
      map_option (\<lambda>i. (fastAdvanceChar data ^^ i) p) (first_index (\<lambda>c. set_contains characters c = m) (decoded data p))
    \<and> findLastOfCharacterSet data characters (Some (nth_boundary data (min k (length (chars data))))) m =
      Some (map_option (nth_boundary data) (last_index (\<lambda>c. set_contains characters c = m) (take k (chars data))))
    \<and> contains_char data x = Inr (x \<in> set (chars data)) \<and> count_char data x = Inr (count_list (chars data) x)
    \<and> containsOneOf data characters = Inr (list_ex (set_contains characters) (chars data))
    \<and> containsOnly data characters = Inr (list_all (set_contains characters) (chars data))"
proof (intro conjI)
  show "findFirstOfCharacterSet data characters (Some p) m =
      map_option (\<lambda>i. (fastAdvanceChar data ^^ i) p) (first_index (\<lambda>c. set_contains characters c = m) (decoded data p))"
    using findFirst_ascii[of characters _ p data] findFirst_chars[of data characters m p]
    by (auto simp: findFirstOfCharacterSet_def split: option.splits)
  show "findLastOfCharacterSet data characters (Some (nth_boundary data (min k (length (chars data))))) m =
      Some (map_option (nth_boundary data) (last_index (\<lambda>c. set_contains characters c = m) (take k (chars data))))"
  proof -
    define j where "j = min k (length (chars data))"
    have j: "j \<le> length (chars data)" "take k (chars data) = take j (chars data)" by (simp_all add: j_def min_def)
    have "nth_boundary data j \<le> length data" using decoded_nth_boundary(2)[OF j(1)] .
    moreover have "nth_boundary data j = 0 \<Longrightarrow> take j (chars data) = []" using nth_boundary_ge[OF j(1)] by simp
    moreover have "nth_boundary data j \<noteq> 0 \<Longrightarrow> data \<noteq> []" using calculation(1) by auto
    ultimately show ?thesis
      unfolding j(2) j_def[symmetric] using findLast_chars[OF j(1)]
      by (auto simp: findLastOfCharacterSet_def last_index_def)
  qed
  have w: "sbind (Inr (walk f cs r)) (\<lambda>(result, _). Inr result) = (Inr (fst (walk f cs r)) :: u8_error + 'r)" for f cs r
    by (simp add: case_prod_unfold)
  show "contains_char data x = Inr (x \<in> set (chars data))"
    using walk_contains[of "\<lambda>c. c = x" "chars data" False]
    unfolding contains_char_def forEach_tolerant w by auto
  show "count_char data x = Inr (count_list (chars data) x)"
    unfolding count_char_def forEach_tolerant w walk_count by simp
  show "containsOneOf data characters = Inr (list_ex (set_contains characters) (chars data))"
    using walk_contains[of "set_contains characters" "chars data" False]
    unfolding containsOneOf_def forEach_tolerant w by (auto simp: set_contains_def list_ex_iff)
  show "containsOnly data characters = Inr (list_all (set_contains characters) (chars data))"
    using walk_only[of "set_contains characters" "chars data" True]
    unfolding containsOnly_def forEach_tolerant w by (auto simp: list_all_iff)
qed

end
