(* ===== verification/CharSets.thy ===== *)
theory CharSets
  imports Utf8
begin

text \<open>
  Sets of Unicode scalar values as ordered lists of ranges
  (\<open>src/erbsland/text/CharSet.cpp\<close>, \<open>CharSet_set_operations.cpp\<close>, \<open>CharRange.hpp\<close> and
  \<open>impl/CharSetRangeBuilder.cpp\<close>). The code stores up to two ranges inline and more in shared
  memory; the model keeps the list \<open>rangeSpan\<close> gives. The code point U+FEFF, which the library
  refuses as a character, is not skipped by the functions that step to the neighbouring scalar value;
  the theorems say where this matters.
\<close>

section \<open>Ranges\<close>

record char_range =
  cr_from :: nat
  cr_to :: nat

definition cEmptyValue :: nat where "cEmptyValue = 0x110000"

definition mkCharRange :: "nat \<Rightarrow> nat \<Rightarrow> char_range" where
  "mkCharRange first second =
     (if \<not> isValidUnicode first \<or> \<not> isValidUnicode second then \<lparr>cr_from = cEmptyValue, cr_to = cEmptyValue\<rparr>
      else if second < first then \<lparr>cr_from = second, cr_to = first\<rparr>
      else \<lparr>cr_from = first, cr_to = second\<rparr>)"

definition singleCharRange :: "nat \<Rightarrow> char_range" where
  "singleCharRange character =
     (if \<not> isValidUnicode character then \<lparr>cr_from = cEmptyValue, cr_to = cEmptyValue\<rparr>
      else \<lparr>cr_from = character, cr_to = character\<rparr>)"

definition cr_isEmpty :: "char_range \<Rightarrow> bool" where
  "cr_isEmpty r \<longleftrightarrow> \<not> isValidUnicode (cr_from r) \<or> \<not> isValidUnicode (cr_to r) \<or> cr_to r < cr_from r"

definition cr_isSingleChar :: "char_range \<Rightarrow> bool" where
  "cr_isSingleChar r \<longleftrightarrow> \<not> cr_isEmpty r \<and> cr_from r = cr_to r"

definition cr_contains :: "char_range \<Rightarrow> nat \<Rightarrow> bool" where
  "cr_contains r character \<longleftrightarrow>
     \<not> cr_isEmpty r \<and> isValidUnicode character \<and> character \<ge> cr_from r \<and> character \<le> cr_to r"

definition cr_overlaps :: "char_range \<Rightarrow> char_range \<Rightarrow> bool" where
  "cr_overlaps r other \<longleftrightarrow>
     \<not> cr_isEmpty r \<and> \<not> cr_isEmpty other \<and> \<not> (cr_to other < cr_from r \<or> cr_from other > cr_to r)"

definition nextScalarValue :: "nat \<Rightarrow> nat" where
  "nextScalarValue c = (if c = 0xD7FF then 0xE000 else if c < 0x10FFFF then c + 1 else cEmptyValue)"

definition cr_isAdjacentTo :: "char_range \<Rightarrow> char_range \<Rightarrow> bool" where
  "cr_isAdjacentTo r other \<longleftrightarrow>
     \<not> cr_isEmpty r \<and> \<not> cr_isEmpty other
     \<and> (nextScalarValue (cr_to r) = cr_from other \<or> nextScalarValue (cr_to other) = cr_from r)"

definition canMergeWith :: "char_range \<Rightarrow> char_range \<Rightarrow> bool" where
  "canMergeWith r other \<longleftrightarrow> cr_overlaps r other \<or> cr_isAdjacentTo r other"

definition mergedWith :: "char_range \<Rightarrow> char_range \<Rightarrow> char_range" where
  "mergedWith r other =
     (if \<not> canMergeWith r other then \<lparr>cr_from = cEmptyValue, cr_to = cEmptyValue\<rparr>
      else mkCharRange (min (cr_from r) (cr_from other)) (max (cr_to r) (cr_to other)))"

definition nextScalar :: "nat \<Rightarrow> nat option" where
  "nextScalar c =
     (if \<not> isValidUnicode c \<or> c = 0x10FFFF then None
      else if c = 0xD7FF then Some 0xE000 else Some (c + 1))"

definition previousScalar :: "nat \<Rightarrow> nat option" where
  "previousScalar c =
     (if \<not> isValidUnicode c \<or> c = 0 then None
      else if c = 0xE000 then Some 0xD7FF else Some (c - 1))"

section \<open>The range builder\<close>

type_synonym ranges = "char_range list"

definition builder_add :: "ranges \<Rightarrow> char_range \<Rightarrow> ranges" where
  "builder_add rs span =
     (if cr_isEmpty span then rs
      else if length rs = 0 then rs @ [span]
      else if canMergeWith (last rs) span then butlast rs @ [mergedWith (last rs) span]
      else rs @ [span])"

section \<open>Set operations\<close>

definition cs_contains :: "ranges \<Rightarrow> nat \<Rightarrow> bool" where
  "cs_contains rs character =
     (if \<not> isValidUnicode character then False
      else if length rs \<le> 2 then list_ex (\<lambda>r. cr_contains r character) rs
      else let it = length (takeWhile (\<lambda>r. cr_from r \<le> character) rs)
           in it \<noteq> 0 \<and> cr_contains (rs ! (it - 1)) character)"

fun isSubsetOf_loop :: "ranges \<Rightarrow> ranges \<Rightarrow> bool" where
  "isSubsetOf_loop [] right = True"
| "isSubsetOf_loop (leftRange # left) right =
     (case dropWhile (\<lambda>r. cr_to r < cr_from leftRange) right of
        [] \<Rightarrow> False
      | r # rest \<Rightarrow>
        if cr_from r > cr_from leftRange \<or> cr_to r < cr_to leftRange then False
        else isSubsetOf_loop left (r # rest))"

definition isSubsetOf :: "ranges \<Rightarrow> ranges \<Rightarrow> bool" where
  "isSubsetOf left right = isSubsetOf_loop left right"

text \<open>The loop that merges the new range with the ranges from \<open>first\<close> on.\<close>

fun absorb :: "char_range \<Rightarrow> ranges \<Rightarrow> char_range \<times> ranges" where
  "absorb span [] = (span, [])"
| "absorb span (r # rs) =
     (if canMergeWith span r then absorb (mergedWith span r) rs else (span, r # rs))"

definition cs_add :: "ranges \<Rightarrow> char_range \<Rightarrow> ranges" where
  "cs_add oldRanges span =
     (if cr_isEmpty span then oldRanges
      else let insertion = length (takeWhile (\<lambda>r. cr_from r < cr_from span) oldRanges);
               first = (if insertion > 0 \<and> canMergeWith (oldRanges ! (insertion - 1)) span
                        then insertion - 1 else insertion);
               (merged, after) = absorb span (drop first oldRanges)
           in take first oldRanges @ [merged] @ after)"

definition cs_addChar :: "ranges \<Rightarrow> nat \<Rightarrow> ranges" where
  "cs_addChar rs character = cs_add rs (singleCharRange character)"

fun unite_loop :: "ranges \<Rightarrow> ranges \<Rightarrow> ranges \<Rightarrow> ranges" where
  "unite_loop builder [] [] = builder"
| "unite_loop builder (l # left) [] = unite_loop (builder_add builder l) left []"
| "unite_loop builder [] (r # right) = unite_loop (builder_add builder r) [] right"
| "unite_loop builder (l # left) (r # right) =
     (if cr_from l \<le> cr_from r then unite_loop (builder_add builder l) left (r # right)
      else unite_loop (builder_add builder r) (l # left) right)"

definition unitedWith :: "ranges \<Rightarrow> ranges \<Rightarrow> ranges" where
  "unitedWith left right = unite_loop [] left right"

definition cs_addSet :: "ranges \<Rightarrow> ranges \<Rightarrow> ranges" where
  "cs_addSet rs other = (if other = [] then rs else unitedWith rs other)"

fun intersect_loop :: "ranges \<Rightarrow> ranges \<Rightarrow> ranges \<Rightarrow> ranges" where
  "intersect_loop builder (l # left) (r # right) =
     (if cr_to l < cr_from r then intersect_loop builder left (r # right)
      else if cr_to r < cr_from l then intersect_loop builder (l # left) right
      else let builder = builder_add builder
                 (mkCharRange (max (cr_from l) (cr_from r)) (min (cr_to l) (cr_to r)))
           in if cr_to l < cr_to r then intersect_loop builder left (r # right)
              else intersect_loop builder (l # left) right)"
| "intersect_loop builder left right = builder"

definition intersectedWith :: "ranges \<Rightarrow> ranges \<Rightarrow> ranges" where
  "intersectedWith left right = intersect_loop [] left right"

definition remove_step :: "char_range \<Rightarrow> ranges \<Rightarrow> char_range \<Rightarrow> ranges" where
  "remove_step span builder existing =
     (if \<not> cr_overlaps existing span then builder_add builder existing
      else let builder =
             (if cr_from existing < cr_from span
              then (case previousScalar (cr_from span) of None \<Rightarrow> builder
                    | Some leftEnd \<Rightarrow> if cr_from existing \<le> leftEnd
                                     then builder_add builder (mkCharRange (cr_from existing) leftEnd) else builder)
              else builder)
           in if cr_to existing > cr_to span
              then (case nextScalar (cr_to span) of None \<Rightarrow> builder
                    | Some rightStart \<Rightarrow> if rightStart \<le> cr_to existing
                                        then builder_add builder (mkCharRange rightStart (cr_to existing)) else builder)
              else builder)"

definition cs_remove :: "ranges \<Rightarrow> char_range \<Rightarrow> ranges" where
  "cs_remove rs span =
     (if rs = [] \<or> cr_isEmpty span then rs else foldl (remove_step span) [] rs)"

text \<open>The remainder of one range while the ranges to subtract are scanned.\<close>

fun subtract_scan :: "ranges \<Rightarrow> nat \<Rightarrow> char_range \<Rightarrow> ranges \<Rightarrow> ranges" where
  "subtract_scan builder remainderStart leftRange [] =
     (if remainderStart \<le> cr_to leftRange
      then builder_add builder (mkCharRange remainderStart (cr_to leftRange)) else builder)"
| "subtract_scan builder remainderStart leftRange (rightRange # right) =
     (if \<not> cr_from rightRange \<le> cr_to leftRange
      then (if remainderStart \<le> cr_to leftRange
            then builder_add builder (mkCharRange remainderStart (cr_to leftRange)) else builder)
      else let builder =
             (if cr_from rightRange > remainderStart
              then (case previousScalar (cr_from rightRange) of None \<Rightarrow> builder
                    | Some e \<Rightarrow> if remainderStart \<le> e
                               then builder_add builder (mkCharRange remainderStart (min e (cr_to leftRange)))
                               else builder)
              else builder)
           in if cr_to rightRange \<ge> cr_to leftRange then builder
              else case nextScalar (cr_to rightRange) of None \<Rightarrow> builder
                | Some n \<Rightarrow> if n > cr_to leftRange then builder
                           else subtract_scan builder n leftRange right)"

fun subtract_loop :: "ranges \<Rightarrow> ranges \<Rightarrow> ranges \<Rightarrow> ranges" where
  "subtract_loop builder [] right = builder"
| "subtract_loop builder (leftRange # left) right =
     (let right = dropWhile (\<lambda>r. cr_to r < cr_from leftRange) right
      in subtract_loop (subtract_scan builder (cr_from leftRange) leftRange right) left right)"

definition subtractedBy :: "ranges \<Rightarrow> ranges \<Rightarrow> ranges" where
  "subtractedBy left right = subtract_loop [] left right"

definition cs_removeSet :: "ranges \<Rightarrow> ranges \<Rightarrow> ranges" where
  "cs_removeSet rs other = (if rs = [] \<or> other = [] then rs else subtractedBy rs other)"

text \<open>
  The two current ranges are the heads of the lists. The code sets a range that has no start left to
  none, and then takes no further range of that set, as with an empty list.
\<close>

function symmetric_loop :: "ranges \<Rightarrow> ranges \<Rightarrow> ranges \<Rightarrow> ranges" where
  "symmetric_loop builder [] [] = builder"
| "symmetric_loop builder (l # left) [] = symmetric_loop (builder_add builder l) left []"
| "symmetric_loop builder [] (r # right) = symmetric_loop (builder_add builder r) [] right"
| "symmetric_loop builder (l # left) (r # right) =
     (if cr_to l < cr_from r then symmetric_loop (builder_add builder l) left (r # right)
      else if cr_to r < cr_from l then symmetric_loop (builder_add builder r) (l # left) right
      else let builder =
             (if cr_from l < cr_from r
              then (case previousScalar (cr_from r) of None \<Rightarrow> builder
                    | Some e \<Rightarrow> builder_add builder (mkCharRange (cr_from l) e))
              else if cr_from r < cr_from l
              then (case previousScalar (cr_from l) of None \<Rightarrow> builder
                    | Some e \<Rightarrow> builder_add builder (mkCharRange (cr_from r) e))
              else builder)
           in if cr_to l < cr_to r
              then symmetric_loop builder left
                     (case nextScalar (cr_to l) of None \<Rightarrow> [] | Some n \<Rightarrow> mkCharRange n (cr_to r) # right)
              else if cr_to r < cr_to l
              then symmetric_loop builder
                     (case nextScalar (cr_to r) of None \<Rightarrow> [] | Some n \<Rightarrow> mkCharRange n (cr_to l) # left) right
              else symmetric_loop builder left right)"
  by pat_completeness auto
termination
  by (relation "measure (\<lambda>(_, left, right). length left + length right)") (auto split: option.splits)

definition symmetricDifferenceWith :: "ranges \<Rightarrow> ranges \<Rightarrow> ranges" where
  "symmetricDifferenceWith left right = symmetric_loop [] left right"

text \<open>The characters in order, as \<open>forEach\<close> passes them to a function that never stops.\<close>

function range_chars :: "nat \<Rightarrow> nat \<Rightarrow> nat list" where
  "range_chars character final =
     (if character \<le> final
      then character # (case nextScalar character of None \<Rightarrow> []
                        | Some n \<Rightarrow> if n > final then [] else range_chars n final)
      else [])"
  by pat_completeness auto
termination
  by (relation "measure (\<lambda>(character, final). Suc final - character)")
    (auto simp: nextScalar_def split: if_splits)

declare range_chars.simps [simp del]

definition cs_toList :: "ranges \<Rightarrow> nat list" where
  "cs_toList rs = concat (map (\<lambda>r. range_chars (cr_from r) (cr_to r)) rs)"

definition cs_fromRange :: "nat \<Rightarrow> nat \<Rightarrow> ranges" where
  "cs_fromRange first final = builder_add [] (mkCharRange first final)"

section \<open>Members\<close>

text \<open>The scalar values: Unicode without the surrogates. A range covers the scalar values in it.\<close>

definition scalar :: "nat \<Rightarrow> bool" where
  "scalar c \<longleftrightarrow> c \<le> 0x10FFFF \<and> (c < 0xD800 \<or> c > 0xDFFF)"

definition range_set :: "char_range \<Rightarrow> nat set" where
  "range_set r = {c. scalar c \<and> cr_from r \<le> c \<and> c \<le> cr_to r}"

definition covers :: "ranges \<Rightarrow> nat set" where
  "covers rs = (\<Union>r\<in>set rs. range_set r)"

definition members :: "ranges \<Rightarrow> nat set" where
  "members rs = {c \<in> covers rs. isValidUnicode c}"

text \<open>The invariant: ranges of characters in ascending order with a gap between neighbours.\<close>

definition gap :: "char_range \<Rightarrow> char_range \<Rightarrow> bool" where
  "gap r s \<longleftrightarrow> nextScalarValue (cr_to r) < cr_from s"

definition normalized :: "ranges \<Rightarrow> bool" where
  "normalized rs \<longleftrightarrow> list_all (\<lambda>r. \<not> cr_isEmpty r) rs \<and> sorted_wrt gap rs"

lemma valid_scalar: "isValidUnicode c \<longleftrightarrow> scalar c \<and> c \<noteq> 0xFEFF"
  by (auto simp: isValidUnicode_def scalar_def)

lemma next_iff: "scalar a \<Longrightarrow> scalar c \<Longrightarrow> a < c \<longleftrightarrow> nextScalarValue a \<le> c"
  by (auto simp: scalar_def nextScalarValue_def cEmptyValue_def)

lemma next_gt: "scalar a \<Longrightarrow> a < nextScalarValue a"
  by (auto simp: scalar_def nextScalarValue_def cEmptyValue_def)

lemma next_scalar: "scalar a \<Longrightarrow> scalar c \<Longrightarrow> a < c \<Longrightarrow> scalar (nextScalarValue a)"
  by (auto simp: scalar_def nextScalarValue_def)

lemma nonempty_iff:
  "\<not> cr_isEmpty r \<longleftrightarrow> isValidUnicode (cr_from r) \<and> isValidUnicode (cr_to r) \<and> cr_from r \<le> cr_to r"
  by (auto simp: cr_isEmpty_def)

lemma nonempty_scalars:
  "\<not> cr_isEmpty r \<Longrightarrow> scalar (cr_from r) \<and> scalar (cr_to r) \<and> cr_from r \<le> cr_to r"
  by (simp add: nonempty_iff valid_scalar)

lemma mkCharRange_valid:
  assumes "isValidUnicode a" "isValidUnicode b" "a \<le> b"
  shows "mkCharRange a b = \<lparr>cr_from = a, cr_to = b\<rparr>" "\<not> cr_isEmpty (mkCharRange a b)"
  using assms by (auto simp: mkCharRange_def cr_isEmpty_def)

lemma covers_Nil [simp]: "covers [] = {}"
  by (simp add: covers_def)

lemma covers_Cons [simp]: "covers (r # rs) = range_set r \<union> covers rs"
  by (simp add: covers_def)

lemma covers_append [simp]: "covers (rs @ ss) = covers rs \<union> covers ss"
  by (simp add: covers_def)

lemma covers_iff: "c \<in> covers rs \<longleftrightarrow> scalar c \<and> (\<exists>r\<in>set rs. cr_from r \<le> c \<and> c \<le> cr_to r)"
  by (auto simp: covers_def range_set_def)

lemma gap_trans:
  assumes "gap r s" "gap s t" "\<not> cr_isEmpty s"
  shows "gap r t"
  using assms next_gt[of "cr_to s"] nonempty_scalars[OF assms(3)] by (auto simp: gap_def)

lemma gap_less: "gap r s \<Longrightarrow> \<not> cr_isEmpty r \<Longrightarrow> cr_to r < cr_from s"
  using next_gt[of "cr_to r"] by (auto simp: gap_def dest!: nonempty_scalars)

lemma normalized_Cons:
  "normalized (r # rs) \<longleftrightarrow> \<not> cr_isEmpty r \<and> normalized rs \<and> (\<forall>s\<in>set rs. gap r s)"
  by (auto simp: normalized_def)

lemma normalized_Nil [simp]: "normalized []"
  by (simp add: normalized_def)

lemma normalized_append:
  "normalized (rs @ ss) \<longleftrightarrow> normalized rs \<and> normalized ss \<and> (\<forall>r\<in>set rs. \<forall>s\<in>set ss. gap r s)"
  by (auto simp: normalized_def sorted_wrt_append)

lemma normalized_nonempty: "normalized rs \<Longrightarrow> r \<in> set rs \<Longrightarrow> \<not> cr_isEmpty r"
  by (auto simp: normalized_def list_all_iff)

lemma covers_after:
  assumes "normalized (r # rs)" "c \<in> covers rs"
  shows "nextScalarValue (cr_to r) < c" "cr_to r < c"
proof -
  obtain s where s: "s \<in> set rs" "cr_from s \<le> c" using assms(2) by (auto simp: covers_iff)
  then have "gap r s" "\<not> cr_isEmpty r" using assms(1) by (auto simp: normalized_Cons)
  then show "nextScalarValue (cr_to r) < c" "cr_to r < c"
    using s(2) gap_less[of r s] by (auto simp: gap_def)
qed

section \<open>Merging\<close>

lemma canMerge_gap:
  assumes "\<not> cr_isEmpty r" "\<not> cr_isEmpty s"
  shows "canMergeWith r s \<longleftrightarrow> \<not> gap r s \<and> \<not> gap s r"
proof -
  note v = nonempty_scalars[OF assms(1)] nonempty_scalars[OF assms(2)]
  have "\<not> gap r s \<longleftrightarrow> cr_from s \<le> cr_to r \<or> nextScalarValue (cr_to r) = cr_from s"
    using next_iff[of "cr_to r" "cr_from s"] next_gt[of "cr_to r"] v by (auto simp: gap_def)
  moreover have "\<not> gap s r \<longleftrightarrow> cr_from r \<le> cr_to s \<or> nextScalarValue (cr_to s) = cr_from r"
    using next_iff[of "cr_to s" "cr_from r"] next_gt[of "cr_to s"] v by (auto simp: gap_def)
  moreover have "nextScalarValue (cr_to r) = cr_from s \<Longrightarrow> cr_from r \<le> cr_to s"
    "nextScalarValue (cr_to s) = cr_from r \<Longrightarrow> cr_from s \<le> cr_to r"
    using v next_gt[of "cr_to r"] next_gt[of "cr_to s"] by linarith+
  ultimately show ?thesis
    using assms unfolding canMergeWith_def cr_overlaps_def cr_isAdjacentTo_def by (auto simp: not_less)
qed

lemma merged:
  assumes "\<not> cr_isEmpty r" "\<not> cr_isEmpty s" "canMergeWith r s"
  shows "mergedWith r s = \<lparr>cr_from = min (cr_from r) (cr_from s), cr_to = max (cr_to r) (cr_to s)\<rparr>"
    "\<not> cr_isEmpty (mergedWith r s)" "range_set (mergedWith r s) = range_set r \<union> range_set s"
proof -
  have v: "isValidUnicode (min (cr_from r) (cr_from s))" "isValidUnicode (max (cr_to r) (cr_to s))"
    "min (cr_from r) (cr_from s) \<le> max (cr_to r) (cr_to s)"
    using assms(1,2) by (auto simp: nonempty_iff min_def max_def)
  show e: "mergedWith r s = \<lparr>cr_from = min (cr_from r) (cr_from s), cr_to = max (cr_to r) (cr_to s)\<rparr>"
    and "\<not> cr_isEmpty (mergedWith r s)"
    using assms(3) mkCharRange_valid[OF v] by (auto simp: mergedWith_def)
  have g: "\<not> gap r s" "\<not> gap s r" using canMerge_gap[OF assms(1,2)] assms(3) by auto
  note w = nonempty_scalars[OF assms(1)] nonempty_scalars[OF assms(2)]
  have "c \<in> range_set r \<union> range_set s" if "c \<in> range_set (mergedWith r s)" for c
  proof (rule ccontr)
    assume n: "c \<notin> range_set r \<union> range_set s"
    have c: "scalar c" "min (cr_from r) (cr_from s) \<le> c" "c \<le> max (cr_to r) (cr_to s)"
      using that unfolding e by (auto simp: range_set_def)
    then consider "c < cr_from r" "cr_to s < c" | "c < cr_from s" "cr_to r < c"
      using n w by (auto simp: range_set_def min_def max_def split: if_splits)
    then show False
    proof cases
      case 1
      then have "nextScalarValue (cr_to s) \<le> c" using next_iff[of "cr_to s" c] w c(1) by simp
      then show False using 1 g(2) by (simp add: gap_def)
    next
      case 2
      then have "nextScalarValue (cr_to r) \<le> c" using next_iff[of "cr_to r" c] w c(1) by simp
      then show False using 2 g(1) by (simp add: gap_def)
    qed
  qed
  moreover have "range_set r \<union> range_set s \<subseteq> range_set (mergedWith r s)"
    unfolding e by (auto simp: range_set_def)
  ultimately show "range_set (mergedWith r s) = range_set r \<union> range_set s" by blast
qed

text \<open>The builder accepts ranges that start at or after its last range.\<close>

definition ready :: "ranges \<Rightarrow> nat \<Rightarrow> bool" where
  "ready b m \<longleftrightarrow> normalized b \<and> (b \<noteq> [] \<longrightarrow> cr_from (last b) \<le> m)"

lemma ready_mono: "ready b m \<Longrightarrow> m \<le> n \<Longrightarrow> ready b n"
  by (auto simp: ready_def)

lemma ready_Nil [simp]: "ready [] m"
  by (simp add: ready_def)

lemma builder_add_ready:
  assumes "ready b (cr_from r)" "\<not> cr_isEmpty r"
  shows "ready (builder_add b r) (cr_from r)" "covers (builder_add b r) = covers b \<union> range_set r"
proof -
  have "ready (builder_add b r) (cr_from r) \<and> covers (builder_add b r) = covers b \<union> range_set r"
  proof (cases b rule: rev_cases)
    case Nil
    then show ?thesis using assms(2) by (simp add: builder_add_def ready_def normalized_Cons)
  next
    case b: (snoc b' l)
    have l: "\<not> cr_isEmpty l" "cr_from l \<le> cr_from r" "normalized b'" "\<forall>x\<in>set b'. gap x l"
      using assms(1) b by (auto simp: ready_def normalized_append normalized_Cons)
    have ng: "\<not> gap r l"
      using l(2) nonempty_scalars[OF assms(2)] next_gt[of "cr_to r"] by (auto simp: gap_def)
    show ?thesis
    proof (cases "canMergeWith l r")
      case True
      note m = merged[OF l(1) assms(2) True]
      have f: "cr_from (mergedWith l r) = cr_from l" using l(2) m(1) by simp
      then show ?thesis using True b l m(2,3) assms(2)
        by (auto simp: builder_add_def ready_def normalized_append normalized_Cons gap_def)
    next
      case False
      then have g: "gap l r" using canMerge_gap[OF l(1) assms(2)] ng by simp
      then have "\<forall>x\<in>set b'. gap x r" using l gap_trans by blast
      then show ?thesis using False b l g assms(2)
        by (auto simp: builder_add_def ready_def normalized_append normalized_Cons)
    qed
  qed
  then show "ready (builder_add b r) (cr_from r)" "covers (builder_add b r) = covers b \<union> range_set r" by auto
qed

lemma ready_normalized: "ready b m \<Longrightarrow> normalized b"
  by (simp add: ready_def)

section \<open>Adding a range\<close>

lemma absorb_correct:
  assumes "\<not> cr_isEmpty r" "normalized rs" "\<forall>s\<in>set rs. \<not> gap s r"
  shows "absorb r rs = (m, after) \<Longrightarrow> \<not> cr_isEmpty m \<and> normalized after \<and> (\<forall>s\<in>set after. gap m s)
    \<and> range_set m \<union> covers after = range_set r \<union> covers rs
    \<and> (\<forall>x. gap x r \<longrightarrow> (\<forall>s\<in>set rs. gap x s) \<longrightarrow> gap x m)"
  using assms
proof (induction r rs rule: absorb.induct)
  case (2 r s rs)
  have s: "\<not> cr_isEmpty s" "normalized rs" "\<forall>t\<in>set rs. gap s t" using 2(4) by (auto simp: normalized_Cons)
  show ?case
  proof (cases "canMergeWith r s")
    case True
    note mg = merged[OF 2(3) s(1) True]
    have g: "gap x (mergedWith r s) \<longleftrightarrow> gap x r \<and> gap x s" for x using mg(1) by (auto simp: gap_def)
    have "absorb (mergedWith r s) rs = (m, after)" using 2(2) True by simp
    then show ?thesis using 2(1)[OF True _ mg(2) s(2)] g mg(3) 2(5) by auto
  next
    case False
    then have "gap r s" using canMerge_gap[OF 2(3) s(1)] 2(5) by simp
    then have "\<forall>t\<in>set rs. gap r t" using s gap_trans by blast
    then show ?thesis using False 2 \<open>gap r s\<close> by auto
  qed
qed auto

lemma sorted_split:
  assumes "normalized rs" "k = length (takeWhile (\<lambda>r. cr_from r < n) rs)"
  shows "\<forall>r\<in>set (take k rs). cr_from r < n" "\<forall>r\<in>set (drop k rs). n \<le> cr_from r"
    "normalized (take k rs)" "normalized (drop k rs)" "\<forall>r\<in>set (take k rs). \<forall>s\<in>set (drop k rs). gap r s" "k \<le> length rs"
proof -
  have t: "take k rs = takeWhile (\<lambda>r. cr_from r < n) rs" "drop k rs = dropWhile (\<lambda>r. cr_from r < n) rs"
    unfolding assms(2) by (rule takeWhile_eq_take[symmetric], rule dropWhile_eq_drop[symmetric])
  show "\<forall>r\<in>set (take k rs). cr_from r < n" unfolding t by (auto dest: set_takeWhileD)
  have n: "normalized (take k rs @ drop k rs)" using assms(1) by simp
  then show "normalized (take k rs)" and d: "normalized (drop k rs)"
    and "\<forall>r\<in>set (take k rs). \<forall>s\<in>set (drop k rs). gap r s" by (auto simp: normalized_append simp del: append_take_drop_id)
  show "k \<le> length rs" using assms(2) by (simp add: length_takeWhile_le)
  show "\<forall>r\<in>set (drop k rs). n \<le> cr_from r"
  proof (cases "drop k rs")
    case (Cons x xs)
    then have "\<not> cr_from x < n" using hd_dropWhile[of "\<lambda>r. cr_from r < n" rs] unfolding t by simp
    then have "n \<le> cr_from x" by simp
    moreover have "\<forall>s\<in>set xs. gap x s" "\<not> cr_isEmpty x" using d Cons by (auto simp: normalized_Cons)
    then have "\<forall>s\<in>set xs. cr_from x \<le> cr_from s" using gap_less nonempty_scalars by (metis le_less_trans less_imp_le)
    ultimately show ?thesis using Cons by auto
  qed simp
qed

lemma cs_add_correct:
  assumes "normalized rs" "\<not> cr_isEmpty r"
  shows "normalized (cs_add rs r)" "covers (cs_add rs r) = covers rs \<union> range_set r"
proof -
  define k where "k = length (takeWhile (\<lambda>s. cr_from s < cr_from r) rs)"
  note sp = sorted_split[OF assms(1) k_def]
  define f where "f = (if k > 0 \<and> canMergeWith (rs ! (k - 1)) r then k - 1 else k)"
  obtain m after where ab: "absorb r (drop f rs) = (m, after)" by fastforce
  have e: "cs_add rs r = take f rs @ [m] @ after"
    using assms(2) ab unfolding cs_add_def Let_def k_def[symmetric] f_def[symmetric] by simp
  have n: "normalized (take f rs @ drop f rs)" using assms(1) by simp
  have len: "f \<le> length rs" using sp(6) by (auto simp: f_def)
  have right: "\<not> gap s r" if "s \<in> set (drop k rs)" for s
    using sp(2) that normalized_nonempty[OF sp(4) that] nonempty_scalars[of s] next_gt[of "cr_to s"]
    by (fastforce simp: gap_def)
  have ng: "\<not> gap r s" if "s \<in> set (take k rs)" for s
    using sp(1) that nonempty_scalars[OF assms(2)] next_gt[of "cr_to r"] by (fastforce simp: gap_def)
  have left_right: "(\<forall>x\<in>set (take f rs). gap x r) \<and> (\<forall>s\<in>set (drop f rs). \<not> gap s r)"
  proof (cases "k > 0")
    case False
    then show ?thesis using right by (simp add: f_def)
  next
    case True
    define p where "p = rs ! (k - 1)"
    have tk: "take k rs = take (k - 1) rs @ [p]"
      using True sp(6) take_Suc_conv_app_nth[of "k - 1" rs] by (simp add: p_def)
    have p: "\<not> cr_isEmpty p" "\<forall>x\<in>set (take (k - 1) rs). gap x p" "cr_from p < cr_from r"
      using sp(1,3) unfolding tk by (auto simp: normalized_append normalized_Cons)
    have cm: "canMergeWith p r \<longleftrightarrow> \<not> gap p r"
      using canMerge_gap[OF p(1) assms(2)] ng[of p] tk by simp
    show ?thesis
    proof (cases "canMergeWith p r")
      case True
      then have f: "f = k - 1" using \<open>k > 0\<close> by (simp add: f_def p_def)
      have "drop (k - 1) rs = p # drop k rs"
        using \<open>k > 0\<close> sp(6) Cons_nth_drop_Suc[of "k - 1" rs] by (simp add: p_def)
      moreover have "gap x r" if "gap x p" for x using that p(3) by (simp add: gap_def)
      ultimately show ?thesis using f p right True cm by auto
    next
      case False
      then have "gap p r" using cm by simp
      then have "\<forall>x\<in>set (take k rs). gap x r" unfolding tk using p gap_trans by auto
      then show ?thesis using False right by (simp add: f_def p_def)
    qed
  qed
  have lr: "normalized (take f rs)" "normalized (drop f rs)" "\<forall>x\<in>set (take f rs). \<forall>s\<in>set (drop f rs). gap x s"
    using n by (auto simp: normalized_append simp del: append_take_drop_id)
  have a: "\<not> cr_isEmpty m" "normalized after" "\<forall>s\<in>set after. gap m s"
    "range_set m \<union> covers after = range_set r \<union> covers (drop f rs)"
    "\<forall>x. gap x r \<longrightarrow> (\<forall>s\<in>set (drop f rs). gap x s) \<longrightarrow> gap x m"
    using absorb_correct[OF assms(2) lr(2) _ ab] left_right by blast+
  have x: "\<forall>x\<in>set (take f rs). gap x m" using a(5) left_right lr(3) by blast
  then have "\<forall>x\<in>set (take f rs). \<forall>s\<in>set after. gap x s" using a gap_trans by blast
  then show "normalized (cs_add rs r)" using e lr(1) a x by (auto simp: normalized_append normalized_Cons)
  have "covers rs = covers (take f rs @ drop f rs)" by simp
  then show "covers (cs_add rs r) = covers rs \<union> range_set r"
    using a(4) unfolding e covers_append by auto
qed

section \<open>Union and intersection\<close>

lemma unite_loop_correct:
  assumes "ready b m" "normalized left" "normalized right"
    and "\<forall>r\<in>set left \<union> set right. m \<le> cr_from r"
  shows "normalized (unite_loop b left right) \<and> covers (unite_loop b left right) = covers b \<union> covers left \<union> covers right"
  using assms
proof (induction b left right arbitrary: m rule: unite_loop.induct)
  case (1 b)
  then show ?case by (simp add: ready_normalized)
next
  case (2 b l left)
  have l: "\<not> cr_isEmpty l" "normalized left" "\<forall>s\<in>set left. gap l s" using 2 by (auto simp: normalized_Cons)
  have "ready b (cr_from l)" using 2 by (auto intro: ready_mono)
  note b = builder_add_ready[OF this l(1)]
  have "\<forall>s\<in>set left. cr_from l \<le> cr_from s" using l gap_less nonempty_scalars by (metis le_less_trans less_imp_le)
  then show ?case using 2(1)[OF b(1) l(2)] b(2) by auto
next
  case (3 b r right)
  have l: "\<not> cr_isEmpty r" "normalized right" "\<forall>s\<in>set right. gap r s" using 3 by (auto simp: normalized_Cons)
  have "ready b (cr_from r)" using 3 by (auto intro: ready_mono)
  note b = builder_add_ready[OF this l(1)]
  have "\<forall>s\<in>set right. cr_from r \<le> cr_from s" using l gap_less nonempty_scalars by (metis le_less_trans less_imp_le)
  then show ?case using 3(1)[OF b(1) _ l(2)] b(2) by auto
next
  case (4 b l left r right)
  have l: "\<not> cr_isEmpty l" "normalized left" "\<forall>s\<in>set left. gap l s" using 4 by (auto simp: normalized_Cons)
  have r: "\<not> cr_isEmpty r" "normalized right" "\<forall>s\<in>set right. gap r s" using 4 by (auto simp: normalized_Cons)
  have asc: "\<forall>s\<in>set left. cr_from l \<le> cr_from s" "\<forall>s\<in>set right. cr_from r \<le> cr_from s"
    using l r gap_less nonempty_scalars by (metis le_less_trans less_imp_le)+
  show ?case
  proof (cases "cr_from l \<le> cr_from r")
    case True
    have "ready b (cr_from l)" using 4(3,6) by (auto intro: ready_mono)
    note b = builder_add_ready[OF this l(1)]
    have "\<forall>s\<in>set left \<union> set (r # right). cr_from l \<le> cr_from s" using True asc by auto
    then show ?thesis using 4(1)[OF True b(1) l(2) 4(5)] b(2) True by auto
  next
    case False
    have "ready b (cr_from r)" using 4(3,6) by (auto intro: ready_mono)
    note b = builder_add_ready[OF this r(1)]
    have "\<forall>s\<in>set (l # left) \<union> set right. cr_from r \<le> cr_from s" using False asc by auto
    then show ?thesis using 4(2)[OF False b(1) 4(4) r(2)] b(2) False by auto
  qed
qed

lemma unitedWith_correct:
  assumes "normalized a" "normalized b"
  shows "normalized (unitedWith a b)" "covers (unitedWith a b) = covers a \<union> covers b"
  using unite_loop_correct[OF ready_Nil[of 0] assms] by (simp_all add: unitedWith_def)

lemma range_inter:
  "range_set l \<inter> range_set r = range_set \<lparr>cr_from = max (cr_from l) (cr_from r), cr_to = min (cr_to l) (cr_to r)\<rparr>"
  by (auto simp: range_set_def)

lemma range_before: "cr_to l < cr_from r \<Longrightarrow> \<not> cr_isEmpty r \<Longrightarrow> normalized (r # rs) \<Longrightarrow> range_set l \<inter> covers (r # rs) = {}"
  using covers_after[of r rs] nonempty_scalars[of r] by (fastforce simp: range_set_def)

lemma intersect_loop_correct:
  assumes "normalized left" "normalized right"
    and "\<forall>l r. left \<noteq> [] \<longrightarrow> right \<noteq> [] \<longrightarrow> ready b (max (cr_from (hd left)) (cr_from (hd right)))" "normalized b"
  shows "normalized (intersect_loop b left right) \<and>
    covers (intersect_loop b left right) = covers b \<union> (covers left \<inter> covers right)"
  using assms
proof (induction b left right rule: intersect_loop.induct)
  case (1 b l left r right)
  have l: "\<not> cr_isEmpty l" "normalized left" "\<forall>s\<in>set left. gap l s" using 1(5) by (auto simp: normalized_Cons)
  have r: "\<not> cr_isEmpty r" "normalized right" "\<forall>s\<in>set right. gap r s" using 1(6) by (auto simp: normalized_Cons)
  have rd: "ready b (max (cr_from l) (cr_from r))" using 1(7) by simp
  have asc: "\<forall>s\<in>set left. cr_from l \<le> cr_from s" "\<forall>s\<in>set right. cr_from r \<le> cr_from s"
    using l r gap_less nonempty_scalars by (metis le_less_trans less_imp_le)+
  have hl: "left \<noteq> [] \<Longrightarrow> cr_from l \<le> cr_from (hd left)" "right \<noteq> [] \<Longrightarrow> cr_from r \<le> cr_from (hd right)"
    using asc by auto
  have mono: "max (cr_from l) (cr_from r) \<le> max (cr_from (hd left)) (cr_from r)" if "left \<noteq> []" using hl(1)[OF that] by auto
  have mono': "max (cr_from l) (cr_from r) \<le> max (cr_from l) (cr_from (hd right))" if "right \<noteq> []" using hl(2)[OF that] by auto
  show ?case
  proof (cases "cr_to l < cr_from r")
    case True
    have "range_set l \<inter> covers (r # right) = {}" by (rule range_before[OF True r(1) 1(6)])
    then show ?thesis using 1(1)[OF True l(2) 1(6) _ 1(8)] ready_mono[OF rd mono] True by auto
  next
    case F1: False
    show ?thesis
    proof (cases "cr_to r < cr_from l")
      case True
      have "range_set r \<inter> covers (l # left) = {}" by (rule range_before[OF True l(1) 1(5)])
      then show ?thesis using 1(2)[OF F1 True 1(5) r(2) _ 1(8)] ready_mono[OF rd mono'] True F1 by auto
    next
      case F2: False
      let ?x = "mkCharRange (max (cr_from l) (cr_from r)) (min (cr_to l) (cr_to r))"
      have x: "?x = \<lparr>cr_from = max (cr_from l) (cr_from r), cr_to = min (cr_to l) (cr_to r)\<rparr>" "\<not> cr_isEmpty ?x"
        by (rule mkCharRange_valid; use l(1) r(1) F1 F2 in \<open>auto simp: nonempty_iff min_def max_def\<close>)+
      have "ready b (cr_from ?x)" unfolding x(1) using rd by simp
      note b = builder_add_ready[OF this x(2)]
      have bs: "covers (builder_add b ?x) = covers b \<union> (range_set l \<inter> range_set r)"
        using b(2) unfolding x(1) range_inter .
      have rd': "ready (builder_add b ?x) (max (cr_from l) (cr_from r))" using b(1) unfolding x(1) by simp
      show ?thesis
      proof (cases "cr_to l < cr_to r")
        case True
        have "range_set l \<inter> covers right = {}" using True covers_after[OF 1(6)] by (fastforce simp: range_set_def)
        then show ?thesis
          using 1(3)[OF F1 F2 refl True l(2) 1(6) _ ready_normalized[OF rd']] ready_mono[OF rd' mono] True F1 F2 bs
          by (auto simp: Let_def)
      next
        case False
        have "covers left \<inter> range_set r = {}" using False covers_after[OF 1(5)] by (fastforce simp: range_set_def)
        then show ?thesis
          using 1(4)[OF F1 F2 refl False 1(5) r(2) _ ready_normalized[OF rd']] ready_mono[OF rd' mono'] False F1 F2 bs
          by (auto simp: Let_def)
      qed
    qed
  qed
qed auto

lemma intersectedWith_correct:
  assumes "normalized a" "normalized b"
  shows "normalized (intersectedWith a b)" "covers (intersectedWith a b) = covers a \<inter> covers b"
  using intersect_loop_correct[OF assms, of "[]"] by (simp_all add: intersectedWith_def)

section \<open>Difference\<close>

lemma previousScalar_Some:
  assumes "isValidUnicode a" "c < a" "scalar c"
  obtains p where "previousScalar a = Some p" "scalar p" "\<And>d. scalar d \<Longrightarrow> d < a \<longleftrightarrow> d \<le> p"
    "a \<noteq> 0xFF00 \<Longrightarrow> isValidUnicode p"
proof -
  define p where "p = (if a = 0xE000 then 0xD7FF else a - 1)"
  have "previousScalar a = Some p" using assms by (auto simp: previousScalar_def p_def)
  moreover have "scalar p" using assms by (auto simp: scalar_def p_def isValidUnicode_def)
  moreover have "scalar d \<Longrightarrow> d < a \<longleftrightarrow> d \<le> p" for d using assms by (auto simp: scalar_def p_def isValidUnicode_def)
  moreover have "a \<noteq> 0xFF00 \<Longrightarrow> isValidUnicode p" using assms by (auto simp: p_def isValidUnicode_def)
  ultimately show thesis using that by blast
qed

lemma nextScalar_Some:
  assumes "isValidUnicode a" "a < c" "scalar c"
  obtains n where "nextScalar a = Some n" "n = nextScalarValue a" "scalar n" "\<And>d. scalar d \<Longrightarrow> a < d \<longleftrightarrow> n \<le> d"
    "a \<noteq> 0xFEFE \<Longrightarrow> isValidUnicode n" "n \<noteq> 0xFF00"
proof -
  have a: "scalar a" using assms by (simp add: valid_scalar)
  have "nextScalar a = Some (nextScalarValue a)"
    using assms by (auto simp: nextScalar_def nextScalarValue_def scalar_def)
  moreover have "scalar (nextScalarValue a)" by (rule next_scalar[OF a assms(3,2)])
  moreover have "a \<noteq> 0xFEFE \<Longrightarrow> isValidUnicode (nextScalarValue a)" "nextScalarValue a \<noteq> 0xFF00"
    using assms by (auto simp: nextScalarValue_def scalar_def isValidUnicode_def cEmptyValue_def)
  ultimately show thesis using that next_iff[OF a] by blast
qed

text \<open>Ranges whose neighbours outside are characters, not the reserved code point.\<close>

definition clean :: "char_range \<Rightarrow> bool" where
  "clean r \<longleftrightarrow> cr_from r \<noteq> 0xFF00 \<and> cr_to r \<noteq> 0xFEFE"

lemma range_set_mk:
  assumes "isValidUnicode a" "isValidUnicode b" "a \<le> b"
  shows "range_set (mkCharRange a b) = {c. scalar c \<and> a \<le> c \<and> c \<le> b}"
  unfolding mkCharRange_valid(1)[OF assms] range_set_def by simp

lemma add_before:
  assumes "ready b m" "isValidUnicode m" "isValidUnicode a" "m < a" "a \<noteq> 0xFF00"
  obtains p where "previousScalar a = Some p" "m \<le> p" "p < a" "ready (builder_add b (mkCharRange m p)) m"
    "covers (builder_add b (mkCharRange m p)) = covers b \<union> {c. scalar c \<and> m \<le> c \<and> c < a}"
proof -
  have m: "scalar m" using assms by (simp add: valid_scalar)
  obtain p where p: "previousScalar a = Some p" "scalar p" "\<And>d. scalar d \<Longrightarrow> d < a \<longleftrightarrow> d \<le> p" "isValidUnicode p"
    using previousScalar_Some[OF assms(3,4) m] assms(5) by metis
  have le: "m \<le> p" "p < a" using p(3)[OF m] p(3)[OF p(2)] assms(4) by auto
  note mk = mkCharRange_valid[OF assms(2) p(4) le(1)]
  have "ready b (cr_from (mkCharRange m p))" using assms(1) mk(1) by simp
  note b = builder_add_ready[OF this mk(2)]
  have "{c. scalar c \<and> m \<le> c \<and> c \<le> p} = {c. scalar c \<and> m \<le> c \<and> c < a}" using p(3) by blast
  then show thesis using that[OF p(1) le] b mk(1) range_set_mk[OF assms(2) p(4) le(1)] by simp
qed

lemma add_rest:
  assumes "ready b m" "isValidUnicode m" "isValidUnicode e" "m \<le> e"
  shows "ready (builder_add b (mkCharRange m e)) m"
    "covers (builder_add b (mkCharRange m e)) = covers b \<union> {c. scalar c \<and> m \<le> c \<and> c \<le> e}"
proof -
  note mk = mkCharRange_valid[OF assms(2,3,4)]
  have "ready b (cr_from (mkCharRange m e))" using assms(1) mk(1) by simp
  note b = builder_add_ready[OF this mk(2)]
  show "ready (builder_add b (mkCharRange m e)) m"
    "covers (builder_add b (mkCharRange m e)) = covers b \<union> {c. scalar c \<and> m \<le> c \<and> c \<le> e}"
    using b mk(1) range_set_mk[OF assms(2,3,4)] by simp_all
qed

lemma remove_step_correct:
  assumes b: "ready b (cr_from e)" and e: "\<not> cr_isEmpty e" and s: "\<not> cr_isEmpty s" "clean s"
  shows "ready (remove_step s b e) (cr_to e)"
    "covers (remove_step s b e) = covers b \<union> (range_set e - range_set s)"
proof -
  have v: "isValidUnicode (cr_from e)" "isValidUnicode (cr_to e)" "cr_from e \<le> cr_to e"
    "isValidUnicode (cr_from s)" "isValidUnicode (cr_to s)" "cr_from s \<le> cr_to s"
    using e s by (auto simp: nonempty_iff)
  have c: "cr_from s \<noteq> 0xFF00" "cr_to s \<noteq> 0xFEFE" using s(2) by (auto simp: clean_def)
  have "ready (remove_step s b e) (cr_to e) \<and> covers (remove_step s b e) = covers b \<union> (range_set e - range_set s)"
  proof (cases "cr_overlaps e s")
    case False
    then have "range_set e - range_set s = range_set e" using e s by (auto simp: cr_overlaps_def range_set_def)
    then show ?thesis using False builder_add_ready[OF b e] ready_mono[OF _ v(3)] by (simp add: remove_step_def)
  next
    case True
    then have o: "cr_from e \<le> cr_to s" "cr_from s \<le> cr_to e" by (auto simp: cr_overlaps_def)
    define b' where "b' = (if cr_from e < cr_from s
              then (case previousScalar (cr_from s) of None \<Rightarrow> b
                    | Some leftEnd \<Rightarrow> if cr_from e \<le> leftEnd
                                     then builder_add b (mkCharRange (cr_from e) leftEnd) else b)
              else b)"
    have b': "ready b' (cr_from e) \<and> covers b' = covers b \<union> {c. scalar c \<and> cr_from e \<le> c \<and> c < cr_from s}"
    proof (cases "cr_from e < cr_from s")
      case True
      obtain p where "previousScalar (cr_from s) = Some p" "cr_from e \<le> p"
        "ready (builder_add b (mkCharRange (cr_from e) p)) (cr_from e)"
        "covers (builder_add b (mkCharRange (cr_from e) p)) = covers b \<union> {c. scalar c \<and> cr_from e \<le> c \<and> c < cr_from s}"
        by (rule add_before[OF b v(1,4) True c(1)])
      then show ?thesis using True by (simp add: b'_def)
    next
      case False
      then have "{c. scalar c \<and> cr_from e \<le> c \<and> c < cr_from s} = {}" by auto
      then show ?thesis using False b by (auto simp: b'_def)
    qed
    have R: "remove_step s b e = (if cr_to e > cr_to s
              then (case nextScalar (cr_to s) of None \<Rightarrow> b'
                    | Some rightStart \<Rightarrow> if rightStart \<le> cr_to e
                                        then builder_add b' (mkCharRange rightStart (cr_to e)) else b')
              else b')"
      using True unfolding remove_step_def b'_def Let_def by simp
    have parts: "range_set e - range_set s = {c. scalar c \<and> cr_from e \<le> c \<and> c < cr_from s} \<union>
        {c. scalar c \<and> cr_to s < c \<and> c \<le> cr_to e}"
      using o v by (auto simp: range_set_def)
    show ?thesis
    proof (cases "cr_to e > cr_to s")
      case True
      have "scalar (cr_to e)" using v(2) by (simp add: valid_scalar)
      then obtain n where n: "nextScalar (cr_to s) = Some n" "scalar n" "\<And>d. scalar d \<Longrightarrow> cr_to s < d \<longleftrightarrow> n \<le> d" "isValidUnicode n"
        using nextScalar_Some[OF v(5) True] c(2) by metis
      have le: "n \<le> cr_to e" "cr_to s < n" using n(3)[of "cr_to e"] n(3)[OF n(2)] True \<open>scalar (cr_to e)\<close> by auto
      have "ready b' n" using b' o le by (auto intro: ready_mono)
      note r = add_rest[OF this n(4) v(2) le(1)]
      have d: "{c. scalar c \<and> n \<le> c \<and> c \<le> cr_to e} = {c. scalar c \<and> cr_to s < c \<and> c \<le> cr_to e}" using n(3) by blast
      have E: "remove_step s b e = builder_add b' (mkCharRange n (cr_to e))" using R True n(1) le(1) by simp
      have "covers b' = covers b \<union> {c. scalar c \<and> cr_from e \<le> c \<and> c < cr_from s}" using b' by blast
      then have "covers (remove_step s b e) = covers b \<union> (range_set e - range_set s)"
        unfolding E parts r(2) d by (simp only: Un_assoc)
      then show ?thesis using ready_mono[OF r(1) le(1)] unfolding E by blast
    next
      case False
      then have z: "{c. scalar c \<and> cr_to s < c \<and> c \<le> cr_to e} = {}" by auto
      have E: "remove_step s b e = b'" using R False by simp
      show ?thesis unfolding E parts z Un_empty_right using b' ready_mono[OF _ v(3)] by blast
    qed
  qed
  then show "ready (remove_step s b e) (cr_to e)"
    "covers (remove_step s b e) = covers b \<union> (range_set e - range_set s)" by auto
qed

lemma remove_fold:
  assumes "\<not> cr_isEmpty s" "clean s"
  shows "normalized rs \<Longrightarrow> ready b m \<Longrightarrow> \<forall>r\<in>set rs. m \<le> cr_from r \<Longrightarrow>
    normalized (foldl (remove_step s) b rs) \<and> covers (foldl (remove_step s) b rs) = covers b \<union> (covers rs - range_set s)"
proof (induction rs arbitrary: b m)
  case (Cons r rs)
  have r: "\<not> cr_isEmpty r" "normalized rs" "\<forall>t\<in>set rs. gap r t" using Cons.prems by (auto simp: normalized_Cons)
  have "ready b (cr_from r)" using Cons.prems by (auto intro: ready_mono)
  note st = remove_step_correct[OF this r(1) assms]
  have "\<forall>t\<in>set rs. cr_to r \<le> cr_from t" using r gap_less by (meson less_imp_le)
  then show ?case using Cons.IH[OF r(2) st(1)] st(2) by auto
qed (simp add: ready_normalized)

lemma cs_remove_correct:
  assumes "normalized rs" "\<not> cr_isEmpty s" "clean s"
  shows "normalized (cs_remove rs s)" "covers (cs_remove rs s) = covers rs - range_set s"
  using remove_fold[OF assms(2,3,1) ready_Nil[of 0]] assms by (auto simp: cs_remove_def)

lemma subtract_scan_correct:
  assumes "ready b m" "isValidUnicode m" "m \<le> cr_to l" "isValidUnicode (cr_to l)"
    and "normalized right" "\<forall>q\<in>set right. clean q \<and> m \<le> cr_to q"
  shows "ready (subtract_scan b m l right) (cr_to l) \<and>
    covers (subtract_scan b m l right) = covers b \<union> ({c. scalar c \<and> m \<le> c \<and> c \<le> cr_to l} - covers right)"
  using assms
proof (induction b m l right rule: subtract_scan.induct)
  case (1 b m l)
  then show ?case using add_rest[OF 1(1,2,4,3)] ready_mono[OF _ 1(3)] by simp
next
  case (2 b m l q qs)
  have q: "\<not> cr_isEmpty q" "normalized qs" "\<forall>t\<in>set qs. gap q t" using 2(6) by (auto simp: normalized_Cons)
  then have vq: "isValidUnicode (cr_from q)" "isValidUnicode (cr_to q)" "cr_from q \<le> cr_to q" by (auto simp: nonempty_iff)
  have cq: "cr_from q \<noteq> 0xFF00" "cr_to q \<noteq> 0xFEFE" "m \<le> cr_to q" using 2(7) by (auto simp: clean_def)
  show ?case
  proof (cases "cr_from q \<le> cr_to l")
    case False
    have "covers (q # qs) \<inter> {c. scalar c \<and> m \<le> c \<and> c \<le> cr_to l} = {}"
      using False covers_after[OF 2(6)] vq(3) by (fastforce simp: range_set_def)
    then show ?thesis using False 2(4) add_rest[OF 2(2,3,5,4)] ready_mono[OF _ 2(4)] by auto
  next
    case T: True
    define b' where "b' = (if cr_from q > m
              then (case previousScalar (cr_from q) of None \<Rightarrow> b
                    | Some e \<Rightarrow> if m \<le> e then builder_add b (mkCharRange m (min e (cr_to l))) else b)
              else b)"
    have b': "ready b' m \<and> covers b' = covers b \<union> {c. scalar c \<and> m \<le> c \<and> c < cr_from q}"
    proof (cases "m < cr_from q")
      case True
      obtain p where p: "previousScalar (cr_from q) = Some p" "m \<le> p" "p < cr_from q"
        "ready (builder_add b (mkCharRange m p)) m"
        "covers (builder_add b (mkCharRange m p)) = covers b \<union> {c. scalar c \<and> m \<le> c \<and> c < cr_from q}"
        by (rule add_before[OF 2(2,3) vq(1) True cq(1)])
      moreover have "min p (cr_to l) = p" using p T by simp
      ultimately show ?thesis using True by (simp add: b'_def)
    next
      case False
      then have "{c. scalar c \<and> m \<le> c \<and> c < cr_from q} = {}" by auto
      then show ?thesis using False 2(2) by (auto simp: b'_def)
    qed
    have S: "subtract_scan b m l (q # qs) = (if cr_to q \<ge> cr_to l then b'
              else case nextScalar (cr_to q) of None \<Rightarrow> b'
                | Some n \<Rightarrow> if n > cr_to l then b' else subtract_scan b' n l qs)"
      using T unfolding b'_def by (simp add: Let_def)
    show ?thesis
    proof (cases "cr_to q \<ge> cr_to l")
      case True
      have "{c. scalar c \<and> m \<le> c \<and> c \<le> cr_to l} - covers (q # qs) = {c. scalar c \<and> m \<le> c \<and> c < cr_from q}"
        using T True covers_after[OF 2(6)] by (fastforce simp: range_set_def)
      then show ?thesis using S True b' 2(4) by (auto intro: ready_mono)
    next
      case False
      have sl: "scalar (cr_to l)" using 2(5) by (simp add: valid_scalar)
      obtain n where n: "nextScalar (cr_to q) = Some n" "n = nextScalarValue (cr_to q)" "scalar n"
        "\<And>d. scalar d \<Longrightarrow> cr_to q < d \<longleftrightarrow> n \<le> d" "isValidUnicode n"
        using nextScalar_Some[OF vq(2) _ sl] cq(2) False by (metis not_le)
      have le: "n \<le> cr_to l" "cr_to q < n" using n(4)[OF sl] n(4)[OF n(3)] False by auto
      have "ready b' n" using b' le cq(3) by (auto intro: ready_mono)
      moreover have "\<forall>t\<in>set qs. clean t \<and> n \<le> cr_to t"
      proof
        fix t assume t: "t \<in> set qs"
        then have "n < cr_from t" "cr_from t \<le> cr_to t" using q normalized_nonempty[OF q(2) t] n(2)
          by (auto simp: gap_def nonempty_iff)
        then show "clean t \<and> n \<le> cr_to t" using 2(7) t by auto
      qed
      ultimately have IH: "ready (subtract_scan b' n l qs) (cr_to l) \<and>
          covers (subtract_scan b' n l qs) = covers b' \<union> ({c. scalar c \<and> n \<le> c \<and> c \<le> cr_to l} - covers qs)"
        using 2(1)[OF _ b'_def False n(1) _ _ n(5) le(1) 2(5) q(2)] T le by simp
      have "{c. scalar c \<and> m \<le> c \<and> c \<le> cr_to l} - covers (q # qs) =
          {c. scalar c \<and> m \<le> c \<and> c < cr_from q} \<union> ({c. scalar c \<and> n \<le> c \<and> c \<le> cr_to l} - covers qs)"
        using T False covers_after[OF 2(6)] n(4) le cq(3) vq(3) by (fastforce simp: range_set_def)
      then show ?thesis using S False n(1) le IH b' by (simp add: not_less Un_assoc)
    qed
  qed
qed

lemma normalized_dropWhile: "normalized rs \<Longrightarrow> normalized (dropWhile P rs)"
  by (metis normalized_append takeWhile_dropWhile_id)

lemma covers_dropWhile:
  assumes "normalized rs" "n \<le> c"
  shows "c \<in> covers (dropWhile (\<lambda>r. cr_to r < n) rs) \<longleftrightarrow> c \<in> covers rs"
proof -
  have "c \<notin> covers (takeWhile (\<lambda>r. cr_to r < n) rs)"
    using assms(2) by (auto simp: covers_iff dest!: set_takeWhileD)
  moreover have "covers rs = covers (takeWhile (\<lambda>r. cr_to r < n) rs) \<union> covers (dropWhile (\<lambda>r. cr_to r < n) rs)"
    by (simp flip: covers_append)
  ultimately show ?thesis by blast
qed

lemma dropWhile_reaches:
  assumes "normalized rs" "q \<in> set (dropWhile (\<lambda>r. cr_to r < n) rs)"
  shows "n \<le> cr_to q"
proof (cases "dropWhile (\<lambda>r. cr_to r < n) rs")
  case (Cons x xs)
  then have "\<not> cr_to x < n" using hd_dropWhile[of "\<lambda>r. cr_to r < n" rs] by simp
  moreover have "q = x \<or> gap x q" "\<not> cr_isEmpty x" "\<not> cr_isEmpty q"
    using normalized_dropWhile[OF assms(1), of "\<lambda>r. cr_to r < n"] assms(2) Cons
    by (auto simp: normalized_Cons dest: normalized_nonempty)
  ultimately show ?thesis using gap_less[of x q] nonempty_scalars[of q] by auto
qed (use assms in \<open>simp del: dropWhile_eq_Nil_conv\<close>)

lemma subtract_loop_correct:
  "normalized left \<Longrightarrow> normalized right \<Longrightarrow> \<forall>q\<in>set right. clean q \<Longrightarrow> ready b m \<Longrightarrow> \<forall>r\<in>set left. m \<le> cr_from r \<Longrightarrow>
    normalized (subtract_loop b left right) \<and>
    covers (subtract_loop b left right) = covers b \<union> (covers left - covers right)"
proof (induction b left right arbitrary: m rule: subtract_loop.induct)
  case (2 b l left right)
  define right' where "right' = dropWhile (\<lambda>r. cr_to r < cr_from l) right"
  have l: "\<not> cr_isEmpty l" "normalized left" "\<forall>s\<in>set left. gap l s" using 2(2) by (auto simp: normalized_Cons)
  then have vl: "isValidUnicode (cr_from l)" "isValidUnicode (cr_to l)" "cr_from l \<le> cr_to l" by (auto simp: nonempty_iff)
  have r: "normalized right'" "\<forall>q\<in>set right'. clean q \<and> cr_from l \<le> cr_to q"
    using 2(3,4) normalized_dropWhile dropWhile_reaches[OF 2(3)] by (auto simp: right'_def dest: set_dropWhileD)
  have "ready b (cr_from l)" using 2(5,6) by (auto intro: ready_mono)
  note s = subtract_scan_correct[OF this vl(1,3,2) r]
  have "\<forall>s\<in>set left. cr_to l \<le> cr_from s" using l gap_less by (meson less_imp_le)
  then have IH: "normalized (subtract_loop (subtract_scan b (cr_from l) l right') left right') \<and>
    covers (subtract_loop (subtract_scan b (cr_from l) l right') left right') =
      covers (subtract_scan b (cr_from l) l right') \<union> (covers left - covers right')"
    using 2(1)[OF right'_def l(2) r(1)] r(2) s by blast
  have c: "c \<in> covers right' \<longleftrightarrow> c \<in> covers right" if "cr_from l \<le> c" for c
    using covers_dropWhile[OF 2(3) that] by (simp add: right'_def)
  have "range_set l = {c. scalar c \<and> cr_from l \<le> c \<and> c \<le> cr_to l}" by (auto simp: range_set_def)
  then have "range_set l - covers right = {c. scalar c \<and> cr_from l \<le> c \<and> c \<le> cr_to l} - covers right'"
    using c by blast
  moreover have "cr_from l \<le> c" if "c \<in> covers left" for c
    using covers_after(2)[OF 2(2) that] vl(3) by linarith
  then have "covers left - covers right = covers left - covers right'" using c by blast
  moreover have "subtract_loop b (l # left) right = subtract_loop (subtract_scan b (cr_from l) l right') left right'"
    by (simp add: right'_def Let_def)
  ultimately show ?case using IH s by auto
qed (simp add: ready_normalized)

lemma subtractedBy_correct:
  assumes "normalized a" "normalized b" "\<forall>q\<in>set b. clean q"
  shows "normalized (subtractedBy a b)" "covers (subtractedBy a b) = covers a - covers b"
  using subtract_loop_correct[OF assms ready_Nil[of 0]] by (simp_all add: subtractedBy_def)

text \<open>One step of the symmetric difference on two overlapping ranges: what lies before the later start.\<close>

lemma before_both:
  assumes b: "ready b m" "m \<le> cr_from l" "m \<le> cr_from r" and l: "\<not> cr_isEmpty l" "clean l" and r: "\<not> cr_isEmpty r" "clean r"
  defines "b' \<equiv> (if cr_from l < cr_from r
              then (case previousScalar (cr_from r) of None \<Rightarrow> b
                    | Some e \<Rightarrow> builder_add b (mkCharRange (cr_from l) e))
              else if cr_from r < cr_from l
              then (case previousScalar (cr_from l) of None \<Rightarrow> b
                    | Some e \<Rightarrow> builder_add b (mkCharRange (cr_from r) e))
              else b)"
  shows "ready b' (min (cr_from l) (cr_from r))"
    "covers b' = covers b \<union> {c. scalar c \<and> min (cr_from l) (cr_from r) \<le> c \<and> c < max (cr_from l) (cr_from r)}"
proof -
  have v: "isValidUnicode (cr_from l)" "isValidUnicode (cr_from r)" "cr_from l \<noteq> 0xFF00" "cr_from r \<noteq> 0xFF00"
    using l r by (auto simp: nonempty_iff clean_def)
  have rl: "ready b (cr_from l)" "ready b (cr_from r)" using b ready_mono by blast+
  consider "cr_from l < cr_from r" | "cr_from r < cr_from l" | "cr_from l = cr_from r" by linarith
  then have "ready b' (min (cr_from l) (cr_from r)) \<and>
    covers b' = covers b \<union> {c. scalar c \<and> min (cr_from l) (cr_from r) \<le> c \<and> c < max (cr_from l) (cr_from r)}"
  proof cases
    case 1
    show ?thesis by (rule add_before[OF rl(1) v(1,2) 1 v(4)]) (use 1 in \<open>simp add: b'_def\<close>)
  next
    case 2
    show ?thesis by (rule add_before[OF rl(2) v(2,1) 2 v(3)]) (use 2 in \<open>simp add: b'_def\<close>)
  next
    case 3
    then show ?thesis using rl by (auto simp: b'_def)
  qed
  then show "ready b' (min (cr_from l) (cr_from r))"
    "covers b' = covers b \<union> {c. scalar c \<and> min (cr_from l) (cr_from r) \<le> c \<and> c < max (cr_from l) (cr_from r)}" by auto
qed

text \<open>The rest of the longer range.\<close>

lemma shortened:
  assumes r: "normalized (r # rs)" "\<forall>q\<in>set (r # rs). clean q" and l: "\<not> cr_isEmpty l" "clean l"
    and o: "cr_from r \<le> cr_to l" "cr_to l < cr_to r"
  obtains n where "nextScalar (cr_to l) = Some n" "cr_to l < n"
    "normalized (mkCharRange n (cr_to r) # rs)" "\<forall>q\<in>set (mkCharRange n (cr_to r) # rs). clean q \<and> cr_to l \<le> cr_from q"
    "covers (mkCharRange n (cr_to r) # rs) = {c \<in> covers (r # rs). cr_to l < c}"
proof -
  have v: "isValidUnicode (cr_to l)" "cr_to l \<noteq> 0xFEFE" "isValidUnicode (cr_to r)" "scalar (cr_to r)"
    using l r by (auto simp: nonempty_iff clean_def normalized_Cons valid_scalar)
  obtain n where n: "nextScalar (cr_to l) = Some n" "scalar n" "\<And>d. scalar d \<Longrightarrow> cr_to l < d \<longleftrightarrow> n \<le> d"
    "isValidUnicode n" "n \<noteq> 0xFF00"
    using nextScalar_Some[OF v(1) o(2) v(4)] v(2) by metis
  have le: "n \<le> cr_to r" "cr_to l < n" using n(3)[OF v(4)] n(3)[OF n(2)] o by auto
  note mk = mkCharRange_valid[OF n(4) v(3) le(1)]
  have t: "cr_to l \<le> cr_from q" if "q \<in> set rs" for q
    using r(1) that gap_less[of r q] o by (auto simp: normalized_Cons)
  have "normalized (mkCharRange n (cr_to r) # rs)" using r(1) mk by (simp add: normalized_Cons gap_def)
  moreover have "\<forall>q\<in>set (mkCharRange n (cr_to r) # rs). clean q \<and> cr_to l \<le> cr_from q"
    using r(2) n(5) mk(1) le t by (auto simp: clean_def)
  moreover have "covers (mkCharRange n (cr_to r) # rs) = {c \<in> covers (r # rs). cr_to l < c}"
    using range_set_mk[OF n(4) v(3) le(1)] n(3) o covers_after(2)[OF r(1)] by (fastforce simp: range_set_def)
  ultimately show thesis using that n(1) le(2) by blast
qed

lemma overlap_symmetric:
  assumes l: "normalized (l # left)" and r: "normalized (r # right)"
    and o: "cr_from r \<le> cr_to l" "cr_from l \<le> cr_to r"
    and L: "covers L = {c \<in> covers (l # left). min (cr_to l) (cr_to r) < c}"
    and R: "covers R = {c \<in> covers (r # right). min (cr_to l) (cr_to r) < c}"
  shows "{c. scalar c \<and> min (cr_from l) (cr_from r) \<le> c \<and> c < max (cr_from l) (cr_from r)}
      \<union> ((covers L - covers R) \<union> (covers R - covers L))
    = (covers (l # left) - covers (r # right)) \<union> (covers (r # right) - covers (l # left))"
proof (rule set_eqI)
  fix c
  let ?A = "covers (l # left)" and ?B = "covers (r # right)" and ?e = "min (cr_to l) (cr_to r)"
  have ne: "cr_from l \<le> cr_to l" "cr_from r \<le> cr_to r" using l r by (auto simp: normalized_Cons nonempty_iff)
  have a: "c \<in> ?A \<longleftrightarrow> scalar c \<and> cr_from l \<le> c" if "c \<le> ?e"
    using that covers_after(2)[OF l, of c] by (auto simp: range_set_def covers_iff)
  have b: "c \<in> ?B \<longleftrightarrow> scalar c \<and> cr_from r \<le> c" if "c \<le> ?e"
    using that covers_after(2)[OF r, of c] by (auto simp: range_set_def covers_iff)
  show "c \<in> {c. scalar c \<and> min (cr_from l) (cr_from r) \<le> c \<and> c < max (cr_from l) (cr_from r)}
      \<union> ((covers L - covers R) \<union> (covers R - covers L)) \<longleftrightarrow> c \<in> (?A - ?B) \<union> (?B - ?A)"
  proof (cases "c \<le> ?e")
    case True
    then show ?thesis unfolding L R using a[OF True] b[OF True] by auto
  next
    case False
    then have "\<not> c < max (cr_from l) (cr_from r)" using o ne by auto
    then show ?thesis unfolding L R using False by auto
  qed
qed

lemma covers_rest:
  assumes "normalized (r # rs)"
  shows "covers rs = {c \<in> covers (r # rs). cr_to r < c}"
  using covers_after(2)[OF assms] by (auto simp: range_set_def)

lemma tail_from:
  assumes "normalized (r # rs)" "q \<in> set rs"
  shows "cr_to r \<le> cr_from q" "cr_from r \<le> cr_from q"
  using assms gap_less[of r q] nonempty_scalars[of r] by (auto simp: normalized_Cons)

lemma symmetric_loop_correct:
  "normalized left \<Longrightarrow> normalized right \<Longrightarrow> \<forall>q\<in>set left \<union> set right. clean q \<and> m \<le> cr_from q \<Longrightarrow> ready b m \<Longrightarrow>
    normalized (symmetric_loop b left right) \<and> covers (symmetric_loop b left right) =
      covers b \<union> ((covers left - covers right) \<union> (covers right - covers left))"
proof (induction b left right arbitrary: m rule: symmetric_loop.induct)
  case (1 b)
  then show ?case by (simp add: ready_normalized)
next
  case (2 b l left)
  have l: "\<not> cr_isEmpty l" "normalized left" using 2(2) by (auto simp: normalized_Cons)
  have "ready b (cr_from l)" using 2(4,5) by (auto intro: ready_mono)
  note b = builder_add_ready[OF this l(1)]
  have "\<forall>q\<in>set left \<union> set []. clean q \<and> cr_from l \<le> cr_from q" using 2(4) tail_from[OF 2(2)] by auto
  then show ?case using 2(1)[OF l(2) 2(3) _ b(1)] b(2) by auto
next
  case (3 b r right)
  have r: "\<not> cr_isEmpty r" "normalized right" using 3(3) by (auto simp: normalized_Cons)
  have "ready b (cr_from r)" using 3(4,5) by (auto intro: ready_mono)
  note b = builder_add_ready[OF this r(1)]
  have "\<forall>q\<in>set [] \<union> set right. clean q \<and> cr_from r \<le> cr_from q" using 3(4) tail_from[OF 3(3)] by auto
  then show ?case using 3(1)[OF 3(2) r(2) _ b(1)] b(2) by auto
next
  case (4 b l left r right)
  note nl = 4(6) and nr = 4(7)
  have l: "\<not> cr_isEmpty l" "normalized left" "clean l" using nl 4(8) by (auto simp: normalized_Cons)
  have r: "\<not> cr_isEmpty r" "normalized right" "clean r" using nr 4(8) by (auto simp: normalized_Cons)
  have cl: "\<forall>q\<in>set (l # left). clean q" "\<forall>q\<in>set (r # right). clean q" using 4(8) by auto
  have m: "ready b m" "m \<le> cr_from l" "m \<le> cr_from r" using 4(8,9) by auto
  have ne: "cr_from l \<le> cr_to l" "cr_from r \<le> cr_to r" using l r by (auto simp: nonempty_iff)
  show ?case
  proof (cases "cr_to l < cr_from r")
    case True
    have "ready b (cr_from l)" using m by (auto intro: ready_mono)
    note b = builder_add_ready[OF this l(1)]
    have "\<forall>q\<in>set left \<union> set (r # right). clean q \<and> cr_from l \<le> cr_from q"
      using cl tail_from[OF nl] tail_from[OF nr] True ne by fastforce
    then have "normalized (symmetric_loop (builder_add b l) left (r # right)) \<and>
      covers (symmetric_loop (builder_add b l) left (r # right)) =
      covers (builder_add b l) \<union> ((covers left - covers (r # right)) \<union> (covers (r # right) - covers left))"
      using 4(1)[OF True l(2) nr _ b(1)] by blast
    moreover have "range_set l \<inter> covers (r # right) = {}" by (rule range_before[OF True r(1) nr])
    ultimately show ?thesis using True b(2) by auto
  next
    case F1: False
    show ?thesis
    proof (cases "cr_to r < cr_from l")
      case True
      have "ready b (cr_from r)" using m by (auto intro: ready_mono)
      note b = builder_add_ready[OF this r(1)]
      have "\<forall>q\<in>set (l # left) \<union> set right. clean q \<and> cr_from r \<le> cr_from q"
        using cl tail_from[OF nl] tail_from[OF nr] True ne by fastforce
      then have "normalized (symmetric_loop (builder_add b r) (l # left) right) \<and>
        covers (symmetric_loop (builder_add b r) (l # left) right) =
        covers (builder_add b r) \<union> ((covers (l # left) - covers right) \<union> (covers right - covers (l # left)))"
        using 4(2)[OF F1 True nl r(2) _ b(1)] by blast
      moreover have "range_set r \<inter> covers (l # left) = {}" by (rule range_before[OF True l(1) nl])
      ultimately show ?thesis using F1 True b(2) by auto
    next
      case F2: False
      have o: "cr_from r \<le> cr_to l" "cr_from l \<le> cr_to r" using F1 F2 by auto
      define b' where "b' = (if cr_from l < cr_from r
              then (case previousScalar (cr_from r) of None \<Rightarrow> b
                    | Some e \<Rightarrow> builder_add b (mkCharRange (cr_from l) e))
              else if cr_from r < cr_from l
              then (case previousScalar (cr_from l) of None \<Rightarrow> b
                    | Some e \<Rightarrow> builder_add b (mkCharRange (cr_from r) e))
              else b)"
      note b' = before_both[OF m l(1,3) r(1,3), folded b'_def]
      let ?m = "min (cr_from l) (cr_from r)"
      have mo: "?m \<le> cr_to l" "?m \<le> cr_to r" using ne by auto
      let ?E = "{c. scalar c \<and> ?m \<le> c \<and> c < max (cr_from l) (cr_from r)}"
      have step: ?thesis
        if eq: "symmetric_loop b (l # left) (r # right) = symmetric_loop b' L R"
          and IH: "normalized (symmetric_loop b' L R) \<and> covers (symmetric_loop b' L R) =
              covers b' \<union> ((covers L - covers R) \<union> (covers R - covers L))"
          and L: "covers L = {c \<in> covers (l # left). min (cr_to l) (cr_to r) < c}"
          and R: "covers R = {c \<in> covers (r # right). min (cr_to l) (cr_to r) < c}" for L R
        using IH b'(2) overlap_symmetric[OF nl nr o L R] unfolding eq by (metis Un_assoc)
      show ?thesis
      proof (cases "cr_to l < cr_to r")
        case True
        obtain n where n: "nextScalar (cr_to l) = Some n" "normalized (mkCharRange n (cr_to r) # right)"
          "\<forall>q\<in>set (mkCharRange n (cr_to r) # right). clean q \<and> cr_to l \<le> cr_from q"
          "covers (mkCharRange n (cr_to r) # right) = {c \<in> covers (r # right). cr_to l < c}"
          by (rule shortened[OF nr cl(2) l(1,3) o(1) True])
        let ?R = "mkCharRange n (cr_to r) # right"
        have cs: "(case nextScalar (cr_to l) of None \<Rightarrow> [] | Some n \<Rightarrow> mkCharRange n (cr_to r) # right) = ?R" using n(1) by simp
        have e: "min (cr_to l) (cr_to r) = cr_to l" using True by simp
        have "\<forall>q\<in>set left \<union> set ?R. clean q \<and> ?m \<le> cr_from q"
          using n(3) cl(1) tail_from(1)[OF nl] mo by (fastforce intro: order_trans)
        then have "normalized (symmetric_loop b' left ?R) \<and> covers (symmetric_loop b' left ?R) =
              covers b' \<union> ((covers left - covers ?R) \<union> (covers ?R - covers left))"
          using 4(3)[OF F1 F2 b'_def True l(2), unfolded cs, OF n(2) _ b'(1)] by blast
        then show ?thesis
          by (rule step[rotated]) (use F1 F2 True n(4) covers_rest[OF nl] cs in \<open>simp_all add: e Let_def b'_def del: covers_Cons\<close>)
      next
        case F3: False
        show ?thesis
        proof (cases "cr_to r < cr_to l")
          case True
          obtain n where n: "nextScalar (cr_to r) = Some n" "normalized (mkCharRange n (cr_to l) # left)"
            "\<forall>q\<in>set (mkCharRange n (cr_to l) # left). clean q \<and> cr_to r \<le> cr_from q"
            "covers (mkCharRange n (cr_to l) # left) = {c \<in> covers (l # left). cr_to r < c}"
            by (rule shortened[OF nl cl(1) r(1,3) o(2) True])
          let ?L = "mkCharRange n (cr_to l) # left"
          have cs: "(case nextScalar (cr_to r) of None \<Rightarrow> [] | Some n \<Rightarrow> mkCharRange n (cr_to l) # left) = ?L" using n(1) by simp
          have e: "min (cr_to l) (cr_to r) = cr_to r" using True by simp
          have "\<forall>q\<in>set ?L \<union> set right. clean q \<and> ?m \<le> cr_from q"
            using n(3) cl(2) tail_from(1)[OF nr] mo by (fastforce intro: order_trans)
          then have "normalized (symmetric_loop b' ?L right) \<and> covers (symmetric_loop b' ?L right) =
              covers b' \<union> ((covers ?L - covers right) \<union> (covers right - covers ?L))"
            using 4(4)[OF F1 F2 b'_def F3 True, unfolded cs, OF n(2) r(2) _ b'(1)] by blast
          then show ?thesis
            by (rule step[rotated]) (use F1 F2 F3 True n(4) covers_rest[OF nr] cs in \<open>simp_all add: e Let_def b'_def del: covers_Cons\<close>)
        next
          case F4: False
          have e: "cr_to r = cr_to l" using F3 F4 by simp
          have "\<forall>q\<in>set left \<union> set right. clean q \<and> ?m \<le> cr_from q"
            using cl tail_from(1)[OF nl] tail_from(1)[OF nr] mo by (fastforce intro: order_trans)
          then have "normalized (symmetric_loop b' left right) \<and> covers (symmetric_loop b' left right) =
              covers b' \<union> ((covers left - covers right) \<union> (covers right - covers left))"
            using 4(5)[OF F1 F2 b'_def F3 F4 l(2) r(2) _ b'(1)] by blast
          then show ?thesis
            by (rule step[rotated]) (use F1 F2 F3 F4 e covers_rest[OF nl] covers_rest[OF nr] in \<open>simp_all add: Let_def b'_def del: covers_Cons\<close>)
        qed
      qed
    qed
  qed
qed

lemma symmetricDifferenceWith_correct:
  assumes "normalized a" "normalized b" "\<forall>q\<in>set a \<union> set b. clean q"
  shows "normalized (symmetricDifferenceWith a b)"
    "covers (symmetricDifferenceWith a b) = (covers a - covers b) \<union> (covers b - covers a)"
  using symmetric_loop_correct[OF assms(1,2) _ ready_Nil[of 0]] assms(3) by (simp_all add: symmetricDifferenceWith_def)

section \<open>Queries\<close>

lemma members_iff: "c \<in> members rs \<longleftrightarrow> isValidUnicode c \<and> (\<exists>r\<in>set rs. cr_from r \<le> c \<and> c \<le> cr_to r)"
  by (auto simp: members_def covers_iff valid_scalar)

lemma cr_contains_nonempty:
  "\<not> cr_isEmpty r \<Longrightarrow> cr_contains r c \<longleftrightarrow> isValidUnicode c \<and> cr_from r \<le> c \<and> c \<le> cr_to r"
  by (auto simp: cr_contains_def)

lemma cs_contains_correct:
  assumes "normalized rs"
  shows "cs_contains rs c \<longleftrightarrow> c \<in> members rs"
proof (cases "isValidUnicode c \<and> 2 < length rs")
  case False
  then show ?thesis using cr_contains_nonempty normalized_nonempty[OF assms]
    by (auto simp: cs_contains_def members_iff list_ex_iff)
next
  case True
  define k where "k = length (takeWhile (\<lambda>r. cr_from r < Suc c) rs)"
  note sp = sorted_split[OF assms k_def]
  have C: "cs_contains rs c \<longleftrightarrow> k \<noteq> 0 \<and> cr_contains (rs ! (k - 1)) c"
    using True by (simp add: cs_contains_def k_def less_Suc_eq_le)
  have rs: "set rs = set (take k rs) \<union> set (drop k rs)" by (metis append_take_drop_id set_append)
  have right: "\<not> cr_from r \<le> c" if "r \<in> set (drop k rs)" for r using sp(2) that by fastforce
  show ?thesis
  proof (cases "k = 0")
    case True
    then have "\<forall>r\<in>set rs. \<not> cr_from r \<le> c" using right by simp
    then show ?thesis using C True unfolding members_iff by blast
  next
    case k: False
    define p where "p = rs ! (k - 1)"
    have "Suc (k - 1) = k" "k - 1 < length rs" using k sp(6) by linarith+
    then have tk: "take k rs = take (k - 1) rs @ [p]"
      unfolding p_def by (metis take_Suc_conv_app_nth)
    have n: "normalized (take (k - 1) rs @ [p])" using sp(3) unfolding tk .
    have "cr_from p < Suc c" using sp(1) unfolding tk by simp
    moreover have "\<not> cr_isEmpty p" "\<forall>x\<in>set (take (k - 1) rs). gap x p"
      using n unfolding normalized_append normalized_Cons by simp_all
    moreover have "\<forall>x\<in>set (take (k - 1) rs). \<not> cr_isEmpty x"
      using normalized_nonempty[OF n] by simp
    ultimately have p: "\<not> cr_isEmpty p" "\<forall>x\<in>set (take (k - 1) rs). gap x p \<and> \<not> cr_isEmpty x" "cr_from p \<le> c"
      by simp_all
    have "\<not> c \<le> cr_to x" if "x \<in> set (take (k - 1) rs)" for x using p that gap_less[of x p] by fastforce
    then have "(\<exists>r\<in>set rs. cr_from r \<le> c \<and> c \<le> cr_to r) \<longleftrightarrow> c \<le> cr_to p"
      using right p(3) unfolding rs tk by auto
    then show ?thesis using C k True p cr_contains_nonempty[OF p(1)] by (simp add: members_iff p_def)
  qed
qed

lemma head_range:
  assumes "normalized (l # left)" "normalized (r # right)" "cr_from l \<le> cr_to r"
  shows "range_set l \<subseteq> covers (r # right) \<longleftrightarrow> cr_from r \<le> cr_from l \<and> cr_to l \<le> cr_to r"
proof
  assume s: "range_set l \<subseteq> covers (r # right)"
  have l: "scalar (cr_from l)" "scalar (cr_to l)" "cr_from l \<le> cr_to l" and r: "scalar (cr_to r)"
    using assms by (auto simp: normalized_Cons dest!: nonempty_scalars)
  have "cr_from l \<in> covers (r # right)" using s l by (auto simp: range_set_def)
  then have 1: "cr_from r \<le> cr_from l" using covers_after(2)[OF assms(2)] assms(3) by (fastforce simp: range_set_def)
  have "cr_to l \<le> cr_to r"
  proof (rule ccontr)
    assume "\<not> cr_to l \<le> cr_to r"
    then have g: "cr_to r < cr_to l" by simp
    let ?n = "nextScalarValue (cr_to r)"
    have n: "scalar ?n" "?n \<le> cr_to l" "cr_to r < ?n"
      using next_scalar[OF r l(2) g] next_iff[OF r l(2)] g next_gt[OF r] by auto
    then have "?n \<in> range_set l" using assms(3) by (simp add: range_set_def)
    then have "?n \<in> covers right" using s n(3) by (auto simp: range_set_def)
    then show False using covers_after(1)[OF assms(2)] by blast
  qed
  then show "cr_from r \<le> cr_from l \<and> cr_to l \<le> cr_to r" using 1 by simp
qed (auto simp: range_set_def)

lemma isSubsetOf_loop_correct:
  "normalized left \<Longrightarrow> normalized right \<Longrightarrow> isSubsetOf_loop left right \<longleftrightarrow> covers left \<subseteq> covers right"
proof (induction left right rule: isSubsetOf_loop.induct)
  case (2 l left right)
  define D where "D = dropWhile (\<lambda>r. cr_to r < cr_from l) right"
  have l: "\<not> cr_isEmpty l" "normalized left" using 2(2) by (auto simp: normalized_Cons)
  have c: "c \<in> covers D \<longleftrightarrow> c \<in> covers right" if "cr_from l \<le> c" for c
    using covers_dropWhile[OF 2(3) that] by (simp add: D_def)
  have ge: "cr_from l \<le> c" if "c \<in> covers (l # left)" for c
    using that covers_after(2)[OF 2(2)] nonempty_scalars[OF l(1)] by (fastforce simp: range_set_def)
  have D: "covers (l # left) \<subseteq> covers right \<longleftrightarrow> covers (l # left) \<subseteq> covers D"
    "covers left \<subseteq> covers right \<longleftrightarrow> covers left \<subseteq> covers D" using c ge by auto
  show ?case
  proof (cases D)
    case Nil
    have "cr_from l \<in> covers (l # left)" using nonempty_scalars[OF l(1)] by (auto simp: range_set_def)
    then show ?thesis using Nil D(1) by (auto simp flip: D_def)
  next
    case (Cons r rest)
    have n: "normalized (r # rest)" using normalized_dropWhile[OF 2(3)] Cons by (metis D_def)
    have "cr_from l \<le> cr_to r" using dropWhile_reaches[OF 2(3), of r "cr_from l"] Cons by (simp add: D_def)
    note h = head_range[OF 2(2) n this]
    have IH: "isSubsetOf_loop left (r # rest) \<longleftrightarrow> covers left \<subseteq> covers (r # rest)"
      if "\<not> (cr_from l < cr_from r \<or> cr_to r < cr_to l)"
      using 2(1)[OF Cons[unfolded D_def] that l(2) n] .
    have "covers (l # left) \<subseteq> covers D \<longleftrightarrow> range_set l \<subseteq> covers (r # rest) \<and> covers left \<subseteq> covers (r # rest)"
      unfolding Cons covers_Cons[of l] by blast
    then show ?thesis using D(1) h IH Cons by (auto simp: not_less simp flip: D_def simp del: covers_Cons)
  qed
qed simp

lemma normalized_unique:
  "normalized a \<Longrightarrow> normalized b \<Longrightarrow> covers a = covers b \<Longrightarrow> a = b"
proof (induction a arbitrary: b)
  case Nil
  then show ?case by (cases b) (auto simp: normalized_Cons range_set_def dest!: nonempty_scalars)
next
  case (Cons l left)
  have l: "\<not> cr_isEmpty l" "normalized left" using Cons.prems(1) by (auto simp: normalized_Cons)
  have fl: "cr_from l \<in> covers (l # left)" using nonempty_scalars[OF l(1)] by (auto simp: range_set_def)
  then obtain r right where b: "b = r # right" using Cons.prems(3) by (cases b) auto
  have r: "\<not> cr_isEmpty r" "normalized right" using Cons.prems(2) b by (auto simp: normalized_Cons)
  have ge: "cr_from x \<le> c" if "normalized (x # xs)" "c \<in> covers (x # xs)" for x xs c
    using that covers_after(2)[OF that(1)] by (fastforce simp: range_set_def normalized_Cons dest: nonempty_scalars)
  have fr: "cr_from r \<in> covers b" using nonempty_scalars[OF r(1)] b by (auto simp: range_set_def)
  have "cr_from l = cr_from r"
  proof (rule antisym)
    show "cr_from l \<le> cr_from r" using ge[OF Cons.prems(1)] fr unfolding Cons.prems(3) .
    show "cr_from r \<le> cr_from l" using ge[OF Cons.prems(2)[unfolded b]] fl unfolding Cons.prems(3) b .
  qed
  moreover have "cr_from l \<le> cr_to r" "cr_from r \<le> cr_to l"
    using calculation nonempty_scalars[OF l(1)] nonempty_scalars[OF r(1)] by auto
  then have "cr_to l \<le> cr_to r" "cr_to r \<le> cr_to l"
    using head_range[OF Cons.prems(1), of r right] head_range[of r right l left] Cons.prems b by (metis Un_upper1 covers_Cons)+
  ultimately have e: "l = r" by (simp add: char_range.equality)
  have "covers left = covers right"
    using covers_rest[OF Cons.prems(1)] covers_rest[OF Cons.prems(2)[unfolded b]] Cons.prems(3) unfolding b e by presburger
  then show ?case using Cons.IH[OF l(2) r(2)] b e by simp
qed

section \<open>Properties\<close>

text \<open>C15: Sets of characters stay normalised and combine as sets: union and intersection of
  normalised sets, and adding a range to one, give normalised sets with the united and the common
  members, and a character is contained exactly when it is a member.\<close>

theorem char_set_union_intersection:
  assumes "normalized a" "normalized b" "\<not> cr_isEmpty r"
  shows "normalized (unitedWith a b) \<and> members (unitedWith a b) = members a \<union> members b
    \<and> normalized (intersectedWith a b) \<and> members (intersectedWith a b) = members a \<inter> members b
    \<and> normalized (cs_add a r) \<and> members (cs_add a r) = members a \<union> members [r]
    \<and> (cs_contains a c \<longleftrightarrow> c \<in> members a)"
  using unitedWith_correct[OF assms(1,2)] intersectedWith_correct[OF assms(1,2)] cs_add_correct[OF assms(1,3)]
    cs_contains_correct[OF assms(1)]
  by (auto simp: members_def)

theorem char_set_union_intersection_witness:
  "members (unitedWith [mkCharRange 48 57] [mkCharRange 55 70]) = members [mkCharRange 48 57] \<union> members [mkCharRange 55 70]"
  using char_set_union_intersection[of "[mkCharRange 48 57]" "[mkCharRange 55 70]" "mkCharRange 48 57"]
  by (simp add: normalized_Cons cr_isEmpty_def mkCharRange_def isValidUnicode_def)

text \<open>C27: The difference, the symmetric difference and the removal of a range give normalised sets
  with exactly the members they should have, when no range involved starts right after the reserved
  code point U+FEFF or ends right before it.\<close>

theorem char_set_difference:
  assumes "normalized a" "normalized b" "list_all clean a" "list_all clean b" "\<not> cr_isEmpty r" "clean r"
  shows "normalized (subtractedBy a b) \<and> members (subtractedBy a b) = members a - members b
    \<and> normalized (symmetricDifferenceWith a b)
    \<and> members (symmetricDifferenceWith a b) = (members a - members b) \<union> (members b - members a)
    \<and> normalized (cs_remove a r) \<and> members (cs_remove a r) = members a - members [r]"
proof -
  have "\<forall>q\<in>set a \<union> set b. clean q" "\<forall>q\<in>set b. clean q" using assms(3,4) by (auto simp: list_all_iff)
  note c = subtractedBy_correct[OF assms(1,2) this(2)] symmetricDifferenceWith_correct[OF assms(1,2) this(1)]
    cs_remove_correct[OF assms(1,5,6)]
  have "members [r] = {c \<in> range_set r. isValidUnicode c}" by (auto simp: members_def)
  then show ?thesis using c(1,3,5) unfolding members_def c(2,4,6) by blast
qed

theorem char_set_difference_witness:
  "members (subtractedBy [mkCharRange 0 0x10FFFF] [mkCharRange 0xD7FF 0xFEF0])
    = members [mkCharRange 0 0x10FFFF] - members [mkCharRange 0xD7FF 0xFEF0]"
  using char_set_difference[of "[mkCharRange 0 0x10FFFF]" "[mkCharRange 0xD7FF 0xFEF0]" "mkCharRange 48 57"]
  by (simp add: normalized_Cons cr_isEmpty_def mkCharRange_def isValidUnicode_def clean_def)

text \<open>Where a range does touch the reserved code point the operations lose characters: removing
  U+FF00 from the set of all characters also removes every character before it, because the range
  that should remain would end at U+FEFF and is taken for empty, and listing the characters of a
  range across U+FEFF yields U+FEFF itself and stops there.\<close>

lemma char_set_reserved_boundary:
  "cs_remove (cs_fromRange 0 0x10FFFF) (singleCharRange 0xFF00) = cs_fromRange 0xFF01 0x10FFFF
    \<and> 0x41 \<in> members (cs_fromRange 0 0x10FFFF) \<and> 0x41 \<notin> members (cs_fromRange 0xFF01 0x10FFFF)
    \<and> cs_toList (cs_fromRange 0xFEFE 0xFF01) = [0xFEFE, 0xFEFF] \<and> \<not> isValidUnicode 0xFEFF"
proof (intro conjI)
  have f: "cs_fromRange 0 0x10FFFF = [\<lparr>cr_from = 0, cr_to = 0x10FFFF\<rparr>]"
    "cs_fromRange 0xFF01 0x10FFFF = [\<lparr>cr_from = 0xFF01, cr_to = 0x10FFFF\<rparr>]"
    "cs_fromRange 0xFEFE 0xFF01 = [\<lparr>cr_from = 0xFEFE, cr_to = 0xFF01\<rparr>]"
    by (simp_all add: cs_fromRange_def builder_add_def mkCharRange_def cr_isEmpty_def isValidUnicode_def)
  show "cs_remove (cs_fromRange 0 0x10FFFF) (singleCharRange 0xFF00) = cs_fromRange 0xFF01 0x10FFFF"
    unfolding f by (simp add: cs_remove_def remove_step_def singleCharRange_def cr_overlaps_def cr_isEmpty_def
        isValidUnicode_def previousScalar_def nextScalar_def mkCharRange_def builder_add_def cEmptyValue_def)
  show "0x41 \<in> members (cs_fromRange 0 0x10FFFF)" "0x41 \<notin> members (cs_fromRange 0xFF01 0x10FFFF)"
    unfolding f by (simp_all add: members_iff isValidUnicode_def)
  show "cs_toList (cs_fromRange 0xFEFE 0xFF01) = [0xFEFE, 0xFEFF]"
    unfolding f cs_toList_def
    by (simp, subst range_chars.simps, simp add: nextScalar_def isValidUnicode_def,
        subst range_chars.simps, simp add: nextScalar_def isValidUnicode_def)
  show "\<not> isValidUnicode 0xFEFF" by (simp add: isValidUnicode_def)
qed

text \<open>C28: The normalised form decides the comparisons: one set is reported as part of another exactly
  when every scalar value its ranges cover is covered by the other, and two sets have equal ranges
  exactly when they cover the same scalar values; the reserved code point counts here, so the ranges
  of two sets with the same members can differ.\<close>

theorem char_set_comparison:
  assumes "normalized a" "normalized b"
  shows "(isSubsetOf a b \<longleftrightarrow> covers a \<subseteq> covers b) \<and> (a = b \<longleftrightarrow> covers a = covers b)
    \<and> (let x = cs_addChar (cs_addChar [] 0xFEFE) 0xFF00; y = cs_fromRange 0xFEFE 0xFF00
       in members x = members y \<and> x \<noteq> y \<and> \<not> isSubsetOf y x)"
proof -
  have e: "cs_addChar (cs_addChar [] 0xFEFE) 0xFF00 = [\<lparr>cr_from = 0xFEFE, cr_to = 0xFEFE\<rparr>, \<lparr>cr_from = 0xFF00, cr_to = 0xFF00\<rparr>]"
    "cs_fromRange 0xFEFE 0xFF00 = [\<lparr>cr_from = 0xFEFE, cr_to = 0xFF00\<rparr>]"
    by (simp_all add: cs_addChar_def cs_add_def singleCharRange_def cr_isEmpty_def isValidUnicode_def canMergeWith_def
        cr_overlaps_def cr_isAdjacentTo_def nextScalarValue_def cs_fromRange_def builder_add_def mkCharRange_def)
  have "isValidUnicode c \<and> (c = 0xFEFE \<or> c = 0xFF00) \<longleftrightarrow> isValidUnicode c \<and> 0xFEFE \<le> c \<and> c \<le> 0xFF00" for c
    by (auto simp: isValidUnicode_def)
  moreover have "(\<exists>r\<in>set [\<lparr>cr_from = 0xFEFE, cr_to = 0xFEFE\<rparr>, \<lparr>cr_from = 0xFF00, cr_to = 0xFF00\<rparr>]. cr_from r \<le> c \<and> c \<le> cr_to r)
      \<longleftrightarrow> c = 0xFEFE \<or> c = 0xFF00"
    "(\<exists>r\<in>set [\<lparr>cr_from = 0xFEFE, cr_to = 0xFF00\<rparr>]. cr_from r \<le> c \<and> c \<le> cr_to r)
      \<longleftrightarrow> 0xFEFE \<le> c \<and> c \<le> 0xFF00" for c
    by (simp, arith, simp)
  ultimately have "members [\<lparr>cr_from = 0xFEFE, cr_to = 0xFEFE\<rparr>, \<lparr>cr_from = 0xFF00, cr_to = 0xFF00\<rparr>]
      = members [\<lparr>cr_from = 0xFEFE, cr_to = 0xFF00\<rparr>]"
    unfolding set_eq_iff members_iff by blast
  moreover have "\<not> isSubsetOf_loop [\<lparr>cr_from = 0xFEFE, cr_to = 0xFF00\<rparr>] [\<lparr>cr_from = 0xFEFE, cr_to = 0xFEFE\<rparr>, \<lparr>cr_from = 0xFF00, cr_to = 0xFF00\<rparr>]"
    by simp
  ultimately show ?thesis
    using isSubsetOf_loop_correct[OF assms] normalized_unique[OF assms] unfolding e Let_def
isSubsetOf_def by (simp, blast)
qed

theorem char_set_comparison_witness:
  "isSubsetOf [mkCharRange 50 55] [mkCharRange 48 57] \<longleftrightarrow> covers [mkCharRange 50 55] \<subseteq> covers [mkCharRange 48 57]"
  using char_set_comparison[of "[mkCharRange 50 55]" "[mkCharRange 48 57]"]
  by (simp add: normalized_Cons cr_isEmpty_def mkCharRange_def isValidUnicode_def)

end
