(* ===== verification/IsoText.thy ===== *)
theory IsoText
  imports Instants IntegerText
begin

text \<open>
  ISO date and time texts: the parser \<open>src/erbsland/time/impl/IsoDateTimeParser.cpp\<close> with the
  readers of \<open>DateTime.cpp\<close> and \<open>Timestamp.cpp\<close> built on it, and the writers \<open>toIsoString\<close> of \<open>Date.cpp\<close>,
  \<open>Time.cpp\<close>, \<open>DateTime.cpp\<close> and \<open>Timestamp.cpp\<close>. A \<open>DateTime\<close> keeps the UTC date and time and
  a fixed offset in seconds; named time zones are left out. Numbers are read by the integer scanner
  and written by the integer formatter of theory IntegerText. A text is the list of its characters.
\<close>

section \<open>Precision and flags\<close>

datatype precision =
  PYear | PMonth | PDay | PHour | PMinute | PSecond | PMillisecond | PMicrosecond | PNanosecond

fun precision_rank :: "precision \<Rightarrow> nat" where
  "precision_rank PYear = 0"
| "precision_rank PMonth = 1"
| "precision_rank PDay = 2"
| "precision_rank PHour = 3"
| "precision_rank PMinute = 4"
| "precision_rank PSecond = 5"
| "precision_rank PMillisecond = 6"
| "precision_rank PMicrosecond = 7"
| "precision_rank PNanosecond = 8"

lemma precision_rank_inj: "precision_rank p = precision_rank q \<Longrightarrow> p = q"
  by (cases p; cases q) simp_all

text \<open>The enumeration is compared by its values.\<close>

instantiation precision :: linorder
begin

definition less_eq_precision :: "precision \<Rightarrow> precision \<Rightarrow> bool" where
  "less_eq_precision p q \<longleftrightarrow> precision_rank p \<le> precision_rank q"

definition less_precision :: "precision \<Rightarrow> precision \<Rightarrow> bool" where
  "less_precision p q \<longleftrightarrow> precision_rank p < precision_rank q"

instance
  by standard (auto simp: less_eq_precision_def less_precision_def intro: precision_rank_inj)

end

record iso_flags =
  Extended :: bool
  TimePrefix :: bool
  TimeShift :: bool
  TimeShiftAlwaysComplete :: bool
  TimeShiftUpToSeconds :: bool
  UseDotFraction :: bool

definition no_flags :: iso_flags where
  "no_flags = \<lparr>Extended = False, TimePrefix = False, TimeShift = False, TimeShiftAlwaysComplete = False,
     TimeShiftUpToSeconds = False, UseDotFraction = False\<rparr>"

section \<open>Writing\<close>

text \<open>Numbers are written with the decimal format, filled with zeros to a field width.\<close>

definition zero_filled :: "nat \<Rightarrow> integer_format" where
  "zero_filled width = defaultFormat\<lparr>fmt_zeroFill := True, fmt_fieldWidth := width\<rparr>"

definition iso_number :: "nat \<Rightarrow> int \<Rightarrow> char32 list" where
  "iso_number width v = appendInteger int64_type v (zero_filled width)"

definition date_toIsoString :: "iso_flags \<Rightarrow> precision \<Rightarrow> date \<Rightarrow> char32 list" where
  "date_toIsoString flags precision x =
     (if \<not> isValid x then []
      else let p = date_parts_of x;
               separator = (if Extended flags then [45] else [])
           in iso_number 4 (dp_year p)
              @ (if precision \<ge> PMonth then separator else [])
              @ (if precision \<ge> PMonth then iso_number 2 (dp_month p) else [])
              @ (if precision \<ge> PDay then separator else [])
              @ (if precision \<ge> PDay then iso_number 2 (dp_day p) else []))"

definition fraction_text :: "precision \<Rightarrow> int \<Rightarrow> char32 list" where
  "fraction_text precision fraction =
     (if precision \<ge> PMillisecond
      then (if precision = PMicrosecond then iso_number 6 (fraction div 1000)
            else if precision = PNanosecond then iso_number 9 fraction
            else iso_number 3 (fraction div 1000000))
      else [])"

definition time_toIsoString :: "iso_flags \<Rightarrow> precision \<Rightarrow> time_of_day \<Rightarrow> char32 list" where
  "time_toIsoString flags precision t =
     (let separator = (if UseDotFraction flags then 46 else 44);
          partSeparator = (if Extended flags then [58] else [])
      in (if TimePrefix flags then [84] else [])
         @ iso_number 2 (time_hour t)
         @ (if precision \<ge> PMinute then partSeparator else [])
         @ (if precision \<ge> PMinute then iso_number 2 (time_minute t) else [])
         @ (if precision \<ge> PSecond then partSeparator else [])
         @ (if precision \<ge> PSecond then iso_number 2 (time_second t) else [])
         @ (if precision \<ge> PMillisecond then [separator] else [])
         @ fraction_text precision (nanosecondFraction t))"

definition isoTimeShiftString :: "int \<Rightarrow> iso_flags \<Rightarrow> char32 list" where
  "isoTimeShiftString shift flags =
     (if shift = 0 \<and> \<not> TimeShiftAlwaysComplete flags then [90]
      else let sign = (if shift < 0 then 45 else 43);
               remaining = (if shift < 0 then sat64 (- shift) else shift);
               hours = remaining sdiv 3600; remaining = remaining - hours * 3600;
               minutes = remaining sdiv 60; seconds = remaining - minutes * 60;
               includeSeconds = (TimeShiftUpToSeconds flags \<and> (seconds \<noteq> 0 \<or> TimeShiftAlwaysComplete flags));
               separator = (if Extended flags then [58] else [])
           in [sign] @ iso_number 2 hours @ separator @ iso_number 2 minutes
              @ (if includeSeconds then separator else [])
              @ (if includeSeconds then iso_number 2 seconds else []))"

text \<open>A date and time with a fixed offset. Its date and time parts are local.\<close>

record shifted_date_time =
  sd_utc :: date_time
  sd_offset :: int

definition invalid_date_time :: shifted_date_time where
  "invalid_date_time = \<lparr>sd_utc = (invalid_date, time_first), sd_offset = 0\<rparr>"

definition sd_isValid :: "shifted_date_time \<Rightarrow> bool" where
  "sd_isValid z \<longleftrightarrow> isValid (fst (sd_utc z))"

definition localDateTime :: "shifted_date_time \<Rightarrow> date_time" where
  "localDateTime z =
     (if \<not> sd_isValid z then (invalid_date, time_first)
      else let (t, days) = addDurationWithWrap (sd_offset z) (snd (sd_utc z))
           in (addDays days (fst (sd_utc z)), t))"

definition mkShiftedDateTime :: "date \<Rightarrow> time_of_day \<Rightarrow> int \<Rightarrow> shifted_date_time" where
  "mkShiftedDateTime localDate localTime shift =
     (if \<not> isValid localDate then \<lparr>sd_utc = (localDate, time_first), sd_offset = 0\<rparr>
      else let (t, days) = addDurationWithWrap (sat64 (- shift)) localTime;
               d = addDays days localDate
           in if \<not> isValid d then \<lparr>sd_utc = (d, time_first), sd_offset = 0\<rparr>
              else \<lparr>sd_utc = (d, t), sd_offset = shift\<rparr>)"

definition dt_toIsoString :: "iso_flags \<Rightarrow> precision \<Rightarrow> shifted_date_time \<Rightarrow> char32 list" where
  "dt_toIsoString flags precision z =
     (if \<not> sd_isValid z then []
      else let datePrecision = (if precision < PDay then precision else PDay);
               dateText = date_toIsoString flags datePrecision (fst (localDateTime z))
           in if precision < PHour then dateText
              else dateText
                @ (if TimePrefix flags then [84] else [32])
                @ time_toIsoString (flags\<lparr>TimePrefix := False\<rparr>) precision (snd (localDateTime z))
                @ (if TimeShift flags then isoTimeShiftString (sd_offset z) flags else []))"

definition ts_toDateTime :: "timestamp \<Rightarrow> shifted_date_time option" where
  "ts_toDateTime t =
     (if \<not> ts_isValid t then None else Some (mkShiftedDateTime (ts_date t) (ts_time t) 0))"

definition ts_toIsoString :: "timestamp \<Rightarrow> char32 list option" where
  "ts_toIsoString t =
     (case ts_toDateTime t of None \<Rightarrow> None
      | Some v \<Rightarrow> Some (dt_toIsoString (no_flags\<lparr>Extended := True, TimePrefix := True, TimeShift := True,
                          UseDotFraction := True\<rparr>) PNanosecond v))"

section \<open>Parsing\<close>

text \<open>The state of the parser. A step that fails ends the parse, its state is dropped.\<close>

record iso_parser =
  ip_rest :: "char32 list"
  ip_year :: int
  ip_month :: int
  ip_day :: int
  ip_hour :: int
  ip_minute :: int
  ip_second :: int
  ip_nanosecond :: int
  ip_precision :: precision
  ip_hasOffset :: bool
  ip_offset :: int

definition iso_start :: "char32 list \<Rightarrow> iso_parser" where
  "iso_start text = \<lparr>ip_rest = text, ip_year = 0, ip_month = 1, ip_day = 1, ip_hour = 0, ip_minute = 0,
     ip_second = 0, ip_nanosecond = 0, ip_precision = PYear, ip_hasOffset = False, ip_offset = 0\<rparr>"

definition advanceIf :: "char32 list \<Rightarrow> char32 list \<Rightarrow> (char32 list) option" where
  "advanceIf expected cs =
     (case cs of [] \<Rightarrow> None | c # rest \<Rightarrow> if c \<in> set expected then Some rest else None)"

definition isAsciiDigit :: "char32 \<Rightarrow> bool" where
  "isAsciiDigit c \<longleftrightarrow> c \<ge> 48 \<and> c \<le> 57"

definition readNDigits :: "nat \<Rightarrow> iso_parser \<Rightarrow> (int \<times> iso_parser) option" where
  "readNDigits count p =
     (case scanInteger (fixedDecimal count) 0 (ip_rest p) of (result, rest) \<Rightarrow>
        if res_status result \<noteq> Success then None
        else Some (int (res_value result), p\<lparr>ip_rest := rest\<rparr>))"

definition parseDate :: "iso_parser \<Rightarrow> iso_parser option" where
  "parseDate p = Option.bind (readNDigits 4 p) (\<lambda>(year, p).
     let p = p\<lparr>ip_year := year\<rparr>;
         extended = advanceIf [45] (ip_rest p) \<noteq> None;
         p = p\<lparr>ip_rest := (case advanceIf [45] (ip_rest p) of Some rest \<Rightarrow> rest | None \<Rightarrow> ip_rest p)\<rparr>;
         current = current_char (ip_rest p)
     in if extended \<and> \<not> isAsciiDigit current then None
        else if \<not> isAsciiDigit current then Some p
        else Option.bind (readNDigits 2 p) (\<lambda>(month, p).
          let p = p\<lparr>ip_month := month, ip_precision := PMonth\<rparr>;
              readDay = (\<lambda>p. Option.bind (readNDigits 2 p) (\<lambda>(day, p).
                 Some (p\<lparr>ip_day := day, ip_precision := PDay\<rparr>)))
          in if extended
             then (case advanceIf [45] (ip_rest p) of
                     None \<Rightarrow> Some p
                   | Some rest \<Rightarrow> if \<not> isAsciiDigit (current_char rest) then None
                                  else readDay (p\<lparr>ip_rest := rest\<rparr>))
             else if \<not> isAsciiDigit (current_char (ip_rest p)) then Some p
             else readDay p))"

definition parseFraction :: "iso_parser \<Rightarrow> iso_parser option" where
  "parseFraction p =
     (case scanInteger (parserDefault\<lparr>opt_fixedBase := Some Decimal, opt_maximumDigits := Some 9\<rparr>) 0 (ip_rest p) of
        (result, rest) \<Rightarrow>
          if res_status result \<noteq> Success then None
          else Some (p\<lparr>ip_rest := rest, ip_nanosecond := int (res_value result) * 10 ^ (9 - res_digitCount result),
                       ip_precision := PNanosecond\<rparr>))"

definition parseTime :: "iso_parser \<Rightarrow> iso_parser option" where
  "parseTime p = Option.bind (readNDigits 2 p) (\<lambda>(hour, p).
     let p = p\<lparr>ip_hour := hour, ip_precision := PHour\<rparr>;
         extended = advanceIf [58] (ip_rest p) \<noteq> None;
         p = p\<lparr>ip_rest := (case advanceIf [58] (ip_rest p) of Some rest \<Rightarrow> rest | None \<Rightarrow> ip_rest p)\<rparr>;
         current = current_char (ip_rest p)
     in if extended \<and> \<not> isAsciiDigit current then None
        else if \<not> isAsciiDigit current then Some p
        else Option.bind (readNDigits 2 p) (\<lambda>(minute, p).
          let p = p\<lparr>ip_minute := minute, ip_precision := PMinute\<rparr>;
              readSecond = (\<lambda>p. Option.bind (readNDigits 2 p) (\<lambda>(second, p).
                 let p = p\<lparr>ip_second := second, ip_precision := PSecond\<rparr>
                 in case advanceIf [46, 44] (ip_rest p) of
                      None \<Rightarrow> Some p
                    | Some rest \<Rightarrow> parseFraction (p\<lparr>ip_rest := rest\<rparr>)))
          in if extended
             then (case advanceIf [58] (ip_rest p) of
                     None \<Rightarrow> Some p
                   | Some rest \<Rightarrow> if \<not> isAsciiDigit (current_char rest) then None
                                  else readSecond (p\<lparr>ip_rest := rest\<rparr>))
             else if \<not> isAsciiDigit (current_char (ip_rest p)) then Some p
             else readSecond p))"

definition parseOffset :: "iso_parser \<Rightarrow> iso_parser option" where
  "parseOffset p =
     (case advanceIf [90] (ip_rest p) of
        Some rest \<Rightarrow> Some (p\<lparr>ip_rest := rest, ip_hasOffset := True, ip_offset := 0\<rparr>)
      | None \<Rightarrow>
        Option.bind (case advanceIf [45] (ip_rest p) of Some rest \<Rightarrow> Some (- 1, rest)
                     | None \<Rightarrow> map_option (Pair 1) (advanceIf [43] (ip_rest p))) (\<lambda>(sign, rest).
        Option.bind (readNDigits 2 (p\<lparr>ip_rest := rest\<rparr>)) (\<lambda>(hour, p).
        Option.bind
          (case advanceIf [58] (ip_rest p) of
             Some rest \<Rightarrow>
               Option.bind (readNDigits 2 (p\<lparr>ip_rest := rest\<rparr>)) (\<lambda>(minute, p).
                 case advanceIf [58] (ip_rest p) of
                   None \<Rightarrow> Some (minute, 0, p)
                 | Some rest \<Rightarrow> Option.bind (readNDigits 2 (p\<lparr>ip_rest := rest\<rparr>)) (\<lambda>(second, p). Some (minute, second, p)))
           | None \<Rightarrow>
               if isAsciiDigit (current_char (ip_rest p))
               then Option.bind (readNDigits 2 p) (\<lambda>(minute, p). Some (minute, 0, p))
               else Some (0, 0, p))
          (\<lambda>(minute, second, p).
            if hour > 23 \<or> minute > 59 \<or> second > 59 then None
            else Some (p\<lparr>ip_hasOffset := True, ip_offset := sign * (hour * 3600 + minute * 60 + second)\<rparr>)))))"

record parsed_iso =
  pi_date :: date
  pi_time :: time_of_day
  pi_precision :: precision
  pi_hasOffset :: bool
  pi_offset :: int

definition iso_result :: "iso_parser \<Rightarrow> parsed_iso option" where
  "iso_result p =
     (let d = fromYearMonthDay (ip_year p) (ip_month p) (ip_day p)
      in if \<not> isValid d \<or> ip_hour p > 23 \<or> ip_minute p > 59 \<or> ip_second p > 59 then None
         else Some \<lparr>pi_date = d,
                pi_time = mkTime (mkHour (ip_hour p)) (mkMinute (ip_minute p)) (mkSecond (ip_second p))
                            (ip_nanosecond p),
                pi_precision = ip_precision p, pi_hasOffset = ip_hasOffset p, pi_offset = ip_offset p\<rparr>)"

definition iso_parse :: "char32 list \<Rightarrow> bool \<Rightarrow> parsed_iso option" where
  "iso_parse text allowOffset =
     Option.bind (parseDate (iso_start text)) (\<lambda>p.
     Option.bind
       (case advanceIf [84, 32] (ip_rest p) of
          None \<Rightarrow> Some p
        | Some rest \<Rightarrow> if ip_precision p < PDay then None else parseTime (p\<lparr>ip_rest := rest\<rparr>)) (\<lambda>p.
     Option.bind
       (if ip_rest p \<noteq> []
        then (if \<not> allowOffset \<or> ip_precision p < PHour then None else parseOffset p) else Some p) (\<lambda>p.
     if ip_rest p \<noteq> [] then None else iso_result p)))"

definition dt_fromIsoString :: "char32 list \<Rightarrow> precision \<Rightarrow> shifted_date_time" where
  "dt_fromIsoString text requiredPrecision =
     (case iso_parse text True of
        None \<Rightarrow> invalid_date_time
      | Some parsed \<Rightarrow>
        if pi_precision parsed < requiredPrecision then invalid_date_time
        else if pi_hasOffset parsed then mkShiftedDateTime (pi_date parsed) (pi_time parsed) (pi_offset parsed)
        else mkShiftedDateTime (pi_date parsed) (pi_time parsed) 0)"

definition ts_fromIsoString :: "char32 list \<Rightarrow> timestamp option" where
  "ts_fromIsoString text =
     (case iso_parse text True of
        None \<Rightarrow> None
      | Some parsed \<Rightarrow>
        if \<not> pi_hasOffset parsed \<or> pi_precision parsed < PSecond then None
        else fromSecondsAndFractions
               (date_days (pi_date parsed) * cSecondsPerDay + toSecondsSinceMidnight (pi_time parsed) - pi_offset parsed)
               (nanosecondFraction (pi_time parsed)) Core)"

section \<open>Numbers of a fixed width\<close>

definition digit_text :: "nat list \<Rightarrow> char32 list" where
  "digit_text ds = map (\<lambda>d. 48 + d) ds"

lemma digit_text_simps [simp]:
  "digit_text [] = []" "digit_text (d # ds) = (48 + d) # digit_text ds" "length (digit_text ds) = length ds"
  by (simp_all add: digit_text_def)

lemma iso_digit_loop_length: "0 < n \<Longrightarrow> m < 10 ^ n \<Longrightarrow> length (digit_loop 10 m) \<le> n"
proof (induction n arbitrary: m)
  case (Suc n)
  show ?case
  proof (cases "m div 10 = 0")
    case True
    then show ?thesis by (subst digit_loop.simps) simp
  next
    case False
    then have "n \<noteq> 0" using Suc.prems(2) by (cases n) auto
    moreover have "m div 10 < 10 ^ n" using Suc.prems(2) by (simp add: less_mult_imp_div_less mult.commute)
    ultimately show ?thesis using Suc.IH False by (subst digit_loop.simps) simp
  qed
qed simp

lemma be_value_Cons: "be_value b (d # ds) = d * b ^ length ds + be_value b ds"
proof -
  have "foldl (\<lambda>r d. r * b + d) r ds = r * b ^ length ds + foldl (\<lambda>r d. r * b + d) 0 ds" for r
  proof (induction ds rule: rev_induct)
    case (snoc x xs)
    then show ?case by (simp add: algebra_simps)
  qed simp
  from this[of d] show ?thesis by (simp add: be_value_def)
qed

text \<open>The numbers a field can hold.\<close>

definition fits :: "nat \<Rightarrow> int \<Rightarrow> bool" where
  "fits n v \<longleftrightarrow> 0 < n \<and> n \<le> 9 \<and> 0 \<le> v \<and> v < 10 ^ n"

lemma iso_number_digits:
  assumes "fits n v"
  obtains ds where "iso_number n v = digit_text ds" "length ds = n" "\<forall>d\<in>set ds. d < 10" "be_value 10 ds = nat v"
proof -
  define m where "m = nat v"
  have v: "0 < n" "n \<le> 9" "0 \<le> v" "v = int m" "m < 10 ^ n"
    using assms by (auto simp: fits_def m_def nat_less_iff)
  have "(10::nat) ^ n \<le> 10 ^ 9" using v(2) by (intro power_increasing) auto
  then have m: "m < 1000000000" using v(5) by simp
  then have smv: "sm_val (sm_fromValue int64_type v) = v" "sm_wf int64_type (sm_fromValue int64_type v)"
    using sm_fromValue_correct[of int64_type v] v(4) by (auto simp: it_min_def it_max_def)
  then have sm: "sm_magnitude (sm_fromValue int64_type v) = m" "\<not> sm_negative (sm_fromValue int64_type v)"
    using v(3) by (auto simp: sm_val_def sm_mag.sval_def sm_wf_def m_def split: if_splits)
  define ls where "ls = digit_loop 10 m"
  have len: "length ls \<le> n" using iso_digit_loop_length[OF v(1,5)] by (simp add: ls_def)
  have dl: "be_value 10 (rev ls) = m" "\<forall>d\<in>set ls. d < 10" using digit_loop_correct[of 10 m] by (auto simp: ls_def)
  define ds where "ds = replicate (n - length ls) 0 @ rev ls"
  have pc: "pad_counts (zero_filled n) (length ls) = (n - length ls, 0)"
    using len by (simp add: pad_counts_def zero_filled_def defaultFormat_def Let_def)
  have "iso_number n v = appendDigitField (map (\<lambda>d. fromDigitValue d Lowercase) ls) (n - length ls) (zero_filled n)"
    using pc sm by (simp add: iso_number_def appendInteger_def zero_filled_def defaultFormat_def ls_def Let_def)
  also have "\<dots> = field_text (zero_filled n) ds 0"
    using appendDigitField_text[of "zero_filled n" ls "n - length ls"]
    by (simp add: ds_def zero_filled_def defaultFormat_def)
  also have "\<dots> = map (\<lambda>d. fromDigitValue d Lowercase) ds"
    by (simp add: field_text_def digit_separator_def zero_filled_def defaultFormat_def concat_map_singleton)
      (rule nth_equalityI, simp_all)
  also have "\<dots> = digit_text ds"
    using dl(2) by (auto simp: digit_text_def fromDigitValue_def ds_def)
  finally have "iso_number n v = digit_text ds" .
  moreover have "length ds = n" "\<forall>d\<in>set ds. d < 10" "be_value 10 ds = nat v"
    using len dl by (auto simp: ds_def m_def)
  ultimately show thesis using that by blast
qed

lemma scan_loop_digits:
  assumes "\<not> opt_allowSeparator opts" "opt_maximumDigits opts = Some mx" "mx \<le> 18"
  shows "\<forall>d\<in>set ds. d < 10 \<Longrightarrow> k + length ds \<le> mx \<Longrightarrow> r < 10 ^ k \<Longrightarrow>
    scan_loop opts Decimal (digit_text ds @ rest) r k False
      = scan_loop opts Decimal rest (foldl (\<lambda>r d. r * 10 + d) r ds) (k + length ds) False"
proof (induction ds arbitrary: r k)
  case (Cons d ds)
  have "(10::nat) ^ Suc k \<le> 10 ^ 18" using Cons.prems(2) assms(3) by (intro power_increasing) auto
  then have b: "(10::nat) ^ Suc k \<le> 1000000000000000000" by simp
  have r: "r * 10 + d < 10 ^ Suc k" using Cons.prems(1,3) by simp
  have d: "d < 10" using Cons.prems(1) by simp
  have c: "digitValueIn Decimal (48 + d) = Some d" "48 + d \<noteq> endOfData" "\<not> isSignal (48 + d)"
    using d by (auto simp: digitValueIn_def digitValue_def endOfData_def isSignal_def)
  have "scan_loop opts Decimal (digit_text (d # ds) @ rest) r k False
      = scan_loop opts Decimal (digit_text ds @ rest) (r * 10 + d) (Suc k) False"
    using Cons.prems(2) assms c r b by (simp add: atMaximum_def)
  also have "\<dots> = scan_loop opts Decimal rest (foldl (\<lambda>r d. r * 10 + d) (r * 10 + d) ds) (Suc k + length ds) False"
    using Cons.IH[of "Suc k" "r * 10 + d"] Cons.prems(1,2) r by simp
  finally show ?case by simp
qed simp

lemma scan_start_digits:
  assumes "\<forall>d\<in>set ds. d < 10" "2 \<le> length ds"
  shows "scan_sign opts (digit_text ds @ rest) = Some (False, digit_text ds @ rest)"
    "scan_prefix opts (digit_text ds @ rest) = (None, False, digit_text ds @ rest)"
proof -
  obtain a b es where ds: "ds = a # b # es" using assms(2) by (cases ds; cases "tl ds") auto
  have "fromPrefixChar (48 + b) = None" using assms(1) ds no_prefix_char[of "48 + b"] by simp
  then show "scan_sign opts (digit_text ds @ rest) = Some (False, digit_text ds @ rest)"
    "scan_prefix opts (digit_text ds @ rest) = (None, False, digit_text ds @ rest)"
    using assms(1) ds by (auto simp: scan_sign_def scan_prefix_def current_char_def Let_def)
qed


lemma value_bound: "\<forall>d\<in>set ds. d < b \<Longrightarrow> be_value b ds < b ^ length ds"
proof (induction ds rule: rev_induct)
  case (snoc d ds)
  then have "be_value b ds + 1 \<le> b ^ length ds" by simp
  then have "(be_value b ds + 1) * b \<le> b ^ length ds * b" by (rule mult_le_mono1)
  moreover have "d < b" using snoc.prems by simp
  ultimately show ?case by (simp add: algebra_simps)
qed simp

lemma readNDigits_text:
  assumes "fits n v" "2 \<le> n" "ip_rest p = iso_number n v @ rest"
  shows "readNDigits n p = Some (v, p\<lparr>ip_rest := rest\<rparr>)"
proof -
  obtain ds where ds: "iso_number n v = digit_text ds" "length ds = n" "\<forall>d\<in>set ds. d < 10" "be_value 10 ds = nat v"
    using iso_number_digits[OF assms(1)] .
  let ?o = "fixedDecimal n"
  have o: "\<not> opt_allowSeparator ?o" "opt_maximumDigits ?o = Some n" "n \<le> 18" "opt_stopAtMaximum ?o"
    "opt_fixedBase ?o = Some Decimal" "opt_minimumDigits ?o = n"
    using assms(1) by (auto simp: fixedDecimal_def parserDefault_def fits_def)
  have "scan_loop ?o Decimal (digit_text ds @ rest) 0 0 False
      = scan_loop ?o Decimal rest (be_value 10 ds) n False"
    using scan_loop_digits[OF o(1-3) ds(3), of 0 0 rest] ds(2) by (simp add: be_value_def)
  also have "\<dots> = (Inr (be_value 10 ds, n, False), rest)"
    using o by (cases rest) (simp_all add: atMaximum_def)
  finally have l: "scan_loop ?o Decimal (digit_text ds @ rest) 0 0 False = (Inr (nat v, n, False), rest)"
    using ds(4) by simp
  have "scanInteger ?o 0 (ip_rest p) = (\<lparr>res_value = nat v, res_digitCount = n, res_isNegative = False,
      res_base = Decimal, res_position = 0, res_status = Success\<rparr>, rest)"
    using l o assms(2) scan_start_digits[OF ds(3), of ?o rest] ds(2)
    by (simp add: assms(3) ds(1) scanInteger_def Let_def)
  then show ?thesis using assms(1) by (simp add: readNDigits_def fits_def)
qed

text \<open>What may follow a time: nothing, or an offset.\<close>

definition time_end :: "char32 list \<Rightarrow> bool" where
  "time_end rest \<longleftrightarrow> rest = [] \<or> hd rest = 90 \<or> hd rest = 43 \<or> hd rest = 45"

lemma parseFraction_text:
  assumes "fits n v" "2 \<le> n" "ip_rest p = iso_number n v @ rest" "time_end rest"
  shows "parseFraction p = Some (p\<lparr>ip_rest := rest, ip_nanosecond := v * 10 ^ (9 - n), ip_precision := PNanosecond\<rparr>)"
proof -
  obtain ds where ds: "iso_number n v = digit_text ds" "length ds = n" "\<forall>d\<in>set ds. d < 10" "be_value 10 ds = nat v"
    using iso_number_digits[OF assms(1)] .
  let ?o = "parserDefault\<lparr>opt_fixedBase := Some Decimal, opt_maximumDigits := Some 9\<rparr>"
  have o: "\<not> opt_allowSeparator ?o" "opt_maximumDigits ?o = Some 9" "\<not> opt_stopAtMaximum ?o"
    "opt_fixedBase ?o = Some Decimal" "opt_minimumDigits ?o = 0" and n: "n \<le> 9"
    using assms(1) by (auto simp: parserDefault_def fits_def)
  have "scan_loop ?o Decimal (digit_text ds @ rest) 0 0 False
      = scan_loop ?o Decimal rest (be_value 10 ds) n False"
    using scan_loop_digits[OF o(1,2) _ ds(3), of 0 0 rest] ds(2) n by (simp add: be_value_def)
  also have "\<dots> = (Inr (be_value 10 ds, n, False), rest)"
  proof (cases rest)
    case (Cons c cs)
    then have "c = 90 \<or> c = 43 \<or> c = 45" using assms(4) by (simp add: time_end_def)
    then have "digitValueIn Decimal c = None" "c \<noteq> endOfData" "\<not> isSignal c"
      by (auto simp: digitValueIn_def digitValue_def isSignal_def endOfData_def)
    then show ?thesis using o(1,3) unfolding Cons by simp
  qed simp
  finally have l: "scan_loop ?o Decimal (digit_text ds @ rest) 0 0 False = (Inr (nat v, n, False), rest)"
    using ds(4) by simp
  have "scanInteger ?o 0 (ip_rest p) = (\<lparr>res_value = nat v, res_digitCount = n, res_isNegative = False,
      res_base = Decimal, res_position = 0, res_status = Success\<rparr>, rest)"
    using l o assms(2) scan_start_digits[OF ds(3), of ?o rest] ds(2)
    by (simp add: assms(3) ds(1) scanInteger_def Let_def)
  then show ?thesis using assms(1) by (simp add: parseFraction_def fits_def)
qed

lemma number_head:
  assumes "fits n v"
  shows "\<exists>c cs. iso_number n v = c # cs \<and> 48 \<le> c \<and> c \<le> 57"
proof -
  obtain ds where "iso_number n v = digit_text ds" "length ds = n" "\<forall>d\<in>set ds. d < 10"
    using iso_number_digits[OF assms] .
  then show ?thesis using assms by (cases ds) (auto simp: fits_def)
qed

lemma number_next [simp]:
  assumes "fits n v"
  shows "isAsciiDigit (current_char (iso_number n v @ rest))"
    "\<forall>c\<in>set cs. c < 48 \<or> 57 < c \<Longrightarrow> advanceIf cs (iso_number n v @ rest) = None"
proof -
  obtain c xs where c: "iso_number n v = c # xs" "48 \<le> c" "c \<le> 57" using number_head[OF assms] by blast
  show "isAsciiDigit (current_char (iso_number n v @ rest))" using c by (simp add: isAsciiDigit_def current_char_def)
  assume "\<forall>c\<in>set cs. c < 48 \<or> 57 < c"
  then have "c \<notin> set cs" using c(2,3) by fastforce
  then show "advanceIf cs (iso_number n v @ rest) = None" by (simp add: advanceIf_def c(1))
qed

lemma number_nonempty [simp]: "fits n v \<Longrightarrow> iso_number n v \<noteq> []"
  using number_head by fastforce

lemma advanceIf_simps [simp]:
  "advanceIf es [] = None" "advanceIf es (c # cs) = (if c \<in> set es then Some cs else None)"
  by (simp_all add: advanceIf_def)

lemma time_end_next:
  assumes "time_end rest"
  shows "\<not> isAsciiDigit (current_char rest)" "\<forall>c\<in>set es. c = 58 \<or> c = 46 \<or> c = 44 \<Longrightarrow> advanceIf es rest = None"
  using assms by (cases rest; auto simp: time_end_def isAsciiDigit_def current_char_def endOfData_def)+


text \<open>The parser steps, as functions of the characters that are left.\<close>

definition read_field :: "nat \<Rightarrow> char32 list \<Rightarrow> (int \<times> char32 list) option" where
  "read_field n cs = map_option (\<lambda>(v, p). (v, ip_rest p)) (readNDigits n (iso_start cs))"

lemma readNDigits_field: "readNDigits n p = map_option (\<lambda>(v, rest). (v, p\<lparr>ip_rest := rest\<rparr>)) (read_field n (ip_rest p))"
  by (simp add: read_field_def readNDigits_def iso_start_def split: prod.splits)

lemma read_field_text [simp]: "fits n v \<Longrightarrow> 2 \<le> n \<Longrightarrow> read_field n (iso_number n v @ rest) = Some (v, rest)"
  using readNDigits_text[of n v "iso_start (iso_number n v @ rest)" rest] by (simp add: read_field_def iso_start_def)

lemma read_field_end [simp]: "fits n v \<Longrightarrow> 2 \<le> n \<Longrightarrow> read_field n (iso_number n v) = Some (v, [])"
  using read_field_text[of n v "[]"] by simp

lemma number_next_end [simp]:
  assumes "fits n v"
  shows "isAsciiDigit (current_char (iso_number n v))"
    "\<forall>c\<in>set cs. c < 48 \<or> 57 < c \<Longrightarrow> advanceIf cs (iso_number n v) = None"
  using number_next[OF assms, of "[]"] number_next(2)[OF assms, of cs "[]"] by simp_all

lemma no_digit_next [simp]: "\<not> isAsciiDigit (current_char [])" "\<not> isAsciiDigit (current_char (45 # cs))"
    "\<not> isAsciiDigit (current_char (32 # cs))" "\<not> isAsciiDigit (current_char (84 # cs))"
  by (simp_all add: isAsciiDigit_def current_char_def endOfData_def)

lemmas precision_order = less_eq_precision_def less_precision_def

lemma parseDate_text:
  assumes f: "fits 4 y" "fits 2 m" "fits 2 d" and s: "s = (if e then [45] else [])"
    and r: "precision = PYear \<and> rest = [] \<or> precision = PMonth \<and> rest = [] \<or> precision = PDay"
    and p: "ip_precision p = PYear" "ip_rest p = iso_number 4 y @ (if precision \<ge> PMonth then s else [])
        @ (if precision \<ge> PMonth then iso_number 2 m else []) @ (if precision \<ge> PDay then s else [])
        @ (if precision \<ge> PDay then iso_number 2 d else []) @ rest"
  shows "parseDate p = Some (p\<lparr>ip_rest := rest, ip_year := y,
      ip_month := (if precision \<ge> PMonth then m else ip_month p),
      ip_day := (if precision \<ge> PDay then d else ip_day p), ip_precision := precision\<rparr>)"
proof -
  consider "precision = PYear" "rest = []" | "precision = PMonth" "rest = []" | "precision = PDay" using r by blast
  then show ?thesis
    by cases (use f s p in \<open>cases e; simp add: parseDate_def readNDigits_field precision_order Let_def\<close>)+
qed


definition fraction_field :: "char32 list \<Rightarrow> (int \<times> char32 list) option" where
  "fraction_field cs = map_option (\<lambda>p. (ip_nanosecond p, ip_rest p)) (parseFraction (iso_start cs))"

lemma parseFraction_field: "parseFraction p = map_option
    (\<lambda>(v, rest). p\<lparr>ip_rest := rest, ip_nanosecond := v, ip_precision := PNanosecond\<rparr>) (fraction_field (ip_rest p))"
  by (simp add: fraction_field_def parseFraction_def iso_start_def split: prod.splits)

lemma fraction_field_text [simp]:
  "fits n v \<Longrightarrow> 2 \<le> n \<Longrightarrow> time_end rest \<Longrightarrow> fraction_field (iso_number n v @ rest) = Some (v * 10 ^ (9 - n), rest)"
  using parseFraction_text[of n v "iso_start (iso_number n v @ rest)" rest] by (simp add: fraction_field_def iso_start_def)

text \<open>The fraction a text of some precision keeps, and the precision the parser reports for it.\<close>

definition kept_fraction :: "precision \<Rightarrow> int \<Rightarrow> int" where
  "kept_fraction precision f =
     (if precision = PNanosecond then f else if precision = PMicrosecond then f div 1000 * 1000
      else if precision = PMillisecond then f div 1000000 * 1000000 else 0)"

definition read_precision :: "precision \<Rightarrow> precision" where
  "read_precision precision = (if precision \<ge> PMillisecond then PNanosecond else precision)"

lemma fraction_fits:
  assumes "0 \<le> f" "f < 1000000000"
  shows "fits 9 f" "fits 6 (f div 1000)" "fits 3 (f div 1000000)"
  using assms by (auto simp: fits_def)

lemma parseTime_text:
  assumes f: "fits 2 h" "fits 2 mi" "fits 2 s" "0 \<le> f" "f < 1000000000"
    and s: "sp = (if e then [58] else [])" "c = 46 \<or> c = 44"
    and r: "precision \<ge> PHour" "time_end rest"
    and p: "ip_minute p = 0" "ip_second p = 0" "ip_nanosecond p = 0"
      "ip_rest p = iso_number 2 h @ (if precision \<ge> PMinute then sp else [])
        @ (if precision \<ge> PMinute then iso_number 2 mi else []) @ (if precision \<ge> PSecond then sp else [])
        @ (if precision \<ge> PSecond then iso_number 2 s else []) @ (if precision \<ge> PMillisecond then [c] else [])
        @ fraction_text precision f @ rest"
  shows "parseTime p = Some (p\<lparr>ip_rest := rest, ip_hour := h,
      ip_minute := (if precision \<ge> PMinute then mi else 0), ip_second := (if precision \<ge> PSecond then s else 0),
      ip_nanosecond := kept_fraction precision f, ip_precision := read_precision precision\<rparr>)"
proof -
  note fit = f(1-3) fraction_fits[OF f(4,5)]
  note ends = time_end_next(1)[OF r(2)] time_end_next(2)[OF r(2), of "[58]"] time_end_next(2)[OF r(2), of "[46, 44]"]
  note defs = parseTime_def readNDigits_field parseFraction_field precision_order Let_def kept_fraction_def
    read_precision_def fraction_text_def
  have "precision = PHour \<or> precision = PMinute \<or> precision = PSecond \<or> precision = PMillisecond
      \<or> precision = PMicrosecond \<or> precision = PNanosecond"
    using r(1) by (cases precision) (simp_all add: precision_order)
  then consider "precision = PHour" | "precision = PMinute" | "precision = PSecond" | "precision = PMillisecond"
    | "precision = PMicrosecond" | "precision = PNanosecond" by blast
  then show ?thesis
    by cases (use fit s p ends r(2) in \<open>cases e; (elim disjE)?; simp add: defs\<close>)+
qed

section \<open>Offsets\<close>

text \<open>The parser refuses an offset that is written with its seconds in the basic format; a format
  without offset seconds shows the offset cut towards zero to whole minutes.\<close>

definition refused_shift :: "iso_flags \<Rightarrow> int \<Rightarrow> bool" where
  "refused_shift flags shift \<longleftrightarrow> \<not> Extended flags \<and> TimeShiftUpToSeconds flags
     \<and> (shift mod 60 \<noteq> 0 \<or> TimeShiftAlwaysComplete flags)"

definition shown_shift :: "iso_flags \<Rightarrow> int \<Rightarrow> int" where
  "shown_shift flags shift = (if TimeShiftUpToSeconds flags then shift else shift sdiv 60 * 60)"

lemma time_parts:
  assumes "0 \<le> r" "r < 86400"
  obtains h m s where "r = h * 3600 + m * 60 + s" "fits 2 h" "fits 2 m" "fits 2 s" "h \<le> 23" "m \<le> 59" "s \<le> 59"
    "r sdiv 3600 = h" "(r - h * 3600) sdiv 60 = m" "r mod 60 = s"
proof -
  obtain h a where h: "r = 3600 * h + a" "0 \<le> a" "a < 3600" using div_mod_obtain[of 3600 r] by auto
  obtain m s where m: "a = 60 * m + s" "0 \<le> s" "s < 60" using div_mod_obtain[of 60 a] by auto
  have b: "0 \<le> h" "h \<le> 23" "0 \<le> m" "m \<le> 59" using assms h m by linarith+
  have "r sdiv 3600 = h" by (rule trunc_eq(1)[of _ _ h a]) (use assms h in auto)
  moreover have "(r - h * 3600) sdiv 60 = m" by (rule trunc_eq(1)[of _ _ m s]) (use h m b in auto)
  moreover have "r mod 60 = s"
    by (rule div_mod_eq(2)[of r 60 "60 * h + m" s]) (use h m in auto)
  moreover have "fits 2 h" "fits 2 m" "fits 2 s" using b m by (auto simp: fits_def)
  ultimately show thesis using that[of h m s] h m b by auto
qed

lemma parseOffset_text:
  assumes r: "\<bar>shift\<bar> < 86400" "\<not> refused_shift flags shift" and p: "ip_rest p = isoTimeShiftString shift flags"
  shows "parseOffset p = Some (p\<lparr>ip_rest := [], ip_hasOffset := True, ip_offset := shown_shift flags shift\<rparr>)"
    "time_end (isoTimeShiftString shift flags)" "isoTimeShiftString shift flags \<noteq> []"
proof -
  define a where "a = \<bar>shift\<bar>"
  have a: "0 \<le> a" "a < 86400" using r(1) by (simp_all add: a_def)
  obtain h m s where t: "a = h * 3600 + m * 60 + s" "fits 2 h" "fits 2 m" "fits 2 s" "h \<le> 23" "m \<le> 59" "s \<le> 59"
    "a sdiv 3600 = h" "(a - h * 3600) sdiv 60 = m" "a mod 60 = s" using time_parts[OF a] by metis
  have s: "a - h * 3600 - m * 60 = s" using t(1) by simp
  have s0: "s = 0 \<longleftrightarrow> shift mod 60 = 0" using t(10) by (auto simp: a_def abs_if zmod_zminus1_eq_if split: if_splits)
  have rem: "(if shift < 0 then sat64 (- shift) else shift) = a"
    using a unfolding a_def by auto
  define i where "i = (TimeShiftUpToSeconds flags \<and> (s \<noteq> 0 \<or> TimeShiftAlwaysComplete flags))"
  define sp :: "char32 list" where "sp = (if Extended flags then [58] else [])"
  define sg :: char32 where "sg = (if shift < 0 then 45 else 43)"
  have e: "isoTimeShiftString shift flags = (if shift = 0 \<and> \<not> TimeShiftAlwaysComplete flags then [90]
      else sg # iso_number 2 h @ sp @ iso_number 2 m @ (if i then sp @ iso_number 2 s else []))"
    unfolding isoTimeShiftString_def Let_def rem t(8,9) s i_def[symmetric] sp_def[symmetric] sg_def[symmetric] by simp
  have i: "i \<longrightarrow> Extended flags" "\<not> i \<longrightarrow> TimeShiftUpToSeconds flags \<longrightarrow> s = 0"
    using r(2) s0 unfolding i_def refused_shift_def by auto
  have sh: "shift = (if shift < 0 then - 1 else 1) * (h * 3600 + m * 60 + s)" using t(1) by (auto simp: a_def)
  have "a div 60 = h * 60 + m" by (rule div_mod_eq(1)[of a 60 _ s]) (use t(1,7,10) in auto)
  then have cut: "shift sdiv 60 * 60 = (if shift < 0 then - 1 else 1) * (h * 3600 + m * 60)"
    by (cases "shift = 0") (auto simp: signed_divide_int_def a_def sgn_if)
  have shown: "shown_shift flags shift = (if shift < 0 then - 1 else 1) * (h * 3600 + m * 60 + (if i then s else 0))"
    using i(2) cut sh by (auto simp: shown_shift_def i_def)
  show "time_end (isoTimeShiftString shift flags)" "isoTimeShiftString shift flags \<noteq> []"
    unfolding e by (auto simp: time_end_def sg_def)
  show "parseOffset p = Some (p\<lparr>ip_rest := [], ip_hasOffset := True, ip_offset := shown_shift flags shift\<rparr>)"
  proof (cases "shift = 0 \<and> \<not> TimeShiftAlwaysComplete flags")
    case True
    then have "shown_shift flags shift = 0" by (simp add: shown_shift_def)
    then show ?thesis using p e True by (simp add: parseOffset_def)
  next
    case False
    have p: "ip_rest p = sg # iso_number 2 h @ sp @ iso_number 2 m @ (if i then sp @ iso_number 2 s else [])"
      using p unfolding e if_not_P[OF False] .
    have "parseOffset p = Some (p\<lparr>ip_rest := [], ip_hasOffset := True,
        ip_offset := (if sg = 45 then - 1 else 1) * (h * 3600 + m * 60 + (if i then s else 0))\<rparr>)"
    proof (cases "Extended flags")
      case True
      then show ?thesis using p t(2-7) i
        by (cases i; cases "shift < 0") (simp_all add: parseOffset_def readNDigits_field sp_def sg_def)
    next
      case False
      then show ?thesis using p t(2-7) i
        by (cases "shift < 0") (simp_all add: parseOffset_def readNDigits_field sp_def sg_def)
    qed
    then show ?thesis unfolding shown by (simp add: sg_def)
  qed
qed


section \<open>Reading a text back\<close>

definition kept_date :: "precision \<Rightarrow> date \<Rightarrow> date" where
  "kept_date precision x = (let p = date_parts_of x in
     mkDate (dp_year p) (if precision \<ge> PMonth then dp_month p else 1) (if precision \<ge> PDay then dp_day p else 1))"

definition kept_time :: "precision \<Rightarrow> time_of_day \<Rightarrow> time_of_day" where
  "kept_time precision t =
     (if precision < PHour then time_first
      else mkTime (time_hour t) (if precision \<ge> PMinute then time_minute t else 0)
             (if precision \<ge> PSecond then time_second t else 0) (kept_fraction precision (nanosecondFraction t)))"

lemma iso_start_simps [simp]:
  "ip_rest (iso_start cs) = cs" "ip_year (iso_start cs) = 0" "ip_month (iso_start cs) = 1" "ip_day (iso_start cs) = 1"
  "ip_hour (iso_start cs) = 0" "ip_minute (iso_start cs) = 0" "ip_second (iso_start cs) = 0"
  "ip_nanosecond (iso_start cs) = 0" "ip_precision (iso_start cs) = PYear" "ip_hasOffset (iso_start cs) \<longleftrightarrow> False"
  "ip_offset (iso_start cs) = 0"
  by (simp_all add: iso_start_def)

lemma valid_parts_first:
  assumes "valid_parts y m d"
  shows "valid_parts y m 1" "valid_parts y 1 1" "valid_parts y (if a then m else 1) (if a \<and> b then d else 1)"
  using assms monthDayCount_bounds[of m y] monthDayCount_bounds[of 1 y] by (auto simp: valid_parts_def)

lemma date_fits:
  assumes "valid_parts y m d"
  shows "fits 4 y" "fits 2 m" "fits 2 d" "d \<le> 31"
  using assms monthDayCount_bounds[of m y] by (auto simp: valid_parts_def fits_def)

lemma iso_result_valid:
  assumes "valid_parts (ip_year p) (ip_month p) (ip_day p)" "ip_hour p \<le> 23" "ip_minute p \<le> 59" "ip_second p \<le> 59"
  shows "iso_result p = Some \<lparr>pi_date = mkDate (ip_year p) (ip_month p) (ip_day p),
      pi_time = mkTime (mkHour (ip_hour p)) (mkMinute (ip_minute p)) (mkSecond (ip_second p)) (ip_nanosecond p),
      pi_precision = ip_precision p, pi_hasOffset = ip_hasOffset p, pi_offset = ip_offset p\<rparr>"
  using assms(2-4) unfolding iso_result_def fromYearMonthDay_valid(1)[OF assms(1)]
  by (simp add: fromYearMonthDay_valid(2)[OF assms(1)])

lemma date_parts_fit:
  assumes "date_wf x" "isValid x"
  obtains y m d where "date_parts_of x = \<lparr>dp_year = y, dp_month = m, dp_day = d\<rparr>" "valid_parts y m d"
    "fits 4 y" "fits 2 m" "fits 2 d"
proof -
  obtain y m d where q: "date_parts_of x = \<lparr>dp_year = y, dp_month = m, dp_day = d\<rparr>"
    by (metis date_parts.surjective old.unit.exhaust)
  have v: "valid_parts y m d" using date_parts_correct[of x] assms q by (auto simp: date_wf_def isValid_def)
  show thesis using that[OF q v] date_fits[OF v] by blast
qed

lemma iso_parse_date:
  assumes d: "date_wf x" "isValid x" and "precision < PHour"
  shows "iso_parse (date_toIsoString flags precision x) True
    = Some \<lparr>pi_date = kept_date precision x, pi_time = time_first, pi_precision = precision,
        pi_hasOffset = False, pi_offset = 0\<rparr>"
proof -
  obtain y m dd where q: "date_parts_of x = \<lparr>dp_year = y, dp_month = m, dp_day = dd\<rparr>" "valid_parts y m dd"
    "fits 4 y" "fits 2 m" "fits 2 dd" by (rule date_parts_fit[OF d])
  have pr: "precision = PYear \<or> precision = PMonth \<or> precision = PDay"
    using assms(3) by (cases precision) (simp_all add: precision_order)
  let ?text = "date_toIsoString flags precision x"
  let ?m = "if PMonth \<le> precision then m else 1" and ?d = "if PDay \<le> precision then dd else 1"
  have "parseDate (iso_start ?text) = Some ((iso_start ?text)\<lparr>ip_rest := [], ip_year := y,
      ip_month := (if PMonth \<le> precision then m else ip_month (iso_start ?text)),
      ip_day := (if PDay \<le> precision then dd else ip_day (iso_start ?text)), ip_precision := precision\<rparr>)"
    by (rule parseDate_text[OF q(3-5) refl, of precision "[]" "iso_start ?text" "Extended flags"])
      (use pr d(2) in \<open>simp_all add: date_toIsoString_def q(1) Let_def\<close>)
  then have "iso_parse ?text True = Some \<lparr>pi_date = mkDate y ?m ?d, pi_time = time_first,
      pi_precision = precision, pi_hasOffset = False, pi_offset = 0\<rparr>"
    using pr by (elim disjE)
      (simp_all add: iso_parse_def iso_result_valid time_first_def precision_order q(2) valid_parts_first[OF q(2)])
  then show ?thesis by (simp add: kept_date_def q(1))
qed

text \<open>The parse of a text with a time, up to its offset.\<close>

lemma iso_parse_time:
  assumes d: "date_wf x" "isValid x" and t: "time_wf t" and h: "PHour \<le> precision" and o: "time_end tail"
  obtains q where "ip_rest q = tail" "\<not> ip_hasOffset q" "ip_offset q = 0"
    "\<And>b shift. iso_result (q\<lparr>ip_rest := [], ip_hasOffset := b, ip_offset := shift\<rparr>)
      = Some \<lparr>pi_date = kept_date precision x, pi_time = kept_time precision t,
          pi_precision = read_precision precision, pi_hasOffset = b, pi_offset = shift\<rparr>"
    "iso_parse (date_toIsoString flags PDay x @ (if TimePrefix flags then [84] else [32])
        @ time_toIsoString (flags\<lparr>TimePrefix := False\<rparr>) precision t @ tail) True
      = Option.bind (if tail \<noteq> [] then parseOffset q else Some q) (\<lambda>p. if ip_rest p \<noteq> [] then None else iso_result p)"
proof -
  obtain y m dd where q: "date_parts_of x = \<lparr>dp_year = y, dp_month = m, dp_day = dd\<rparr>" "valid_parts y m dd"
    "fits 4 y" "fits 2 m" "fits 2 dd" by (rule date_parts_fit[OF d])
  let ?h = "time_hour t" and ?mi = "time_minute t" and ?s = "time_second t" and ?f = "nanosecondFraction t"
  have tf: "fits 2 ?h" "fits 2 ?mi" "fits 2 ?s" "0 \<le> ?f" "?f < 1000000000" "?h \<le> 23" "?mi \<le> 59" "?s \<le> 59"
    using mkTime_parts(2-5)[OF t] by (auto simp: fits_def cNanosecondsPerSecond_def)
  have ck: "mkHour ?h = ?h" "mkMinute ?mi = ?mi" "mkSecond ?s = ?s" "mkMinute 0 = 0" "mkSecond 0 = 0"
    using tf by (simp_all add: mkHour_def mkMinute_def mkSecond_def fits_def)
  let ?T = "time_toIsoString (flags\<lparr>TimePrefix := False\<rparr>) precision t"
  define S :: "char32 list" where "S = (if TimePrefix flags then [84] else [32])"
  define tx where "tx = date_toIsoString flags PDay x @ S @ ?T @ tail"
  define P where "P = (iso_start tx)\<lparr>ip_rest := S @ ?T @ tail, ip_year := y, ip_month := m, ip_day := dd,
      ip_precision := PDay\<rparr>"
  have P: "parseDate (iso_start tx) = Some P"
    using parseDate_text[OF q(3-5) refl, of PDay "S @ ?T @ tail" "iso_start tx" "Extended flags"] d(2)
    by (simp add: date_toIsoString_def q(1) precision_order Let_def P_def tx_def)
  have sp: "advanceIf [84, 32] (ip_rest P) = Some (?T @ tail)" by (simp add: P_def S_def)
  define Q where "Q = P\<lparr>ip_rest := tail, ip_hour := ?h, ip_minute := (if PMinute \<le> precision then ?mi else 0),
      ip_second := (if PSecond \<le> precision then ?s else 0),
      ip_nanosecond := kept_fraction precision ?f, ip_precision := read_precision precision\<rparr>"
  have pt: "parseTime (P\<lparr>ip_rest := ?T @ tail\<rparr>) = Some Q"
  proof -
    have "parseTime (P\<lparr>ip_rest := ?T @ tail\<rparr>) = Some ((P\<lparr>ip_rest := ?T @ tail\<rparr>)\<lparr>ip_rest := tail, ip_hour := ?h,
        ip_minute := (if PMinute \<le> precision then ?mi else 0), ip_second := (if PSecond \<le> precision then ?s else 0),
        ip_nanosecond := kept_fraction precision ?f, ip_precision := read_precision precision\<rparr>)"
      by (rule parseTime_text[OF tf(1-5) refl _ h o, where e = "Extended flags" and c = "if UseDotFraction flags then 46 else 44"])
        (simp_all add: time_toIsoString_def Let_def P_def)
    then show ?thesis by (simp add: Q_def del: if_split)
  qed
  have Q: "ip_rest Q = tail" "ip_precision Q = read_precision precision" "\<not> ip_hasOffset Q" "ip_offset Q = 0"
    by (simp_all add: Q_def P_def)
  have rp: "\<not> read_precision precision < PHour" using h by (auto simp: read_precision_def precision_order)
  have "iso_parse tx True
      = Option.bind (if tail \<noteq> [] then parseOffset Q else Some Q) (\<lambda>p. if ip_rest p \<noteq> [] then None else iso_result p)"
    using P sp pt Q rp by (simp add: iso_parse_def P_def)
  moreover have "iso_result (Q\<lparr>ip_rest := [], ip_hasOffset := b, ip_offset := shift\<rparr>)
      = Some \<lparr>pi_date = kept_date precision x, pi_time = kept_time precision t,
          pi_precision = read_precision precision, pi_hasOffset = b, pi_offset = shift\<rparr>" for b shift
  proof -
    have "kept_date precision x = mkDate y m dd" using h by (simp add: kept_date_def q(1) precision_order)
    then show ?thesis
      using tf(6-8) h q(2) ck by (subst iso_result_valid) (simp_all add: kept_time_def Q_def P_def)
  qed
  ultimately show thesis using that[OF Q(1,3,4)] by (simp add: tx_def S_def)
qed

lemma iso_parse_text:
  assumes d: "date_wf x" "isValid x" and t: "time_wf t" and h: "PHour \<le> precision"
    and s: "TimeShift flags \<Longrightarrow> \<bar>shift\<bar> < 86400" "TimeShift flags \<Longrightarrow> \<not> refused_shift flags shift"
  shows "iso_parse (date_toIsoString flags PDay x @ (if TimePrefix flags then [84] else [32])
        @ time_toIsoString (flags\<lparr>TimePrefix := False\<rparr>) precision t
        @ (if TimeShift flags then isoTimeShiftString shift flags else [])) True
    = Some \<lparr>pi_date = kept_date precision x, pi_time = kept_time precision t, pi_precision = read_precision precision,
        pi_hasOffset = TimeShift flags, pi_offset = (if TimeShift flags then shown_shift flags shift else 0)\<rparr>"
proof (cases "TimeShift flags")
  case True
  note o = parseOffset_text(2,3)[OF s(1)[OF True] s(2)[OF True] iso_start_simps(1)]
  obtain q where q: "ip_rest q = isoTimeShiftString shift flags" "\<not> ip_hasOffset q" "ip_offset q = 0"
    "\<And>b shift. iso_result (q\<lparr>ip_rest := [], ip_hasOffset := b, ip_offset := shift\<rparr>)
      = Some \<lparr>pi_date = kept_date precision x, pi_time = kept_time precision t,
          pi_precision = read_precision precision, pi_hasOffset = b, pi_offset = shift\<rparr>"
    "iso_parse (date_toIsoString flags PDay x @ (if TimePrefix flags then [84] else [32])
        @ time_toIsoString (flags\<lparr>TimePrefix := False\<rparr>) precision t @ isoTimeShiftString shift flags) True
      = Option.bind (if isoTimeShiftString shift flags \<noteq> [] then parseOffset q else Some q) (\<lambda>p. if ip_rest p \<noteq> [] then None else iso_result p)"
    using iso_parse_time[OF d t h o(1), where flags = flags] by blast
  show ?thesis unfolding if_P[OF True] q(5) using o(2) q(4) parseOffset_text(1)[OF s(1)[OF True] s(2)[OF True] q(1)] True by simp
next
  case False
  obtain q where q: "ip_rest q = []" "\<not> ip_hasOffset q" "ip_offset q = 0"
    "\<And>b shift. iso_result (q\<lparr>ip_rest := [], ip_hasOffset := b, ip_offset := shift\<rparr>)
      = Some \<lparr>pi_date = kept_date precision x, pi_time = kept_time precision t,
          pi_precision = read_precision precision, pi_hasOffset = b, pi_offset = shift\<rparr>"
    "iso_parse (date_toIsoString flags PDay x @ (if TimePrefix flags then [84] else [32])
        @ time_toIsoString (flags\<lparr>TimePrefix := False\<rparr>) precision t @ []) True
      = Option.bind (if [] \<noteq> ([] :: char32 list) then parseOffset q else Some q) (\<lambda>p. if ip_rest p \<noteq> [] then None else iso_result p)"
    by (rule iso_parse_time[OF d t h, where tail = "[]" and flags = flags]) (simp_all add: time_end_def)
  have "q\<lparr>ip_rest := [], ip_hasOffset := False, ip_offset := 0\<rparr> = q" using q(1-3) by (cases q) simp
  then show ?thesis unfolding if_not_P[OF False] q(5) using q(1) q(4)[where b = False and shift = 0] False by simp
qed

section \<open>Local and UTC time\<close>

lemma wrap_shift:
  assumes wf: "dt_wf (d, t)" and s: "is_i64 s" and c: "in_calendar (dt_instant (d, t) + s * cNanosecondsPerSecond)"
    and e: "addDurationWithWrap s t = (t', days)"
  shows "(addDays days d, t') = dt_at (dt_instant (d, t) + s * cNanosecondsPerSecond)"
proof -
  have tw: "time_wf t" using wf by (simp add: dt_wf_def)
  obtain q r where q: "tod_nanoseconds t + s * cNanosecondsPerSecond = cNanosecondsPerDay * q + r" "0 \<le> r" "r < cNanosecondsPerDay"
    "(tod_nanoseconds t + s * cNanosecondsPerSecond) div cNanosecondsPerDay = q"
    "(tod_nanoseconds t + s * cNanosecondsPerSecond) mod cNanosecondsPerDay = r"
    using div_mod_obtain[of cNanosecondsPerDay "tod_nanoseconds t + s * cNanosecondsPerSecond"]
    by (auto simp: cNanosecondsPerDay_def)
  have e: "t' = \<lparr>tod_nanoseconds = r\<rparr>" "days = q"
    using e unfolding addDurationWithWrap_exact[OF tw s] q(4,5) by auto
  have "sbind (addDaysOrThrow q d) (\<lambda>d. Inr (d, \<lparr>tod_nanoseconds = r\<rparr>)) = shiftOrThrow (s * cNanosecondsPerSecond) (d, t)"
    by (rule shift_step(1)[OF wf _ q(2,3)]) (use q(1) in \<open>simp add: mult.commute\<close>)
  also have "\<dots> = Inr (dt_at (dt_instant (d, t) + s * cNanosecondsPerSecond))" using c by (simp add: shiftOrThrow_def)
  finally show ?thesis unfolding e by (auto simp: addDaysOrThrow_def split: if_splits)
qed

text \<open>The local instant of a date and time with an offset.\<close>

definition local_instant :: "shifted_date_time \<Rightarrow> int" where
  "local_instant z = dt_instant (sd_utc z) + sd_offset z * cNanosecondsPerSecond"

definition sd_wf :: "shifted_date_time \<Rightarrow> bool" where
  "sd_wf z \<longleftrightarrow> dt_wf (sd_utc z) \<and> \<bar>sd_offset z\<bar> < 86400 \<and> in_calendar (local_instant z)"

lemma localDateTime_at:
  assumes "sd_wf z"
  shows "localDateTime z = dt_at (local_instant z)" "dt_wf (localDateTime z)" "dt_instant (localDateTime z) = local_instant z"
proof -
  obtain d t where u: "sd_utc z = (d, t)" by force
  obtain t' days where e: "addDurationWithWrap (sd_offset z) t = (t', days)" by force
  have z: "dt_wf (d, t)" "\<bar>sd_offset z\<bar> < 86400" "in_calendar (local_instant z)"
    using assms u by (auto simp: sd_wf_def)
  then have i: "is_i64 (sd_offset z)" by (auto simp: is_i64_def)
  have "isValid d" using z by (simp add: dt_wf_def)
  then show at: "localDateTime z = dt_at (local_instant z)"
    using wrap_shift[OF z(1) i _ e] z(3) by (simp add: localDateTime_def sd_isValid_def u e local_instant_def)
  show "dt_wf (localDateTime z)" "dt_instant (localDateTime z) = local_instant z"
    unfolding at using dt_at_wf[OF z(3)] by auto
qed

lemma dt_at_instant: "dt_wf u \<Longrightarrow> dt_at (dt_instant u) = u"
proof -
  assume w: "dt_wf u"
  have "dt_instant u = date_days (fst u) * cNanosecondsPerDay + tod_nanoseconds (snd u)" by (simp add: dt_instant_def)
  then show ?thesis using dt_at_parts(1)[of "dt_instant u"] w by (cases u) (auto simp: dt_wf_def time_wf_def)
qed

lemma mkShiftedDateTime_at:
  assumes "dt_wf (d, t)" "\<bar>s\<bar> < 86400" "in_calendar (dt_instant (d, t) - s * cNanosecondsPerSecond)"
  shows "mkShiftedDateTime d t s = \<lparr>sd_utc = dt_at (dt_instant (d, t) - s * cNanosecondsPerSecond), sd_offset = s\<rparr>"
proof -
  obtain t' days where e: "addDurationWithWrap (- s) t = (t', days)" by force
  have n: "sat64 (- s) = - s" "is_i64 (- s)" using assms(2) by (auto simp: is_i64_def)
  have v: "isValid d" using assms(1) by (simp add: dt_wf_def)
  have w: "(addDays days d, t') = dt_at (dt_instant (d, t) - s * cNanosecondsPerSecond)"
    using wrap_shift[OF assms(1) n(2) _ e] assms(3) by simp
  moreover have "dt_wf (addDays days d, t')" unfolding w by (rule dt_at_wf(1)[OF assms(3)])
  then have "isValid (addDays days d)" by (simp add: dt_wf_def)
  ultimately show ?thesis using v by (simp add: mkShiftedDateTime_def n(1) e)
qed

lemma mkShiftedDateTime_local:
  assumes "sd_wf z"
  shows "mkShiftedDateTime (fst (localDateTime z)) (snd (localDateTime z)) (sd_offset z) = z"
    "mkShiftedDateTime (fst (localDateTime z)) (snd (localDateTime z)) 0 = \<lparr>sd_utc = localDateTime z, sd_offset = 0\<rparr>"
proof -
  obtain d t where l: "localDateTime z = (d, t)" by force
  note at = localDateTime_at[OF assms, unfolded l]
  have u: "dt_wf (sd_utc z)" "\<bar>sd_offset z\<bar> < 86400" "in_calendar (local_instant z)" using assms by (auto simp: sd_wf_def)
  have b: "dt_instant (d, t) - sd_offset z * cNanosecondsPerSecond = dt_instant (sd_utc z)"
    using at(3) by (simp add: local_instant_def)
  have "in_calendar (dt_instant (sd_utc z))" by (rule dt_instant_in_calendar[OF u(1)])
  then show "mkShiftedDateTime (fst (localDateTime z)) (snd (localDateTime z)) (sd_offset z) = z"
    using mkShiftedDateTime_at[OF at(2) u(2)] unfolding l b by (simp add: dt_at_instant[OF u(1)])
  show "mkShiftedDateTime (fst (localDateTime z)) (snd (localDateTime z)) 0 = \<lparr>sd_utc = localDateTime z, sd_offset = 0\<rparr>"
    using mkShiftedDateTime_at[OF at(2), of 0] dt_instant_in_calendar[OF at(2)] dt_at_instant[OF at(2)] by (simp add: l)
qed

lemma kept_date_full:
  assumes "date_wf x" "isValid x" "PDay \<le> precision"
  shows "kept_date precision x = x"
proof -
  obtain y m d where q: "date_parts_of x = \<lparr>dp_year = y, dp_month = m, dp_day = d\<rparr>" "valid_parts y m d"
    by (rule date_parts_fit[OF assms(1,2)])
  have "daysFromParts y m d = date_days x"
    using date_parts_correct(2)[of x] assms(1,2) q(1) by (simp add: date_wf_def isValid_def)
  then show ?thesis using assms(3) by (simp add: kept_date_def q(1) mkDate_def precision_order)
qed

lemma kept_time_full: "time_wf t \<Longrightarrow> kept_time PNanosecond t = t"
  using mkTime_parts(1)[of t] by (simp add: kept_time_def precision_order kept_fraction_def)

text \<open>What the parser makes of every text of a date and time.\<close>

lemma iso_parse_dt:
  assumes "sd_wf z" "PHour \<le> precision \<Longrightarrow> TimeShift flags \<Longrightarrow> \<not> refused_shift flags (sd_offset z)"
  shows "iso_parse (dt_toIsoString flags precision z) True = Some
    \<lparr>pi_date = kept_date precision (fst (localDateTime z)), pi_time = kept_time precision (snd (localDateTime z)),
     pi_precision = read_precision precision, pi_hasOffset = (PHour \<le> precision \<and> TimeShift flags),
     pi_offset = (if PHour \<le> precision \<and> TimeShift flags then shown_shift flags (sd_offset z) else 0)\<rparr>"
proof -
  obtain d t where l: "localDateTime z = (d, t)" by force
  have w: "date_wf d" "isValid d" "time_wf t" using localDateTime_at(2)[OF assms(1)] by (auto simp: l dt_wf_def)
  have o: "\<bar>sd_offset z\<bar> < 86400" using assms(1) by (simp add: sd_wf_def)
  have v: "sd_isValid z" using assms(1) by (simp add: sd_wf_def dt_wf_def sd_isValid_def)
  show ?thesis
  proof (cases "precision < PHour")
    case True
    then have "(if precision < PDay then precision else PDay) = precision" "read_precision precision = precision" "\<not> PHour \<le> precision"
      by (cases precision; simp add: precision_order read_precision_def)+
    then show ?thesis using iso_parse_date[OF w(1,2) True, of flags] True v
      by (simp add: dt_toIsoString_def l kept_time_def)
  next
    case False
    then have "(if precision < PDay then precision else PDay) = PDay" by (cases precision) (simp_all add: precision_order)
    moreover have "PHour \<le> precision" using False by (simp add: not_less)
    ultimately show ?thesis using iso_parse_text[OF w _ o assms(2), of precision] False v
      by (simp add: dt_toIsoString_def l)
  qed
qed


lemma seconds_roundtrip:
  assumes "ts_wf t"
  shows "fromSecondsAndFractions (ts_days t * cSecondsPerDay + ts_nanoseconds t div cNanosecondsPerSecond)
      (ts_nanoseconds t mod cNanosecondsPerSecond) Core = Some t"
proof -
  obtain s f where f: "ts_nanoseconds t = 1000000000 * s + f" "0 \<le> f" "f < 1000000000"
    "ts_nanoseconds t div 1000000000 = s" "ts_nanoseconds t mod 1000000000 = f"
    using div_mod_obtain[of 1000000000 "ts_nanoseconds t"] by auto
  have t: "0 \<le> ts_days t" "ts_days t \<le> cLastDay" "0 \<le> ts_nanoseconds t" "ts_nanoseconds t < 86400000000000"
    using assms by (auto simp: ts_wf_def cNanosecondsPerDay_def)
  have s: "0 \<le> s" "s < 86400" using f(1-3) t(3,4) by linarith+
  have "(ts_days t * 86400 + s) sdiv 86400 = ts_days t" "(ts_days t * 86400 + s) smod 86400 = s"
    by (rule trunc_eq; use s t(1) in simp)+
  then have "splitAmount 1 (ts_days t * 86400 + s) = (ts_days t, s * 1000000000)"
    by (simp add: splitAmount_def cNanosecondsPerSecond_def cNanosecondsPerDay_def)
  then show ?thesis
    unfolding cSecondsPerDay_def cNanosecondsPerSecond_def f(4,5) fromSecondsAndFractions_def
    using f(1-3) t s by (cases t) (auto simp: shifted_def ts_epoch_def ts_isValid_def cNanosecondsPerDay_def Let_def)
qed

lemma timestamp_date_time:
  assumes "ts_wf t"
  shows "dt_wf (ts_date t, ts_time t)" "date_days (ts_date t) = ts_days t" "tod_nanoseconds (ts_time t) = ts_nanoseconds t"
proof -
  have t: "0 \<le> ts_days t" "ts_days t \<le> cLastValidDay" "0 \<le> ts_nanoseconds t" "ts_nanoseconds t < cNanosecondsPerDay"
    using assms by (auto simp: ts_wf_def cLastDay_def cLastValidDay_def)
  then show d: "date_days (ts_date t) = ts_days t" by (simp add: ts_date_def fromDaysSinceEpoch_def cLastValidDay_def invalid_date_def)
  have "is_i64 (ts_nanoseconds t)" using t by (simp add: is_i64_def cNanosecondsPerDay_def)
  then show n: "tod_nanoseconds (ts_time t) = ts_nanoseconds t"
    using addWithWrap_exact[of "\<lparr>tod_nanoseconds = 0\<rparr>" "ts_nanoseconds t"] t
    by (simp add: ts_time_def fromDurationSinceMidnight_def)
  show "dt_wf (ts_date t, ts_time t)" using d n t by (simp add: dt_wf_def isValid_def date_wf_def time_wf_def)
qed

section \<open>Properties\<close>

text \<open>A refused offset makes the whole text unreadable.\<close>

lemma iso_parse_refused:
  assumes "sd_wf z" "TimeShift flags" "PHour \<le> precision" "refused_shift flags (sd_offset z)"
  shows "iso_parse (dt_toIsoString flags precision z) True = None"
proof -
  define a where "a = \<bar>sd_offset z\<bar>"
  have a: "0 \<le> a" "a < 86400" using assms(1) by (auto simp: a_def sd_wf_def)
  obtain h m s where t: "a = h * 3600 + m * 60 + s" "fits 2 h" "fits 2 m" "fits 2 s" "h \<le> 23" "m \<le> 59" "s \<le> 59"
    "a sdiv 3600 = h" "(a - h * 3600) sdiv 60 = m" "a mod 60 = s" using time_parts[OF a] by metis
  have s: "a - h * 3600 - m * 60 = s" using t(1) by simp
  have s0: "s = 0 \<longleftrightarrow> sd_offset z mod 60 = 0" using t(10) by (auto simp: a_def abs_if zmod_zminus1_eq_if split: if_splits)
  have rem: "(if sd_offset z < 0 then sat64 (- sd_offset z) else sd_offset z) = a" using a unfolding a_def by auto
  define sg :: char32 where "sg = (if sd_offset z < 0 then 45 else 43)"
  have nz: "\<not> (sd_offset z = 0 \<and> \<not> TimeShiftAlwaysComplete flags)" "s \<noteq> 0 \<or> TimeShiftAlwaysComplete flags"
    using assms(4) s0 by (auto simp: refused_shift_def)
  define O' where "O' = isoTimeShiftString (sd_offset z) flags"
  have e: "O' = sg # iso_number 2 h @ iso_number 2 m @ iso_number 2 s"
    unfolding O'_def isoTimeShiftString_def Let_def rem t(8,9) s sg_def[symmetric] if_not_P[OF nz(1)]
    using nz(2) assms(4) by (simp add: refused_shift_def)
  have o: "time_end O'" "O' \<noteq> []" unfolding e by (auto simp: time_end_def sg_def)
  obtain d u where l: "localDateTime z = (d, u)" by force
  have w: "date_wf d" "isValid d" "time_wf u" using localDateTime_at(2)[OF assms(1)] by (auto simp: l dt_wf_def)
  obtain q where q: "ip_rest q = O'"
    "iso_parse (date_toIsoString flags PDay d @ (if TimePrefix flags then [84] else [32])
        @ time_toIsoString (flags\<lparr>TimePrefix := False\<rparr>) precision u @ O') True
      = Option.bind (if O' \<noteq> [] then parseOffset q else Some q) (\<lambda>p. if ip_rest p \<noteq> [] then None else iso_result p)"
    using iso_parse_time[OF w assms(3) o(1), where flags = flags] by blast
  have "\<exists>p. parseOffset q = Some p \<and> ip_rest p = iso_number 2 s"
    using q(1) t(2-7) e by (cases "sd_offset z < 0") (simp_all add: parseOffset_def readNDigits_field sg_def)
  then have "iso_parse (date_toIsoString flags PDay d @ (if TimePrefix flags then [84] else [32])
        @ time_toIsoString (flags\<lparr>TimePrefix := False\<rparr>) precision u @ O') True = None"
    unfolding q(2) using o(2) t(4) by auto
  moreover have "sd_isValid z" using assms(1) by (simp add: sd_wf_def dt_wf_def sd_isValid_def)
  moreover have "\<not> precision < PHour" "(if precision < PDay then precision else PDay) = PDay"
    using assms(3) by (auto simp: precision_order)
  ultimately show ?thesis using assms(2) by (simp add: dt_toIsoString_def l O'_def)
qed

text \<open>C9: The ISO text of a date and time, in any format and precision, is read back as the local date
  and time cut to the precision, with the offset the text shows; the offset is shown completely, or
  cut towards zero to whole minutes in the formats without offset seconds. The one exception is a
  text that shows the seconds of an offset in the basic format, without separators: the parser
  refuses it. At full precision the reader rebuilds the same value when the text shows its
  complete offset, and the local date and time at offset zero when the format has no offset.\<close>

theorem iso_date_time_roundtrip:
  assumes "sd_wf z"
  shows "iso_parse (dt_toIsoString flags precision z) True =
      (if PHour \<le> precision \<and> TimeShift flags \<and> refused_shift flags (sd_offset z) then None
       else Some \<lparr>pi_date = kept_date precision (fst (localDateTime z)),
          pi_time = kept_time precision (snd (localDateTime z)), pi_precision = read_precision precision,
          pi_hasOffset = (PHour \<le> precision \<and> TimeShift flags),
          pi_offset = (if PHour \<le> precision \<and> TimeShift flags then shown_shift flags (sd_offset z) else 0)\<rparr>)
    \<and> (TimeShift flags \<and> \<not> refused_shift flags (sd_offset z) \<and> shown_shift flags (sd_offset z) = sd_offset z \<longrightarrow>
        dt_fromIsoString (dt_toIsoString flags PNanosecond z) PNanosecond = z)
    \<and> (\<not> TimeShift flags \<longrightarrow>
        dt_fromIsoString (dt_toIsoString flags PNanosecond z) PNanosecond = \<lparr>sd_utc = localDateTime z, sd_offset = 0\<rparr>)"
proof (intro conjI impI)
  show "iso_parse (dt_toIsoString flags precision z) True =
      (if PHour \<le> precision \<and> TimeShift flags \<and> refused_shift flags (sd_offset z) then None
       else Some \<lparr>pi_date = kept_date precision (fst (localDateTime z)),
          pi_time = kept_time precision (snd (localDateTime z)), pi_precision = read_precision precision,
          pi_hasOffset = (PHour \<le> precision \<and> TimeShift flags),
          pi_offset = (if PHour \<le> precision \<and> TimeShift flags then shown_shift flags (sd_offset z) else 0)\<rparr>)"
    using iso_parse_refused[OF assms, of flags precision] iso_parse_dt[OF assms, of precision flags] by auto
  obtain d t where l: "localDateTime z = (d, t)" by force
  have w: "date_wf d" "isValid d" "time_wf t" using localDateTime_at(2)[OF assms] by (auto simp: l dt_wf_def)
  have k: "kept_date PNanosecond d = d" by (rule kept_date_full[OF w(1,2)]) (simp add: precision_order)
  have full: "iso_parse (dt_toIsoString flags PNanosecond z) True = Some
      \<lparr>pi_date = d, pi_time = t, pi_precision = PNanosecond, pi_hasOffset = TimeShift flags,
       pi_offset = (if TimeShift flags then shown_shift flags (sd_offset z) else 0)\<rparr>"
    if "TimeShift flags \<Longrightarrow> \<not> refused_shift flags (sd_offset z)"
    using iso_parse_dt[OF assms, of PNanosecond flags] that kept_time_full[OF w(3)]
    by (simp add: l k precision_order read_precision_def)
  show "dt_fromIsoString (dt_toIsoString flags PNanosecond z) PNanosecond = z"
    if "TimeShift flags \<and> \<not> refused_shift flags (sd_offset z) \<and> shown_shift flags (sd_offset z) = sd_offset z"
    using that full mkShiftedDateTime_local[OF assms] by (simp add: dt_fromIsoString_def l)
  show "dt_fromIsoString (dt_toIsoString flags PNanosecond z) PNanosecond = \<lparr>sd_utc = localDateTime z, sd_offset = 0\<rparr>"
    if "\<not> TimeShift flags"
    using that full mkShiftedDateTime_local[OF assms] by (simp add: dt_fromIsoString_def l)
qed

lemma iso_date_time_roundtrip_witness:
  "dt_fromIsoString (dt_toIsoString (no_flags\<lparr>TimeShift := True\<rparr>) PNanosecond
      \<lparr>sd_utc = (\<lparr>date_days = 739281\<rparr>, \<lparr>tod_nanoseconds = 86399000000000\<rparr>), sd_offset = - 5400\<rparr>) PNanosecond
    = \<lparr>sd_utc = (\<lparr>date_days = 739281\<rparr>, \<lparr>tod_nanoseconds = 86399000000000\<rparr>), sd_offset = - 5400\<rparr>"
proof -
  let ?z = "\<lparr>sd_utc = (\<lparr>date_days = 739281\<rparr>, \<lparr>tod_nanoseconds = 86399000000000\<rparr>), sd_offset = - 5400\<rparr>"
  let ?f = "no_flags\<lparr>TimeShift := True\<rparr>"
  have "sd_wf ?z"
    by (simp add: sd_wf_def dt_wf_def isValid_def date_wf_def time_wf_def cLastValidDay_def cNanosecondsPerDay_def
      cNanosecondsPerSecond_def in_calendar_def local_instant_def dt_instant_def last_instant_def)
  moreover have "TimeShift ?f" "\<not> refused_shift ?f (- 5400)" "shown_shift ?f (- 5400) = - 5400"
    by (simp_all add: refused_shift_def shown_shift_def no_flags_def signed_divide_int_def)
  ultimately show ?thesis using iso_date_time_roundtrip[of ?z ?f PNanosecond] by simp
qed

text \<open>The ISO text of every valid timestamp reads back to the same timestamp.\<close>

lemma iso_timestamp_roundtrip:
  assumes "ts_wf t"
  shows "Option.bind (ts_toIsoString t) ts_fromIsoString = Some t"
proof -
  note tp = timestamp_date_time[OF assms]
  let ?z = "\<lparr>sd_utc = (ts_date t, ts_time t), sd_offset = 0\<rparr>"
  let ?f = "no_flags\<lparr>Extended := True, TimePrefix := True, TimeShift := True, UseDotFraction := True\<rparr>"
  have mk: "mkShiftedDateTime (ts_date t) (ts_time t) 0 = ?z"
    using mkShiftedDateTime_at[OF tp(1), of 0] dt_instant_in_calendar[OF tp(1)] dt_at_instant[OF tp(1)] by simp
  have z: "sd_wf ?z" using tp(1) dt_instant_in_calendar[OF tp(1)] by (simp add: sd_wf_def local_instant_def)
  have l: "localDateTime ?z = (ts_date t, ts_time t)"
    using localDateTime_at(1)[OF z] dt_at_instant[OF tp(1)] by (simp add: local_instant_def)
  have w: "date_wf (ts_date t)" "isValid (ts_date t)" "time_wf (ts_time t)" using tp(1) by (auto simp: dt_wf_def)
  have "kept_date PNanosecond (ts_date t) = ts_date t" by (rule kept_date_full[OF w(1,2)]) (simp add: precision_order)
  then have "iso_parse (dt_toIsoString ?f PNanosecond ?z) True = Some
      \<lparr>pi_date = ts_date t, pi_time = ts_time t, pi_precision = PNanosecond, pi_hasOffset = True, pi_offset = 0\<rparr>"
    using iso_parse_dt[OF z, of PNanosecond ?f] kept_time_full[OF w(3)]
    by (simp add: l precision_order read_precision_def refused_shift_def shown_shift_def no_flags_def)
  then have "ts_fromIsoString (dt_toIsoString ?f PNanosecond ?z) = Some t"
    using seconds_roundtrip[OF assms]
    by (simp add: ts_fromIsoString_def tp toSecondsSinceMidnight_def nanosecondFraction_def precision_order)
  moreover have "ts_isValid t" using assms by (simp add: ts_isValid_def ts_wf_def)
  ultimately show ?thesis by (simp add: ts_toIsoString_def ts_toDateTime_def mk)
qed

lemma iso_timestamp_roundtrip_witness:
  "Option.bind (ts_toIsoString \<lparr>ts_days = 739281, ts_nanoseconds = 45296000000789\<rparr>) ts_fromIsoString
    = Some \<lparr>ts_days = 739281, ts_nanoseconds = 45296000000789\<rparr>"
  using iso_timestamp_roundtrip[of "\<lparr>ts_days = 739281, ts_nanoseconds = 45296000000789\<rparr>"]
  by (simp add: ts_wf_def cLastDay_def cNanosecondsPerDay_def)



end
