(* ===== verification/Cbor.thy ===== *)
theory Cbor
  imports U8Strings IsoText "HOL-Library.Log_Nat"
begin

text \<open>
  The CBOR codec (\<open>src/erbsland/data/cbor/impl/CborCodec.cpp\<close>, \<open>CborCodec_write.cpp\<close>) and the value
  type (\<open>CborValue.cpp\<close>). The reader is the list of bytes that are left, the scratch writer the bytes
  written to it. Texts are their UTF-8 bytes, a map is the list of its entries in the order of its keys,
  a double is its IEEE 754 bit pattern. The recursive reader takes fuel; the theorem on termination says
  how much is enough. Limits are finite numbers. Sharing between copies of a value is not observable and
  is left out.
\<close>

section \<open>Values\<close>

type_synonym octets = "byte8 list"

datatype cbor_value =
    CborNull
  | CborBool bool
  | CborSigned int
  | CborUnsigned nat
  | CborFloat "64 word"
  | CborText octets
  | CborBytes octets
  | CborArray "cbor_value list"
  | CborMap "(octets \<times> cbor_value) list"
  | CborDateTime timestamp
  | CborLink octets

datatype cbor_error = CborParseError | CborParameterError | CborLogicError | CborRangeError | CborOutOfFuel

abbreviation i64_limit :: nat where "i64_limit \<equiv> 9223372036854775807"

definition getSigned :: "cbor_value \<Rightarrow> int option" where
  "getSigned v = (case v of CborSigned n \<Rightarrow> Some n
     | CborUnsigned n \<Rightarrow> if n \<le> i64_limit then Some (int n) else None | _ \<Rightarrow> None)"

definition getUnsigned :: "cbor_value \<Rightarrow> nat option" where
  "getUnsigned v = (case v of CborUnsigned n \<Rightarrow> Some n
     | CborSigned n \<Rightarrow> if n \<ge> 0 then Some (nat n) else None | _ \<Rightarrow> None)"

definition getFloat :: "cbor_value \<Rightarrow> 64 word option" where
  "getFloat v = (case v of CborFloat b \<Rightarrow> Some b | _ \<Rightarrow> None)"

definition getText :: "cbor_value \<Rightarrow> octets option" where
  "getText v = (case v of CborText t \<Rightarrow> Some t | _ \<Rightarrow> None)"

definition getBytes :: "cbor_value \<Rightarrow> octets option" where
  "getBytes v = (case v of CborBytes t \<Rightarrow> Some t | _ \<Rightarrow> None)"

definition getArray :: "cbor_value \<Rightarrow> cbor_value list option" where
  "getArray v = (case v of CborArray vs \<Rightarrow> Some vs | _ \<Rightarrow> None)"

definition getMap :: "cbor_value \<Rightarrow> (octets \<times> cbor_value) list option" where
  "getMap v = (case v of CborMap m \<Rightarrow> Some m | _ \<Rightarrow> None)"

text \<open>The ordered map of strings: keys are compared by their characters.\<close>

fun map_find :: "octets \<Rightarrow> (octets \<times> 'v) list \<Rightarrow> 'v option" where
  "map_find key [] = None"
| "map_find key ((k, v) # m) = (if compareDecodedSpans key k None = OrdEqual then Some v else map_find key m)"

fun map_insert :: "octets \<Rightarrow> 'v \<Rightarrow> (octets \<times> 'v) list \<Rightarrow> (octets \<times> 'v) list" where
  "map_insert key v [] = [(key, v)]"
| "map_insert key v ((k, w) # m) =
     (if compareDecodedSpans key k None = OrdLess then (key, v) # (k, w) # m else (k, w) # map_insert key v m)"

definition map_set :: "octets \<Rightarrow> 'v \<Rightarrow> (octets \<times> 'v) list \<Rightarrow> (octets \<times> 'v) list" where
  "map_set key v m = map_insert key v (filter (\<lambda>(k, w). compareDecodedSpans key k None \<noteq> OrdEqual) m)"

definition cv_itemCount :: "cbor_value \<Rightarrow> nat" where
  "cv_itemCount v =
     (case getArray v of Some vs \<Rightarrow> length vs
      | None \<Rightarrow> (case getMap v of Some m \<Rightarrow> length m | None \<Rightarrow> 0))"

definition cv_getIndex :: "nat \<Rightarrow> cbor_value \<Rightarrow> cbor_value" where
  "cv_getIndex index v =
     (case getArray v of Some vs \<Rightarrow> if index < length vs then vs ! index else CborNull | None \<Rightarrow> CborNull)"

definition cv_getKey :: "octets \<Rightarrow> cbor_value \<Rightarrow> cbor_value" where
  "cv_getKey key v =
     (case getMap v of Some m \<Rightarrow> (case map_find key m of Some w \<Rightarrow> w | None \<Rightarrow> CborNull) | None \<Rightarrow> CborNull)"

definition cv_getIndexOrThrow :: "nat \<Rightarrow> cbor_value \<Rightarrow> cbor_error + cbor_value" where
  "cv_getIndexOrThrow index v =
     (case getArray v of None \<Rightarrow> Inl CborLogicError
      | Some vs \<Rightarrow> if index < length vs then Inr (vs ! index) else Inl CborRangeError)"

definition cv_getKeyOrThrow :: "octets \<Rightarrow> cbor_value \<Rightarrow> cbor_error + cbor_value" where
  "cv_getKeyOrThrow key v =
     (case getMap v of None \<Rightarrow> Inl CborLogicError
      | Some m \<Rightarrow> (case map_find key m of None \<Rightarrow> Inl CborRangeError | Some w \<Rightarrow> Inr w))"

definition cv_setIndex :: "nat \<Rightarrow> cbor_value \<Rightarrow> cbor_value \<Rightarrow> cbor_error + cbor_value" where
  "cv_setIndex index w v =
     (case v of
        CborArray vs \<Rightarrow>
          if index = length vs then Inr (CborArray (vs @ [w]))
          else if index < length vs then Inr (CborArray (vs[index := w]))
          else Inl CborRangeError
      | _ \<Rightarrow> Inl CborLogicError)"

definition cv_setKey :: "octets \<Rightarrow> cbor_value \<Rightarrow> cbor_value \<Rightarrow> cbor_error + cbor_value" where
  "cv_setKey key w v = (case v of CborMap m \<Rightarrow> Inr (CborMap (map_set key w m)) | _ \<Rightarrow> Inl CborLogicError)"

definition cv_append :: "cbor_value \<Rightarrow> cbor_value \<Rightarrow> cbor_error + cbor_value" where
  "cv_append w v = (case v of CborArray vs \<Rightarrow> Inr (CborArray (vs @ [w])) | _ \<Rightarrow> Inl CborLogicError)"

section \<open>Big-endian integers\<close>

fun writeUnsigned :: "nat \<Rightarrow> nat \<Rightarrow> octets" where
  "writeUnsigned 0 v = []"
| "writeUnsigned (Suc n) v = writeUnsigned n (v div 256) @ [of_nat v]"

definition unsigned_value :: "octets \<Rightarrow> nat" where
  "unsigned_value bs = foldl (\<lambda>r b. r * 256 + unat b) 0 bs"

section \<open>Parse options and reader state\<close>

record parse_limits =
  po_dagCbor :: bool
  po_maximumInputLength :: nat
  po_maximumNesting :: nat
  po_maximumValueCount :: nat
  po_maximumStringLength :: nat

definition default_limits :: parse_limits where
  "default_limits = \<lparr>po_dagCbor = False, po_maximumInputLength = 16 * 1024 * 1024, po_maximumNesting = 64,
     po_maximumValueCount = 1000000, po_maximumStringLength = 8 * 1024 * 1024\<rparr>"

record codec =
  cc_rest :: octets
  cc_scratch :: octets
  cc_valueCount :: nat

definition readUnsigned :: "nat \<Rightarrow> codec \<Rightarrow> cbor_error + nat \<times> codec" where
  "readUnsigned n s =
     (if length (cc_rest s) < n then Inl CborParseError
      else Inr (unsigned_value (take n (cc_rest s)), s\<lparr>cc_rest := drop n (cc_rest s)\<rparr>))"

definition readArgument :: "parse_limits \<Rightarrow> nat \<Rightarrow> bool \<Rightarrow> codec \<Rightarrow> cbor_error + nat \<times> codec" where
  "readArgument po additional allowIndefinite s =
     (if additional < 24 then Inr (additional, s)
      else if additional = 31 \<and> allowIndefinite \<and> \<not> po_dagCbor po then Inr (u64_max, s)
      else sbind (if additional = 24 then readUnsigned 1 s
                  else if additional = 25 then readUnsigned 2 s
                  else if additional = 26 then readUnsigned 4 s
                  else if additional = 27 then readUnsigned 8 s
                  else Inl CborParseError)
        (\<lambda>(v, s).
          if po_dagCbor po \<and> (additional = 24 \<and> v < 24 \<or> additional = 25 \<and> v \<le> u8_max
                \<or> additional = 26 \<and> v \<le> u16_max \<or> additional = 27 \<and> v \<le> u32_max)
          then Inl CborParseError else Inr (v, s)))"

text \<open>The parts of a sequence of indefinite length are collected in the scratch writer.\<close>

definition read_block :: "parse_limits \<Rightarrow> nat \<Rightarrow> codec \<Rightarrow> cbor_error + octets \<times> codec" where
  "read_block po n s =
     (if n > po_maximumInputLength po \<or> length (cc_rest s) < n then Inl CborParseError
      else Inr (take n (cc_rest s), s\<lparr>cc_rest := drop n (cc_rest s)\<rparr>))"

definition read_part :: "parse_limits \<Rightarrow> nat \<Rightarrow> codec \<Rightarrow> cbor_error + codec" where
  "read_part po major s =
     sbind (readUnsigned 1 s) (\<lambda>(head, s).
       if drop_bit 5 head \<noteq> major \<or> head AND 31 = 31 then Inl CborParseError
       else sbind (readArgument po (head AND 31) False s) (\<lambda>(partLength, s).
         sbind (read_block po partLength s) (\<lambda>(part, s).
           let s = s\<lparr>cc_scratch := cc_scratch s @ part\<rparr>
           in if length (cc_scratch s) > po_maximumInputLength po then Inl CborParseError else Inr s)))"

lemma readUnsigned_rest: "readUnsigned n s = Inr (v, s') \<Longrightarrow> length (cc_rest s') = length (cc_rest s) - n \<and> n \<le> length (cc_rest s)"
  by (auto simp: readUnsigned_def split: if_splits)

lemma readArgument_rest: "readArgument po a i s = Inr (v, s') \<Longrightarrow> length (cc_rest s') \<le> length (cc_rest s)"
  by (auto simp: readArgument_def sbind_Inr_iff dest!: readUnsigned_rest split: if_splits)

lemma read_block_rest: "read_block po n s = Inr (v, s') \<Longrightarrow> length (cc_rest s') \<le> length (cc_rest s)"
  by (auto simp: read_block_def split: if_splits)

lemma read_part_rest: "read_part po major s = Inr s' \<Longrightarrow> length (cc_rest s') < length (cc_rest s)"
  by (fastforce simp: read_part_def sbind_Inr_iff Let_def split: if_splits
      dest!: readUnsigned_rest readArgument_rest read_block_rest)

function read_parts :: "parse_limits \<Rightarrow> nat \<Rightarrow> codec \<Rightarrow> cbor_error + codec" where
  "read_parts po major s =
     (if cc_rest s = [] then Inl CborParseError
      else if hd (cc_rest s) = 0xFF then Inr (s\<lparr>cc_rest := tl (cc_rest s)\<rparr>)
      else sbind (read_part po major s) (\<lambda>s. read_parts po major s))"
  by pat_completeness auto
termination
  by (relation "measure (\<lambda>(_, _, s). length (cc_rest s))") (auto dest: read_part_rest)

declare read_parts.simps [simp del]

definition readBytes :: "parse_limits \<Rightarrow> nat \<Rightarrow> nat \<Rightarrow> codec \<Rightarrow> cbor_error + octets \<times> codec" where
  "readBytes po additional major s =
     sbind (readArgument po additional True s) (\<lambda>(n, s).
       if n \<noteq> u64_max then read_block po n s
       else let start = length (cc_scratch s)
            in sbind (read_parts po major s) (\<lambda>s. Inr (drop start (cc_scratch s), s)))"

definition readText :: "parse_limits \<Rightarrow> nat \<Rightarrow> codec \<Rightarrow> cbor_error + octets \<times> codec" where
  "readText po additional s =
     sbind (readBytes po additional 3 s) (\<lambda>(t, s).
       if length t > po_maximumStringLength po then Inl CborParseError
       else if po_dagCbor po \<and> \<not> isValidUtf8 t then Inl CborParseError
       else Inr (t, s))"

section \<open>Floating-point numbers\<close>

text \<open>The fields of a double, and the double of an exact value \<open>m * 2 ^ e\<close> in the normal range.\<close>

definition double_bits :: "bool \<Rightarrow> nat \<Rightarrow> nat \<Rightarrow> 64 word" where
  "double_bits negative ex mantissa = of_nat ((if negative then 2 ^ 63 else 0) + ex * 2 ^ 52 + mantissa)"

definition d_negative :: "64 word \<Rightarrow> bool" where "d_negative b \<longleftrightarrow> unat b div 2 ^ 63 = 1"
definition d_exponent :: "64 word \<Rightarrow> nat" where "d_exponent b = unat b div 2 ^ 52 mod 2048"
definition d_mantissa :: "64 word \<Rightarrow> nat" where "d_mantissa b = unat b mod 2 ^ 52"

definition d_isfinite :: "64 word \<Rightarrow> bool" where "d_isfinite b \<longleftrightarrow> d_exponent b \<noteq> 2047"
definition d_isZero :: "64 word \<Rightarrow> bool" where "d_isZero b \<longleftrightarrow> d_exponent b = 0 \<and> d_mantissa b = 0"

definition quiet_nan :: "64 word" where "quiet_nan = double_bits False 2047 (2 ^ 51)"

definition ldexp_bits :: "bool \<Rightarrow> nat \<Rightarrow> int \<Rightarrow> 64 word" where
  "ldexp_bits negative m e =
     (if m = 0 then double_bits negative 0 0
      else let k = floorlog 2 m - 1
           in double_bits negative (nat (e + int k + 1023)) ((m - 2 ^ k) * 2 ^ (52 - k)))"

definition halfToDouble :: "nat \<Rightarrow> 64 word" where
  "halfToDouble bits =
     (let negative = (bits AND 0x8000 \<noteq> 0); ex = drop_bit 10 bits AND 31; mantissa = bits AND 1023
      in if ex = 31 then (if mantissa = 0 then double_bits negative 2047 0 else quiet_nan)
         else if ex = 0 then ldexp_bits negative mantissa (- 24)
         else ldexp_bits negative (mantissa + 1024) (int ex - 25))"

text \<open>The conversion of a single-precision pattern: exact, a signalling NaN is made quiet.\<close>

definition floatToDouble :: "nat \<Rightarrow> 64 word" where
  "floatToDouble bits =
     (let negative = (bits AND 0x80000000 \<noteq> 0); ex = drop_bit 23 bits AND 255; mantissa = bits AND 0x7FFFFF
      in if ex = 255
         then double_bits negative 2047 (if mantissa = 0 then 0 else (mantissa * 2 ^ 29) OR 2 ^ 51)
         else if ex = 0 then ldexp_bits negative mantissa (- 149)
         else ldexp_bits negative (mantissa + 2 ^ 23) (int ex - 150))"

text \<open>
  Finite doubles are whole multiples of \<open>2 ^ (- 1074)\<close>; \<open>d_units\<close> counts them. \<open>round_units a b\<close> is the
  double nearest to \<open>a / b\<close> of these units, ties to even.
\<close>

definition d_units :: "64 word \<Rightarrow> int" where
  "d_units b = (if d_negative b then - 1 else 1)
     * (if d_exponent b = 0 then int (d_mantissa b) else int ((2 ^ 52 + d_mantissa b) * 2 ^ (d_exponent b - 1)))"

definition round_units :: "nat \<Rightarrow> nat \<Rightarrow> nat" where
  "round_units a b =
     (let s = floorlog 2 (a div b) - 53; d = b * 2 ^ s; q = a div d; r = a mod d
      in (if 2 * r > d \<or> 2 * r = d \<and> odd q then q + 1 else q) * 2 ^ s)"

section \<open>Links and dates\<close>

fun read_varint_loop :: "nat list \<Rightarrow> nat \<Rightarrow> octets \<Rightarrow> (nat \<times> octets) option" where
  "read_varint_loop [] v bs = None"
| "read_varint_loop (shift # shifts) v [] = None"
| "read_varint_loop (shift # shifts) v (b # bs) =
     (let octet = unat b in
      if shift = 63 \<and> octet AND 0x7F > 1 then None
      else let v = v OR push_bit shift (octet AND 0x7F) in
        if octet AND 0x80 = 0 then (if shift \<noteq> 0 \<and> octet AND 0x7F = 0 then None else Some (v, bs))
        else read_varint_loop shifts v bs)"

definition readVarint :: "octets \<Rightarrow> (nat \<times> octets) option" where
  "readVarint bs = read_varint_loop [0, 7, 14, 21, 28, 35, 42, 49, 56, 63] 0 bs"

definition validCid :: "octets \<Rightarrow> bool" where
  "validCid data =
     (if data = [] then False
      else if hd data = 0x12 then length data = 34 \<and> data ! 1 = 0x20
      else case readVarint data of None \<Rightarrow> False | Some (version, data) \<Rightarrow>
        (case readVarint data of None \<Rightarrow> False | Some (cidCodec, data) \<Rightarrow>
        (case readVarint data of None \<Rightarrow> False | Some (hashCode, data) \<Rightarrow>
        (case readVarint data of None \<Rightarrow> False | Some (digestLength, data) \<Rightarrow>
          version = 1 \<and> cidCodec \<noteq> 0 \<and> hashCode \<noteq> 0 \<and> digestLength = length data))))"

definition link_of :: "cbor_value \<Rightarrow> cbor_error + cbor_value" where
  "link_of v =
     (case getBytes v of None \<Rightarrow> Inl CborParseError
      | Some bytes \<Rightarrow>
        if bytes = [] \<or> hd bytes \<noteq> 0 \<or> \<not> validCid (tl bytes) then Inl CborParseError
        else Inr (CborLink (tl bytes)))"

definition ts_fromDateTime :: "shifted_date_time \<Rightarrow> timestamp option" where
  "ts_fromDateTime z =
     (if \<not> sd_isValid z then None
      else Some \<lparr>ts_days = date_days (fst (sd_utc z)), ts_nanoseconds = tod_nanoseconds (snd (sd_utc z))\<rparr>)"

definition date_of_text :: "cbor_value \<Rightarrow> cbor_error + cbor_value" where
  "date_of_text v =
     (case getText v of None \<Rightarrow> Inl CborParseError
      | Some t \<Rightarrow>
        let date = dt_fromIsoString (chars t) PSecond in
        if \<not> sd_isValid date then Inl CborParseError
        else (case ts_fromDateTime date of None \<Rightarrow> Inl CborParseError | Some t \<Rightarrow> Inr (CborDateTime t)))"

definition posix_seconds :: int where "posix_seconds = 719528 * 86400"

definition date_of_seconds :: "int \<Rightarrow> int \<Rightarrow> cbor_error + cbor_value" where
  "date_of_seconds seconds nanoseconds =
     (if seconds < 0 \<and> seconds < - posix_seconds \<or> seconds > 0 \<and> posix_seconds > i64_max - seconds
      then Inl CborParseError
      else case fromSecondsAndFractions (posix_seconds + seconds) nanoseconds Core of
        None \<Rightarrow> Inl CborParseError | Some t \<Rightarrow> Inr (CborDateTime t))"

definition seconds_of_float :: "64 word \<Rightarrow> cbor_error + int \<times> int" where
  "seconds_of_float b =
     (if \<not> d_isfinite b then Inl CborParseError
      else let unit = 2 ^ 1074; whole = d_units b div unit in
        if whole < i64_min \<or> whole \<ge> 2 ^ 63 then Inl CborParseError
        else let fraction = round_units (nat (d_units b mod unit)) 1;
                 nanos = (round_units (fraction * 1000000000) 1 + 2 ^ 1073) div 2 ^ 1074
             in if nanos \<ge> 1000000000
                then (if whole = i64_max then Inl CborParseError else Inr (whole + 1, 0))
                else if round_units (nanos * 2 ^ 1074) 1000000000 \<noteq> fraction then Inl CborParseError
                else Inr (whole, int nanos))"

definition date_of_number :: "cbor_value \<Rightarrow> cbor_error + cbor_value" where
  "date_of_number v =
     (case getSigned v of Some seconds \<Rightarrow> date_of_seconds seconds 0
      | None \<Rightarrow> (case getFloat v of
            Some b \<Rightarrow> sbind (seconds_of_float b) (\<lambda>(seconds, nanoseconds). date_of_seconds seconds nanoseconds)
          | None \<Rightarrow> Inl CborParseError))"

section \<open>Reading values\<close>

definition readSimple :: "parse_limits \<Rightarrow> nat \<Rightarrow> codec \<Rightarrow> cbor_error + cbor_value \<times> codec" where
  "readSimple po additional s =
     (if additional = 20 then Inr (CborBool False, s)
      else if additional = 21 then Inr (CborBool True, s)
      else if additional = 22 then Inr (CborNull, s)
      else if additional = 25 \<or> additional = 26 \<or> additional = 27
      then if po_dagCbor po \<and> additional \<noteq> 27 then Inl CborParseError
        else sbind (if additional = 25 then sbind (readUnsigned 2 s) (\<lambda>(v, s). Inr (halfToDouble v, s))
                    else if additional = 26 then sbind (readUnsigned 4 s) (\<lambda>(v, s). Inr (floatToDouble v, s))
                    else sbind (readUnsigned 8 s) (\<lambda>(v, s). Inr (of_nat v, s)))
          (\<lambda>(v, s). if po_dagCbor po \<and> (\<not> d_isfinite v \<or> d_isZero v \<and> d_negative v) then Inl CborParseError
                    else Inr (CborFloat v, s))
      else Inl CborParseError)"

text \<open>The array and map loops count the items read; \<open>itemTotal\<close> is the sentinel for indefinite lengths.\<close>

definition at_break :: "nat \<Rightarrow> codec \<Rightarrow> bool" where
  "at_break itemTotal s \<longleftrightarrow> itemTotal = u64_max \<and> cc_rest s \<noteq> [] \<and> hd (cc_rest s) = 0xFF"

definition skip_break :: "codec \<Rightarrow> codec" where "skip_break s = s\<lparr>cc_rest := tl (cc_rest s)\<rparr>"

definition key_order_ok :: "octets \<Rightarrow> octets \<Rightarrow> bool" where
  "key_order_ok previous current \<longleftrightarrow> previous = [] \<or> lex_compare order_of (map unat previous) (map unat current) = OrdLess"

definition dag_key :: "octets \<Rightarrow> octets \<Rightarrow> octets" where
  "dag_key before after = take (length before - length after) before"

text \<open>
  The functions that read the parts of a value take the reader of nested values as an argument: it
  reads one value at a nesting depth. The loops take fuel, as \<open>readValue\<close> does.
\<close>

type_synonym value_reader = "nat \<Rightarrow> codec \<Rightarrow> cbor_error + cbor_value \<times> codec"

primrec read_items :: "nat \<Rightarrow> value_reader \<Rightarrow> nat \<Rightarrow> nat \<Rightarrow> nat \<Rightarrow> cbor_value list \<Rightarrow> codec
      \<Rightarrow> cbor_error + cbor_value list \<times> codec" where
  "read_items 0 rv depth itemTotal i vs s = Inl CborOutOfFuel"
| "read_items (Suc fuel) rv depth itemTotal i vs s =
     (if \<not> (itemTotal = u64_max \<or> i < itemTotal) then Inr (vs, s)
      else if at_break itemTotal s then Inr (vs, skip_break s)
      else if cc_rest s = [] then Inl CborParseError
      else sbind (rv (depth + 1) s) (\<lambda>(v, s). read_items fuel rv depth itemTotal (i + 1) (vs @ [v]) s))"

definition readArray :: "nat \<Rightarrow> value_reader \<Rightarrow> parse_limits \<Rightarrow> nat \<Rightarrow> value_reader" where
  "readArray fuel rv po additional depth s =
     (if depth \<ge> po_maximumNesting po then Inl CborParseError
      else sbind (readArgument po additional True s) (\<lambda>(itemTotal, s).
        if itemTotal \<noteq> u64_max \<and> itemTotal > po_maximumValueCount po then Inl CborParseError
        else sbind (read_items fuel rv depth itemTotal 0 [] s) (\<lambda>(vs, s). Inr (CborArray vs, s))))"

definition read_entry :: "value_reader \<Rightarrow> parse_limits \<Rightarrow> nat \<Rightarrow> octets \<Rightarrow> (octets \<times> cbor_value) list \<Rightarrow> codec
      \<Rightarrow> cbor_error + octets \<times> (octets \<times> cbor_value) list \<times> codec" where
  "read_entry rv po depth previous m s =
     (let start = cc_rest s in
      sbind (rv (depth + 1) s) (\<lambda>(keyValue, s).
        case getText keyValue of
          None \<Rightarrow> Inl CborParseError
        | Some key \<Rightarrow>
          if map_find key m \<noteq> None then Inl CborParseError
          else let current = dag_key start (cc_rest s) in
            if po_dagCbor po \<and> \<not> key_order_ok previous current then Inl CborParseError
            else sbind (rv (depth + 1) s) (\<lambda>(v, s).
              Inr (if po_dagCbor po then current else previous, map_set key v m, s))))"

primrec read_entries :: "nat \<Rightarrow> value_reader \<Rightarrow> parse_limits \<Rightarrow> nat \<Rightarrow> nat \<Rightarrow> nat \<Rightarrow> octets \<Rightarrow> (octets \<times> cbor_value) list \<Rightarrow> codec
      \<Rightarrow> cbor_error + (octets \<times> cbor_value) list \<times> codec" where
  "read_entries 0 rv po depth itemTotal i previous m s = Inl CborOutOfFuel"
| "read_entries (Suc fuel) rv po depth itemTotal i previous m s =
     (if \<not> (itemTotal = u64_max \<or> i < itemTotal) then Inr (m, s)
      else if at_break itemTotal s then Inr (m, skip_break s)
      else if cc_rest s = [] then Inl CborParseError
      else sbind (read_entry rv po depth previous m s) (\<lambda>(previous, m, s).
        read_entries fuel rv po depth itemTotal (i + 1) previous m s))"

definition readMap :: "nat \<Rightarrow> value_reader \<Rightarrow> parse_limits \<Rightarrow> nat \<Rightarrow> value_reader" where
  "readMap fuel rv po additional depth s =
     (if depth \<ge> po_maximumNesting po then Inl CborParseError
      else sbind (readArgument po additional True s) (\<lambda>(itemTotal, s).
        if itemTotal \<noteq> u64_max \<and> itemTotal > po_maximumValueCount po then Inl CborParseError
        else sbind (read_entries fuel rv po depth itemTotal 0 [] [] s) (\<lambda>(m, s). Inr (CborMap m, s))))"

definition readTag :: "value_reader \<Rightarrow> parse_limits \<Rightarrow> nat \<Rightarrow> value_reader" where
  "readTag rv po additional depth s =
     sbind (readArgument po additional False s) (\<lambda>(tag, s).
       if tag = 42 then sbind (rv depth s) (\<lambda>(v, s). sbind (link_of v) (\<lambda>v. Inr (v, s)))
       else if po_dagCbor po then Inl CborParseError
       else if tag = 0 then sbind (rv depth s) (\<lambda>(v, s). sbind (date_of_text v) (\<lambda>v. Inr (v, s)))
       else if tag = 1 then sbind (rv depth s) (\<lambda>(v, s). sbind (date_of_number v) (\<lambda>v. Inr (v, s)))
       else Inl CborParseError)"

text \<open>The value after its head byte, by major type.\<close>

definition read_major :: "nat \<Rightarrow> value_reader \<Rightarrow> parse_limits \<Rightarrow> nat \<Rightarrow> nat \<Rightarrow> value_reader" where
  "read_major fuel rv po major additional depth s =
     (if major = 0 then sbind (readArgument po additional False s) (\<lambda>(n, s). Inr (CborUnsigned n, s))
      else if major = 1 then sbind (readArgument po additional False s) (\<lambda>(n, s).
        if n > i64_limit then Inl CborParseError else Inr (CborSigned (- 1 - int n), s))
      else if major = 2 then sbind (readBytes po additional 2 s) (\<lambda>(b, s). Inr (CborBytes b, s))
      else if major = 3 then sbind (readText po additional s) (\<lambda>(t, s). Inr (CborText t, s))
      else if major = 4 then readArray fuel rv po additional depth s
      else if major = 5 then readMap fuel rv po additional depth s
      else if major = 6 then readTag rv po additional depth s
      else readSimple po additional s)"

primrec readValue :: "nat \<Rightarrow> parse_limits \<Rightarrow> value_reader" where
  "readValue 0 po = (\<lambda>depth s. Inl CborOutOfFuel)"
| "readValue (Suc fuel) po = (\<lambda>depth s.
     if cc_rest s = [] \<or> cc_valueCount s \<ge> po_maximumValueCount po then Inl CborParseError
     else sbind (readUnsigned 1 (s\<lparr>cc_valueCount := cc_valueCount s + 1\<rparr>)) (\<lambda>(head, s).
       read_major fuel (readValue fuel po) po (drop_bit 5 head) (head AND 31) depth s))"

definition cbor_decode :: "parse_limits \<Rightarrow> octets \<Rightarrow> cbor_error + cbor_value" where
  "cbor_decode po input =
     (if length input > po_maximumInputLength po then Inl CborParseError
      else sbind (readValue (length input + 1) po 0 \<lparr>cc_rest = input, cc_scratch = [], cc_valueCount = 0\<rparr>)
        (\<lambda>(v, s). if cc_rest s \<noteq> [] then Inl CborParseError else Inr v))"

section \<open>Writing values\<close>

definition writeHead :: "nat \<Rightarrow> nat \<Rightarrow> octets" where
  "writeHead major v =
     (let base = push_bit 5 major in
      if v < 24 then [of_nat (base OR v)]
      else if v \<le> u8_max then of_nat (base OR 24) # writeUnsigned 1 v
      else if v \<le> u16_max then of_nat (base OR 25) # writeUnsigned 2 v
      else if v \<le> u32_max then of_nat (base OR 26) # writeUnsigned 4 v
      else of_nat (base OR 27) # writeUnsigned 8 v)"

definition cbor_writeBytes :: "octets \<Rightarrow> octets" where
  "cbor_writeBytes v = writeHead 2 (length v) @ v"

text \<open>The conversion to a standard string replaces what is not valid UTF-8.\<close>

definition std_string :: "octets \<Rightarrow> octets" where
  "std_string v = (case createUtf8String v of Inl e \<Rightarrow> [] | Inr bytes \<Rightarrow> bytes)"

definition writeText :: "bool \<Rightarrow> octets \<Rightarrow> cbor_error + octets" where
  "writeText dag v =
     (if dag \<and> \<not> isValidUtf8 v then Inl CborParameterError
      else let bytes = std_string v in Inr (writeHead 3 (length bytes) @ bytes))"

text \<open>The order of map entries for DAG-CBOR: by key length, then by key.\<close>

definition key_less :: "octets \<Rightarrow> octets \<Rightarrow> bool" where
  "key_less a b \<longleftrightarrow> (if length a \<noteq> length b then length a < length b else compareDecodedSpans a b None = OrdLess)"

fun insert_entry :: "octets \<times> 'v \<Rightarrow> (octets \<times> 'v) list \<Rightarrow> (octets \<times> 'v) list" where
  "insert_entry e [] = [e]"
| "insert_entry e (x # xs) = (if key_less (fst e) (fst x) then e # x # xs else x # insert_entry e xs)"

definition sort_entries :: "(octets \<times> 'v) list \<Rightarrow> (octets \<times> 'v) list" where
  "sort_entries es = foldr insert_entry es []"

fun concat_results :: "('e + octets) list \<Rightarrow> 'e + octets" where
  "concat_results [] = Inr []"
| "concat_results (r # rs) = sbind r (\<lambda>a. sbind (concat_results rs) (\<lambda>b. Inr (a @ b)))"

definition date_text :: "timestamp \<Rightarrow> octets" where
  "date_text t = encoded (case ts_toDateTime t of None \<Rightarrow> []
     | Some v \<Rightarrow> dt_toIsoString (no_flags\<lparr>Extended := True\<rparr>) PNanosecond v)"

fun writeValue :: "bool \<Rightarrow> cbor_value \<Rightarrow> cbor_error + octets" where
  "writeValue dag CborNull = Inr [0xF6]"
| "writeValue dag (CborBool b) = Inr [if b then 0xF5 else 0xF4]"
| "writeValue dag (CborSigned n) =
     (if n \<ge> 0 then Inr (writeHead 0 (nat n)) else Inr (writeHead 1 (nat (- (n + 1)))))"
| "writeValue dag (CborUnsigned n) = Inr (writeHead 0 n)"
| "writeValue dag (CborFloat b) =
     (if dag \<and> \<not> d_isfinite b then Inl CborParameterError
      else Inr (0xFB # writeUnsigned 8 (unat (if dag \<and> d_isZero b then 0 else b))))"
| "writeValue dag (CborText t) = writeText dag t"
| "writeValue dag (CborBytes b) = Inr (cbor_writeBytes b)"
| "writeValue dag (CborArray vs) =
     sbind (concat_results (map (writeValue dag) vs)) (\<lambda>bs. Inr (writeHead 4 (length vs) @ bs))"
| "writeValue dag (CborMap m) =
     (let entries = map (\<lambda>(k, v). (k, sbind (writeText dag k) (\<lambda>a. sbind (writeValue dag v) (\<lambda>b. Inr (a @ b))))) m
      in sbind (concat_results (map snd (if dag then sort_entries entries else entries)))
           (\<lambda>bs. Inr (writeHead 5 (length m) @ bs)))"
| "writeValue dag (CborDateTime t) =
     (if dag then Inl CborParameterError
      else if \<not> ts_isValid t then Inl CborParameterError
      else sbind (writeText dag (date_text t)) (\<lambda>bs. Inr (writeHead 6 0 @ bs)))"
| "writeValue dag (CborLink cid) =
     (if \<not> validCid cid then Inl CborParameterError
      else Inr (writeHead 6 42 @ writeHead 2 (length cid + 1) @ [0] @ cid))"

definition cbor_encode :: "bool \<Rightarrow> cbor_value \<Rightarrow> cbor_error + octets" where
  "cbor_encode dag v = writeValue dag v"

section \<open>Consumption and fuel\<close>

lemma read_parts_rest: "read_parts po major s = Inr s' \<Longrightarrow> length (cc_rest s') \<le> length (cc_rest s)"
proof (induction po major s rule: read_parts.induct)
  case (1 po major s)
  show ?case
  proof (cases "cc_rest s = [] \<or> hd (cc_rest s) = 0xFF")
    case True then show ?thesis using "1.prems" by (auto simp: read_parts.simps[of po major s] split: if_splits)
  next
    case False
    then obtain s1 where s1: "read_part po major s = Inr s1" "read_parts po major s1 = Inr s'"
      using "1.prems" by (auto simp: read_parts.simps[of po major s] sbind_Inr_iff)
    then show ?thesis using "1.IH" False read_part_rest[OF s1(1)] by fastforce
  qed
qed

lemma readBytes_rest: "readBytes po a major s = Inr (v, s') \<Longrightarrow> length (cc_rest s') \<le> length (cc_rest s)"
  by (fastforce simp: readBytes_def sbind_Inr_iff Let_def split: if_splits
      dest!: readArgument_rest read_block_rest read_parts_rest)

lemma readText_rest: "readText po a s = Inr (v, s') \<Longrightarrow> length (cc_rest s') \<le> length (cc_rest s)"
  by (auto simp: readText_def sbind_Inr_iff split: if_splits dest!: readBytes_rest)

lemma readSimple_rest: "readSimple po a s = Inr (v, s') \<Longrightarrow> length (cc_rest s') \<le> length (cc_rest s)"
  by (auto simp: readSimple_def sbind_Inr_iff split: if_splits dest!: readUnsigned_rest)

text \<open>
  What the functions for arrays, maps and tags rely on: a reader of values that consumes at least one
  byte for each value. They keep that, so the reader built from them does.
\<close>

locale consuming_reader =
  fixes rv :: value_reader
  assumes consumed: "rv depth s = Inr (v, s') \<Longrightarrow> length (cc_rest s') < length (cc_rest s)"
begin

lemma read_items_rest:
  "read_items fuel rv depth n i vs s = Inr (ws, s') \<Longrightarrow> length (cc_rest s') \<le> length (cc_rest s)"
  by (induction fuel arbitrary: i vs s)
    (fastforce simp: sbind_Inr_iff skip_break_def split: if_splits dest: consumed)+

lemma read_entry_rest:
  "read_entry rv po depth previous m s = Inr (p, m', s') \<Longrightarrow> length (cc_rest s') < length (cc_rest s)"
  by (fastforce simp: read_entry_def sbind_Inr_iff Let_def split: if_splits option.splits dest!: consumed)

lemma read_entries_rest:
  "read_entries fuel rv po depth n i previous m s = Inr (m', s') \<Longrightarrow> length (cc_rest s') \<le> length (cc_rest s)"
  by (induction fuel arbitrary: i previous m s)
    (fastforce simp: sbind_Inr_iff skip_break_def split: if_splits dest: read_entry_rest)+

lemma readArray_rest: "readArray fuel rv po a depth s = Inr (v, s') \<Longrightarrow> length (cc_rest s') \<le> length (cc_rest s)"
  by (fastforce simp: readArray_def sbind_Inr_iff split: if_splits dest: readArgument_rest read_items_rest)

lemma readMap_rest: "readMap fuel rv po a depth s = Inr (v, s') \<Longrightarrow> length (cc_rest s') \<le> length (cc_rest s)"
  by (fastforce simp: readMap_def sbind_Inr_iff split: if_splits dest: readArgument_rest read_entries_rest)

lemma readTag_rest: "readTag rv po a depth s = Inr (v, s') \<Longrightarrow> length (cc_rest s') \<le> length (cc_rest s)"
  by (fastforce simp: readTag_def sbind_Inr_iff split: if_splits dest!: readArgument_rest dest: consumed)

lemma read_major_rest:
  "read_major fuel rv po major a depth s = Inr (v, s') \<Longrightarrow> length (cc_rest s') \<le> length (cc_rest s)"
  by (auto simp: read_major_def sbind_Inr_iff split: if_splits
      dest!: readArgument_rest readBytes_rest readText_rest readSimple_rest
      dest: readArray_rest readMap_rest readTag_rest)

end

lemma readValue_consumes: "consuming_reader (readValue fuel po)"
proof (induction fuel)
  case 0
  show ?case by unfold_locales simp
next
  case (Suc fuel)
  show ?case
  proof
    fix depth s v s' assume r: "readValue (Suc fuel) po depth s = Inr (v, s')"
    then obtain h s1 where h: "cc_rest s \<noteq> []" "readUnsigned 1 (s\<lparr>cc_valueCount := cc_valueCount s + 1\<rparr>) = Inr (h, s1)"
      "read_major fuel (readValue fuel po) po (drop_bit 5 h) (h AND 31) depth s1 = Inr (v, s')"
      by (auto simp: sbind_Inr_iff split: if_splits)
    then show "length (cc_rest s') < length (cc_rest s)"
      using readUnsigned_rest[OF h(2)] consuming_reader.read_major_rest[OF Suc h(3)] by (cases "cc_rest s") auto
  qed
qed

interpretation reading: consuming_reader "readValue fuel po" for fuel po
  by (rule readValue_consumes)

text \<open>Two readers that agree, and do not run out of fuel, on inputs of a bounded length.\<close>

definition same_upto :: "nat \<Rightarrow> value_reader \<Rightarrow> value_reader \<Rightarrow> bool" where
  "same_upto n rv rv' \<longleftrightarrow> (\<forall>depth s. length (cc_rest s) \<le> n \<longrightarrow> rv depth s = rv' depth s \<and> rv depth s \<noteq> Inl CborOutOfFuel)"

lemma same_uptoD: "same_upto n rv rv' \<Longrightarrow> length (cc_rest s) \<le> n \<Longrightarrow> rv depth s = rv' depth s \<and> rv' depth s \<noteq> Inl CborOutOfFuel"
  unfolding same_upto_def by metis

lemma sbind_same:
  "m = m' \<Longrightarrow> m' \<noteq> Inl e \<Longrightarrow> (\<And>a. m' = Inr a \<Longrightarrow> f a = f' a \<and> f' a \<noteq> Inl e) \<Longrightarrow> sbind m f = sbind m' f' \<and> sbind m' f' \<noteq> Inl e"
  by (cases m') auto

lemma if_neq: "a \<noteq> e \<Longrightarrow> b \<noteq> e \<Longrightarrow> (if c then a else b) \<noteq> e"
  by simp

lemma no_fuel_basic [simp]:
  "readUnsigned n s \<noteq> Inl CborOutOfFuel" "readArgument po a ind s \<noteq> Inl CborOutOfFuel"
  "read_block po n s \<noteq> Inl CborOutOfFuel" "date_of_seconds x y \<noteq> Inl CborOutOfFuel"
  "seconds_of_float b \<noteq> Inl CborOutOfFuel" "date_of_text v \<noteq> Inl CborOutOfFuel" "link_of v \<noteq> Inl CborOutOfFuel"
proof -
  show u: "readUnsigned n s \<noteq> Inl CborOutOfFuel" for n s by (simp add: readUnsigned_def)
  show "readArgument po a ind s \<noteq> Inl CborOutOfFuel" using u by (auto simp: readArgument_def sbind_def split: sum.splits)
  show "read_block po n s \<noteq> Inl CborOutOfFuel" by (simp add: read_block_def)
  show "date_of_seconds x y \<noteq> Inl CborOutOfFuel" by (auto simp: date_of_seconds_def split: option.splits)
  show "seconds_of_float b \<noteq> Inl CborOutOfFuel" unfolding seconds_of_float_def Let_def by (intro if_neq; (rule sum.distinct(2) | simp))
  show "date_of_text v \<noteq> Inl CborOutOfFuel" by (auto simp: date_of_text_def Let_def split: option.splits)
  show "link_of v \<noteq> Inl CborOutOfFuel" by (auto simp: link_of_def split: option.splits)
qed

lemma sbind_Inl_iff: "sbind m f = Inl e \<longleftrightarrow> m = Inl e \<or> (\<exists>a. m = Inr a \<and> f a = Inl e)"
  by (cases m) auto

lemma no_fuel_part [simp]: "read_part po major s \<noteq> Inl CborOutOfFuel"
  by (auto simp: read_part_def Let_def sbind_Inl_iff)

lemma no_fuel_parts [simp]: "read_parts po major s \<noteq> Inl CborOutOfFuel"
  by (induction po major s rule: read_parts.induct) (subst read_parts.simps, auto simp: sbind_Inl_iff)

lemma no_fuel_more [simp]:
  "readBytes po a major s \<noteq> Inl CborOutOfFuel" "readText po a s \<noteq> Inl CborOutOfFuel"
  "readSimple po a s \<noteq> Inl CborOutOfFuel" "date_of_number v \<noteq> Inl CborOutOfFuel"
proof -
  show b: "readBytes po a major s \<noteq> Inl CborOutOfFuel" for a major s by (auto simp: readBytes_def Let_def sbind_Inl_iff)
  show "readText po a s \<noteq> Inl CborOutOfFuel" using b by (auto simp: readText_def sbind_Inl_iff)
  show "readSimple po a s \<noteq> Inl CborOutOfFuel" by (auto simp: readSimple_def sbind_Inl_iff)
  show "date_of_number v \<noteq> Inl CborOutOfFuel" by (auto simp: date_of_number_def sbind_Inl_iff split: option.splits)
qed

lemma read_items_same:
  assumes "consuming_reader rv" "same_upto n rv rv'"
  shows "length (cc_rest s) \<le> n \<Longrightarrow> length (cc_rest s) < fuel \<Longrightarrow> length (cc_rest s) < fuel'
    \<Longrightarrow> read_items fuel rv depth k i vs s = read_items fuel' rv' depth k i vs s
      \<and> read_items fuel' rv' depth k i vs s \<noteq> Inl CborOutOfFuel"
proof (induction fuel arbitrary: fuel' i vs s)
  case (Suc fuel)
  obtain g where g: "fuel' = Suc g" using Suc.prems(3) by (cases fuel') auto
  note same = same_uptoD[OF assms(2) Suc.prems(1), of "depth + 1"]
  have "sbind (rv (depth + 1) s) (\<lambda>(v, s). read_items fuel rv depth k (i + 1) (vs @ [v]) s)
      = sbind (rv' (depth + 1) s) (\<lambda>(v, s). read_items g rv' depth k (i + 1) (vs @ [v]) s)
    \<and> sbind (rv' (depth + 1) s) (\<lambda>(v, s). read_items g rv' depth k (i + 1) (vs @ [v]) s) \<noteq> Inl CborOutOfFuel"
  proof (rule sbind_same)
    fix a assume a: "rv' (depth + 1) s = Inr a"
    obtain v s1 where [simp]: "a = (v, s1)" by force
    have "length (cc_rest s1) < length (cc_rest s)" using consuming_reader.consumed[OF assms(1)] same a by simp
    then show "(case a of (v, s) \<Rightarrow> read_items fuel rv depth k (i + 1) (vs @ [v]) s)
        = (case a of (v, s) \<Rightarrow> read_items g rv' depth k (i + 1) (vs @ [v]) s)
      \<and> (case a of (v, s) \<Rightarrow> read_items g rv' depth k (i + 1) (vs @ [v]) s) \<noteq> Inl CborOutOfFuel"
      using Suc.prems g Suc.IH[where s = s1 and fuel' = g] by simp
  qed (use same in auto)
  then show ?case by (cases "k = u64_max") (simp_all add: g)
qed simp

lemma read_entry_same:
  assumes "consuming_reader rv" "same_upto n rv rv'" "length (cc_rest s) \<le> n"
  shows "read_entry rv po depth previous m s = read_entry rv' po depth previous m s
    \<and> read_entry rv' po depth previous m s \<noteq> Inl CborOutOfFuel"
  unfolding read_entry_def Let_def
proof (rule sbind_same)
  show same: "rv (depth + 1) s = rv' (depth + 1) s" "rv' (depth + 1) s \<noteq> Inl CborOutOfFuel"
    using same_uptoD[OF assms(2,3), of "depth + 1"] by auto
  fix a assume a: "rv' (depth + 1) s = Inr a"
  obtain v s1 where [simp]: "a = (v, s1)" by force
  have "length (cc_rest s1) \<le> n" using consuming_reader.consumed[OF assms(1), of "depth + 1" s v s1] same a assms(3) by simp
  then have "rv (depth + 1) s1 = rv' (depth + 1) s1 \<and> rv' (depth + 1) s1 \<noteq> Inl CborOutOfFuel"
    by (rule same_uptoD[OF assms(2)])
  then show "(\<lambda>(keyValue, s'). case getText keyValue of None \<Rightarrow> Inl CborParseError
      | Some key \<Rightarrow> if map_find key m \<noteq> None then Inl CborParseError
          else if po_dagCbor po \<and> \<not> key_order_ok previous (dag_key (cc_rest s) (cc_rest s')) then Inl CborParseError
          else sbind (rv (depth + 1) s') (\<lambda>(v, s''). Inr (if po_dagCbor po then dag_key (cc_rest s) (cc_rest s') else previous,
              map_set key v m, s''))) a
    = (\<lambda>(keyValue, s'). case getText keyValue of None \<Rightarrow> Inl CborParseError
      | Some key \<Rightarrow> if map_find key m \<noteq> None then Inl CborParseError
          else if po_dagCbor po \<and> \<not> key_order_ok previous (dag_key (cc_rest s) (cc_rest s')) then Inl CborParseError
          else sbind (rv' (depth + 1) s') (\<lambda>(v, s''). Inr (if po_dagCbor po then dag_key (cc_rest s) (cc_rest s') else previous,
              map_set key v m, s''))) a
    \<and> (\<lambda>(keyValue, s'). case getText keyValue of None \<Rightarrow> Inl CborParseError
      | Some key \<Rightarrow> if map_find key m \<noteq> None then Inl CborParseError
          else if po_dagCbor po \<and> \<not> key_order_ok previous (dag_key (cc_rest s) (cc_rest s')) then Inl CborParseError
          else sbind (rv' (depth + 1) s') (\<lambda>(v, s''). Inr (if po_dagCbor po then dag_key (cc_rest s) (cc_rest s') else previous,
              map_set key v m, s''))) a \<noteq> Inl CborOutOfFuel"
    by (auto simp: sbind_Inl_iff split: option.splits)
qed

lemma read_entries_same:
  assumes "consuming_reader rv" "same_upto n rv rv'"
  shows "length (cc_rest s) \<le> n \<Longrightarrow> length (cc_rest s) < fuel \<Longrightarrow> length (cc_rest s) < fuel'
    \<Longrightarrow> read_entries fuel rv po depth k i p m s = read_entries fuel' rv' po depth k i p m s
      \<and> read_entries fuel' rv' po depth k i p m s \<noteq> Inl CborOutOfFuel"
proof (induction fuel arbitrary: fuel' i p m s)
  case (Suc fuel)
  obtain g where g: "fuel' = Suc g" using Suc.prems(3) by (cases fuel') auto
  note same = read_entry_same[OF assms Suc.prems(1), of po depth p m]
  have "sbind (read_entry rv po depth p m s) (\<lambda>(p, m, s). read_entries fuel rv po depth k (i + 1) p m s)
      = sbind (read_entry rv' po depth p m s) (\<lambda>(p, m, s). read_entries g rv' po depth k (i + 1) p m s)
    \<and> sbind (read_entry rv' po depth p m s) (\<lambda>(p, m, s). read_entries g rv' po depth k (i + 1) p m s) \<noteq> Inl CborOutOfFuel"
  proof (rule sbind_same)
    fix a assume a: "read_entry rv' po depth p m s = Inr a"
    obtain p1 m1 s1 where [simp]: "a = (p1, m1, s1)" by (cases a)
    have "length (cc_rest s1) < length (cc_rest s)" using consuming_reader.read_entry_rest[OF assms(1)] same a by simp
    then show "(case a of (p, m, s) \<Rightarrow> read_entries fuel rv po depth k (i + 1) p m s)
        = (case a of (p, m, s) \<Rightarrow> read_entries g rv' po depth k (i + 1) p m s)
      \<and> (case a of (p, m, s) \<Rightarrow> read_entries g rv' po depth k (i + 1) p m s) \<noteq> Inl CborOutOfFuel"
      using Suc.prems g Suc.IH[where s = s1 and fuel' = g] by simp
  qed (use same in auto)
  then show ?case by (cases "k = u64_max") (simp_all add: g)
qed simp


lemma readArray_same:
  assumes "consuming_reader rv" "same_upto n rv rv'" "length (cc_rest s) \<le> n" "length (cc_rest s) < fuel" "length (cc_rest s) < fuel'"
  shows "readArray fuel rv po a depth s = readArray fuel' rv' po a depth s \<and> readArray fuel' rv' po a depth s \<noteq> Inl CborOutOfFuel"
proof -
  have "read_items fuel rv depth k i vs s1 = read_items fuel' rv' depth k i vs s1
      \<and> read_items fuel' rv' depth k i vs s1 \<noteq> Inl CborOutOfFuel"
    if "readArgument po a True s = Inr (k, s1)" for k i vs s1
    by (rule read_items_same[OF assms(1,2)]; use readArgument_rest[OF that] assms(3-5) in linarith)
  then show ?thesis unfolding readArray_def by (auto simp: sbind_Inl_iff intro!: sbind_cong)
qed

lemma readMap_same:
  assumes "consuming_reader rv" "same_upto n rv rv'" "length (cc_rest s) \<le> n" "length (cc_rest s) < fuel" "length (cc_rest s) < fuel'"
  shows "readMap fuel rv po a depth s = readMap fuel' rv' po a depth s \<and> readMap fuel' rv' po a depth s \<noteq> Inl CborOutOfFuel"
proof -
  have "read_entries fuel rv po depth k i p m s1 = read_entries fuel' rv' po depth k i p m s1
      \<and> read_entries fuel' rv' po depth k i p m s1 \<noteq> Inl CborOutOfFuel"
    if "readArgument po a True s = Inr (k, s1)" for k i p m s1
    by (rule read_entries_same[OF assms(1,2)]; use readArgument_rest[OF that] assms(3-5) in linarith)
  then show ?thesis unfolding readMap_def by (auto simp: sbind_Inl_iff intro!: sbind_cong)
qed

lemma readTag_same:
  assumes "same_upto n rv rv'" "length (cc_rest s) \<le> n"
  shows "readTag rv po a depth s = readTag rv' po a depth s \<and> readTag rv' po a depth s \<noteq> Inl CborOutOfFuel"
proof -
  have "rv depth s1 = rv' depth s1 \<and> rv' depth s1 \<noteq> Inl CborOutOfFuel" if "readArgument po a False s = Inr (k, s1)" for k s1
    using same_uptoD[OF assms(1)] readArgument_rest[OF that] assms(2) by simp
  then show ?thesis unfolding readTag_def by (auto simp: sbind_Inl_iff intro!: sbind_cong)
qed

lemma read_major_same:
  assumes "consuming_reader rv" "same_upto n rv rv'" "length (cc_rest s) \<le> n" "length (cc_rest s) < fuel" "length (cc_rest s) < fuel'"
  shows "read_major fuel rv po major a depth s = read_major fuel' rv' po major a depth s
    \<and> read_major fuel' rv' po major a depth s \<noteq> Inl CborOutOfFuel"
  using readArray_same[OF assms, of po a depth] readMap_same[OF assms, of po a depth] readTag_same[OF assms(2,3), of po a depth]
  by (auto simp: read_major_def sbind_Inl_iff)

lemma readValue_fuel:
  "length (cc_rest s) < fuel \<Longrightarrow> length (cc_rest s) < fuel'
    \<Longrightarrow> readValue fuel po depth s = readValue fuel' po depth s \<and> readValue fuel' po depth s \<noteq> Inl CborOutOfFuel"
proof (induction fuel arbitrary: fuel' depth s)
  case (Suc fuel)
  obtain g where g: "fuel' = Suc g" using Suc.prems(2) by (cases fuel') auto
  let ?s = "s\<lparr>cc_valueCount := cc_valueCount s + 1\<rparr>"
  have "read_major fuel (readValue fuel po) po mj a depth s1 = read_major g (readValue g po) po mj a depth s1
      \<and> read_major g (readValue g po) po mj a depth s1 \<noteq> Inl CborOutOfFuel"
    if "cc_rest s \<noteq> []" "readUnsigned 1 ?s = Inr (h, s1)" for h s1 mj a
  proof -
    have l: "length (cc_rest s1) < fuel" "length (cc_rest s1) < g"
      using readUnsigned_rest[OF that(2)] that(1) Suc.prems g by (cases "cc_rest s"; simp)+
    have "same_upto (length (cc_rest s1)) (readValue fuel po) (readValue g po)"
      unfolding same_upto_def using l Suc.IH by (metis le_less_trans)
    then show ?thesis by (rule read_major_same[OF readValue_consumes _ order_refl l])
  qed
  then show ?case using Suc.prems by (auto simp: g sbind_Inl_iff intro!: sbind_cong)
qed simp

section \<open>Maps in key order\<close>

definition key_before :: "octets \<Rightarrow> octets \<Rightarrow> bool" where
  "key_before a b \<longleftrightarrow> compareDecodedSpans a b None = OrdLess"

lemma lex_compare_order:
  fixes xs ys zs :: "nat list"
  shows "lex_compare order_of xs ys = OrdGreater \<longleftrightarrow> lex_compare order_of ys xs = OrdLess"
    "lex_compare order_of xs ys = OrdEqual \<longleftrightarrow> xs = ys"
    "lex_compare order_of xs ys = OrdLess \<Longrightarrow> lex_compare order_of ys zs = OrdLess \<Longrightarrow> lex_compare order_of xs zs = OrdLess"
proof -
  show "lex_compare order_of xs ys = OrdGreater \<longleftrightarrow> lex_compare order_of ys xs = OrdLess"
    "lex_compare order_of xs ys = OrdEqual \<longleftrightarrow> xs = ys"
    by (induction "order_of :: nat \<Rightarrow> nat \<Rightarrow> ordering" xs ys rule: lex_compare.induct) (auto split: if_splits)
  show "lex_compare order_of xs ys = OrdLess \<Longrightarrow> lex_compare order_of ys zs = OrdLess \<Longrightarrow> lex_compare order_of xs zs = OrdLess"
  proof (induction xs arbitrary: ys zs)
    case Nil then show ?case by (cases ys; cases zs) auto
  next
    case (Cons x xs)
    then show ?case by (cases ys; cases zs) (auto split: if_splits)
  qed
qed

lemma spans_compare: "compareDecodedSpans a b None = lex_compare order_of (chars a) (chars b)"
  by (simp add: compareDecodedSpans_def compareDecoded_chars compare_chars_def[abs_def])

lemma key_before_simps:
  "compareDecodedSpans a b None = OrdLess \<longleftrightarrow> key_before a b"
  "compareDecodedSpans a b None = OrdGreater \<longleftrightarrow> key_before b a"
  "compareDecodedSpans a b None = OrdEqual \<longleftrightarrow> chars a = chars b"
  by (simp_all add: key_before_def spans_compare lex_compare_order)

lemma key_before_trans: "key_before a b \<Longrightarrow> key_before b c \<Longrightarrow> key_before a c"
  using lex_compare_order(3) by (simp add: key_before_def spans_compare)

lemma key_before_cases: "key_before a b \<or> chars a = chars b \<or> key_before b a"
  using key_before_simps[of a b] by (cases "compareDecodedSpans a b None") auto

lemma key_before_chars: "key_before a b \<Longrightarrow> chars a \<noteq> chars b"
  by (metis key_before_simps(1,3) ordering.distinct(1))

definition keys_sorted :: "(octets \<times> 'v) list \<Rightarrow> bool" where
  "keys_sorted m \<longleftrightarrow> sorted_wrt (\<lambda>a b. key_before (fst a) (fst b)) m"

lemma map_find_None: "map_find key m = None \<longleftrightarrow> (\<forall>e\<in>set m. chars key \<noteq> chars (fst e))"
  by (induction m) (auto simp: key_before_simps split: if_splits)

lemma map_set_new: "map_find key m = None \<Longrightarrow> map_set key v m = map_insert key v m"
  unfolding map_set_def map_find_None key_before_simps by (subst filter_True) auto

lemma map_insert_set: "set (map_insert key v m) = insert (key, v) (set m)"
  by (induction m) (auto split: if_splits)

lemma map_insert_sum: "sum_list (map f (map_insert key v m)) = (f (key, v) :: nat) + sum_list (map f m)"
  by (induction m) auto

lemma map_insert_sorted: "keys_sorted m \<Longrightarrow> map_find key m = None \<Longrightarrow> keys_sorted (map_insert key v m)"
proof (induction m)
  case (Cons e m)
  obtain k w where [simp]: "e = (k, w)" by force
  have m: "keys_sorted m" "map_find key m = None" "chars key \<noteq> chars k" "\<And>e. e \<in> set m \<Longrightarrow> key_before k (fst e)"
    using Cons.prems by (auto simp: keys_sorted_def map_find_None key_before_simps split: if_splits)
  show ?case
  proof (cases "key_before key k")
    case True
    then show ?thesis using Cons.prems(1) m(4) key_before_trans by (auto simp: keys_sorted_def key_before_simps)
  next
    case False
    then have "key_before k key" using key_before_cases m(3) by blast
    then show ?thesis using False Cons.IH[OF m(1,2)] m(4) by (auto simp: keys_sorted_def key_before_simps map_insert_set)
  qed
qed (simp add: keys_sorted_def)

lemma map_insert_last: "(\<And>e. e \<in> set m \<Longrightarrow> key_before (fst e) key) \<Longrightarrow> map_insert key v m = m @ [(key, v)]"
proof (induction m)
  case (Cons e m)
  have "\<not> key_before key (fst e)" using Cons.prems[of e] key_before_trans key_before_chars by fastforce
  then show ?case using Cons by (cases e) (simp add: key_before_simps)
qed simp

section \<open>Limits\<close>

text \<open>The number of data items a value takes, and the limits it keeps below a nesting depth.\<close>

fun value_count :: "cbor_value \<Rightarrow> nat" where
  "value_count (CborArray vs) = 1 + sum_list (map value_count vs)"
| "value_count (CborMap m) = 1 + sum_list (map (\<lambda>(k, v). 1 + value_count v) m)"
| "value_count (CborDateTime t) = 2"
| "value_count (CborLink cid) = 2"
| "value_count _ = 1"

fun cv_within :: "parse_limits \<Rightarrow> nat \<Rightarrow> cbor_value \<Rightarrow> bool" where
  "cv_within po depth (CborSigned n) \<longleftrightarrow> i64_min \<le> n \<and> n \<le> i64_max"
| "cv_within po depth (CborUnsigned n) \<longleftrightarrow> n \<le> u64_max"
| "cv_within po depth (CborText t) \<longleftrightarrow> length t \<le> po_maximumStringLength po"
| "cv_within po depth (CborBytes b) \<longleftrightarrow> length b \<le> po_maximumInputLength po"
| "cv_within po depth (CborLink cid) \<longleftrightarrow> validCid cid \<and> length cid < po_maximumInputLength po"
| "cv_within po depth (CborArray vs) \<longleftrightarrow> depth < po_maximumNesting po \<and> list_all (cv_within po (depth + 1)) vs"
| "cv_within po depth (CborMap m) \<longleftrightarrow> depth < po_maximumNesting po \<and> keys_sorted m
     \<and> list_all (\<lambda>(k, v). length k \<le> po_maximumStringLength po \<and> cv_within po (depth + 1) v) m"
| "cv_within po depth _ \<longleftrightarrow> True"

lemma unsigned_value_snoc: "unsigned_value (bs @ [b]) = unsigned_value bs * 256 + unat b"
  by (simp add: unsigned_value_def)

lemma unsigned_value_bound: "unsigned_value bs < 256 ^ length bs"
proof (induction bs rule: rev_induct)
  case (snoc b bs)
  have "unat b < 256" using unsigned_less[of b] by simp
  then show ?case using snoc by (simp add: unsigned_value_snoc)
qed (simp add: unsigned_value_def)

lemma readUnsigned_count: "readUnsigned n s = Inr (v, s') \<Longrightarrow> v < 256 ^ n \<and> cc_valueCount s' = cc_valueCount s"
  using unsigned_value_bound[of "take n (cc_rest s)"] by (auto simp: readUnsigned_def split: if_splits)

lemma readArgument_count: "readArgument po a ind s = Inr (v, s') \<Longrightarrow> v \<le> u64_max \<and> cc_valueCount s' = cc_valueCount s"
  by (auto simp: readArgument_def sbind_Inr_iff split: if_splits dest!: readUnsigned_count)

lemma read_block_count:
  "read_block po n s = Inr (b, s') \<Longrightarrow> length b \<le> po_maximumInputLength po \<and> cc_valueCount s' = cc_valueCount s"
  by (auto simp: read_block_def split: if_splits)

lemma read_part_count: "read_part po major s = Inr s' \<Longrightarrow>
  length (cc_scratch s') \<le> po_maximumInputLength po \<and> cc_valueCount s' = cc_valueCount s"
  by (auto simp: read_part_def sbind_Inr_iff Let_def split: if_splits
      dest!: readUnsigned_count readArgument_count read_block_count)

lemma read_parts_count: "read_parts po major s = Inr s' \<Longrightarrow>
  (length (cc_scratch s') \<le> po_maximumInputLength po \<or> cc_scratch s' = cc_scratch s) \<and> cc_valueCount s' = cc_valueCount s"
proof (induction po major s rule: read_parts.induct)
  case (1 po major s)
  show ?case
  proof (cases "cc_rest s = [] \<or> hd (cc_rest s) = 0xFF")
    case True then show ?thesis using "1.prems" by (auto simp: read_parts.simps[of po major s] split: if_splits)
  next
    case False
    then obtain s1 where s1: "read_part po major s = Inr s1" "read_parts po major s1 = Inr s'"
      using "1.prems" by (auto simp: read_parts.simps[of po major s] sbind_Inr_iff)
    then show ?thesis using "1.IH" False read_part_count[OF s1(1)] by fastforce
  qed
qed


lemma readBytes_count:
  "readBytes po a major s = Inr (b, s') \<Longrightarrow> length b \<le> po_maximumInputLength po \<and> cc_valueCount s' = cc_valueCount s"
  by (auto simp: readBytes_def sbind_Inr_iff Let_def split: if_splits
      dest!: readArgument_count read_block_count read_parts_count)

lemma readText_count:
  "readText po a s = Inr (t, s') \<Longrightarrow> length t \<le> po_maximumStringLength po \<and> cc_valueCount s' = cc_valueCount s"
  by (auto simp: readText_def sbind_Inr_iff split: if_splits dest!: readBytes_count)

lemma readSimple_count: "readSimple po a s = Inr (v, s') \<Longrightarrow>
  cc_valueCount s' = cc_valueCount s \<and> value_count v = 1 \<and> cv_within po depth v"
  by (auto simp: readSimple_def sbind_Inr_iff split: if_splits dest!: readUnsigned_count)

lemma link_of_limits:
  "link_of v = Inr w \<Longrightarrow> cv_within po depth v \<Longrightarrow> value_count v = 1 \<and> value_count w = 2 \<and> cv_within po depth w"
  by (cases v) (auto simp: link_of_def getBytes_def neq_Nil_conv split: if_splits)

lemma date_of_text_limits: "date_of_text v = Inr w \<Longrightarrow> value_count v = 1 \<and> value_count w = 2 \<and> cv_within po depth w"
  by (cases v) (auto simp: date_of_text_def getText_def Let_def split: if_splits option.splits)

lemma date_of_seconds_limits: "date_of_seconds x y = Inr w \<Longrightarrow> value_count w = 2 \<and> cv_within po depth w"
  by (auto simp: date_of_seconds_def split: if_splits option.splits)

lemma date_of_number_limits: "date_of_number v = Inr w \<Longrightarrow> value_count v = 1 \<and> value_count w = 2 \<and> cv_within po depth w"
  by (cases v) (auto simp: date_of_number_def getSigned_def getFloat_def sbind_Inr_iff
      split: if_splits dest: date_of_seconds_limits)

text \<open>
  The limits as the contract of a reader of values: it counts the items it reads, never beyond the limit, and
  returns values within the limits of the depth it is called at.
\<close>

locale limited_reader =
  fixes po :: parse_limits and rv :: value_reader
  assumes limits: "rv depth s = Inr (v, s') \<Longrightarrow> cc_valueCount s' = cc_valueCount s + value_count v
    \<and> cc_valueCount s' \<le> po_maximumValueCount po \<and> cv_within po depth v"
begin

lemma read_items_limits:
  "read_items fuel rv depth k i vs s = Inr (ws, s') \<Longrightarrow> list_all (cv_within po (depth + 1)) vs
    \<Longrightarrow> cc_valueCount s \<le> po_maximumValueCount po \<Longrightarrow>
    list_all (cv_within po (depth + 1)) ws \<and> cc_valueCount s' \<le> po_maximumValueCount po
    \<and> cc_valueCount s' + sum_list (map value_count vs) = cc_valueCount s + sum_list (map value_count ws)"
proof (induction fuel arbitrary: i vs s)
  case (Suc fuel)
  show ?case
  proof (cases "(k = u64_max \<or> i < k) \<and> \<not> at_break k s")
    case False then show ?thesis using Suc.prems by (auto simp: skip_break_def split: if_splits)
  next
    case True
    then obtain v s1 where v: "rv (depth + 1) s = Inr (v, s1)" "read_items fuel rv depth k (i + 1) (vs @ [v]) s1 = Inr (ws, s')"
      using Suc.prems(1) by (auto simp: sbind_Inr_iff split: if_splits)
    then show ?thesis using Suc.IH[OF v(2)] Suc.prems(2) limits[OF v(1)] by simp
  qed
qed simp

lemma read_entry_limits:
  assumes "read_entry rv po depth p m s = Inr (p', m', s')"
  obtains key v where "map_find key m = None" "m' = map_insert key v m" "length key \<le> po_maximumStringLength po"
    "cv_within po (depth + 1) v" "cc_valueCount s' = cc_valueCount s + 1 + value_count v" "cc_valueCount s' \<le> po_maximumValueCount po"
proof -
  obtain w s1 key v where r: "rv (depth + 1) s = Inr (w, s1)" "getText w = Some key" "map_find key m = None"
      "rv (depth + 1) s1 = Inr (v, s')" "m' = map_set key v m"
    using assms by (auto simp: read_entry_def sbind_Inr_iff Let_def split: if_splits option.splits)
  have w: "w = CborText key" using r(2) by (cases w) (auto simp: getText_def)
  show ?thesis
    using that[of key v] r(3,5) limits[OF r(1)] limits[OF r(4)] by (simp add: map_set_new w)
qed

lemma read_entries_limits:
  "read_entries fuel rv po depth k i p m s = Inr (m', s') \<Longrightarrow> keys_sorted m
    \<Longrightarrow> (\<forall>(k, v)\<in>set m. length k \<le> po_maximumStringLength po \<and> cv_within po (depth + 1) v)
    \<Longrightarrow> cc_valueCount s \<le> po_maximumValueCount po \<Longrightarrow>
    keys_sorted m' \<and> (\<forall>(k, v)\<in>set m'. length k \<le> po_maximumStringLength po \<and> cv_within po (depth + 1) v)
    \<and> cc_valueCount s' \<le> po_maximumValueCount po
    \<and> cc_valueCount s' + sum_list (map (\<lambda>(k, v). 1 + value_count v) m)
      = cc_valueCount s + sum_list (map (\<lambda>(k, v). 1 + value_count v) m')"
proof (induction fuel arbitrary: i p m s)
  case (Suc fuel)
  show ?case
  proof (cases "(k = u64_max \<or> i < k) \<and> \<not> at_break k s")
    case False then show ?thesis using Suc.prems by (auto simp: skip_break_def split: if_splits)
  next
    case True
    then obtain p1 m1 s1 where e: "read_entry rv po depth p m s = Inr (p1, m1, s1)"
        "read_entries fuel rv po depth k (i + 1) p1 m1 s1 = Inr (m', s')"
      using Suc.prems(1) by (auto simp: sbind_Inr_iff split: if_splits)
    obtain key v where kv: "map_find key m = None" "m1 = map_insert key v m" "length key \<le> po_maximumStringLength po"
        "cv_within po (depth + 1) v" "cc_valueCount s1 = cc_valueCount s + 1 + value_count v"
        "cc_valueCount s1 \<le> po_maximumValueCount po"
      using read_entry_limits[OF e(1)] by metis
    have "keys_sorted m1" using kv(1,2) Suc.prems(2) map_insert_sorted by simp
    moreover have "\<forall>(k, v)\<in>set m1. length k \<le> po_maximumStringLength po \<and> cv_within po (depth + 1) v"
      using kv Suc.prems(3) by (auto simp: map_insert_set)
    ultimately show ?thesis using Suc.IH[OF e(2)] kv by (simp add: map_insert_sum)
  qed
qed simp

lemma readTag_limits:
  assumes "readTag rv po a depth s = Inr (v, s')"
  shows "cc_valueCount s' + 1 = cc_valueCount s + value_count v \<and> cc_valueCount s' \<le> po_maximumValueCount po \<and> cv_within po depth v"
proof -
  obtain tag s1 w where r: "readArgument po a False s = Inr (tag, s1)" "rv depth s1 = Inr (w, s')"
      "link_of w = Inr v \<or> date_of_text w = Inr v \<or> date_of_number w = Inr v"
    using assms by (auto simp: readTag_def sbind_Inr_iff split: if_splits)
  have "value_count w = 1 \<and> value_count v = 2 \<and> cv_within po depth v"
    using r(3) limits[OF r(2)]
    by (elim disjE) (auto dest: link_of_limits date_of_text_limits date_of_number_limits)
  then show ?thesis using limits[OF r(2)] readArgument_count[OF r(1)] by simp
qed

lemma read_major_limits:
  assumes "read_major fuel rv po major a depth s = Inr (v, s')" "cc_valueCount s \<le> po_maximumValueCount po"
  shows "cc_valueCount s' + 1 = cc_valueCount s + value_count v \<and> cc_valueCount s' \<le> po_maximumValueCount po \<and> cv_within po depth v"
proof -
  consider "major = 0" | "major = 1" | "major = 2" | "major = 3" | "major = 4" | "major = 5" | "major = 6" | "major \<notin> {0..6}"
    by fastforce
  then show ?thesis
  proof cases
    case 5
    then obtain k s1 vs where r: "depth < po_maximumNesting po" "readArgument po a True s = Inr (k, s1)"
        "read_items fuel rv depth k 0 [] s1 = Inr (vs, s')" "v = CborArray vs"
      using assms(1) by (auto simp: read_major_def readArray_def sbind_Inr_iff split: if_splits)
    show ?thesis using read_items_limits[OF r(3)] readArgument_count[OF r(2)] assms(2) r(1,4) by simp
  next
    case 6
    then obtain k s1 m where r: "depth < po_maximumNesting po" "readArgument po a True s = Inr (k, s1)"
        "read_entries fuel rv po depth k 0 [] [] s1 = Inr (m, s')" "v = CborMap m"
      using assms(1) by (auto simp: read_major_def readMap_def sbind_Inr_iff split: if_splits)
    show ?thesis using read_entries_limits[OF r(3)] readArgument_count[OF r(2)] assms(2) r(1,4)
      by (auto simp: keys_sorted_def list_all_iff)
  next
    case 7 then show ?thesis using readTag_limits assms(1) by (simp add: read_major_def)
  next
    case 8 then show ?thesis using assms readSimple_count by (fastforce simp: read_major_def)
  qed (use assms in \<open>auto simp: read_major_def sbind_Inr_iff split: if_splits
      dest!: readArgument_count readBytes_count readText_count\<close>)
qed

end

lemma readValue_limits: "limited_reader po (readValue fuel po)"
proof (induction fuel)
  case 0
  show ?case by unfold_locales simp_all
next
  case (Suc fuel)
  show ?case
  proof
    fix depth s v s' assume r: "readValue (Suc fuel) po depth s = Inr (v, s')"
    then obtain h s1 where h: "cc_valueCount s < po_maximumValueCount po"
      "readUnsigned 1 (s\<lparr>cc_valueCount := cc_valueCount s + 1\<rparr>) = Inr (h, s1)"
      "read_major fuel (readValue fuel po) po (drop_bit 5 h) (h AND 31) depth s1 = Inr (v, s')"
      by (auto simp: sbind_Inr_iff split: if_splits)
    show "cc_valueCount s' = cc_valueCount s + value_count v \<and> cc_valueCount s' \<le> po_maximumValueCount po \<and> cv_within po depth v"
      using limited_reader.read_major_limits[OF Suc h(3)] readUnsigned_count[OF h(2)] h(1) by simp
  qed
qed

interpretation bounded: limited_reader po "readValue fuel po" for po fuel
  by (rule readValue_limits)

abbreviation codec_start :: "octets \<Rightarrow> codec" where
  "codec_start input \<equiv> \<lparr>cc_rest = input, cc_scratch = [], cc_valueCount = 0\<rparr>"

text \<open>C24: Decoding returns for every input: the reader never runs out of the fuel the decoder gives
  it, however the lengths, counts, tags and breaks of the input are chosen, and more fuel does not
  change the result. (The fuel is one more than the length of the input: every value takes at least
  one byte, and so do the loops over items, entries and parts.)\<close>

theorem cbor_decode_returns:
  "cbor_decode po input \<noteq> Inl CborOutOfFuel
    \<and> readValue (length input + 1 + extra) po depth (codec_start input)
      = readValue (length input + 1) po depth (codec_start input)"
proof -
  have r: "readValue (length input + 1 + extra) po depth (codec_start input) = readValue (length input + 1) po depth (codec_start input)
    \<and> readValue (length input + 1) po depth (codec_start input) \<noteq> Inl CborOutOfFuel" for extra depth
    by (rule readValue_fuel) simp_all
  then show ?thesis by (auto simp: cbor_decode_def sbind_Inl_iff simp del: readValue.simps)
qed

text \<open>C13: Whatever bytes are decoded, a value that is accepted keeps every limit of the options: the
  input length, the number of data items, the nesting depth, the length of texts and map keys; its
  integers fit their types, its links are valid identifiers, and the entries of its maps are in
  key order without duplicates.\<close>

theorem cbor_limits:
  assumes "cbor_decode po input = Inr v"
  shows "length input \<le> po_maximumInputLength po \<and> value_count v \<le> po_maximumValueCount po \<and> cv_within po 0 v"
proof -
  obtain s where "length input \<le> po_maximumInputLength po"
      "readValue (length input + 1) po 0 (codec_start input) = Inr (v, s)"
    using assms by (auto simp: cbor_decode_def sbind_Inr_iff simp del: readValue.simps split: if_splits)
  then show ?thesis using bounded.limits by fastforce
qed

lemma cbor_limits_witness:
  "cv_within default_limits 0 (CborArray [CborUnsigned 1, CborSigned (- 1)])"
proof -
  have "cbor_decode default_limits [0x82, 0x01, 0x20] = Inr (CborArray [CborUnsigned 1, CborSigned (- 1)])"
    by (simp add: cbor_decode_def read_major_def readArgument_def readUnsigned_def unsigned_value_def default_limits_def
        readArray_def at_break_def drop_bit_eq_div)
  from cbor_limits[OF this] show ?thesis by simp
qed

end
