(* ===== verification/CborRoundtrip.thy ===== *)
theory CborRoundtrip
  imports Cbor "HOL-Library.Multiset"
begin

text \<open>
  Reading CBOR that the writer wrote: heads and arguments, each kind of value, the loops over items and
  entries, and the order of keys in DAG-CBOR. On these rest the round trip of the codec, the theorem
  on encoding errors, the length that is taken for the mark of an indefinite length, and the laws
  of updating array and map values.
\<close>

section \<open>Texts\<close>

lemma std_string_encoded: "std_string t = encoded (chars t)"
  by (simp add: std_string_def createUtf8String_encoded)

lemma std_string_simps [simp]:
  "isValidUtf8 (std_string t)" "chars (std_string t) = chars t" "isValidUtf8 t \<Longrightarrow> std_string t = t"
  using encoded_chars_valid chars_encoded[OF chars_valid] by (auto simp: std_string_encoded)

lemma writeText_valid: "isValidUtf8 t \<Longrightarrow> writeText dag t = Inr (writeHead 3 (length t) @ t)"
  by (simp add: writeText_def)

section \<open>Reading what was written\<close>

lemma byte_of_nat: "unat (of_nat n :: byte8) = n mod 256"
  by (simp add: unsigned_of_nat take_bit_eq_mod)

lemma writeUnsigned_length [simp]: "length (writeUnsigned n v) = n"
  by (induction n arbitrary: v) simp_all

lemma unsigned_value_write [simp]: "v < 256 ^ n \<Longrightarrow> unsigned_value (writeUnsigned n v) = v"
proof (induction n arbitrary: v)
  case (Suc n)
  have "v div 256 < 256 ^ n" using Suc.prems by (simp add: less_mult_imp_div_less mult.commute)
  then show ?case by (simp add: unsigned_value_snoc Suc.IH byte_of_nat)
qed (simp add: unsigned_value_def)

lemma readUnsigned_write:
  "cc_rest s = writeUnsigned n v @ r \<Longrightarrow> v < 256 ^ n \<Longrightarrow> readUnsigned n s = Inr (v, s\<lparr>cc_rest := r\<rparr>)"
  by (simp add: readUnsigned_def)

text \<open>A head byte holds the major type and the additional information; the argument follows it.\<close>

definition head_parts :: "nat \<Rightarrow> nat \<times> octets" where
  "head_parts v = (if v < 24 then (v, []) else if v \<le> u8_max then (24, writeUnsigned 1 v)
     else if v \<le> u16_max then (25, writeUnsigned 2 v) else if v \<le> u32_max then (26, writeUnsigned 4 v)
     else (27, writeUnsigned 8 v))"

lemma head_byte:
  assumes "major < 8" "a < 32"
  shows "push_bit 5 major OR a = (32 * major + a :: nat)" "drop_bit 5 (32 * major + a) = major" "(32 * major + a) AND 31 = a"
    "unat (of_nat (32 * major + a) :: byte8) = 32 * major + a"
proof -
  have m: "(32 * major + a) AND 31 = (32 * major + a) mod 32"
    using take_bit_eq_mask[of 5 "32 * major + a"] by (simp only: take_bit_eq_mod mask_eq_exp_minus_1) simp
  have "take_bit 5 a = a" using assms(2) by (simp add: take_bit_nat_eq_self)
  then have "bit a n \<Longrightarrow> n < 5" for n by (metis bit_take_bit_iff)
  then have "push_bit 5 major AND a = 0"
    by (intro bit_eqI) (auto simp: bit_and_iff bit_push_bit_iff simp flip: not_le)
  then have "push_bit 5 major OR a = push_bit 5 major + a" by (simp add: disjunctive_add_eq_or)
  then show "push_bit 5 major OR a = 32 * major + a" by (simp add: push_bit_eq_mult)
  show "drop_bit 5 (32 * major + a) = major" using assms by (simp add: drop_bit_eq_div)
  show "(32 * major + a) AND 31 = a" using m assms by simp
  show "unat (of_nat (32 * major + a) :: byte8) = 32 * major + a"
    by (subst byte_of_nat) (use assms in simp)
qed

lemma head_parts_bound: "fst (head_parts v) < 28"
  by (simp add: head_parts_def)

lemma writeHead_parts:
  assumes "major < 8"
  shows "writeHead major v = of_nat (32 * major + fst (head_parts v)) # snd (head_parts v)"
  using head_byte(1)[OF assms] by (simp add: writeHead_def head_parts_def Let_def)

lemma readArgument_write:
  assumes "cc_rest s = snd (head_parts v) @ r" "v \<le> u64_max"
  shows "readArgument po (fst (head_parts v)) ind s = Inr (v, s\<lparr>cc_rest := r\<rparr>)"
proof -
  consider "v < 24" | "24 \<le> v" "v \<le> u8_max" | "u8_max < v" "v \<le> u16_max" | "u16_max < v" "v \<le> u32_max" | "u32_max < v"
    by linarith
  then show ?thesis
    using assms by cases (auto simp: readArgument_def head_parts_def readUnsigned_write)
qed

lemma readValue_write:
  assumes "cc_rest s = writeHead major v @ r" "major < 8" "cc_valueCount s < po_maximumValueCount po"
  shows "readValue (Suc fuel) po depth s = read_major fuel (readValue fuel po) po major (fst (head_parts v)) depth
    (s\<lparr>cc_rest := snd (head_parts v) @ r, cc_valueCount := cc_valueCount s + 1\<rparr>)"
  using assms head_byte[OF assms(2), of "fst (head_parts v)"] head_parts_bound[of v]
  by (cases s) (simp add: writeHead_parts readUnsigned_def unsigned_value_def)


text \<open>The value a reader gets back: a signed number that is not negative has no type of its own in the
  format, and DAG-CBOR writes both zeros as the positive one.\<close>

fun cv_normal :: "bool \<Rightarrow> cbor_value \<Rightarrow> cbor_value" where
  "cv_normal dag (CborSigned n) = (if n \<ge> 0 then CborUnsigned (nat n) else CborSigned n)"
| "cv_normal dag (CborFloat b) = CborFloat (if dag \<and> d_isZero b then 0 else b)"
| "cv_normal dag (CborArray vs) = CborArray (map (cv_normal dag) vs)"
| "cv_normal dag (CborMap m) = CborMap (map (\<lambda>(k, v). (k, cv_normal dag v)) m)"
| "cv_normal dag v = v"

text \<open>The timestamps of a value are in range.\<close>

fun dates_valid :: "cbor_value \<Rightarrow> bool" where
  "dates_valid (CborDateTime t) \<longleftrightarrow> ts_wf t"
| "dates_valid (CborArray vs) \<longleftrightarrow> list_all dates_valid vs"
| "dates_valid (CborMap m) \<longleftrightarrow> list_all (\<lambda>(k, v). dates_valid v) m"
| "dates_valid _ \<longleftrightarrow> True"

text \<open>All texts and keys are valid UTF-8; cleaning a value replaces the texts as the writer does.\<close>

fun texts_valid :: "cbor_value \<Rightarrow> bool" where
  "texts_valid (CborText t) \<longleftrightarrow> isValidUtf8 t"
| "texts_valid (CborArray vs) \<longleftrightarrow> list_all texts_valid vs"
| "texts_valid (CborMap m) \<longleftrightarrow> list_all (\<lambda>(k, v). isValidUtf8 k \<and> texts_valid v) m"
| "texts_valid _ \<longleftrightarrow> True"

fun cv_clean :: "cbor_value \<Rightarrow> cbor_value" where
  "cv_clean (CborText t) = CborText (std_string t)"
| "cv_clean (CborArray vs) = CborArray (map cv_clean vs)"
| "cv_clean (CborMap m) = CborMap (map (\<lambda>(k, v). (std_string k, cv_clean v)) m)"
| "cv_clean v = v"

definition reads :: "nat \<Rightarrow> parse_limits \<Rightarrow> nat \<Rightarrow> cbor_value \<Rightarrow> octets \<Rightarrow> cbor_value \<Rightarrow> bool" where
  "reads fuel po depth v bs w \<longleftrightarrow> (\<forall>s r. cc_rest s = bs @ r \<longrightarrow> cc_valueCount s + value_count v \<le> po_maximumValueCount po
     \<longrightarrow> readValue fuel po depth s = Inr (w, s\<lparr>cc_rest := r, cc_valueCount := cc_valueCount s + value_count v\<rparr>))"

lemma readsD:
  "reads fuel po depth v bs w \<Longrightarrow> cc_rest s = bs @ r \<Longrightarrow> cc_valueCount s + value_count v \<le> po_maximumValueCount po
    \<Longrightarrow> readValue fuel po depth s = Inr (w, s\<lparr>cc_rest := r, cc_valueCount := cc_valueCount s + value_count v\<rparr>)"
  by (simp add: reads_def)

lemma value_count_pos: "0 < value_count v"
  by (cases v) simp_all

text \<open>A value whose bytes are a head and a body is read if the function for its major type reads the body.\<close>

lemma reads_head:
  assumes "major < 8"
    "\<And>(s :: codec) r. cc_rest s = snd (head_parts n) @ body @ r \<Longrightarrow> cc_valueCount s + value_count v \<le> po_maximumValueCount po + 1 \<Longrightarrow>
      read_major fuel (readValue fuel po) po major (fst (head_parts n)) depth s
        = Inr (w, s\<lparr>cc_rest := r, cc_valueCount := cc_valueCount s + value_count v - 1\<rparr>)"
  shows "reads (Suc fuel) po depth v (writeHead major n @ body) w"
  unfolding reads_def
proof (intro allI impI)
  fix s :: codec and r :: octets assume s: "cc_rest s = (writeHead major n @ body) @ r" "cc_valueCount s + value_count v \<le> po_maximumValueCount po"
  let ?s = "s\<lparr>cc_rest := snd (head_parts n) @ body @ r, cc_valueCount := cc_valueCount s + 1\<rparr>"
  have "cc_valueCount s < po_maximumValueCount po" using s(2) value_count_pos[of v] by linarith
  then have "readValue (Suc fuel) po depth s
      = read_major fuel (readValue fuel po) po major (fst (head_parts n)) depth ?s"
    using readValue_write[of s major n "body @ r" po fuel depth] s assms(1) by simp
  also have "\<dots> = Inr (w, ?s\<lparr>cc_rest := r, cc_valueCount := cc_valueCount ?s + value_count v - 1\<rparr>)"
    by (rule assms(2)) (use s in simp_all)
  finally show "readValue (Suc fuel) po depth s = Inr (w, s\<lparr>cc_rest := r, cc_valueCount := cc_valueCount s + value_count v\<rparr>)"
    by (cases s) simp
qed

lemma readBytes_write:
  assumes "cc_rest s = snd (head_parts (length b)) @ b @ r" "length b \<le> po_maximumInputLength po" "length b < u64_max"
  shows "readBytes po (fst (head_parts (length b))) major s = Inr (b, s\<lparr>cc_rest := r\<rparr>)"
  using readArgument_write[OF assms(1), of po True] assms by (simp add: readBytes_def read_block_def)

lemma reads_bytes:
  assumes "length b \<le> po_maximumInputLength po" "length b < u64_max"
  shows "reads (Suc fuel) po depth (CborBytes b) (cbor_writeBytes b) (CborBytes b)"
  unfolding cbor_writeBytes_def by (rule reads_head) (simp_all add: read_major_def readBytes_write[OF _ assms])

lemma reads_text:
  assumes "isValidUtf8 t" "length t \<le> po_maximumInputLength po" "length t < u64_max" "length t \<le> po_maximumStringLength po"
  shows "reads (Suc fuel) po depth (CborText t) (writeHead 3 (length t) @ t) (CborText t)"
  by (rule reads_head) (use assms(1,4) in \<open>auto simp: read_major_def readText_def readBytes_write[OF _ assms(2,3)]\<close>)

lemma readArgument_head:
  "cc_rest s = snd (head_parts n) @ [] @ r \<Longrightarrow> n \<le> u64_max
    \<Longrightarrow> readArgument po (fst (head_parts n)) ind s = Inr (n, s\<lparr>cc_rest := r\<rparr>)"
  using readArgument_write by simp

lemma reads_unsigned:
  "n \<le> u64_max \<Longrightarrow> value_count v = 1 \<Longrightarrow> reads (Suc fuel) po depth v (writeHead 0 n) (CborUnsigned n)"
  using reads_head[of 0 n "[]" v po fuel depth "CborUnsigned n"] readArgument_head[of _ n] by (simp add: read_major_def)

lemma reads_negative:
  "n < 0 \<Longrightarrow> i64_min \<le> n \<Longrightarrow> reads (Suc fuel) po depth (CborSigned n) (writeHead 1 (nat (- (n + 1)))) (CborSigned n)"
  using reads_head[of 1 "nat (- (n + 1))" "[]" "CborSigned n" po fuel depth "CborSigned n"]
    readArgument_head[of _ "nat (- (n + 1))"] by (simp add: read_major_def)

lemma reads_simple:
  "reads (Suc fuel) po depth CborNull [0xF6] CborNull"
  "reads (Suc fuel) po depth (CborBool b) [if b then 0xF5 else 0xF4] (CborBool b)"
proof -
  have h: "writeHead 7 22 = [0xF6]" "writeHead 7 21 = [0xF5]" "writeHead 7 20 = [0xF4]"
    "head_parts 22 = (22, [])" "head_parts 21 = (21, [])" "head_parts 20 = (20, [])"
    using head_byte(1)[of 7 22] head_byte(1)[of 7 21] head_byte(1)[of 7 20] by (simp_all add: writeHead_def head_parts_def)
  show "reads (Suc fuel) po depth CborNull [0xF6] CborNull"
    using reads_head[of 7 22 "[]" CborNull po fuel depth CborNull] h by (simp add: read_major_def readSimple_def)
  show "reads (Suc fuel) po depth (CborBool b) [if b then 0xF5 else 0xF4] (CborBool b)"
    using reads_head[of 7 21 "[]" "CborBool True" po fuel depth "CborBool True"]
      reads_head[of 7 20 "[]" "CborBool False" po fuel depth "CborBool False"] h
    by (cases b) (simp_all add: read_major_def readSimple_def)
qed

lemma reads_float:
  assumes "po_dagCbor po \<Longrightarrow> d_isfinite b"
  shows "reads (Suc fuel) po depth (CborFloat b) (0xFB # writeUnsigned 8 (unat (if po_dagCbor po \<and> d_isZero b then 0 else b)))
    (CborFloat (if po_dagCbor po \<and> d_isZero b then 0 else b))"
proof -
  let ?b = "if po_dagCbor po \<and> d_isZero b then 0 else b"
  have d: "\<not> (po_dagCbor po \<and> (\<not> d_isfinite ?b \<or> d_isZero ?b \<and> d_negative ?b))"
    using assms by (auto simp: d_isfinite_def d_exponent_def d_negative_def)
  have "unat ?b < 256 ^ 8" using unsigned_less[of ?b] by simp
  then have u: "readUnsigned 8 s = Inr (unat ?b, s\<lparr>cc_rest := r\<rparr>)" if "cc_rest s = writeUnsigned 8 (unat ?b) @ r" for s r
    by (rule readUnsigned_write[OF that])
  have h: "drop_bit 5 251 = (7 :: nat)" "251 AND 31 = (27 :: nat)" by (simp_all add: drop_bit_eq_div)
  show ?thesis unfolding reads_def
  proof (intro allI impI)
    fix s :: codec and r :: octets
    assume s: "cc_rest s = (0xFB # writeUnsigned 8 (unat ?b)) @ r" "cc_valueCount s + value_count (CborFloat b) \<le> po_maximumValueCount po"
    let ?s = "s\<lparr>cc_valueCount := cc_valueCount s + 1, cc_rest := writeUnsigned 8 (unat ?b) @ r\<rparr>"
    have "readUnsigned 1 (s\<lparr>cc_valueCount := cc_valueCount s + 1\<rparr>) = Inr (251, ?s)"
      using s(1) by (cases s) (simp add: readUnsigned_def unsigned_value_def)
    then have "readValue (Suc fuel) po depth s = readSimple po 27 ?s"
      using s by (simp add: h read_major_def)
    also have "\<dots> = Inr (CborFloat ?b, ?s\<lparr>cc_rest := r\<rparr>)"
      using u[of ?s r] d by (simp add: readSimple_def)
    finally show "readValue (Suc fuel) po depth s = Inr (CborFloat ?b, s\<lparr>cc_rest := r, cc_valueCount := cc_valueCount s + value_count (CborFloat b)\<rparr>)"
      by (cases s) simp
  qed
qed

lemma reads_link:
  assumes "validCid cid" "length cid < po_maximumInputLength po" "length cid + 1 < u64_max"
  shows "reads (Suc (Suc fuel)) po depth (CborLink cid) (writeHead 6 42 @ writeHead 2 (length cid + 1) @ [0] @ cid) (CborLink cid)"
proof (rule reads_head)
  fix s :: codec and r :: octets
  assume s: "cc_rest s = snd (head_parts 42) @ (writeHead 2 (length cid + 1) @ [0] @ cid) @ r"
    "cc_valueCount s + value_count (CborLink cid) \<le> po_maximumValueCount po + 1"
  have "reads (Suc fuel) po depth (CborBytes (0 # cid)) (cbor_writeBytes (0 # cid)) (CborBytes (0 # cid))"
    by (rule reads_bytes) (use assms in simp_all)
  from readsD[OF this, of "s\<lparr>cc_rest := cbor_writeBytes (0 # cid) @ r\<rparr>" r]
  have "readValue (Suc fuel) po depth (s\<lparr>cc_rest := cbor_writeBytes (0 # cid) @ r\<rparr>)
      = Inr (CborBytes (0 # cid), s\<lparr>cc_rest := r, cc_valueCount := cc_valueCount s + 1\<rparr>)"
    using s(2) by (simp del: readValue.simps)
  moreover have "readArgument po (fst (head_parts 42)) False s = Inr (42, s\<lparr>cc_rest := cbor_writeBytes (0 # cid) @ r\<rparr>)"
    using readArgument_write[of s 42 "cbor_writeBytes (0 # cid) @ r" po False] s(1) by (simp add: cbor_writeBytes_def)
  ultimately show "read_major (Suc fuel) (readValue (Suc fuel) po) po 6 (fst (head_parts 42)) depth s
      = Inr (CborLink cid, s\<lparr>cc_rest := r, cc_valueCount := cc_valueCount s + value_count (CborLink cid) - 1\<rparr>)"
    using assms(1) by (simp add: read_major_def readTag_def link_of_def getBytes_def del: readValue.simps)
qed simp

text \<open>The text of a timestamp: 29 characters, all of them ASCII.\<close>

lemma iso_number_ascii: "fits n v \<Longrightarrow> length (iso_number n v) = n \<and> list_all (\<lambda>c. c < 128) (iso_number n v)"
  by (erule iso_number_digits) (fastforce simp: digit_text_def list_all_iff)

lemma ascii_encoded: "list_all (\<lambda>c. c < 128) cs \<Longrightarrow> list_all isValidUnicode cs \<and> length (encoded cs) = length cs"
  by (induction cs) (simp_all add: isValidUnicode_def u8_write_def)

lemma date_text_form:
  assumes "ts_wf t"
  shows "date_text t = encoded (dt_toIsoString (no_flags\<lparr>Extended := True\<rparr>) PNanosecond
      \<lparr>sd_utc = (ts_date t, ts_time t), sd_offset = 0\<rparr>)"
    "list_all (\<lambda>c. c < 128) (dt_toIsoString (no_flags\<lparr>Extended := True\<rparr>) PNanosecond
      \<lparr>sd_utc = (ts_date t, ts_time t), sd_offset = 0\<rparr>)"
    "length (date_text t) = 29"
proof -
  note tp = timestamp_date_time[OF assms]
  let ?z = "\<lparr>sd_utc = (ts_date t, ts_time t), sd_offset = 0\<rparr>"
  let ?text = "dt_toIsoString (no_flags\<lparr>Extended := True\<rparr>) PNanosecond ?z"
  have mk: "mkShiftedDateTime (ts_date t) (ts_time t) 0 = ?z"
    using mkShiftedDateTime_at[OF tp(1), of 0] dt_instant_in_calendar[OF tp(1)] dt_at_instant[OF tp(1)] by simp
  have z: "sd_wf ?z" using tp(1) dt_instant_in_calendar[OF tp(1)] by (simp add: sd_wf_def local_instant_def)
  have l: "localDateTime ?z = (ts_date t, ts_time t)"
    using localDateTime_at(1)[OF z] dt_at_instant[OF tp(1)] by (simp add: local_instant_def)
  have w: "date_wf (ts_date t)" "isValid (ts_date t)" "time_wf (ts_time t)" using tp(1) by (auto simp: dt_wf_def)
  have v: "ts_isValid t" "sd_isValid ?z" using assms w(2) by (auto simp: ts_isValid_def ts_wf_def sd_isValid_def)
  obtain y m d where q: "date_parts_of (ts_date t) = \<lparr>dp_year = y, dp_month = m, dp_day = d\<rparr>"
    "fits 4 y" "fits 2 m" "fits 2 d" by (rule date_parts_fit[OF w(1,2)])
  have tf: "fits 2 (time_hour (ts_time t))" "fits 2 (time_minute (ts_time t))" "fits 2 (time_second (ts_time t))"
    "fits 9 (nanosecondFraction (ts_time t))"
    using mkTime_parts(2-5)[OF w(3)] by (auto simp: fits_def cNanosecondsPerSecond_def)
  show f: "date_text t = encoded ?text" using v by (simp add: date_text_def ts_toDateTime_def mk)
  have "length ?text = 29 \<and> list_all (\<lambda>c. c < 128) ?text"
    using v w(2) q(1) iso_number_ascii[OF q(2)] iso_number_ascii[OF q(3)] iso_number_ascii[OF q(4)]
      iso_number_ascii[OF tf(1)] iso_number_ascii[OF tf(2)] iso_number_ascii[OF tf(3)] iso_number_ascii[OF tf(4)]
    by (simp add: dt_toIsoString_def l date_toIsoString_def time_toIsoString_def fraction_text_def no_flags_def precision_order)
  then show "list_all (\<lambda>c. c < 128) ?text" "length (date_text t) = 29" using ascii_encoded f by auto
qed

lemma date_of_date_text:
  assumes "ts_wf t"
  shows "date_of_text (CborText (date_text t)) = Inr (CborDateTime t)"
proof -
  note tp = timestamp_date_time[OF assms]
  let ?z = "\<lparr>sd_utc = (ts_date t, ts_time t), sd_offset = 0\<rparr>"
  let ?text = "dt_toIsoString (no_flags\<lparr>Extended := True\<rparr>) PNanosecond ?z"
  have mk: "mkShiftedDateTime (ts_date t) (ts_time t) 0 = ?z"
    using mkShiftedDateTime_at[OF tp(1), of 0] dt_instant_in_calendar[OF tp(1)] dt_at_instant[OF tp(1)] by simp
  have z: "sd_wf ?z" using tp(1) dt_instant_in_calendar[OF tp(1)] by (simp add: sd_wf_def local_instant_def)
  have l: "localDateTime ?z = (ts_date t, ts_time t)"
    using localDateTime_at(1)[OF z] dt_at_instant[OF tp(1)] by (simp add: local_instant_def)
  have w: "date_wf (ts_date t)" "isValid (ts_date t)" "time_wf (ts_time t)" using tp(1) by (auto simp: dt_wf_def)
  have "kept_date PNanosecond (ts_date t) = ts_date t" by (rule kept_date_full[OF w(1,2)]) (simp add: precision_order)
  then have "iso_parse ?text True = Some
      \<lparr>pi_date = ts_date t, pi_time = ts_time t, pi_precision = PNanosecond, pi_hasOffset = False, pi_offset = 0\<rparr>"
    using iso_parse_dt[OF z, of PNanosecond "no_flags\<lparr>Extended := True\<rparr>"] kept_time_full[OF w(3)]
    by (simp add: l precision_order read_precision_def no_flags_def)
  then have p: "dt_fromIsoString ?text PSecond = ?z"
    by (simp add: dt_fromIsoString_def mk precision_order)
  have v: "sd_isValid ?z" using w(2) by (simp add: sd_isValid_def)
  have c: "chars (date_text t) = ?text"
    using ascii_encoded[OF date_text_form(2)[OF assms]] chars_encoded date_text_form(1)[OF assms] by metis
  show ?thesis using p v tp by (simp add: date_of_text_def getText_def c ts_fromDateTime_def)
qed

lemma date_text_valid: "ts_wf t \<Longrightarrow> isValidUtf8 (date_text t)"
  using date_text_form(1,2)[of t] ascii_encoded by (auto simp: isValidUtf8_iff)

lemma reads_date:
  assumes "\<not> po_dagCbor po" "ts_wf t" "29 \<le> po_maximumStringLength po" "29 \<le> po_maximumInputLength po"
    "bs = writeHead 3 29 @ date_text t"
  shows "reads (Suc (Suc fuel)) po depth (CborDateTime t) (writeHead 6 0 @ bs) (CborDateTime t)"
proof (rule reads_head)
  fix s :: codec and r :: octets
  assume s: "cc_rest s = snd (head_parts 0) @ bs @ r" "cc_valueCount s + value_count (CborDateTime t) \<le> po_maximumValueCount po + 1"
  have "reads (Suc fuel) po depth (CborText (date_text t)) bs (CborText (date_text t))"
    using reads_text[OF date_text_valid[OF assms(2)], of po fuel depth] assms date_text_form(3)[OF assms(2)] by simp
  from readsD[OF this, of "s\<lparr>cc_rest := bs @ r\<rparr>" r]
  have "readValue (Suc fuel) po depth (s\<lparr>cc_rest := bs @ r\<rparr>)
      = Inr (CborText (date_text t), s\<lparr>cc_rest := r, cc_valueCount := cc_valueCount s + 1\<rparr>)"
    using s(2) by (simp del: readValue.simps)
  moreover have "readArgument po (fst (head_parts 0)) False s = Inr (0, s\<lparr>cc_rest := bs @ r\<rparr>)"
    using readArgument_write[of s 0 "bs @ r" po False] s(1) by simp
  ultimately show "read_major (Suc fuel) (readValue (Suc fuel) po) po 6 (fst (head_parts 0)) depth s
      = Inr (CborDateTime t, s\<lparr>cc_rest := r, cc_valueCount := cc_valueCount s + value_count (CborDateTime t) - 1\<rparr>)"
    using assms(1) date_of_date_text[OF assms(2)] by (simp add: read_major_def readTag_def del: readValue.simps)
qed simp

lemma concat_results_Inr: "concat_results rs = Inr bs \<longleftrightarrow> (\<exists>bss. rs = map Inr bss \<and> bs = concat bss)"
proof (induction rs arbitrary: bs)
  case (Cons r rs)
  then show ?case
  proof (cases r)
    case (Inr a)
    then show ?thesis using Cons by (auto simp: sbind_Inr_iff Cons_eq_map_conv)
  qed (auto simp: Cons_eq_map_conv)
qed auto

lemma read_items_write:
  assumes "k \<noteq> u64_max"
  shows "length vs < fuel \<Longrightarrow> length bss = length vs \<Longrightarrow> k = i + length vs \<Longrightarrow>
    (\<forall>(v, bs)\<in>set (zip vs bss). bs \<noteq> [] \<and> reads f po (depth + 1) v bs (g v)) \<Longrightarrow>
    cc_rest s = concat bss @ r \<Longrightarrow> cc_valueCount s + sum_list (map value_count vs) \<le> po_maximumValueCount po \<Longrightarrow>
    read_items fuel (readValue f po) depth k i acc s
      = Inr (acc @ map g vs, s\<lparr>cc_rest := r, cc_valueCount := cc_valueCount s + sum_list (map value_count vs)\<rparr>)"
proof (induction vs arbitrary: fuel bss i acc s)
  case Nil
  then obtain h where "fuel = Suc h" by (cases fuel) auto
  then show ?case using Nil assms by (cases s) simp
next
  case (Cons v vs)
  obtain h where h: "fuel = Suc h" using Cons.prems by (cases fuel) auto
  obtain bs bt where b: "bss = bs # bt" using Cons.prems by (cases bss) auto
  have v: "bs \<noteq> []" "reads f po (depth + 1) v bs (g v)" using Cons.prems(4) by (simp_all add: b)
  let ?s = "s\<lparr>cc_rest := concat bt @ r, cc_valueCount := cc_valueCount s + value_count v\<rparr>"
  have rv: "readValue f po (depth + 1) s = Inr (g v, ?s)"
    by (rule readsD[OF v(2)]) (use Cons.prems b in simp_all)
  have "read_items h (readValue f po) depth k (i + 1) (acc @ [g v]) ?s
      = Inr ((acc @ [g v]) @ map g vs, ?s\<lparr>cc_rest := r, cc_valueCount := cc_valueCount ?s + sum_list (map value_count vs)\<rparr>)"
    by (rule Cons.IH[of h bt]) (use Cons.prems b h in auto)
  then show ?case using rv assms Cons.prems v(1) h b
    by (cases s) (simp add: at_break_def ac_simps)
qed

text \<open>Entries with different keys, in any order: the reader inserts them into the map one by one.\<close>

definition entry_bytes :: "octets \<times> octets \<Rightarrow> octets" where
  "entry_bytes e = writeHead 3 (length (fst e)) @ fst e @ snd e"

abbreviation key_bytes :: "octets \<Rightarrow> octets" where
  "key_bytes key \<equiv> writeHead 3 (length key) @ key"

definition insert_all :: "('a \<Rightarrow> 'b) \<Rightarrow> (octets \<times> 'a) list \<Rightarrow> (octets \<times> 'b) list \<Rightarrow> (octets \<times> 'b) list" where
  "insert_all g es m = fold (\<lambda>(k, v) m. map_insert k (g v) m) es m"

lemma insert_all_simps [simp]:
  "insert_all g [] m = m" "insert_all g ((k, v) # es) m = insert_all g es (map_insert k (g v) m)"
  by (simp_all add: insert_all_def)

lemma insert_all_set: "set (insert_all g es m) = (\<lambda>(k, v). (k, g v)) ` set es \<union> set m"
  by (induction es arbitrary: m) (auto simp: map_insert_set)

lemma insert_all_sorted:
  "keys_sorted m \<Longrightarrow> distinct (map (chars \<circ> fst) es) \<Longrightarrow> (chars \<circ> fst) ` set es \<inter> (chars \<circ> fst) ` set m = {}
    \<Longrightarrow> keys_sorted (insert_all g es m)"
proof (induction es arbitrary: m)
  case (Cons e es)
  obtain k v where [simp]: "e = (k, v)" by force
  have "map_find k m = None" using Cons.prems(3) by (force simp: map_find_None)
  then have "keys_sorted (map_insert k (g v) m)" by (rule map_insert_sorted[OF Cons.prems(1)])
  moreover have "(chars \<circ> fst) ` set es \<inter> (chars \<circ> fst) ` set (map_insert k (g v) m) = {}"
    using Cons.prems(2,3) by (auto simp: map_insert_set)
  ultimately show ?case using Cons.IH[of "map_insert k (g v) m"] Cons.prems(2) by simp
qed simp

lemma keys_sorted_unique: "keys_sorted xs \<Longrightarrow> keys_sorted ys \<Longrightarrow> set xs = set ys \<Longrightarrow> xs = ys"
proof (induction xs arbitrary: ys)
  case (Cons x xs)
  obtain y zs where y: "ys = y # zs" using Cons.prems(3) by (cases ys) auto
  have no: "\<not> key_before k k" for k using key_before_chars by blast
  have "x = y"
  proof (rule ccontr)
    assume "x \<noteq> y"
    then have "x \<in> set zs" "y \<in> set xs" using Cons.prems(3) y by auto
    then have "key_before (fst y) (fst x)" "key_before (fst x) (fst y)" using Cons.prems(1,2) y by (auto simp: keys_sorted_def)
    then show False using key_before_trans no by blast
  qed
  moreover have "x \<notin> set xs" "y \<notin> set zs" using Cons.prems(1,2) y no by (auto simp: keys_sorted_def)
  ultimately have "set xs = set zs" using Cons.prems(3) y by auto
  then show ?case using Cons y \<open>x = y\<close> by (simp add: keys_sorted_def)
qed simp

lemma keys_sorted_distinct: "keys_sorted m \<Longrightarrow> distinct (map (chars \<circ> fst) m)"
  by (induction m) (auto simp: keys_sorted_def dest: key_before_chars)

lemma insert_all_permuted:
  assumes "keys_sorted m" "set es = set m" "distinct (map (chars \<circ> fst) es)"
  shows "insert_all g es [] = map (\<lambda>(k, v). (k, g v)) m"
proof (rule keys_sorted_unique)
  show "keys_sorted (insert_all g es [])" using assms(3) by (intro insert_all_sorted) (simp_all add: keys_sorted_def)
  show "keys_sorted (map (\<lambda>(k, v). (k, g v)) m)"
    using assms(1) by (simp add: keys_sorted_def sorted_wrt_map case_prod_unfold)
  show "set (insert_all g es []) = set (map (\<lambda>(k, v). (k, g v)) m)"
    using assms(2) by (simp add: insert_all_set)
qed


lemma read_entries_write:
  assumes "k \<noteq> u64_max"
  shows "length es < fuel \<Longrightarrow> length bss = length es \<Longrightarrow> k = i + length es \<Longrightarrow>
    (\<forall>((key, v), bs)\<in>set (zip es bss). reads f po (depth + 1) (CborText key) (key_bytes key) (CborText key)
      \<and> reads f po (depth + 1) v bs (g v)) \<Longrightarrow>
    distinct (map (chars \<circ> fst) es) \<Longrightarrow> (chars \<circ> fst) ` set es \<inter> (chars \<circ> fst) ` set m = {} \<Longrightarrow>
    (po_dagCbor po \<Longrightarrow> sorted_wrt (\<lambda>a b. key_order_ok (key_bytes (fst a)) (key_bytes (fst b))) es) \<Longrightarrow>
    (po_dagCbor po \<Longrightarrow> \<forall>e\<in>set es. key_order_ok p (key_bytes (fst e))) \<Longrightarrow>
    cc_rest s = concat (map (\<lambda>(e, bs). key_bytes (fst e) @ bs) (zip es bss)) @ r \<Longrightarrow>
    cc_valueCount s + sum_list (map (\<lambda>(key, v). 1 + value_count v) es) \<le> po_maximumValueCount po \<Longrightarrow>
    read_entries fuel (readValue f po) po depth k i p m s
      = Inr (insert_all g es m, s\<lparr>cc_rest := r,
          cc_valueCount := cc_valueCount s + sum_list (map (\<lambda>(key, v). 1 + value_count v) es)\<rparr>)"
proof (induction es arbitrary: fuel bss i p m s)
  case Nil
  then obtain h where "fuel = Suc h" by (cases fuel) auto
  then show ?case using Nil assms by (cases s) simp
next
  case (Cons e es)
  obtain h where h: "fuel = Suc h" using Cons.prems by (cases fuel) auto
  obtain bs bt where b: "bss = bs # bt" using Cons.prems by (cases bss) auto
  obtain key v where e: "e = (key, v)" by force
  have rd: "reads f po (depth + 1) (CborText key) (key_bytes key) (CborText key)" "reads f po (depth + 1) v bs (g v)"
    using Cons.prems(4) by (simp_all add: b e)
  let ?tail = "concat (map (\<lambda>(e, bs). key_bytes (fst e) @ bs) (zip es bt)) @ r"
  let ?s1 = "s\<lparr>cc_rest := bs @ ?tail, cc_valueCount := cc_valueCount s + 1\<rparr>"
  let ?s2 = "?s1\<lparr>cc_rest := ?tail, cc_valueCount := cc_valueCount ?s1 + value_count v\<rparr>"
  have start: "cc_rest s = key_bytes key @ bs @ ?tail" using Cons.prems(9) by (simp add: b e)
  have r1: "readValue f po (depth + 1) s = Inr (CborText key, ?s1)"
    using readsD[OF rd(1) start] Cons.prems(10) by (simp add: e)
  have r2: "readValue f po (depth + 1) ?s1 = Inr (g v, ?s2)"
    by (rule readsD[OF rd(2)]) (use Cons.prems(10) in \<open>simp_all add: e\<close>)
  have new: "map_find key m = None" using Cons.prems(6) by (force simp: map_find_None e)
  have dk: "dag_key (cc_rest s) (cc_rest ?s1) = key_bytes key" by (simp add: dag_key_def start)
  let ?p = "if po_dagCbor po then key_bytes key else p"
  have "read_entry (readValue f po) po depth p m s = Inr (?p, map_insert key (g v) m, ?s2)"
    using r1 r2 new dk Cons.prems(8) by (simp add: read_entry_def getText_def map_set_new e)
  moreover have "read_entries h (readValue f po) po depth k (i + 1) ?p (map_insert key (g v) m) ?s2
      = Inr (insert_all g es (map_insert key (g v) m), ?s2\<lparr>cc_rest := r,
          cc_valueCount := cc_valueCount ?s2 + sum_list (map (\<lambda>(key, v). 1 + value_count v) es)\<rparr>)"
    by (rule Cons.IH[of h bt]) (use Cons.prems b h e in \<open>auto simp: map_insert_set\<close>)
  moreover have "cc_rest s \<noteq> []" using writeHead_parts[of 3] start by simp
  moreover have "k = u64_max \<or> i < k" using Cons.prems(3) by simp
  ultimately show ?case using assms h by (cases s) (simp add: at_break_def e ac_simps)
qed

section \<open>The order of keys in DAG-CBOR\<close>

abbreviation lex_less :: "nat list \<Rightarrow> nat list \<Rightarrow> bool" where
  "lex_less xs ys \<equiv> lex_compare order_of xs ys = OrdLess"

lemma order_of_simps [simp]: "a < b \<Longrightarrow> order_of a b = OrdLess" "order_of a a = OrdEqual"
  by (simp_all add: order_of_def)

lemma lex_less_append [simp]: "lex_less (zs @ xs) (zs @ ys) \<longleftrightarrow> lex_less xs ys"
  by (induction zs) simp_all

lemma unsigned_value_Cons: "unsigned_value (b # bs) = unat b * 256 ^ length bs + unsigned_value bs"
proof (induction bs rule: rev_induct)
  case (snoc c bs)
  have "unsigned_value (b # bs @ [c]) = unsigned_value (b # bs) * 256 + unat c"
    using unsigned_value_snoc[of "b # bs" c] by simp
  then show ?case using snoc by (simp add: unsigned_value_snoc algebra_simps)
qed (simp add: unsigned_value_def)

lemma unsigned_value_single: "unsigned_value [b] = unat b"
  by (simp add: unsigned_value_def)

lemma big_endian_order:
  "length xs = length ys \<Longrightarrow> unsigned_value xs < unsigned_value ys
    \<Longrightarrow> lex_less (map unat xs @ as) (map unat ys @ bs)"
proof (induction xs ys rule: list_induct2)
  case (Cons x xs y ys)
  have b: "unsigned_value xs < 256 ^ length ys" "unsigned_value ys < 256 ^ length ys"
    using unsigned_value_bound[of xs] unsigned_value_bound[of ys] Cons.hyps by simp_all
  have "\<not> unat y < unat x"
  proof
    assume "unat y < unat x"
    then have "(unat y + 1) * 256 ^ length ys \<le> unat x * 256 ^ length ys" by (intro mult_le_mono1) simp
    then show False using Cons.prems b Cons.hyps by (simp add: unsigned_value_Cons algebra_simps)
  qed
  then show ?case using Cons by (cases "unat x < unat y") (auto simp: unsigned_value_Cons)
qed simp

lemma head_order:
  assumes "m < n" "n \<le> u64_max"
  shows "lex_less (map unat (writeHead 3 m) @ as) (map unat (writeHead 3 n) @ bs)"
proof -
  have u: "map unat (writeHead 3 v) = (96 + fst (head_parts v)) # map unat (snd (head_parts v))" for v
    using head_byte(4)[of 3 "fst (head_parts v)"] head_parts_bound[of v] by (simp add: writeHead_parts)
  have "fst (head_parts m) < fst (head_parts n)
      \<or> fst (head_parts m) = fst (head_parts n) \<and> length (snd (head_parts m)) = length (snd (head_parts n))
        \<and> unsigned_value (snd (head_parts m)) < unsigned_value (snd (head_parts n))"
    using assms by (auto simp: head_parts_def unsigned_value_single byte_of_nat)
  then show ?thesis
    by (elim disjE conjE) (use big_endian_order in \<open>simp_all add: u\<close>)
qed

lemma digit_step: "(c :: nat) < d \<Longrightarrow> c div n < d div n \<or> c div n = d div n \<and> c mod n < d mod n"
  by (metis div_le_mono div_mult_mod_eq le_neq_implies_less less_imp_le_nat nat_add_left_cancel_less)

lemma digits_order:
  fixes c d :: nat
  assumes "c < d"
  shows "lex_less ((k + c div 64) # (128 + c mod 64) # as) ((k + d div 64) # (128 + d mod 64) # bs)"
    "lex_less ((k + c div 4096) # (128 + c div 64 mod 64) # (128 + c mod 64) # as)
      ((k + d div 4096) # (128 + d div 64 mod 64) # (128 + d mod 64) # bs)"
    "lex_less ((k + c div 262144) # (128 + c div 4096 mod 64) # (128 + c div 64 mod 64) # (128 + c mod 64) # as)
      ((k + d div 262144) # (128 + d div 4096 mod 64) # (128 + d div 64 mod 64) # (128 + d mod 64) # bs)"
proof -
  have two: "lex_less ((k + c div 64) # (128 + c mod 64) # as) ((k + d div 64) # (128 + d mod 64) # bs)"
    if "c < d" for c d :: nat and as bs
    using digit_step[OF that, of 64] by auto
  have three: "lex_less ((k + c div 4096) # (128 + c div 64 mod 64) # (128 + c mod 64) # as)
      ((k + d div 4096) # (128 + d div 64 mod 64) # (128 + d mod 64) # bs)" if "c < d" for c d :: nat and as bs
  proof -
    have q: "n div 4096 = n div 64 div 64" for n :: nat by (simp flip: div_mult2_eq)
    show ?thesis
      using digit_step[OF that, of 64] two[of "c div 64" "d div 64" "(128 + c mod 64) # as" "(128 + d mod 64) # bs"]
      unfolding q by (elim disjE conjE) simp_all
  qed
  have q: "n div 262144 = n div 64 div 4096" "n div 4096 = n div 64 div 64" for n :: nat
    by (simp_all flip: div_mult2_eq)
  show "lex_less ((k + c div 64) # (128 + c mod 64) # as) ((k + d div 64) # (128 + d mod 64) # bs)" by (rule two[OF assms])
  show "lex_less ((k + c div 4096) # (128 + c div 64 mod 64) # (128 + c mod 64) # as)
      ((k + d div 4096) # (128 + d div 64 mod 64) # (128 + d mod 64) # bs)" by (rule three[OF assms])
  show "lex_less ((k + c div 262144) # (128 + c div 4096 mod 64) # (128 + c div 64 mod 64) # (128 + c mod 64) # as)
      ((k + d div 262144) # (128 + d div 4096 mod 64) # (128 + d div 64 mod 64) # (128 + d mod 64) # bs)"
    using digit_step[OF assms, of 64] three[of "c div 64" "d div 64" "(128 + c mod 64) # as" "(128 + d mod 64) # bs"]
    unfolding q(1) q(2)[of c] q(2)[of d] by (elim disjE conjE) simp_all
qed

lemma utf8_order:
  assumes "c < d"
  shows "lex_less (utf8_numbers c @ as) (utf8_numbers d @ bs)"
proof -
  have b: "c < 2048 \<Longrightarrow> c div 64 < 32" "c < 65536 \<Longrightarrow> c div 4096 < 16" by (simp_all add: less_mult_imp_div_less)
  consider "d < 128" | "c < 128" "128 \<le> d" | "128 \<le> c" "c < 2048" "d < 2048" | "128 \<le> c" "c < 2048" "2048 \<le> d"
    | "2048 \<le> c" "c < 65536" "d < 65536" | "2048 \<le> c" "c < 65536" "65536 \<le> d" | "65536 \<le> c"
    using assms by linarith
  then show ?thesis
  proof cases
    case 3 then show ?thesis using digits_order(1)[OF assms, of 192 as bs] assms by (simp add: utf8_numbers_def)
  next
    case 5 then show ?thesis using digits_order(2)[OF assms, of 224 as bs] assms by (simp add: utf8_numbers_def)
  next
    case 7 then show ?thesis using digits_order(3)[OF assms, of 240 as bs] assms by (simp add: utf8_numbers_def)
  qed (use assms b in \<open>simp_all add: utf8_numbers_def\<close>)
qed

lemma encoded_order:
  "list_all isValidUnicode cs \<Longrightarrow> list_all isValidUnicode ds \<Longrightarrow> lex_less cs ds
    \<Longrightarrow> lex_less (map unat (encoded cs)) (map unat (encoded ds))"
proof (induction cs arbitrary: ds)
  case Nil
  then obtain d es where "ds = d # es" by (cases ds) auto
  then have "utf8_numbers d \<noteq> []" "map unat (encoded ds) = utf8_numbers d @ map unat (encoded es)"
    using Nil u8_write_numbers by (simp_all add: utf8_numbers_def)
  then show ?case by (cases "utf8_numbers d") auto
next
  case (Cons c cs)
  then obtain d es where d: "ds = d # es" by (cases ds) auto
  show ?case
  proof (cases "c = d")
    case True then show ?thesis using Cons d by simp
  next
    case False
    then have "c < d" using Cons.prems(3) d by (simp add: order_of_def split: if_splits)
    then show ?thesis using Cons.prems d u8_write_numbers utf8_order by simp
  qed
qed

lemma key_less_bytes:
  assumes "key_less a b" "isValidUtf8 a" "isValidUtf8 b" "length b \<le> u64_max"
  shows "key_order_ok (key_bytes a) (key_bytes b)"
proof (cases "length a = length b")
  case True
  obtain cs ds where e: "list_all isValidUnicode cs" "a = encoded cs" "list_all isValidUnicode ds" "b = encoded ds"
    using assms(2,3) by (auto simp: isValidUtf8_iff)
  then have "lex_less cs ds" using assms(1) True by (simp add: key_less_def spans_compare chars_encoded)
  then have "lex_less (map unat a) (map unat b)" using encoded_order e by simp
  then show ?thesis using True by (simp add: key_order_ok_def)
next
  case False
  then show ?thesis using assms(1,4) head_order[of "length a" "length b"] by (simp add: key_order_ok_def key_less_def)
qed

lemma key_less_trans: "key_less a b \<Longrightarrow> key_less b c \<Longrightarrow> key_less a c"
  using key_before_trans by (auto simp: key_less_def key_before_def split: if_splits)

lemma key_less_total: "chars a \<noteq> chars b \<Longrightarrow> \<not> key_less a b \<Longrightarrow> key_less b a"
  using key_before_cases[of a b] by (auto simp: key_less_def key_before_def split: if_splits)

lemma insert_entry_mset [simp]: "mset (insert_entry e es) = add_mset e (mset es)"
  by (induction es) auto

lemma sort_entries_simps [simp]: "sort_entries [] = []" "sort_entries (e # es) = insert_entry e (sort_entries es)"
  by (simp_all add: sort_entries_def)

lemma sort_entries_mset [simp]: "mset (sort_entries es) = mset es"
  by (induction es) auto

lemma sort_entries_set [simp]: "set (sort_entries es) = set es"
  by (rule mset_eq_setD) simp

lemma sort_entries_sum: "sum_list (map f (sort_entries es)) = (sum_list (map f es) :: nat)"
  using sum_mset_sum_list[of "map f (sort_entries es)"] sum_mset_sum_list[of "map f es"] by simp

lemma sort_entries_length [simp]: "length (sort_entries es) = length es"
  by (metis size_mset sort_entries_mset)

lemma sort_entries_distinct: "distinct (map (chars \<circ> fst) (sort_entries es)) \<longleftrightarrow> distinct (map (chars \<circ> fst) es)"
  by (rule mset_eq_imp_distinct_iff) simp

lemma insert_entry_sorted:
  assumes "sorted_wrt (\<lambda>a b. key_less (fst a) (fst b)) es" "chars (fst e) \<notin> (chars \<circ> fst) ` set es"
  shows "sorted_wrt (\<lambda>a b. key_less (fst a) (fst b)) (insert_entry e es)"
proof -
  have "set (insert_entry e es) = insert e (set es)" for es using mset_eq_setD[of "insert_entry e es" "e # es"] by simp
  then show ?thesis using assms
    by (induction es) (auto intro: key_less_trans key_less_total)
qed

lemma sort_entries_sorted:
  "distinct (map (chars \<circ> fst) es) \<Longrightarrow> sorted_wrt (\<lambda>a b. key_less (fst a) (fst b)) (sort_entries es)"
  by (induction es) (simp_all add: insert_entry_sorted)

lemma insert_entry_map: "insert_entry (k, h k v) (map (\<lambda>(k, v). (k, h k v)) es) = map (\<lambda>(k, v). (k, h k v)) (insert_entry (k, v) es)"
  by (induction es) auto

lemma sort_entries_map: "sort_entries (map (\<lambda>(k, v). (k, h k v)) es) = map (\<lambda>(k, v). (k, h k v)) (sort_entries es)"
  by (induction es) (auto simp: insert_entry_map)

section \<open>Reading written values\<close>

lemma writeHead_nonempty: "major < 8 \<Longrightarrow> writeHead major n \<noteq> []"
  by (simp add: writeHead_parts)

lemma writeValue_nonempty: "writeValue dag v = Inr bs \<Longrightarrow> bs \<noteq> []"
  by (cases v) (auto simp: sbind_Inr_iff writeText_def cbor_writeBytes_def Let_def writeHead_nonempty split: if_splits)

lemma sum_count_length: "length vs \<le> sum_list (map value_count vs)"
proof (induction vs)
  case (Cons v vs)
  then show ?case using value_count_pos[of v] by simp
qed simp

lemma length_concat_member: "bs \<in> set bss \<Longrightarrow> length bs \<le> length (concat bss)"
  by (metis in_set_conv_decomp concat.simps(2) concat_append length_append le_add1 le_add2 trans_le_add2)

lemma length_concat_nonempty: "(\<And>bs. bs \<in> set bss \<Longrightarrow> bs \<noteq> []) \<Longrightarrow> length bss \<le> length (concat bss)"
proof (induction bss)
  case (Cons b bss)
  then have "b \<noteq> []" "length bss \<le> length (concat bss)" by auto
  then show ?case by (cases b) simp_all
qed simp

lemma reads_array:
  assumes w: "map (writeValue (po_dagCbor po)) vs = map Inr bss"
    and d: "depth < po_maximumNesting po"
    and r: "\<And>v bs. (v, bs) \<in> set (zip vs bss) \<Longrightarrow> reads fuel po (depth + 1) v bs (g v)"
    and l: "length (concat bss) < fuel" "length (concat bss) < u64_max"
  shows "reads (Suc fuel) po depth (CborArray vs) (writeHead 4 (length vs) @ concat bss) (CborArray (map g vs))"
proof (rule reads_head)
  fix s :: codec and r :: octets
  assume s: "cc_rest s = snd (head_parts (length vs)) @ concat bss @ r"
    "cc_valueCount s + value_count (CborArray vs) \<le> po_maximumValueCount po + 1"
  have lb: "length bss = length vs" by (metis assms(1) length_map)
  have ne: "bs \<noteq> []" if "bs \<in> set bss" for bs
  proof -
    have "Inr bs \<in> set (map (writeValue (po_dagCbor po)) vs)" using that w by simp
    then obtain v where "writeValue (po_dagCbor po) v = Inr bs" by (metis imageE list.set_map)
    then show ?thesis by (rule writeValue_nonempty)
  qed
  have lv: "length vs \<le> length (concat bss)" using length_concat_nonempty[of bss] ne lb by (metis (full_types))
  let ?s = "s\<lparr>cc_rest := concat bss @ r\<rparr>"
  have a: "readArgument po (fst (head_parts (length vs))) True s = Inr (length vs, ?s)"
    by (rule readArgument_write[OF s(1)]) (use lv l in simp)
  have "\<forall>(v, bs)\<in>set (zip vs bss). bs \<noteq> [] \<and> reads fuel po (depth + 1) v bs (g v)"
    using r ne by (auto dest: set_zip_rightD)
  then have i: "read_items fuel (readValue fuel po) depth (length vs) 0 [] ?s
      = Inr ([] @ map g vs, ?s\<lparr>cc_rest := r, cc_valueCount := cc_valueCount ?s + sum_list (map value_count vs)\<rparr>)"
    by (intro read_items_write) (use lv l lb s in auto)
  have "length vs \<le> po_maximumValueCount po" using s(2) sum_count_length[of vs] by simp
  then show "read_major fuel (readValue fuel po) po 4 (fst (head_parts (length vs))) depth s
      = Inr (CborArray (map g vs), s\<lparr>cc_rest := r, cc_valueCount := cc_valueCount s + value_count (CborArray vs) - 1\<rparr>)"
    using a i d by (simp add: read_major_def readArray_def)
qed simp

lemma reads_map:
  assumes es: "es = (if po_dagCbor po then sort_entries m else m)" and m: "keys_sorted m"
    and d: "depth < po_maximumNesting po"
    and lb: "length bss = length es"
    and r: "\<And>key v bs. ((key, v), bs) \<in> set (zip es bss) \<Longrightarrow> reads fuel po (depth + 1) (CborText key) (key_bytes key) (CborText key)
        \<and> reads fuel po (depth + 1) v bs (g v)"
    and v: "\<And>key v. po_dagCbor po \<Longrightarrow> (key, v) \<in> set m \<Longrightarrow> isValidUtf8 key \<and> length key \<le> u64_max"
    and l: "length es < fuel" "length es < u64_max"
  shows "reads (Suc fuel) po depth (CborMap m)
    (writeHead 5 (length m) @ concat (map (\<lambda>(e, bs). key_bytes (fst e) @ bs) (zip es bss))) (CborMap (map (\<lambda>(k, v). (k, g v)) m))"
proof (rule reads_head)
  let ?body = "concat (map (\<lambda>(e, bs). key_bytes (fst e) @ bs) (zip es bss))"
  let ?count = "\<lambda>es. sum_list (map (\<lambda>(key, v). 1 + value_count v) es)"
  fix s :: codec and r :: octets
  assume s: "cc_rest s = snd (head_parts (length m)) @ ?body @ r"
    "cc_valueCount s + value_count (CborMap m) \<le> po_maximumValueCount po + 1"
  have len: "length es = length m" and set: "set es = set m" and cnt: "?count es = ?count m"
    by (simp_all add: es sort_entries_sum)
  have dist: "distinct (map (chars \<circ> fst) es)" using keys_sorted_distinct[OF m] by (simp add: es sort_entries_distinct)
  have ord: "sorted_wrt (\<lambda>a b. key_order_ok (key_bytes (fst a)) (key_bytes (fst b))) es" if dag: "po_dagCbor po"
  proof -
    have "sorted_wrt (\<lambda>a b. key_less (fst a) (fst b)) es" using sort_entries_sorted[OF keys_sorted_distinct[OF m]] by (simp add: es dag)
    then show ?thesis
    proof (rule sorted_wrt_mono_rel[rotated])
      fix a b :: "octets \<times> cbor_value" assume ab: "a \<in> set es" "b \<in> set es" "key_less (fst a) (fst b)"
      have "isValidUtf8 (fst a)" "isValidUtf8 (fst b)" "length (fst b) \<le> u64_max"
        using v[OF dag, of "fst a" "snd a"] v[OF dag, of "fst b" "snd b"] ab(1,2) set by auto
      then show "key_order_ok (key_bytes (fst a)) (key_bytes (fst b))" by (rule key_less_bytes[OF ab(3)])
    qed
  qed
  let ?s = "s\<lparr>cc_rest := ?body @ r\<rparr>"
  have a: "readArgument po (fst (head_parts (length m))) True s = Inr (length m, ?s)"
    by (rule readArgument_write[OF s(1)]) (use l len in simp)
  have zs: "\<forall>((key, v), bs)\<in>set (zip es bss). reads fuel po (depth + 1) (CborText key) (key_bytes key) (CborText key)
      \<and> reads fuel po (depth + 1) v bs (g v)" using assms(5) by auto
  have i: "read_entries fuel (readValue fuel po) po depth (length m) 0 [] [] ?s
      = Inr (insert_all g es [], ?s\<lparr>cc_rest := r, cc_valueCount := cc_valueCount ?s + ?count es\<rparr>)"
    by (rule read_entries_write[where bss = bss])
      (use l lb len zs dist ord cnt s(2) in \<open>simp_all add: key_order_ok_def\<close>)
  have "length m \<le> ?count m" by (induction m) auto
  then have "length m \<le> po_maximumValueCount po" using s(2) by simp
  then show "read_major fuel (readValue fuel po) po 5 (fst (head_parts (length m))) depth s
      = Inr (CborMap (map (\<lambda>(k, v). (k, g v)) m), s\<lparr>cc_rest := r, cc_valueCount := cc_valueCount s + value_count (CborMap m) - 1\<rparr>)"
    using a i d cnt insert_all_permuted[OF m set dist, of g] l len by (simp add: read_major_def readMap_def)
qed simp


lemma entry_results:
  "\<forall>e\<in>set es. isValidUtf8 (fst e) \<Longrightarrow> map (\<lambda>(k, v). sbind (writeText dag k) (\<lambda>a. sbind (writeValue dag v) (\<lambda>b. Inr (a @ b)))) es = map Inr rs \<Longrightarrow>
    \<exists>bss. length bss = length es \<and> concat rs = concat (map (\<lambda>(e, bs). key_bytes (fst e) @ bs) (zip es bss))
      \<and> (\<forall>((k, v), bs)\<in>set (zip es bss). writeText dag k = Inr (key_bytes k) \<and> writeValue dag v = Inr bs)"
proof (induction es arbitrary: rs)
  case (Cons e es)
  obtain k v where e: "e = (k, v)" by force
  obtain x xs where rs: "rs = x # xs" using Cons.prems by (cases rs) auto
  obtain b where b: "writeText dag k = Inr (key_bytes k)" "writeValue dag v = Inr b" "x = key_bytes k @ b"
    using Cons.prems by (auto simp: e rs sbind_Inr_iff writeText_valid)
  obtain bss where "length bss = length es" "concat xs = concat (map (\<lambda>(e, bs). key_bytes (fst e) @ bs) (zip es bss))"
    "\<forall>((k, v), bs)\<in>set (zip es bss). writeText dag k = Inr (key_bytes k) \<and> writeValue dag v = Inr bs"
    using Cons.IH[of xs] Cons.prems rs by fastforce
  then show ?case using b by (intro exI[of _ "b # bss"]) (simp add: e rs)
qed simp

lemma writeValue_reads:
  assumes "po_maximumInputLength po < u64_max" "29 \<le> po_maximumStringLength po"
  shows "writeValue (po_dagCbor po) v = Inr bs \<Longrightarrow> cv_within po depth v \<Longrightarrow> dates_valid v \<and> texts_valid v
    \<Longrightarrow> length bs \<le> po_maximumInputLength po \<Longrightarrow> length bs < fuel
    \<Longrightarrow> reads fuel po depth v bs (cv_normal (po_dagCbor po) v)"
proof (induction v arbitrary: bs depth fuel)
  case CborNull
  then obtain f where "fuel = Suc f" by (cases fuel) auto
  then show ?case using CborNull reads_simple(1) by simp
next
  case (CborBool b)
  then obtain f where "fuel = Suc f" by (cases fuel) auto
  then show ?case using CborBool reads_simple(2)[of f po depth b] by (cases b) auto
next
  case (CborSigned n)
  then obtain f where "fuel = Suc f" by (cases fuel) auto
  then show ?case using CborSigned reads_unsigned[of "nat n"] reads_negative[of n] by (auto split: if_splits)
next
  case (CborUnsigned n)
  then obtain f where "fuel = Suc f" by (cases fuel) auto
  then show ?case using CborUnsigned reads_unsigned[of n] by simp
next
  case (CborFloat b)
  then obtain f where "fuel = Suc f" by (cases fuel) auto
  moreover have "po_dagCbor po \<Longrightarrow> d_isfinite b"
    "bs = 0xFB # writeUnsigned 8 (unat (if po_dagCbor po \<and> d_isZero b then 0 else b))"
    using CborFloat(1) by (cases "po_dagCbor po \<and> d_isZero b"; auto split: if_splits)+
  ultimately show ?case using reads_float[of po b f depth] by simp
next
  case (CborText t)
  then obtain f where "fuel = Suc f" by (cases fuel) auto
  then show ?case using CborText assms reads_text[of t po f depth] by (auto simp: writeText_valid)
next
  case (CborBytes b)
  then obtain f where "fuel = Suc f" by (cases fuel) auto
  then show ?case using CborBytes assms reads_bytes[of b po f depth] by (auto simp: cbor_writeBytes_def)
next
  case (CborDateTime t)
  have w: "\<not> po_dagCbor po" "ts_wf t" using CborDateTime by (auto split: if_splits)
  then obtain b where b: "b = writeHead 3 29 @ date_text t" "bs = writeHead 6 0 @ b"
    using CborDateTime date_text_form(3)[OF w(2)] by (auto simp: writeText_valid[OF date_text_valid] split: if_splits)
  have l: "29 \<le> length b" using b(1) date_text_form(3)[OF w(2)] by simp
  then obtain f where "fuel = Suc (Suc f)" using CborDateTime(5) b(2) by (cases fuel; cases "fuel - 1") auto
  then show ?case using reads_date[OF w assms(2) _ b(1)] CborDateTime(4) b(2) l by simp
next
  case (CborLink cid)
  have w: "validCid cid" "bs = writeHead 6 42 @ writeHead 2 (length cid + 1) @ [0] @ cid" using CborLink by (auto split: if_splits)
  then have l: "length cid + 1 < length bs" using writeHead_nonempty[of 6 42] by (cases "writeHead 6 42") auto
  then obtain f where "fuel = Suc (Suc f)" using CborLink(5) by (cases fuel; cases "fuel - 1") auto
  then show ?case using reads_link[OF w(1), of po f depth] CborLink(2,4) assms(1) l w(2) by simp
next
  case (CborArray vs)
  obtain bss where b: "map (writeValue (po_dagCbor po)) vs = map Inr bss" "bs = writeHead 4 (length vs) @ concat bss"
    using CborArray.prems(1) by (auto simp: sbind_Inr_iff concat_results_Inr)
  obtain f where f: "fuel = Suc f" using CborArray.prems(5) by (cases fuel) auto
  have l: "length (concat bss) < length bs" using b(2) writeHead_nonempty[of 4 "length vs"] by simp
  have "reads f po (depth + 1) v x (cv_normal (po_dagCbor po) v)" if m: "(v, x) \<in> set (zip vs bss)" for v x
  proof (rule CborArray.IH)
    have z: "v \<in> set vs" "x \<in> set bss" using m by (auto dest: set_zip_leftD set_zip_rightD)
    show "v \<in> set vs" by (rule z(1))
    have len: "length bss = length vs" using b(1) by (metis length_map)
    then obtain i where i: "i < length vs" "vs ! i = v" "bss ! i = x" using m by (metis fst_conv in_set_zip snd_conv)
    have "map (writeValue (po_dagCbor po)) vs ! i = map Inr bss ! i" using b(1) by simp
    then show "writeValue (po_dagCbor po) v = Inr x" using i len by simp
    show "cv_within po (depth + 1) v" "dates_valid v \<and> texts_valid v" using CborArray.prems(2,3) z(1) by (auto simp: list_all_iff)
    show "length x \<le> po_maximumInputLength po" "length x < f"
      using length_concat_member[OF z(2)] l CborArray.prems(4,5) f by linarith+
  qed
  then show ?case unfolding f b(2) cv_normal.simps
    by (intro reads_array[OF b(1)]) (use CborArray.prems(2,4,5) l f assms(1) in auto)
next
  case (CborMap m)
  let ?dag = "po_dagCbor po"
  let ?h = "\<lambda>k v. sbind (writeText ?dag k) (\<lambda>a. sbind (writeValue ?dag v) (\<lambda>b. Inr (a @ b)))"
  define es where "es = (if ?dag then sort_entries m else m)"
  have "map snd (if ?dag then sort_entries (map (\<lambda>(k, v). (k, ?h k v)) m) else map (\<lambda>(k, v). (k, ?h k v)) m) = map (\<lambda>(k, v). ?h k v) es"
    by (cases ?dag) (simp_all only: es_def sort_entries_map if_True if_False, simp_all add: case_prod_unfold comp_def)
  then obtain rs where rs: "map (\<lambda>(k, v). ?h k v) es = map Inr rs" "bs = writeHead 5 (length m) @ concat rs"
    using CborMap.prems(1) by (auto simp: sbind_Inr_iff concat_results_Inr Let_def)
  have keys: "\<forall>e\<in>set es. isValidUtf8 (fst e)"
    using CborMap.prems(3) by (auto simp: es_def list_all_iff split: if_splits)
  obtain bss where b: "length bss = length es" "concat rs = concat (map (\<lambda>(e, bs). key_bytes (fst e) @ bs) (zip es bss))"
      "\<forall>((k, v), bs)\<in>set (zip es bss). writeText ?dag k = Inr (key_bytes k) \<and> writeValue ?dag v = Inr bs"
    using entry_results[OF keys rs(1)] by (elim exE conjE) (rule that)
  obtain f where f: "fuel = Suc f" using CborMap.prems(5) by (cases fuel) auto
  have l: "length (concat rs) < length bs" using rs(2) writeHead_nonempty[of 5 "length m"] by simp
  have les: "length es \<le> length (concat rs)"
  proof -
    have "length (map (\<lambda>(e, bs). key_bytes (fst e) @ bs) (zip es bss)) \<le> length (concat rs)"
      unfolding b(2) by (rule length_concat_nonempty) (auto simp: writeHead_nonempty)
    then show ?thesis using b(1) by simp
  qed
  have part: "length (key_bytes k) + length x \<le> length (concat rs)" if "((k, v), x) \<in> set (zip es bss)" for k v x
  proof -
    have "key_bytes k @ x \<in> set (map (\<lambda>(e, bs). key_bytes (fst e) @ bs) (zip es bss))" using that by force
    from length_concat_member[OF this] show ?thesis using b(2) by simp
  qed
  have set: "set es = set m" by (simp add: es_def)
  have rd: "reads f po (depth + 1) (CborText k) (key_bytes k) (CborText k) \<and> reads f po (depth + 1) v x (cv_normal ?dag v)"
    if z: "((k, v), x) \<in> set (zip es bss)" for k v x
  proof
    have mm: "(k, v) \<in> set m" using z set by (auto dest: set_zip_leftD)
    have w: "writeText ?dag k = Inr (key_bytes k)" "writeValue ?dag v = Inr x" using b(3) z by auto
    have lx: "length (key_bytes k) + length x < f" "length (key_bytes k) + length x \<le> po_maximumInputLength po"
      using part[OF z] l CborMap.prems(4,5) f by linarith+
    obtain g where g: "f = Suc g" using lx(1) by (cases f) auto
    have k: "length k \<le> po_maximumStringLength po" "cv_within po (depth + 1) v" "dates_valid v \<and> texts_valid v" "isValidUtf8 k"
      using CborMap.prems(2,3) mm by (auto simp: list_all_iff)
    show "reads f po (depth + 1) (CborText k) (key_bytes k) (CborText k)"
      unfolding g by (rule reads_text) (use k lx(2) assms(1) in auto)
    show "reads f po (depth + 1) v x (cv_normal ?dag v)"
      by (rule CborMap.IH[OF mm _ w(2) k(2,3)]) (use lx in auto)
  qed
  have valid: "isValidUtf8 k \<and> length k \<le> u64_max" if dag: "?dag" and mem: "(k, v) \<in> set m" for k v
  proof -
    obtain x where z: "((k, v), x) \<in> set (zip es bss)" using mem set b(1) by (metis in_set_impl_in_set_zip1)
    then show ?thesis using b(3) part[OF z] l CborMap.prems(4) assms(1) keys set mem by fastforce
  qed
  show ?case unfolding f rs(2) b(2) cv_normal.simps
    by (rule reads_map[OF es_def _ _ b(1) rd valid]) (use CborMap.prems(2,4,5) les l f assms(1) in auto)
qed

text \<open>Encoding fails only on what the format cannot hold.\<close>

fun encodable :: "bool \<Rightarrow> cbor_value \<Rightarrow> bool" where
  "encodable dag (CborFloat b) \<longleftrightarrow> (dag \<longrightarrow> d_isfinite b)"
| "encodable dag (CborText t) \<longleftrightarrow> (dag \<longrightarrow> isValidUtf8 t)"
| "encodable dag (CborArray vs) \<longleftrightarrow> list_all (encodable dag) vs"
| "encodable dag (CborMap m) \<longleftrightarrow> list_all (\<lambda>(k, v). (dag \<longrightarrow> isValidUtf8 k) \<and> encodable dag v) m"
| "encodable dag (CborDateTime t) \<longleftrightarrow> \<not> dag \<and> ts_isValid t"
| "encodable dag (CborLink cid) \<longleftrightarrow> validCid cid"
| "encodable dag _ \<longleftrightarrow> True"

definition fails_unless :: "bool \<Rightarrow> cbor_error + 'a \<Rightarrow> bool" where
  "fails_unless ok r \<longleftrightarrow> (if ok then \<exists>a. r = Inr a else r = Inl CborParameterError)"

lemma fails_unless_concat:
  "(\<And>r. r \<in> set rs \<Longrightarrow> \<exists>ok. fails_unless ok r) \<Longrightarrow> fails_unless (\<forall>r\<in>set rs. fails_unless True r) (concat_results rs)"
proof (induction rs)
  case (Cons r rs)
  obtain ok where ok: "fails_unless ok r" using Cons.prems[of r] by auto
  have "fails_unless (\<forall>r\<in>set rs. fails_unless True r) (concat_results rs)" using Cons by simp
  then show ?case using ok by (cases r) (auto simp: fails_unless_def split: if_splits)
qed (simp add: fails_unless_def)

lemma fails_unless_True: "fails_unless ok r \<Longrightarrow> fails_unless True r \<longleftrightarrow> ok"
  by (auto simp: fails_unless_def split: if_splits)

lemma fails_unless_sbind: "fails_unless ok r \<Longrightarrow> fails_unless ok (sbind r (\<lambda>x. Inr (f x)))"
  by (auto simp: fails_unless_def split: if_splits)

lemma fails_unless_text: "fails_unless (dag \<longrightarrow> isValidUtf8 t) (writeText dag t)"
  by (auto simp: fails_unless_def writeText_def Let_def)

lemma fails_unless_pair:
  "fails_unless a r \<Longrightarrow> fails_unless b q \<Longrightarrow> fails_unless (a \<and> b) (sbind r (\<lambda>x. sbind q (\<lambda>y. Inr (f x y))))"
  by (auto simp: fails_unless_def split: if_splits)

lemma writeValue_fails: "fails_unless (encodable dag v) (writeValue dag v)"
proof (induction v)
  case (CborArray vs)
  have "fails_unless (\<forall>r\<in>set (map (writeValue dag) vs). fails_unless True r) (concat_results (map (writeValue dag) vs))"
    by (rule fails_unless_concat) (use CborArray in auto)
  moreover have "(\<forall>r\<in>set (map (writeValue dag) vs). fails_unless True r) \<longleftrightarrow> encodable dag (CborArray vs)"
    using fails_unless_True[OF CborArray] by (simp add: list_all_iff)
  ultimately show ?case using fails_unless_sbind by simp
next
  case (CborMap m)
  let ?h = "\<lambda>k v. sbind (writeText dag k) (\<lambda>a. sbind (writeValue dag v) (\<lambda>b. Inr (a @ b)))"
  let ?ok = "\<lambda>k v. (dag \<longrightarrow> isValidUtf8 k) \<and> encodable dag v"
  let ?es = "map (\<lambda>(k, v). (k, ?h k v)) m"
  let ?rs = "map snd (if dag then sort_entries ?es else ?es)"
  have h: "fails_unless (?ok k v) (?h k v)" if "(k, v) \<in> set m" for k v
    by (rule fails_unless_pair[OF fails_unless_text CborMap[OF that]]) simp
  have set: "set ?rs = (\<lambda>(k, v). ?h k v) ` set m" by (auto simp: image_image case_prod_unfold)
  have "fails_unless (\<forall>r\<in>set ?rs. fails_unless True r) (concat_results ?rs)"
  proof (rule fails_unless_concat)
    fix r assume "r \<in> set ?rs"
    then obtain k v where "(k, v) \<in> set m" "r = ?h k v" unfolding set by auto
    then show "\<exists>ok. fails_unless ok r" using h by blast
  qed
  moreover have "(\<forall>r\<in>set ?rs. fails_unless True r) \<longleftrightarrow> encodable dag (CborMap m)"
    unfolding set using fails_unless_True[OF h] by (auto simp: list_all_iff)
  ultimately have c: "fails_unless (encodable dag (CborMap m)) (concat_results ?rs)" by (simp only:)
  show ?case using fails_unless_sbind[OF c, of "\<lambda>bs. writeHead 5 (length m) @ bs"]
    by (simp only: writeValue.simps Let_def)
qed (auto simp: fails_unless_def writeText_def Let_def)

text \<open>C25: Encoding fails exactly on values the format cannot hold, whatever their shape: invalid
  timestamps and links, and in DAG-CBOR also timestamps, numbers that are not finite, and texts or keys
  that are not valid UTF-8, at any depth; the error is always the parameter error.\<close>

theorem cbor_encode_errors:
  "(cbor_encode dag v = Inl CborParameterError \<longleftrightarrow> \<not> encodable dag v)
    \<and> ((\<exists>bs. cbor_encode dag v = Inr bs) \<longleftrightarrow> encodable dag v)"
  using writeValue_fails[of dag v] by (auto simp: fails_unless_def cbor_encode_def split: if_splits)

text \<open>Cleaning a value changes nothing for the writer.\<close>

lemma cv_clean_simps:
  "texts_valid (cv_clean v)" "dates_valid (cv_clean v) = dates_valid v" "value_count (cv_clean v) = value_count v"
proof (induction v)
  case (CborArray vs)
  {
    case 1 then show ?case using CborArray(1) by (simp add: list_all_iff)
  next
    case 2 then show ?case using CborArray(2) by (simp add: list_all_iff)
  next
    case 3 then show ?case using CborArray(3) by (simp cong: map_cong)
  }
next
  case (CborMap m)
  {
    case 1 then show ?case using CborMap(1) by (fastforce simp: list_all_iff)
  next
    case 2 then show ?case using CborMap(2) by (fastforce simp: list_all_iff)
  next
    case 3
    have "map (\<lambda>(k, v). 1 + value_count v) (map (\<lambda>(k, v). (std_string k, cv_clean v)) m) = map (\<lambda>(k, v). 1 + value_count v) m"
      unfolding map_map
    proof (rule map_cong[OF refl])
      fix e assume e: "e \<in> set m"
      obtain k v where [simp]: "e = (k, v)" by force
      show "((\<lambda>(k, v). 1 + value_count v) \<circ> (\<lambda>(k, v). (std_string k, cv_clean v))) e = (case e of (k, v) \<Rightarrow> 1 + value_count v)"
        using CborMap(3)[OF e, of v] by simp
    qed
    then show ?case by (simp only: cv_clean.simps value_count.simps)
  }
qed simp_all

lemma cv_clean_valid: "texts_valid v \<Longrightarrow> cv_clean v = v"
proof (induction v)
  case (CborArray vs) then show ?case by (simp add: list_all_iff map_idI)
next
  case (CborMap m)
  then have "map (\<lambda>(k, v). (std_string k, cv_clean v)) m = m" by (intro map_idI) (fastforce simp: list_all_iff)
  then show ?case by simp
qed simp_all

lemma encodable_dag_texts: "encodable True v \<Longrightarrow> texts_valid v"
proof (induction v)
  case (CborArray vs) then show ?case by (simp add: list_all_iff)
next
  case (CborMap m) then show ?case by (fastforce simp: list_all_iff)
qed simp_all

lemma writeValue_clean_plain: "writeValue False (cv_clean v) = writeValue False v"
proof (induction v)
  case (CborArray vs)
  then have "map (writeValue False) (map cv_clean vs) = map (writeValue False) vs" by simp
  then show ?case by (simp del: map_map)
next
  case (CborMap m)
  have ih: "writeValue False (cv_clean v) = writeValue False v" if "(k, v) \<in> set m" for k v
    using CborMap[OF that, of v] by simp
  have "map snd (map (\<lambda>(k, v). (k, sbind (writeText False k) (\<lambda>a. sbind (writeValue False v) (\<lambda>b. Inr (a @ b)))))
        (map (\<lambda>(k, v). (std_string k, cv_clean v)) m))
      = map snd (map (\<lambda>(k, v). (k, sbind (writeText False k) (\<lambda>a. sbind (writeValue False v) (\<lambda>b. Inr (a @ b))))) m)"
    using ih by (auto simp: writeText_def Let_def)
  then show ?case by (simp only: cv_clean.simps writeValue.simps Let_def if_False length_map)
qed (simp_all add: writeText_def Let_def)

lemma writeValue_clean: "writeValue dag v = Inr bs \<Longrightarrow> writeValue dag (cv_clean v) = Inr bs"
  using writeValue_fails[of dag v] encodable_dag_texts cv_clean_valid writeValue_clean_plain
  by (cases dag) (auto simp: fails_unless_def split: if_splits)

text \<open>C2: Round trip, for plain CBOR and for DAG-CBOR: the bytes of an encoded value that keeps the limits of
  the reader decode to the value, with its texts cleaned of malformed UTF-8 and up to the numbers
  that are written alike (signed numbers that are not negative, and the two zeros in DAG-CBOR). A value
  whose texts are valid needs no cleaning. In particular the strict reader accepts the order in which
  the DAG-CBOR writer sorts the keys.\<close>

theorem cbor_roundtrip:
  assumes "cbor_encode (po_dagCbor po) v = Inr bs" "cv_within po 0 (cv_clean v)" "dates_valid v"
    "value_count v \<le> po_maximumValueCount po" "length bs \<le> po_maximumInputLength po"
    "po_maximumInputLength po < u64_max" "29 \<le> po_maximumStringLength po"
  shows "cbor_decode po bs = Inr (cv_normal (po_dagCbor po) (cv_clean v)) \<and> (texts_valid v \<longrightarrow> cv_clean v = v)"
proof
  have "writeValue (po_dagCbor po) (cv_clean v) = Inr bs" using assms(1) writeValue_clean by (simp add: cbor_encode_def)
  then have "reads (length bs + 1) po 0 (cv_clean v) bs (cv_normal (po_dagCbor po) (cv_clean v))"
    by (intro writeValue_reads[OF assms(6,7)]) (use assms cv_clean_simps in simp_all)
  from readsD[OF this, of "codec_start bs" "[]"]
  have "readValue (length bs + 1) po 0 (codec_start bs) = Inr (cv_normal (po_dagCbor po) (cv_clean v),
      \<lparr>cc_rest = [], cc_scratch = [], cc_valueCount = value_count v\<rparr>)"
    using assms(4) cv_clean_simps(3) by (simp del: readValue.simps)
  then show "cbor_decode po bs = Inr (cv_normal (po_dagCbor po) (cv_clean v))"
    using assms(5) by (simp add: cbor_decode_def del: readValue.simps)
qed (use cv_clean_valid in blast)

definition sample_value :: cbor_value where
  "sample_value = CborArray [CborMap [([97, 97], CborSigned 7), ([98], CborFloat 0x8000000000000000)], CborText [104, 105]]"

lemma cbor_roundtrip_witness:
  "cbor_decode (default_limits\<lparr>po_dagCbor := True\<rparr>)
      [0x82, 0xA2, 0x61, 98, 0xFB, 0, 0, 0, 0, 0, 0, 0, 0, 0x62, 97, 97, 7, 0x62, 104, 105]
    = Inr (CborArray [CborMap [([97, 97], CborUnsigned 7), ([98], CborFloat 0)], CborText [104, 105]])"
proof -
  let ?po = "default_limits\<lparr>po_dagCbor := True\<rparr>"
  have c: "chars [97, 97] = [97, 97]" "chars [98] = [98]"
    using chars_encoded[of "[97, 97]"] chars_encoded[of "[98]"] by (simp_all add: u8_write_def isValidUnicode_def)
  have u: "isValidUtf8 [97, 97]" "isValidUtf8 [98]" "isValidUtf8 [104, 105]"
    unfolding isValidUtf8_iff
    by (rule exI[of _ "[97, 97]"] exI[of _ "[98]"] exI[of _ "[104, 105]"]; simp add: u8_write_def isValidUnicode_def)+
  have w8: "writeUnsigned 8 0 = [0, 0, 0, 0, 0, 0, 0, 0]" by code_simp
  have e: "cbor_encode True sample_value
      = Inr [0x82, 0xA2, 0x61, 98, 0xFB, 0, 0, 0, 0, 0, 0, 0, 0, 0x62, 97, 97, 7, 0x62, 104, 105]"
    using u by (simp add: cbor_encode_def sample_value_def writeText_valid writeHead_parts head_parts_def key_less_def d_isfinite_def d_isZero_def
        d_exponent_def d_mantissa_def w8)
  have t: "cv_clean sample_value = sample_value" using u by (intro cv_clean_valid) (simp add: sample_value_def)
  have w: "cv_within ?po 0 (cv_clean sample_value)" "dates_valid sample_value" "value_count sample_value \<le> po_maximumValueCount ?po"
    unfolding t by (simp_all add: sample_value_def default_limits_def keys_sorted_def key_before_def spans_compare c)
  show ?thesis
    using cbor_roundtrip[OF _ w] e t
    by (simp add: sample_value_def default_limits_def d_isZero_def d_exponent_def d_mantissa_def)
qed

lemma sentinel_bytes: "unsigned_value (replicate 8 0xFF) = u64_max"
proof -
  have "replicate 8 (0xFF :: byte8) = [0xFF, 0xFF, 0xFF, 0xFF, 0xFF, 0xFF, 0xFF, 0xFF]" by (simp add: numeral_eq_Suc)
  then show ?thesis by (simp add: unsigned_value_def)
qed

text \<open>C39: A definite length of 2^64 - 1 is taken for the mark of an indefinite length: the eight bytes of
  that length behave like the one-byte indefinite head, for byte strings, texts, arrays and maps. In
  DAG-CBOR, which forbids indefinite lengths, the decoder accepts one in this spelling.\<close>

theorem cbor_length_sentinel:
  assumes "\<not> po_dagCbor po" "2 \<le> major" "major \<le> 5" "length r + 9 \<le> po_maximumInputLength po"
  shows "cbor_decode po (of_nat (32 * major + 27) # replicate 8 0xFF @ r) = cbor_decode po (of_nat (32 * major + 31) # r)
    \<and> cbor_decode (default_limits\<lparr>po_dagCbor := True\<rparr>) 
        [0x5B, 0xFF, 0xFF, 0xFF, 0xFF, 0xFF, 0xFF, 0xFF, 0xFF, 0x41, b, 0xFF] = Inr (CborBytes [b])"
proof
  let ?long = "of_nat (32 * major + 27) # replicate 8 0xFF @ r" and ?short = "of_nat (32 * major + 31) # r"
  let ?s = "\<lparr>cc_rest = replicate 8 0xFF @ r, cc_scratch = [], cc_valueCount = 1\<rparr>"
  let ?t = "\<lparr>cc_rest = r, cc_scratch = [], cc_valueCount = 1\<rparr>"
  have m: "major < 8" using assms(3) by simp
  have u: "readUnsigned 8 ?s = Inr (u64_max, ?t)"
    by (simp add: readUnsigned_def sentinel_bytes)
  have arg: "readArgument po 27 True ?s = readArgument po 31 True ?t"
    using assms(1) u by (simp add: readArgument_def)
  have maj: "read_major f rv po major 27 0 ?s = read_major f rv po major 31 0 ?t" for f rv
  proof -
    consider "major = 2" | "major = 3" | "major = 4" | "major = 5" using assms(2,3) by linarith
    then show ?thesis
      by cases (use arg in \<open>simp_all add: read_major_def readBytes_def readText_def readArray_def readMap_def\<close>)
  qed
  have first: "readValue (Suc f) po 0 (codec_start (of_nat (32 * major + a) # bs))
      = (if po_maximumValueCount po = 0 then Inl CborParseError
         else read_major f (readValue f po) po major a 0 \<lparr>cc_rest = bs, cc_scratch = [], cc_valueCount = 1\<rparr>)" if "a < 32" for a f bs
    using head_byte(2-4)[OF m that] by (simp add: readUnsigned_def unsigned_value_single)
  have "same_upto (length r) (readValue (length r + 9) po) (readValue (length r + 1) po)"
    unfolding same_upto_def
  proof (intro allI impI)
    fix depth and s :: codec assume "length (cc_rest s) \<le> length r"
    then show "readValue (length r + 9) po depth s = readValue (length r + 1) po depth s
        \<and> readValue (length r + 9) po depth s \<noteq> Inl CborOutOfFuel"
      using readValue_fuel[of s "length r + 9" "length r + 1" po depth] by (simp del: readValue.simps)
  qed
  then have "read_major (length r + 9) (readValue (length r + 9) po) po major 31 0 ?t
      = read_major (length r + 1) (readValue (length r + 1) po) po major 31 0 ?t"
    using read_major_same[OF readValue_consumes, of "length r" _ _ _ ?t] by (simp del: readValue.simps)
  then have "readValue (length ?long + 1) po 0 (codec_start ?long) = readValue (length ?short + 1) po 0 (codec_start ?short)"
    using first[of 27 "length r + 9" "replicate 8 0xFF @ r"] first[of 31 "length r + 1" r] maj by simp
  then show "cbor_decode po ?long = cbor_decode po ?short"
    using assms(4) by (simp add: cbor_decode_def del: readValue.simps)
  show "cbor_decode (default_limits\<lparr>po_dagCbor := True\<rparr>) 
        [0x5B, 0xFF, 0xFF, 0xFF, 0xFF, 0xFF, 0xFF, 0xFF, 0xFF, 0x41, b, 0xFF] = Inr (CborBytes [b])"
    by (simp add: cbor_decode_def read_major_def readBytes_def readArgument_def readUnsigned_def unsigned_value_def
        default_limits_def read_parts.simps read_part_def read_block_def drop_bit_eq_div)
qed

lemma cbor_length_sentinel_witness:
  "cbor_decode default_limits (of_nat (32 * 4 + 27) # replicate 8 0xFF @ [0x01, 0xFF])
    = cbor_decode default_limits (of_nat (32 * 4 + 31) # [0x01, 0xFF])"
  using cbor_length_sentinel[of default_limits 4 "[0x01, 0xFF]" 0] by (simp add: default_limits_def)

lemma map_find_insert:
  "map_find key m = None \<Longrightarrow> map_find k (map_insert key v m) = (if chars k = chars key then Some v else map_find k m)"
proof (induction m)
  case (Cons e m)
  obtain a b where [simp]: "e = (a, b)" by force
  have "map_find key m = None" "chars key \<noteq> chars a" using Cons.prems by (auto simp: key_before_simps split: if_splits)
  then show ?case using Cons.IH by (auto simp: key_before_simps)
qed (simp add: key_before_simps)

lemma map_find_filter:
  "map_find k (filter (\<lambda>(l, w). compareDecodedSpans key l None \<noteq> OrdEqual) m)
    = (if chars k = chars key then None else map_find k m)"
  by (induction m) (auto simp: key_before_simps)

lemma map_set_correct:
  assumes "keys_sorted m"
  shows "keys_sorted (map_set key v m)"
    "map_find k (map_set key v m) = (if chars k = chars key then Some v else map_find k m)"
proof -
  let ?m = "filter (\<lambda>(l, w). compareDecodedSpans key l None \<noteq> OrdEqual) m"
  have f: "map_find key ?m = None" by (simp add: map_find_filter)
  have "keys_sorted ?m" using assms by (auto simp: keys_sorted_def sorted_wrt_filter)
  then show "keys_sorted (map_set key v m)" unfolding map_set_def by (rule map_insert_sorted[OF _ f])
  show "map_find k (map_set key v m) = (if chars k = chars key then Some v else map_find k m)"
    unfolding map_set_def by (simp add: map_find_insert[OF f] map_find_filter)
qed

text \<open>C38: A map value is updated like a mathematical map: after setting a key, that key reads as the new
  value and every other key as before, the entries stay in key order without duplicates; an absent
  key and a value of another type are reported by their own errors. An array accepts an element at
  every index up to its length.\<close>

theorem cbor_value_updates:
  assumes "keys_sorted m"
  shows "(\<exists>m'. cv_setKey key w (CborMap m) = Inr (CborMap m') \<and> keys_sorted m'
      \<and> (\<forall>k. cv_getKeyOrThrow k (CborMap m')
            = (if chars k = chars key then Inr w else cv_getKeyOrThrow k (CborMap m))))
    \<and> (cv_getKeyOrThrow key (CborMap m) = Inl CborRangeError \<longleftrightarrow> map_find key m = None)
    \<and> (cv_setIndex i w (CborArray vs)
        = (if i < length vs then Inr (CborArray (vs[i := w])) else if i = length vs then cv_append w (CborArray vs)
           else Inl CborRangeError))
    \<and> (getMap v = None \<longleftrightarrow> cv_setKey key w v = Inl CborLogicError) \<and> (getMap v = None \<longleftrightarrow> cv_getKeyOrThrow key v = Inl CborLogicError)
    \<and> (getArray v = None \<longleftrightarrow> cv_append w v = Inl CborLogicError) \<and> (getArray v = None \<longleftrightarrow> cv_getIndexOrThrow i v = Inl CborLogicError)"
proof (intro conjI)
  show "\<exists>m'. cv_setKey key w (CborMap m) = Inr (CborMap m') \<and> keys_sorted m'
      \<and> (\<forall>k. cv_getKeyOrThrow k (CborMap m')
            = (if chars k = chars key then Inr w else cv_getKeyOrThrow k (CborMap m)))"
    using map_set_correct[OF assms] by (simp add: cv_setKey_def cv_getKeyOrThrow_def getMap_def)
qed (auto simp: cv_setKey_def cv_getKeyOrThrow_def cv_setIndex_def cv_append_def cv_getIndexOrThrow_def getMap_def
    getArray_def split: option.splits cbor_value.splits)

lemma cbor_value_updates_witness:
  "\<exists>m'. cv_setKey [98] CborNull (CborMap [([97], CborBool True)]) = Inr (CborMap m') \<and> keys_sorted m'
      \<and> (\<forall>k. cv_getKeyOrThrow k (CborMap m')
            = (if chars k = chars [98] then Inr CborNull else cv_getKeyOrThrow k (CborMap [([97], CborBool True)])))"
  using cbor_value_updates[of "[([97], CborBool True)]" "[98]" CborNull] by (simp add: keys_sorted_def)

end
