(* ===== verification/Spec2Isabelle.thy ===== *)
theory Spec2Isabelle
  imports BigSigned RingBuffer BitStream Lz4 EventLoop Instants U8Reading CharSets IsoText CborRoundtrip
begin

text \<open>
  Verification of the core algorithms of the Erbsland Core library (\<open>src/erbsland\<close>).

  The library is a C++ framework of many small modules. The development models the modules whose
  code is an algorithm of its own: arithmetic, text, time, memory, compression, the event system and a
  binary data format.
  All paths below are relative to \<open>src/src/erbsland\<close>.

  Parts and their theories:

  \<^item> Prelude: machine integers with their wrap-around and saturation written out, the result type of a
    function that may throw (\<open>Inl\<close> the exception, \<open>Inr\<close> the value, chained by \<open>sbind\<close>), three-way
    comparison, and shared lemmas.
  \<^item> BigUnsigned, BigDivision (\<open>math/BigUnsignedInteger.cpp\<close>): digit vectors in base 10^9, least
    significant first; carry and borrow loops, long division with its estimate and correction loops.
    The lemmas give the value of each routine and show that results are normalised. BigSigned
    (\<open>math/BigInteger.cpp\<close>, \<open>.tpp\<close>) adds the sign.
  \<^item> SignMagnitude (\<open>math/SignedMagnitude.hpp\<close>): sign and magnitude at every width with clamping. It is
    used by IntegerText (\<open>text/impl/IntegerAppend.hpp\<close>, \<open>text/StringCharReader.cpp\<close>): formatting and
    scanning of integers, which in turn the date texts use.
  \<^item> RingBuffer (\<open>mem/RingBuffer.cpp\<close> and \<open>mem/impl\<close>): storage, read position and length; refinement of a
    bounded queue, erasure of sensitive bytes, the writer transaction.
  \<^item> BitStream (\<open>mem/impl/BitReaderImpl.cpp\<close>, \<open>BitWriterImpl.cpp\<close>): fields of up to 64 bits in both bit
    orders.
  \<^item> Lz4 (\<open>compression/impl/lz4/Lz4Codec.cpp\<close>): the block compressor at every level and the validating
    decoder.
  \<^item> EventTimers, EventLoop (\<open>event/impl/EventTimer.cpp\<close>, \<open>SchedulerBackend.cpp\<close>, \<open>EventLoop.cpp\<close>): timers
    as a state machine, the scheduler that polls them and posts events, the queue, errors and the
    waiting decisions of the loop. An execution is a sequence of steps, related by an inductive step
    relation with invariants over the reachable states. A step is one call, poll or processed event
    as seen by one thread: where the code takes several locks one after the other in it (the timer's
    and then the scheduler's when a timer is started or finished; the scheduler's and then the loop's
    when a poll posts what it collected) the step joins these critical sections, and calls of other
    threads that fall between them are not modelled.
  \<^item> Calendar, Instants (\<open>time/Date.cpp\<close>, \<open>Year.cpp\<close>, \<open>Month.cpp\<close>, \<open>Day.cpp\<close>, \<open>Time.cpp\<close>, \<open>Timestamp*.cpp\<close>,
    \<open>DateTime_calendar.cpp\<close>): day counters and calendar parts, times of day, instants and calendar deltas.
  \<^item> IsoText (\<open>time/impl/IsoDateTimeParser.cpp\<close> and the \<open>toIsoString\<close> functions): ISO texts over Instants
    and IntegerText.
  \<^item> Utf8 (\<open>text/u8/impl/U8Encoding.cpp\<close>), U8Strings (comparison, validation, sanitising, search), U8Reading
    (cursor operations), DecodedSearch (\<open>text/impl/DecodedStringSearch.hpp\<close>, the preprocessed search), and
    CharSets (\<open>text/CharSet.cpp\<close>, sets of characters as ranges).

  \<^item> Cbor, CborRoundtrip (\<open>data/cbor/impl/CborCodec.cpp\<close>, \<open>CborCodec_write.cpp\<close>, \<open>CborValue.cpp\<close>): the values,
    the recursive decoder with its limits and the encoder, for plain CBOR and DAG-CBOR. It uses Utf8
    and U8Strings for texts and keys and IsoText for timestamps.

  How the theories read: a class is a record of its fields, an operation a function that returns the
  updated record, a loop a recursive function with a termination proof, an exception a value. Loops
  whose end is not evident from the code (the backward search, the fall back of the preprocessed
  search, the skipping of missed timer ticks) are partial functions into options, and a theorem shows
  that they return. Interfaces between components are locales: the stream of decoded characters, the
  equivalence of characters and the pattern search in DecodedSearch, the magnitude arithmetic of the
  signed integers, the readers of values in Cbor, each interpreted on the model's own definitions in
  the theory that provides them.

  What the lemmas show, by component:

  \<^item> Numbers: the value of a digit vector and of a sign with a magnitude; every operation computes the
    mathematical result of the values (clamped where the class clamps) and keeps the normal form.
    Long division is exact where the second group of the normalised divisor is below its top group;
    a concrete input outside that case gives a wrong quotient.
  \<^item> Texts of numbers and dates: what is written is read back, for every option the reader accepts;
    the formats it refuses are characterised.
  \<^item> Ring buffer and bit streams: refinement of a bounded queue and of a sequence of bits; the storage
    invariant, the erasure of sensitive bytes and the isolation of a transaction follow from it. The
    erasure holds for a buffer that starts clean; the two ways to leave bytes behind are stated too.
  \<^item> LZ4: the decoder undoes the encoder at every level, the size bound holds, and the decoder never
    leaves its buffers, whatever its input.
  \<^item> Events: over all reachable states a waiting timer is known to the scheduler and runs once for each
    expiry; over every history the queue is first-in first-out; a poll posts exactly the due work
    unless a quit is requested; the loop never sleeps past the next due time.
  \<^item> Calendar and times: day counters and calendar parts determine each other; additions are exact on
    instants and saturate or throw exactly outside the calendar.
  \<^item> UTF-8 strings: the decoders and cursors agree at every position of every byte string; comparison
    and search on bytes are those of the decoded characters; the two search algorithms agree.
  \<^item> Character sets: the normal form of a set is kept, and membership in the results.
  \<^item> CBOR: decoding returns, keeps the limits and undoes encoding in both profiles; encoding fails
    exactly on what the format cannot hold.

  Fuel and bounds: only the CBOR reader takes fuel, one more than the bytes of the input. A value takes at
  least one byte, and so does each turn of the loops over items and entries, so the fuel is enough
  for every input and more of it changes nothing (\<open>cbor_decode_returns\<close>). Machine integers have the width of
  the source; numbers that the source cannot let overflow (positions, counts of items in memory) are
  natural numbers without a bound. Code points have at most 21 bits and are natural numbers.

  What modelling showed (the manifest lists the places): a big integer division whose estimate is one
  too small is not corrected; a hexadecimal field of fixed width that starts with 0b is refused; the
  largest timer delay wraps around and is due at once; the basic ISO format writes offsets with seconds
  that its parser refuses; sets separated by the code point U+FEFF are not merged and lose
  members on a difference; a ring buffer that is switched to sensitive, or whose writer is dropped
  without a commit, keeps discarded bytes; a CBOR length of 2^64 - 1 is taken for an indefinite length, and nested CBOR
  tags are not bounded by the nesting limit.

  Not modelled:

  \<^item> Input and output and whatever the operating system provides: files, streams, sockets, processes,
    terminals, logging, the native event drivers and their threads, the clock. The event model has the
    operations of one thread at a time as its steps and the time as an argument.
  \<^item> Generated tables and the code that only looks things up in them: Unicode categories,
    normalisation, Punycode, public suffixes, time zone rules. Conversions between time zones rest on
    those tables; dates with a fixed offset are modelled.
  \<^item> Copies of modelled algorithms for another unit or type: UTF-16 and UTF-32 strings, the decoders over a byte
    reader, the storage variants of character sets, the wrappers that buffer the payload of the LZ4
    codec.
  \<^item> Codecs and components not reached: BSON, JSON and XML, the other compression formats, regular
    expressions, the configuration language, cryptographic primitives, geometry, option parsing.
  \<^item> Memory: allocation failure, sharing between copies of a value and memory released by a growth are
    outside; sensitive memory is modelled where the ring buffer erases it.
\<close>

end
